(* ===== verification/Mp_Prelude.thy ===== *)
theory Mp_Prelude
  imports Main "HOL-Library.Word"
begin

unbundle bit_operations_syntax

text \<open>
  Shared vocabulary of the development: the ways a C function can fail to return
  (\<open>fault\<close>), machine integers, little-endian encodings of the packed structures that
  cross the process boundary, and a bounds-checked byte memory.  The lemmas collected in
  \<open>mem_simps\<close> are the ones every component proof over byte memory uses.
\<close>

section \<open>Outcomes of C functions\<close>

text \<open>
  A function of the program either returns a value (\<open>Inr\<close>) or does not return:
  it calls \<open>exit\<close>, an \<open>assert\<close> aborts, an access leaves the object it points into
  (undefined behaviour, recorded as a fault), or it waits for the kernel forever.
  \<open>MapFault\<close> is the one access outside every object that has a name of its own: the write through
  \<open>MAP_FAILED\<close> after an unchecked \<open>mmap\<close> of a queue.  \<open>Blocked\<close> also ends a run whose script of
  kernel answers is used up or holds an answer no kernel gives.
\<close>

datatype fault =
    Exit int
  | Abort
  | Segv
  | MapFault
  | Blocked

type_synonym 'a res = "fault + 'a"

fun bindR :: "'a res \<Rightarrow> ('a \<Rightarrow> 'b res) \<Rightarrow> 'b res" where
  "bindR (Inl e) f = Inl e"
| "bindR (Inr x) f = f x"

lemma bindR_Inr_iff [simp]: "bindR m f = Inr y \<longleftrightarrow> (\<exists>x. m = Inr x \<and> f x = Inr y)"
  by (cases m) auto

lemma bindR_Inl_iff: "bindR m f = Inl e \<longleftrightarrow> m = Inl e \<or> (\<exists>x. m = Inr x \<and> f x = Inl e)"
  by (cases m) auto

lemma bindR_assoc: "bindR (bindR m f) g = bindR m (\<lambda>x. bindR (f x) g)"
  by (cases m) auto

text \<open>A loop over a list whose body may fail to return.\<close>

fun foldR :: "('a \<Rightarrow> 's \<Rightarrow> 's res) \<Rightarrow> 'a list \<Rightarrow> 's \<Rightarrow> 's res" where
  "foldR f [] s = Inr s"
| "foldR f (x # xs) s = bindR (f x s) (foldR f xs)"

lemma foldR_append: "foldR f (xs @ ys) s = bindR (foldR f xs s) (foldR f ys)"
proof (induction xs arbitrary: s)
  case (Cons x xs)
  then show ?case by (cases "f x s") auto
qed simp

lemma foldR_invariant:
  assumes "foldR f xs s = Inr s'" "P s" "\<And>x s s'. x \<in> set xs \<Longrightarrow> P s \<Longrightarrow> f x s = Inr s' \<Longrightarrow> P s'"
  shows "P s'"
  using assms by (induction xs arbitrary: s) auto

text \<open>
  \<open>safe_res Q m\<close>: the weakest condition under which \<open>m\<close> neither touches memory outside its
  objects nor fails an assertion, and ends in \<open>Q\<close> if it returns.  The rules follow the way
  functions are composed.
\<close>

definition safe_res :: "('a \<Rightarrow> bool) \<Rightarrow> 'a res \<Rightarrow> bool" where
  "safe_res Q m \<longleftrightarrow> (case m of Inl e \<Rightarrow> e \<noteq> Segv \<and> e \<noteq> Abort | Inr x \<Rightarrow> Q x)"

named_theorems safe_intros \<open>composition rules for \<open>safe_res\<close>\<close>

lemma safe_Inr [simp]: "safe_res Q (Inr x) \<longleftrightarrow> Q x"
  by (simp add: safe_res_def)

lemma safe_Inl [simp]: "safe_res Q (Inl e) \<longleftrightarrow> e \<noteq> Segv \<and> e \<noteq> Abort"
  by (simp add: safe_res_def)

lemma safe_resD: "safe_res Q m \<Longrightarrow> m \<notin> {Inl Segv, Inl Abort}"
  by (auto simp: safe_res_def)

lemma safe_resE: "safe_res Q m \<Longrightarrow> m = Inr x \<Longrightarrow> Q x"
  by simp

lemma safe_mono: "safe_res P m \<Longrightarrow> (\<And>x. P x \<Longrightarrow> Q x) \<Longrightarrow> safe_res Q m"
  by (auto simp: safe_res_def split: sum.splits)

lemma safe_bind [safe_intros]:
  "safe_res P m \<Longrightarrow> (\<And>x. m = Inr x \<Longrightarrow> P x \<Longrightarrow> safe_res Q (f x)) \<Longrightarrow> safe_res Q (bindR m f)"
  by (cases m) (auto simp: safe_res_def)

lemma safe_option [safe_intros]:
  "(x = None \<Longrightarrow> safe_res Q a) \<Longrightarrow> (\<And>y. x = Some y \<Longrightarrow> safe_res Q (f y)) \<Longrightarrow>
   safe_res Q (case x of None \<Rightarrow> a | Some y \<Rightarrow> f y)"
  by (cases x) auto

lemma safe_also: "safe_res P m \<Longrightarrow> (\<And>x. m = Inr x \<Longrightarrow> R x) \<Longrightarrow> safe_res (\<lambda>x. P x \<and> R x) m"
  by (auto simp: safe_res_def split: sum.splits)

lemma safe_foldR:
  assumes "I s" "\<And>x s. x \<in> set xs \<Longrightarrow> I s \<Longrightarrow> safe_res I (f x s)"
  shows "safe_res I (foldR f xs s)"
  using assms
proof (induction xs arbitrary: s)
  case (Cons x xs)
  have "safe_res I (f x s)" using Cons.prems by simp
  then show ?case using Cons by (auto intro: safe_bind)
qed simp

section \<open>Machine integers\<close>

type_synonym byte = "8 word"
type_synonym u32 = "32 word"
type_synonym i32 = "32 word"

text \<open>
  An \<open>int\<close> of the program is a 32-bit word read with \<^const>\<open>sint\<close>, a \<open>uint32_t\<close> one
  read with \<^const>\<open>unat\<close>.  Where the two readings agree (the value is below \<open>2 ^ 31\<close>)
  comparisons move to \<^typ>\<open>nat\<close>.
\<close>

definition small :: "32 word \<Rightarrow> bool" where
  "small w \<longleftrightarrow> unat w < 2 ^ 31"

lemma small_8 [simp]: "small 8"
  by (simp add: small_def)

declare of_nat_unat [simp del]

lemma sint_small: "small w \<Longrightarrow> sint w = int (unat w)"
proof -
  assume "small w"
  then have "uint w < 2 ^ 31"
    by (simp add: small_def flip: uint_nat of_nat_less_iff [where 'a = int])
  moreover have "- (2 ^ 31) \<le> uint w"
    by (rule order.trans [OF _ uint_ge_0]) simp
  ultimately have "signed_take_bit 31 (uint w) = uint w"
    by (intro signed_take_bit_int_eq_self)
  then show ?thesis
    by (simp add: sint_uint flip: uint_nat)
qed

lemma smallI [intro]: "unat w < 2147483648 \<Longrightarrow> small w"
  by (simp add: small_def)

lemma sint_le_small: "small a \<Longrightarrow> small b \<Longrightarrow> sint a \<le> sint b \<longleftrightarrow> unat a \<le> unat b"
  by (simp only: sint_small of_nat_le_iff)

lemma sint_less_small: "small a \<Longrightarrow> small b \<Longrightarrow> sint a < sint b \<longleftrightarrow> unat a < unat b"
  by (simp only: sint_small of_nat_less_iff)

lemma unat_add_less32:
  "unat (a :: 32 word) + unat b < 4294967296 \<Longrightarrow> unat (a + b) = unat a + unat b"
  by (simp add: unat_word_ariths)

lemma unat_sub_le32: "unat (b :: 32 word) \<le> unat a \<Longrightarrow> unat (a - b) = unat a - unat b"
  by (rule unat_sub) (simp add: word_le_nat_alt)

section \<open>Byte memory\<close>

named_theorems mem_simps \<open>slices of a byte memory and the effect of a store on them\<close>

definition bytes_at :: "byte list \<Rightarrow> nat \<Rightarrow> nat \<Rightarrow> byte list" where
  "bytes_at m a n = take n (drop a m)"

definition put_bytes :: "byte list \<Rightarrow> nat \<Rightarrow> byte list \<Rightarrow> byte list" where
  "put_bytes m a bs = take a m @ bs @ drop (a + length bs) m"

lemma length_bytes_at [mem_simps]: "a + n \<le> length m \<Longrightarrow> length (bytes_at m a n) = n"
  by (simp add: bytes_at_def)

lemma nth_bytes_at: "i < n \<Longrightarrow> a + n \<le> length m \<Longrightarrow> bytes_at m a n ! i = m ! (a + i)"
  by (simp add: bytes_at_def)

lemma length_put_bytes [mem_simps]: "a + length bs \<le> length m \<Longrightarrow> length (put_bytes m a bs) = length m"
  by (simp add: put_bytes_def)

lemma nth_put_bytes:
  assumes "a + length bs \<le> length m" "i < length m"
  shows "put_bytes m a bs ! i = (if a \<le> i \<and> i < a + length bs then bs ! (i - a) else m ! i)"
proof -
  have "min a (length m) = a" using assms by simp
  then show ?thesis using assms by (auto simp: put_bytes_def nth_append)
qed

lemma bytes_at_put_same [mem_simps]:
  "a + length bs \<le> length m \<Longrightarrow> n = length bs \<Longrightarrow> bytes_at (put_bytes m a bs) a n = bs"
  by (simp add: bytes_at_def put_bytes_def)

lemma bytes_at_put_other:
  assumes "a + length bs \<le> length m" "b + n \<le> length m" "b + n \<le> a \<or> a + length bs \<le> b"
  shows "bytes_at (put_bytes m a bs) b n = bytes_at m b n"
  using assms by (intro nth_equalityI) (auto simp: length_bytes_at length_put_bytes nth_bytes_at nth_put_bytes)

lemma bytes_at_append_split: "bytes_at m a (n + k) = bytes_at m a n @ bytes_at m (a + n) k"
  by (simp add: bytes_at_def take_add add.commute [of a n])

lemma bytes_at_0 [simp]: "bytes_at m a 0 = []"
  by (simp add: bytes_at_def)

lemma put_bytes_Nil [simp]: "put_bytes m a [] = m"
  by (simp add: put_bytes_def)

lemma put_bytes_put_bytes_adj:
  assumes "a + length bs + length cs \<le> length m"
  shows "put_bytes (put_bytes m a bs) (a + length bs) cs = put_bytes m a (bs @ cs)"
  using assms
  by (intro nth_equalityI) (auto simp: length_put_bytes nth_put_bytes nth_append)

text \<open>
  A load or store through a pointer: \<open>off\<close> is the (signed) distance from the start of the
  object, and accesses below \<open>lo\<close> or beyond its end fault.
\<close>

definition load :: "nat \<Rightarrow> byte list \<Rightarrow> int \<Rightarrow> nat \<Rightarrow> byte list res" where
  "load lo m off n =
     (if int lo \<le> off \<and> off + int n \<le> int (length m) then Inr (bytes_at m (nat off) n) else Inl Segv)"

definition store :: "nat \<Rightarrow> byte list \<Rightarrow> int \<Rightarrow> byte list \<Rightarrow> byte list res" where
  "store lo m off bs =
     (if int lo \<le> off \<and> off + int (length bs) \<le> int (length m)
      then Inr (put_bytes m (nat off) bs) else Inl Segv)"

lemma load_nat [simp]:
  "lo \<le> a \<Longrightarrow> a + n \<le> length m \<Longrightarrow> load lo m (int a) n = Inr (bytes_at m a n)"
  by (simp add: load_def)

lemma store_nat [simp]:
  "lo \<le> a \<Longrightarrow> a + length bs \<le> length m \<Longrightarrow> store lo m (int a) bs = Inr (put_bytes m a bs)"
  by (simp add: store_def)

section \<open>Little-endian encoding of 32-bit fields\<close>

definition le32 :: "u32 \<Rightarrow> byte list" where
  "le32 w = [ucast w, ucast (drop_bit 8 w), ucast (drop_bit 16 w), ucast (drop_bit 24 w)]"

definition of_le32 :: "byte list \<Rightarrow> u32" where
  "of_le32 bs = ucast (bs ! 0) OR push_bit 8 (ucast (bs ! 1)) OR
     push_bit 16 (ucast (bs ! 2)) OR push_bit 24 (ucast (bs ! 3))"

lemma length_le32 [simp]: "length (le32 w) = 4"
  by (simp add: le32_def)

lemma of_le32_le32 [simp]: "of_le32 (le32 w) = w"
proof (rule bit_word_eqI)
  fix n assume "n < LENGTH(32)"
  then consider "n < 8" | "8 \<le> n" "n < 16" | "16 \<le> n" "n < 24" | "24 \<le> n" "n < 32"
    by fastforce
  then show "bit (of_le32 (le32 w)) n = bit w n"
    by cases
      (auto simp: of_le32_def le32_def bit_or_iff bit_push_bit_iff bit_unsigned_iff bit_drop_bit_eq)
qed

definition le16 :: "16 word \<Rightarrow> byte list" where
  "le16 w = [ucast w, ucast (drop_bit 8 w)]"

definition of_le16 :: "byte list \<Rightarrow> 16 word" where
  "of_le16 bs = ucast (bs ! 0) OR push_bit 8 (ucast (bs ! 1))"

lemma length_le16 [simp]: "length (le16 w) = 2"
  by (simp add: le16_def)

lemma of_le16_le16 [simp]: "of_le16 (le16 w) = w"
  by (rule bit_word_eqI)
    (auto simp: of_le16_def le16_def bit_or_iff bit_push_bit_iff bit_unsigned_iff bit_drop_bit_eq)

end
