(* ===== verification/Mp_Shmq.thy ===== *)
theory Mp_Shmq
  imports Mp_Prelude "HOL-Library.Sublist"
begin

unbundle bit_operations_syntax

text \<open>
  The shared-memory queues between the parent and its workers (\<open>src/src/shmq.c\<close>,
  \<open>src/src/shmq.h\<close>).  A queue is a mapping of \<open>q_length\<close> bytes: eight bytes of
  \<open>shm_head_t\<close> (kept here as the fields \<open>head\<close> and \<open>tail\<close>), then packed blocks of
  13 header bytes and their data.  The producer appends at \<open>head\<close>, the consumer reads at
  \<open>tail\<close>; the last bytes of the mapping are skipped with a \<open>PAD_BLOCK\<close> or, when
  fewer than 13 remain, silently.

  The theory gives the operations as the C code has them, the representation relation
  \<open>q_rep\<close> between such a memory and the list of messages it holds, and shows that push and
  pop refine the operations of an abstract FIFO (locale \<open>fifo_channel\<close>).
\<close>

section \<open>Blocks and queues\<close>

record shm_block =
  mb_id :: u32
  mb_fd :: u32
  mb_length :: u32
  mb_type :: byte

abbreviation "DATA_BLOCK \<equiv> (0 :: byte)"
abbreviation "PAD_BLOCK \<equiv> (1 :: byte)"
abbreviation "FIN_BLOCK \<equiv> (2 :: byte)"
abbreviation "OPEN_BLOCK \<equiv> (3 :: byte)"
abbreviation "CLOSE_BLOCK \<equiv> (4 :: byte)"

abbreviation "sizeof_shm_head \<equiv> (8 :: nat)"
abbreviation "sizeof_shm_block \<equiv> (13 :: nat)"

record shm_queue =
  mapped :: bool
  head :: i32
  tail :: i32
  mem :: "byte list"
  q_length :: u32
  pipe_handles :: "int \<times> int"
  notified :: nat

text \<open>
  \<open>mapped\<close> says that \<open>addr\<close> is not null; \<open>notified\<close> counts the bytes written to the
  queue's pipe.  \<open>page_size\<close> is a global of \<open>net.c\<close>, here an argument.
\<close>

definition enc_block :: "shm_block \<Rightarrow> byte list" where
  "enc_block b = le32 (mb_id b) @ le32 (mb_fd b) @ le32 (mb_length b) @ [mb_type b]"

definition dec_block :: "byte list \<Rightarrow> shm_block" where
  "dec_block bs = \<lparr>mb_id = of_le32 (take 4 bs), mb_fd = of_le32 (take 4 (drop 4 bs)),
     mb_length = of_le32 (take 4 (drop 8 bs)), mb_type = bs ! 12\<rparr>"

lemma length_enc_block [simp]: "length (enc_block b) = 13"
  by (simp add: enc_block_def)

lemma dec_enc_block [simp]: "dec_block (enc_block b @ d) = b"
  by (simp add: dec_block_def enc_block_def nth_append)

definition head_mb :: "shm_queue \<Rightarrow> int" where
  "head_mb q = sint (head q)"

definition tail_mb :: "shm_queue \<Rightarrow> int" where
  "tail_mb q = sint (tail q)"

definition block_length_at :: "shm_queue \<Rightarrow> int \<Rightarrow> u32 res" where
  "block_length_at q off = bindR (load 8 (mem q) (off + 8) 4) (\<lambda>bs. Inr (of_le32 bs))"

definition block_type_at :: "shm_queue \<Rightarrow> int \<Rightarrow> byte res" where
  "block_type_at q off = bindR (load 8 (mem q) (off + 12) 1) (\<lambda>bs. Inr (bs ! 0))"

section \<open>Operations\<close>

text \<open>\<open>align_queue_tail\<close>: the consumer skips the end of the mapping.\<close>

definition align_queue_tail :: "shm_queue \<Rightarrow> shm_queue res" where
  "align_queue_tail q =
     (if sint (head q) \<ge> sint (tail q) then Inr q
      else if unat (q_length q - tail q) < sizeof_shm_block then Inr (q\<lparr>tail := 8\<rparr>)
      else bindR (block_type_at q (tail_mb q))
             (\<lambda>ty. Inr (if ty = PAD_BLOCK then q\<lparr>tail := 8\<rparr> else q)))"

text \<open>
  \<open>align_queue_head\<close>: the producer wraps when the block does not fit before the end of
  the mapping.  The three stores of the last branch are \<open>pad->type\<close>, \<open>pad->length\<close> and
  \<open>pad->id\<close>, in this order.
\<close>

definition write_pad :: "shm_queue \<Rightarrow> u32 \<Rightarrow> shm_queue res" where
  "write_pad q surplus =
     bindR (store 8 (mem q) (head_mb q + 12) [PAD_BLOCK]) (\<lambda>m1.
     bindR (store 8 m1 (head_mb q + 8) (le32 surplus)) (\<lambda>m2.
     bindR (store 8 m2 (head_mb q) (le32 0)) (\<lambda>m3.
     Inr (q\<lparr>mem := m3\<rparr>))))"

definition align_queue_head :: "shm_queue \<Rightarrow> shm_block \<Rightarrow> shm_queue res" where
  "align_queue_head q mb =
     (let surplus = q_length q - head q in
      if surplus < mb_length mb then
        (if tail q = 8 then Inl (Exit (-1))
         else if sint (tail q) > sint (head q) then Inr (q\<lparr>tail := 8, head := 8\<rparr>)
         else if unat surplus < sizeof_shm_block then Inr (q\<lparr>head := 8\<rparr>)
         else bindR (write_pad q surplus) (\<lambda>q'. Inr (q'\<lparr>head := 8\<rparr>)))
      else Inr q)"

text \<open>
  \<open>shmq_pop\<close>: \<open>None\<close> is the return value \<open>-1\<close>, \<open>Some off\<close> the return value 0 with
  \<open>*mb\<close> pointing at offset \<open>off\<close> of the mapping.
\<close>

definition shmq_pop :: "shm_queue \<Rightarrow> (int option \<times> shm_queue) res" where
  "shmq_pop q =
     (if \<not> mapped q then Inl Segv
      else if tail q = head q then Inr (None, q)
      else bindR (align_queue_tail q) (\<lambda>q1.
        if tail q1 = head q1 then Inr (None, q1)
        else bindR (block_length_at q1 (tail_mb q1)) (\<lambda>len.
          Inr (Some (tail_mb q1), q1\<lparr>tail := tail q1 + len\<rparr>))))"

text \<open>
  The waiting loop of \<open>shmq_push\<close>.  \<open>peer i\<close> is what the other process does to the queue
  during the \<open>i\<close>-th \<open>usleep(5)\<close>; the first argument counts the rounds left.  The flag of
  the result says that the loop ran out (\<open>cnt == 10\<close>).
\<close>

definition queue_full :: "u32 \<Rightarrow> u32 \<Rightarrow> shm_queue \<Rightarrow> bool" where
  "queue_full page_size len q \<longleftrightarrow>
     sint (tail q) > sint (head q) \<and> tail q < head q + len + page_size"

fun push_wait :: "nat \<Rightarrow> (nat \<Rightarrow> shm_queue \<Rightarrow> shm_queue) \<Rightarrow> u32 \<Rightarrow> u32 \<Rightarrow> shm_queue \<Rightarrow> bool \<times> shm_queue" where
  "push_wait 0 peer page_size len q = (True, q)"
| "push_wait (Suc n) peer page_size len q =
     (if queue_full page_size len q then push_wait n peer page_size len (peer n q) else (False, q))"

definition shmq_push ::
  "(nat \<Rightarrow> shm_queue \<Rightarrow> shm_queue) \<Rightarrow> u32 \<Rightarrow> shm_queue \<Rightarrow> shm_block \<Rightarrow> byte list \<Rightarrow> (int \<times> shm_queue) res"
where
  "shmq_push peer page_size q mb data =
     (if unat (mb_length mb) < sizeof_shm_block then Inl Abort
      else if mb_length mb > page_size then Inr (-1, q)
      else if \<not> mapped q then Inl Segv
      else bindR (align_queue_head q mb) (\<lambda>q1.
        case push_wait 10 peer page_size (mb_length mb) q1 of
          (True, q2) \<Rightarrow> Inr (-1, q2)
        | (False, q2) \<Rightarrow>
            (let n = unat (mb_length mb) - sizeof_shm_block in
             if length data < n then Inl Segv
             else bindR (store 8 (mem q2) (head_mb q2) (enc_block mb)) (\<lambda>m1.
               bindR (store 8 m1 (head_mb q2 + 13) (take n data)) (\<lambda>m2.
               Inr (0, q2\<lparr>mem := m2, head := head q2 + mb_length mb,
                            notified := notified q2 + 1\<rparr>))))))"

section \<open>Creation and destruction\<close>

record bind_config_info =
  server_id :: u32
  server_name :: string
  bind_ip :: string
  bind_port :: u32
  restart_cnt :: byte
  sendq :: shm_queue
  recvq :: shm_queue

record bind_config =
  bind_num :: nat
  configs :: "bind_config_info list"

text \<open>
  The kernel's answers are arguments: \<open>mmap_ok\<close> for \<open>mmap\<close> (a failed mapping is used
  anyway: the write to \<open>q->addr->head\<close> goes through \<open>MAP_FAILED\<close>), \<open>Some\<close> pair or \<open>None\<close> for \<open>pipe\<close>.  An anonymous mapping is
  filled with zeros.
\<close>

definition pipe_create :: "(int \<times> int) option \<Rightarrow> int \<times> int \<Rightarrow> int \<times> (int \<times> int)" where
  "pipe_create ans old = (case ans of None \<Rightarrow> (-1, old) | Some p \<Rightarrow> (0, p))"

definition do_shmq_create :: "bool \<Rightarrow> (int \<times> int) option \<Rightarrow> shm_queue \<Rightarrow> (int \<times> shm_queue) res" where
  "do_shmq_create mmap_ok pipe_ans q =
     (if \<not> mmap_ok then Inl MapFault
      else Inr (0, q\<lparr>mapped := True, mem := replicate (unat (q_length q)) 0, head := 8, tail := 8,
                     pipe_handles := snd (pipe_create pipe_ans (pipe_handles q)),
                     notified := 0\<rparr>))"

definition shmq_create ::
  "int \<Rightarrow> bool \<times> bool \<Rightarrow> (int \<times> int) option \<times> (int \<times> int) option \<Rightarrow> bind_config_info
   \<Rightarrow> (int \<times> bind_config_info) res"
where
  "shmq_create shmq_length mm pp p =
     (let n = word_of_int shmq_length :: u32 in
      bindR (do_shmq_create (fst mm) (fst pp) ((sendq p)\<lparr>q_length := n\<rparr>)) (\<lambda>(e1, s).
      bindR (do_shmq_create (snd mm) (snd pp) ((recvq p)\<lparr>q_length := n\<rparr>)) (\<lambda>(e2, r).
      Inr (e1 OR e2, p\<lparr>sendq := s, recvq := r\<rparr>))))"

text \<open>\<open>close_shmq_pipe\<close> returns the descriptors it closes, in order.\<close>

definition close_shmq_pipe :: "bind_config \<Rightarrow> nat \<Rightarrow> bool \<Rightarrow> int list" where
  "close_shmq_pipe bc idx is_child =
     (if is_child then
        concat (map (\<lambda>i. [snd (pipe_handles (recvq (configs bc ! i))),
                          fst (pipe_handles (sendq (configs bc ! i)))]) [0..<idx])
      else [fst (pipe_handles (recvq (configs bc ! idx))),
            snd (pipe_handles (sendq (configs bc ! idx)))])"

definition unmap :: "shm_queue \<Rightarrow> shm_queue" where
  "unmap q = (if mapped q then q\<lparr>mapped := False, mem := []\<rparr> else q)"

definition do_destroy_shmq :: "bind_config_info \<Rightarrow> bind_config_info" where
  "do_destroy_shmq p = p\<lparr>sendq := unmap (sendq p), recvq := unmap (recvq p)\<rparr>"

definition shmq_destroy :: "nat option \<Rightarrow> nat \<Rightarrow> bind_config \<Rightarrow> bind_config" where
  "shmq_destroy exclu max_shmq_num bc =
     bc\<lparr>configs := fold (\<lambda>i cs. if Some i = exclu then cs else cs[i := do_destroy_shmq (cs ! i)])
                       [0..<max_shmq_num] (configs bc)\<rparr>"

section \<open>The messages a queue holds\<close>

type_synonym message = "shm_block \<times> byte list"

definition enc_msg :: "message \<Rightarrow> byte list" where
  "enc_msg x = enc_block (fst x) @ snd x"

definition msg_len :: "message \<Rightarrow> nat" where
  "msg_len x = 13 + length (snd x)"

lemma length_enc_msg [simp]: "length (enc_msg x) = msg_len x"
  by (simp add: enc_msg_def msg_len_def)

lemma msg_len_ge: "13 \<le> msg_len x"
  by (simp add: msg_len_def)

text \<open>A block the producer may push: its length field counts header and data.\<close>

definition msg_ok :: "nat \<Rightarrow> message \<Rightarrow> bool" where
  "msg_ok ps x \<longleftrightarrow> unat (mb_length (fst x)) = msg_len x \<and> msg_len x \<le> ps \<and> mb_type (fst x) \<noteq> PAD_BLOCK"

text \<open>\<open>seg m a xs z\<close>: the bytes from \<open>a\<close> up to \<open>z\<close> are the encodings of \<open>xs\<close>.\<close>

fun seg :: "byte list \<Rightarrow> nat \<Rightarrow> message list \<Rightarrow> nat \<Rightarrow> bool" where
  "seg m a [] z \<longleftrightarrow> a = z"
| "seg m a (x # xs) z \<longleftrightarrow> bytes_at m a (msg_len x) = enc_msg x \<and> seg m (a + msg_len x) xs z"

lemma seg_le: "seg m a xs z \<Longrightarrow> a \<le> z"
  by (induction xs arbitrary: a) force+

lemma seg_append: "seg m a (xs @ ys) z \<longleftrightarrow> (\<exists>k. seg m a xs k \<and> seg m k ys z)"
  by (induction xs arbitrary: a) auto

lemma seg_put_bytes:
  assumes "seg m a xs z" "z \<le> length m" "p + length bs \<le> length m" "z \<le> p \<or> p + length bs \<le> a"
  shows "seg (put_bytes m p bs) a xs z"
  using assms
proof (induction xs arbitrary: a)
  case Nil
  then show ?case by simp
next
  case (Cons x xs)
  from Cons.prems have rest: "seg m (a + msg_len x) xs z" by simp
  then have le: "a + msg_len x \<le> z" by (rule seg_le)
  have "bytes_at (put_bytes m p bs) a (msg_len x) = bytes_at m a (msg_len x)"
    using Cons.prems le by (intro bytes_at_put_other) auto
  moreover have "seg (put_bytes m p bs) (a + msg_len x) xs z"
    using Cons.prems rest by (intro Cons.IH) auto
  ultimately show ?case using Cons.prems by simp
qed

lemma seg_snoc:
  assumes "seg m a xs z" "z + msg_len x \<le> length m"
  shows "seg (put_bytes m z (enc_msg x)) a (xs @ [x]) (z + msg_len x)"
proof -
  have "seg (put_bytes m z (enc_msg x)) a xs z"
    using assms by (intro seg_put_bytes) auto
  moreover have "bytes_at (put_bytes m z (enc_msg x)) z (msg_len x) = enc_msg x"
    using assms by (intro bytes_at_put_same) auto
  ultimately show ?thesis by (auto simp: seg_append)
qed

section \<open>The representation relation\<close>

text \<open>
  A usable queue: the mapping has room for the header and one largest block, its offsets are
  non-negative as \<open>int\<close>s, and the sum in the full test of \<open>shmq_push\<close> does not wrap.
\<close>

definition shmq_cfg :: "u32 \<Rightarrow> shm_queue \<Rightarrow> bool" where
  "shmq_cfg ps q \<longleftrightarrow> mapped q \<and> length (mem q) = unat (q_length q) \<and> 13 \<le> unat ps \<and>
     8 + unat ps \<le> unat (q_length q) \<and> unat (q_length q) < 2 ^ 31 \<and>
     unat (q_length q) + 2 * unat ps < 2 ^ 32"

abbreviation hpos :: "shm_queue \<Rightarrow> nat" where "hpos q \<equiv> unat (head q)"
abbreviation tpos :: "shm_queue \<Rightarrow> nat" where "tpos q \<equiv> unat (tail q)"
abbreviation qsz :: "shm_queue \<Rightarrow> nat" where "qsz q \<equiv> unat (q_length q)"

definition end_mark :: "byte list \<Rightarrow> nat \<Rightarrow> bool" where
  "end_mark m e \<longleftrightarrow> length m - e < 13 \<or> m ! (e + 12) = PAD_BLOCK"

definition linear :: "shm_queue \<Rightarrow> message list \<Rightarrow> bool" where
  "linear q xs \<longleftrightarrow> tpos q \<le> hpos q \<and> seg (mem q) (tpos q) xs (hpos q)"

definition wrapped :: "u32 \<Rightarrow> shm_queue \<Rightarrow> message list \<Rightarrow> bool" where
  "wrapped ps q xs \<longleftrightarrow> hpos q < tpos q \<and> (hpos q = 8 \<or> hpos q + unat ps \<le> tpos q) \<and>
     (\<exists>e ys zs. xs = ys @ zs \<and> seg (mem q) (tpos q) ys e \<and> e \<le> qsz q \<and> end_mark (mem q) e \<and>
        seg (mem q) 8 zs (hpos q))"

definition q_rep :: "u32 \<Rightarrow> shm_queue \<Rightarrow> message list \<Rightarrow> bool" where
  "q_rep ps q xs \<longleftrightarrow> shmq_cfg ps q \<and> 8 \<le> tpos q \<and> tpos q \<le> qsz q \<and> 8 \<le> hpos q \<and> hpos q \<le> qsz q \<and>
     (\<forall>x\<in>set xs. msg_ok (unat ps) x) \<and> (linear q xs \<or> wrapped ps q xs)"

lemma q_rep_small:
  assumes "q_rep ps q xs"
  shows "small (head q)" "small (tail q)"
  using assms by (auto simp: q_rep_def shmq_cfg_def small_def)

lemma sint_head_tail:
  assumes "q_rep ps q xs"
  shows "sint (head q) = int (hpos q)" "sint (tail q) = int (tpos q)"
  using q_rep_small [OF assms] by (simp_all add: sint_small)

text \<open>A block at the start of a segment is read back as it was written.\<close>

lemma seg_first_fields:
  assumes "bytes_at m a (msg_len x) = enc_msg x" "8 \<le> a" "a + msg_len x \<le> length m"
  shows "bytes_at m (a + 8) 4 = le32 (mb_length (fst x))" "m ! (a + 12) = mb_type (fst x)"
    "bytes_at m a 13 = enc_block (fst x)"
proof -
  have *: "bytes_at m a (msg_len x) ! i = m ! (a + i)" if "i < msg_len x" for i
    using assms that by (intro nth_bytes_at) auto
  have "enc_msg x ! (8 + i) = le32 (mb_length (fst x)) ! i" if "i < 4" for i
    using that by (simp add: enc_msg_def enc_block_def nth_append)
  moreover have "13 \<le> msg_len x" by (rule msg_len_ge)
  ultimately show "bytes_at m (a + 8) 4 = le32 (mb_length (fst x))"
    using assms *
    by (intro nth_equalityI) (auto simp: length_bytes_at nth_bytes_at add.assoc)
  have "enc_msg x ! 12 = mb_type (fst x)"
    by (simp add: enc_msg_def enc_block_def nth_append)
  then show "m ! (a + 12) = mb_type (fst x)"
    using assms(1) * [of 12] \<open>13 \<le> msg_len x\<close> by simp
  have "take 13 (bytes_at m a (msg_len x)) = bytes_at m a 13"
    using \<open>13 \<le> msg_len x\<close> by (simp add: bytes_at_def)
  then show "bytes_at m a 13 = enc_block (fst x)"
    by (simp add: assms(1) enc_msg_def)
qed

section \<open>Pop\<close>

lemmas q_rep_defs = q_rep_def shmq_cfg_def linear_def wrapped_def

lemma q_repD:
  assumes "q_rep ps q xs"
  shows "mapped q" "length (mem q) = qsz q" "8 \<le> tpos q" "tpos q \<le> qsz q" "8 \<le> hpos q" "hpos q \<le> qsz q"
    "\<forall>x\<in>set xs. msg_ok (unat ps) x" "qsz q < 2147483648" "8 + unat ps \<le> qsz q"
    "13 \<le> unat ps" "qsz q + 2 * unat ps < 4294967296"
  using assms by (auto simp: q_rep_def shmq_cfg_def)

lemma q_rep_cases:
  assumes "q_rep ps q xs"
  obtains (linear) "tpos q \<le> hpos q" "seg (mem q) (tpos q) xs (hpos q)"
  | (wrapped) e ys zs where "hpos q < tpos q" "hpos q = 8 \<or> hpos q + unat ps \<le> tpos q" "xs = ys @ zs"
      "seg (mem q) (tpos q) ys e" "e \<le> qsz q" "end_mark (mem q) e" "seg (mem q) 8 zs (hpos q)"
  using assms by (auto simp: q_rep_def linear_def wrapped_def)

lemma q_rep_linearI:
  assumes "shmq_cfg ps q" "8 \<le> tpos q" "hpos q \<le> qsz q" "\<forall>x\<in>set xs. msg_ok (unat ps) x"
    "seg (mem q) (tpos q) xs (hpos q)"
  shows "q_rep ps q xs"
  using assms seg_le [OF assms(5)] by (auto simp: q_rep_def linear_def)

lemma q_rep_wrappedI:
  assumes "shmq_cfg ps q" "8 \<le> hpos q" "tpos q \<le> qsz q" "\<forall>x\<in>set (ys @ zs). msg_ok (unat ps) x"
    "hpos q < tpos q" "hpos q = 8 \<or> hpos q + unat ps \<le> tpos q"
    "seg (mem q) (tpos q) ys e" "e \<le> qsz q" "end_mark (mem q) e" "seg (mem q) 8 zs (hpos q)"
  shows "q_rep ps q (ys @ zs)"
  using assms by (auto simp: q_rep_def wrapped_def)

lemma block_fields_at:
  assumes "bytes_at (mem q) (tpos q) (msg_len x) = enc_msg x" "8 \<le> tpos q"
    "tpos q + msg_len x \<le> length (mem q)" "small (tail q)"
  shows "block_length_at q (tail_mb q) = Inr (mb_length (fst x))"
    "block_type_at q (tail_mb q) = Inr (mb_type (fst x))"
proof -
  note f = seg_first_fields [OF assms(1-3)]
  have off: "tail_mb q = int (tpos q)"
    using assms(4) by (simp add: tail_mb_def sint_small)
  have "13 \<le> msg_len x" by (rule msg_len_ge)
  then show "block_length_at q (tail_mb q) = Inr (mb_length (fst x))"
    using assms f load_nat [of 8 "tpos q + 8" 4 "mem q"]
    by (simp add: block_length_at_def off)
  have "bytes_at (mem q) (tpos q + 12) 1 ! 0 = mem q ! (tpos q + 12)"
    using assms \<open>13 \<le> msg_len x\<close> nth_bytes_at [of 0 1 "tpos q + 12" "mem q"] by simp
  then show "block_type_at q (tail_mb q) = Inr (mb_type (fst x))"
    using assms f \<open>13 \<le> msg_len x\<close> load_nat [of 8 "tpos q + 12" 1 "mem q"]
    by (simp add: block_type_at_def off)
qed

text \<open>Where a message starts at \<open>tail\<close>, the consumer neither skips nor faults.\<close>

lemma align_queue_tail_block:
  assumes "bytes_at (mem q) (tpos q) (msg_len x) = enc_msg x" "8 \<le> tpos q"
    "tpos q + msg_len x \<le> length (mem q)" "length (mem q) = qsz q" "small (tail q)"
    "mb_type (fst x) \<noteq> PAD_BLOCK"
  shows "align_queue_tail q = Inr q"
proof -
  have "unat (q_length q - tail q) = qsz q - tpos q"
    using assms msg_len_ge [of x] by (intro unat_sub_le32) auto
  then have "\<not> unat (q_length q - tail q) < 13"
    using assms msg_len_ge [of x] by auto
  then show ?thesis
    using block_fields_at(2) [OF assms(1-3,5)] assms(6) by (simp add: align_queue_tail_def)
qed

lemma unat_advance_tail:
  assumes "q_rep ps q xs" "msg_ok (unat ps) x" "tpos q + msg_len x \<le> qsz q"
  shows "unat (tail q + mb_length (fst x)) = tpos q + msg_len x"
  using assms q_repD [OF assms(1)] unat_add_less32 [of "tail q" "mb_length (fst x)"]
  by (auto simp: msg_ok_def)

lemma shmq_pop_block:
  assumes rep: "q_rep ps q xs" and blk: "bytes_at (mem q) (tpos q) (msg_len x) = enc_msg x"
    and ok: "msg_ok (unat ps) x" and fits: "tpos q + msg_len x \<le> qsz q" and ne: "tail q \<noteq> head q"
  shows "shmq_pop q = Inr (Some (int (tpos q)), q\<lparr>tail := tail q + mb_length (fst x)\<rparr>)"
proof -
  note d = q_repD [OF rep]
  have a: "align_queue_tail q = Inr q"
    using d blk ok fits q_rep_small [OF rep]
    by (intro align_queue_tail_block [of q x]) (auto simp: msg_ok_def)
  have l: "block_length_at q (tail_mb q) = Inr (mb_length (fst x))"
    using d blk fits q_rep_small [OF rep] by (intro block_fields_at(1)) auto
  show ?thesis
    using d(1) ne a l sint_head_tail [OF rep] by (simp add: shmq_pop_def tail_mb_def)
qed

lemma seg_ConsD:
  assumes "seg m a xs z" "a < z"
  obtains x xs' where "xs = x # xs'" "bytes_at m a (msg_len x) = enc_msg x" "a + msg_len x \<le> z"
    "seg m (a + msg_len x) xs' z"
  using assms seg_le by (cases xs) (auto dest: seg_le)

lemma seg_same_end: "seg m a xs a \<Longrightarrow> xs = []"
proof (cases xs)
  case (Cons x ys)
  assume "seg m a xs a"
  with Cons have "a + msg_len x \<le> a" by (auto dest: seg_le)
  with msg_len_ge [of x] show ?thesis by simp
qed

lemma linear_pop:
  assumes rep: "q_rep ps q xs" and lin: "seg (mem q) (tpos q) xs (hpos q)" and lt: "tpos q < hpos q"
  shows "\<exists>x xs'. xs = x # xs' \<and> bytes_at (mem q) (tpos q) (msg_len x) = enc_msg x \<and>
    shmq_pop q = Inr (Some (int (tpos q)), q\<lparr>tail := tail q + mb_length (fst x)\<rparr>) \<and>
    tpos q + msg_len x = unat (tail q + mb_length (fst x)) \<and>
    q_rep ps (q\<lparr>tail := tail q + mb_length (fst x)\<rparr>) xs'"
proof -
  obtain x xs' where xs: "xs = x # xs'" and sl: "bytes_at (mem q) (tpos q) (msg_len x) = enc_msg x"
    and le: "tpos q + msg_len x \<le> hpos q" and sg: "seg (mem q) (tpos q + msg_len x) xs' (hpos q)"
    using seg_ConsD [OF lin lt] .
  note d = q_repD [OF rep]
  have ok: "msg_ok (unat ps) x" using d xs by simp
  have adv: "unat (tail q + mb_length (fst x)) = tpos q + msg_len x"
    using rep ok le d by (intro unat_advance_tail) auto
  have "shmq_pop q = Inr (Some (int (tpos q)), q\<lparr>tail := tail q + mb_length (fst x)\<rparr>)"
    using rep sl ok le d lt by (intro shmq_pop_block) auto
  moreover have "q_rep ps (q\<lparr>tail := tail q + mb_length (fst x)\<rparr>) xs'"
    using rep d xs sg adv by (intro q_rep_linearI) (auto simp: q_rep_def shmq_cfg_def)
  ultimately show ?thesis using xs sl adv by auto
qed

text \<open>At an end mark the consumer jumps to the start of the mapping.\<close>

lemma align_queue_tail_mark:
  assumes rep: "q_rep ps q xs" and lt: "hpos q < tpos q" and mark: "end_mark (mem q) (tpos q)"
  shows "align_queue_tail q = Inr (q\<lparr>tail := 8\<rparr>)"
proof -
  note d = q_repD [OF rep]
  have sub: "unat (q_length q - tail q) = qsz q - tpos q"
    using d by (intro unat_sub_le32) auto
  have cmp: "\<not> sint (tail q) \<le> sint (head q)"
    using lt q_rep_small [OF rep] by (simp add: sint_le_small)
  show ?thesis
  proof (cases "qsz q - tpos q < 13")
    case True
    with sub cmp show ?thesis by (simp add: align_queue_tail_def)
  next
    case False
    then have ty: "mem q ! (tpos q + 12) = PAD_BLOCK"
      using mark d by (auto simp: end_mark_def)
    have "bytes_at (mem q) (tpos q + 12) 1 ! 0 = mem q ! (tpos q + 12)"
      using False d nth_bytes_at [of 0 1 "tpos q + 12" "mem q"] by simp
    then have "block_type_at q (tail_mb q) = Inr PAD_BLOCK"
      using False d ty load_nat [of 8 "tpos q + 12" 1 "mem q"] sint_head_tail [OF rep]
      by (simp add: block_type_at_def tail_mb_def)
    with sub cmp False show ?thesis by (simp add: align_queue_tail_def)
  qed
qed

lemma q_rep_skip:
  assumes rep: "q_rep ps q xs" and lt: "hpos q < tpos q"
    and zs: "seg (mem q) 8 xs (hpos q)"
  shows "q_rep ps (q\<lparr>tail := 8\<rparr>) xs"
  using rep q_repD [OF rep] zs by (intro q_rep_linearI) (auto simp: q_rep_def shmq_cfg_def)

lemma shmq_pop_skip:
  assumes rep: "q_rep ps q xs" and lt: "hpos q < tpos q"
    and al: "align_queue_tail q = Inr (q\<lparr>tail := 8\<rparr>)"
  shows "shmq_pop q = (if hpos q = 8 then Inr (None, q\<lparr>tail := 8\<rparr>) else shmq_pop (q\<lparr>tail := 8\<rparr>))"
proof -
  note d = q_repD [OF rep]
  have h8: "8 = head q \<longleftrightarrow> hpos q = 8"
    by (auto simp: word_unat_eq_iff)
  have "align_queue_tail (q\<lparr>tail := 8\<rparr>) = Inr (q\<lparr>tail := 8\<rparr>)"
    using d sint_le_small [of 8 "head q"] q_rep_small [OF rep] by (auto simp: align_queue_tail_def)
  with al lt d(1) h8 show ?thesis
    by (auto simp: shmq_pop_def)
qed

theorem shmq_pop_rep:
  assumes rep: "q_rep ps q xs"
  shows "case xs of
      [] \<Rightarrow> \<exists>q'. shmq_pop q = Inr (None, q') \<and> q_rep ps q' [] \<and> mem q' = mem q \<and> head q' = head q
    | x # xs' \<Rightarrow> \<exists>off q'. shmq_pop q = Inr (Some (int off), q') \<and> q_rep ps q' xs' \<and>
        bytes_at (mem q) off (msg_len x) = enc_msg x \<and> tpos q' = off + msg_len x \<and> 8 \<le> off \<and>
        mem q' = mem q \<and> head q' = head q"
  using rep
proof (cases rule: q_rep_cases)
  case linear
  note d = q_repD [OF rep]
  show ?thesis
  proof (cases "tpos q = hpos q")
    case True
    then have "tail q = head q" by (simp add: word_unat_eq_iff)
    moreover have "xs = []" using linear True seg_same_end by metis
    ultimately show ?thesis using d rep by (simp add: shmq_pop_def)
  next
    case False
    then have lt: "tpos q < hpos q" using linear by simp
    show ?thesis using linear_pop [OF rep linear(2) lt] d by auto
  qed
next
  case (wrapped e ys zs)
  note d = q_repD [OF rep]
  show ?thesis
  proof (cases ys)
    case Nil
    then have mark: "end_mark (mem q) (tpos q)" and zs: "seg (mem q) 8 xs (hpos q)" using wrapped by auto
    let ?q = "q\<lparr>tail := 8\<rparr>"
    have rep': "q_rep ps ?q xs" using rep wrapped(1) zs by (rule q_rep_skip)
    have pop: "shmq_pop q = (if hpos q = 8 then Inr (None, ?q) else shmq_pop ?q)"
      using rep wrapped(1) align_queue_tail_mark [OF rep wrapped(1) mark] by (rule shmq_pop_skip)
    show ?thesis
    proof (cases "hpos q = 8")
      case True
      then have "xs = []" using zs by (simp add: seg_same_end)
      then show ?thesis using pop rep' True by simp
    next
      case False
      then have "\<exists>x xs'. xs = x # xs' \<and> bytes_at (mem q) 8 (msg_len x) = enc_msg x \<and>
          shmq_pop ?q = Inr (Some (int 8), ?q\<lparr>tail := 8 + mb_length (fst x)\<rparr>) \<and>
          8 + msg_len x = unat (8 + mb_length (fst x)) \<and>
          q_rep ps (?q\<lparr>tail := 8 + mb_length (fst x)\<rparr>) xs'"
        using linear_pop [OF rep'] zs d by simp
      with pop False show ?thesis by auto
    qed
  next
    case (Cons y ys')
    then have sl: "bytes_at (mem q) (tpos q) (msg_len y) = enc_msg y"
      and sg: "seg (mem q) (tpos q + msg_len y) ys' e" using wrapped by auto
    have le: "tpos q + msg_len y \<le> e" using sg by (rule seg_le)
    have ok: "msg_ok (unat ps) y" using d Cons wrapped by simp
    have ne: "tail q \<noteq> head q" using wrapped by auto
    have adv: "unat (tail q + mb_length (fst y)) = tpos q + msg_len y"
      using rep ok le wrapped by (intro unat_advance_tail) auto
    have pop: "shmq_pop q = Inr (Some (int (tpos q)), q\<lparr>tail := tail q + mb_length (fst y)\<rparr>)"
      using rep sl ok le wrapped ne by (intro shmq_pop_block) auto
    have "q_rep ps (q\<lparr>tail := tail q + mb_length (fst y)\<rparr>) (ys' @ zs)"
      using rep d wrapped Cons sg adv le
      by (intro q_rep_wrappedI [where e = e]) (auto simp: q_rep_def shmq_cfg_def)
    with pop Cons wrapped(3) sl adv d show ?thesis by auto
  qed
qed

section \<open>Push\<close>

lemma write_pad_eq:
  assumes "8 \<le> hpos q" "hpos q + 13 \<le> length (mem q)" "small (head q)"
  shows "\<exists>m. write_pad q s = Inr (q\<lparr>mem := m\<rparr>) \<and> length m = length (mem q) \<and>
    m ! (hpos q + 12) = PAD_BLOCK \<and>
    m = put_bytes (put_bytes (put_bytes (mem q) (hpos q + 12) [PAD_BLOCK]) (hpos q + 8) (le32 s))
          (hpos q) (le32 0)"
proof -
  let ?m1 = "put_bytes (mem q) (hpos q + 12) [PAD_BLOCK]"
  let ?m2 = "put_bytes ?m1 (hpos q + 8) (le32 s)"
  let ?m3 = "put_bytes ?m2 (hpos q) (le32 0)"
  have l1: "length ?m1 = length (mem q)" using assms by (intro length_put_bytes) simp
  have l2: "length ?m2 = length (mem q)" using assms l1 length_put_bytes [of "hpos q + 8" "le32 s" ?m1] by simp
  have l3: "length ?m3 = length (mem q)" using assms l2 length_put_bytes [of "hpos q" "le32 0" ?m2] by simp
  have off: "head_mb q = int (hpos q)"
    using assms by (simp add: head_mb_def sint_small)
  have s1: "store 8 (mem q) (head_mb q + 12) [PAD_BLOCK] = Inr ?m1"
    using assms off store_nat [of 8 "hpos q + 12" "[PAD_BLOCK]" "mem q"] by simp
  have s2: "store 8 ?m1 (head_mb q + 8) (le32 s) = Inr ?m2"
    using assms off l1 store_nat [of 8 "hpos q + 8" "le32 s" ?m1] by simp
  have s3: "store 8 ?m2 (head_mb q) (le32 0) = Inr ?m3"
    using assms off l2 store_nat [of 8 "hpos q" "le32 0" ?m2] by simp
  have "?m3 ! (hpos q + 12) = PAD_BLOCK"
    using assms l1 l2 by (simp add: nth_put_bytes)
  with s1 s2 s3 l3 show ?thesis by (simp add: write_pad_def)
qed

lemma seg_put3:
  assumes "seg m a xs z" "z \<le> p" "p + 13 \<le> length m"
  shows "seg (put_bytes (put_bytes (put_bytes m (p + 12) [b]) (p + 8) (le32 s)) p (le32 t)) a xs z"
  using assms by (intro seg_put_bytes) (auto simp: length_put_bytes)

lemma nth_put3:
  assumes "i < p" "p + 13 \<le> length m"
  shows "put_bytes (put_bytes (put_bytes m (p + 12) [b]) (p + 8) (le32 s)) p (le32 t) ! i = m ! i"
  using assms by (simp add: nth_put_bytes length_put_bytes)

text \<open>
  What \<open>align_queue_head\<close> guarantees: the process exits exactly when the block does not fit
  before the end and the consumer is still at the start; otherwise the contents and the
  consumer's position are unchanged, the block fits at the new \<open>head\<close>, and the branch that
  the code calls impossible is not taken.
\<close>

lemma align_queue_head_rep:
  assumes rep: "q_rep ps q xs" and le: "unat (mb_length b) \<le> unat ps"
  shows "align_queue_head q b = Inl (Exit (-1)) \<and> tail q = 8 \<and> qsz q < hpos q + unat (mb_length b) \<or>
    (\<exists>q'. align_queue_head q b = Inr q' \<and> q_rep ps q' xs \<and> hpos q' + unat (mb_length b) \<le> qsz q' \<and>
      tail q' = tail q \<and> q_length q' = q_length q \<and>
      (\<forall>i < tpos q. mem q' ! i = mem q ! i))"
proof -
  note d = q_repD [OF rep]
  note sm = q_rep_small [OF rep]
  have sub: "unat (q_length q - head q) = qsz q - hpos q"
    using d by (intro unat_sub_le32) auto
  show ?thesis
  proof (cases "qsz q - hpos q < unat (mb_length b)")
    case False
    then have "align_queue_head q b = Inr q"
      using sub by (simp add: align_queue_head_def Let_def word_less_nat_alt)
    with False rep d show ?thesis by auto
  next
    case True
    then have lt: "q_length q - head q < mb_length b"
      using sub by (simp add: word_less_nat_alt)
    from rep have lin: "tpos q \<le> hpos q \<and> seg (mem q) (tpos q) xs (hpos q)"
      by (cases rule: q_rep_cases) (use True le d in auto)
    then have nb: "\<not> sint (tail q) > sint (head q)"
      using sm by (auto simp: sint_less_small)
    have t8: "tpos q \<noteq> 8 \<Longrightarrow> tail q \<noteq> 8" by auto
    consider "tail q = 8" | "tail q \<noteq> 8" "qsz q - hpos q < 13" | "tail q \<noteq> 8" "13 \<le> qsz q - hpos q"
      by linarith
    then show ?thesis
    proof cases
      case 1
      then show ?thesis using lt True by (simp add: align_queue_head_def)
    next
      case 2
      let ?q = "q\<lparr>head := 8\<rparr>"
      have t: "8 < tpos q" using 2 d by (auto simp: word_unat_eq_iff)
      have "align_queue_head q b = Inr ?q"
        using 2 lt nb sub by (simp add: align_queue_head_def)
      moreover have "q_rep ps ?q (xs @ [])"
        using rep d lin 2 t
        by (intro q_rep_wrappedI [where e = "hpos q"]) (auto simp: q_rep_def shmq_cfg_def end_mark_def)
      ultimately show ?thesis using d le by auto
    next
      case 3
      have t: "8 < tpos q" using 3 d by (auto simp: word_unat_eq_iff)
      obtain m where m: "write_pad q (q_length q - head q) = Inr (q\<lparr>mem := m\<rparr>)"
        and lm: "length m = length (mem q)" and pad: "m ! (hpos q + 12) = PAD_BLOCK"
        and me: "m = put_bytes (put_bytes (put_bytes (mem q) (hpos q + 12) [PAD_BLOCK]) (hpos q + 8)
          (le32 (q_length q - head q))) (hpos q) (le32 0)"
        using write_pad_eq [of q] d sm 3 by auto
      let ?q = "q\<lparr>mem := m, head := 8\<rparr>"
      have "align_queue_head q b = Inr ?q"
        using 3 lt nb sub m by (simp add: align_queue_head_def)
      moreover have "seg m (tpos q) xs (hpos q)"
        unfolding me using lin 3 d by (intro seg_put3) auto
      then have "q_rep ps ?q (xs @ [])"
        using rep d lin 3 t lm pad
        by (intro q_rep_wrappedI [where e = "hpos q"]) (auto simp: q_rep_def shmq_cfg_def end_mark_def)
      moreover have "\<forall>i < tpos q. m ! i = mem q ! i"
        unfolding me using lin 3 d by (auto intro!: nth_put3)
      ultimately show ?thesis using d le by auto
    qed
  qed
qed

text \<open>
  What the producer relies on while it sleeps: the other process only consumes, so it may drop
  messages from the front, and writes neither \<open>head\<close> nor the bytes of the mapping.
\<close>

definition peer_ok :: "u32 \<Rightarrow> (nat \<Rightarrow> shm_queue \<Rightarrow> shm_queue) \<Rightarrow> bool" where
  "peer_ok ps peer \<longleftrightarrow> (\<forall>i q xs. q_rep ps q xs \<longrightarrow>
     (\<exists>ys. suffix ys xs \<and> q_rep ps (peer i q) ys) \<and> head (peer i q) = head q \<and>
     mem (peer i q) = mem q \<and> q_length (peer i q) = q_length q)"

text \<open>The other process at work: it pops a number of messages.\<close>

fun pop_n :: "nat \<Rightarrow> shm_queue \<Rightarrow> shm_queue" where
  "pop_n 0 q = q"
| "pop_n (Suc n) q = (case shmq_pop q of Inl e \<Rightarrow> q | Inr (r, q') \<Rightarrow> pop_n n q')"

lemma shmq_pop_length: "shmq_pop q = Inr (r, q') \<Longrightarrow> q_length q' = q_length q"
  by (auto simp: shmq_pop_def align_queue_tail_def split: if_splits)

lemma shmq_pop_suffix:
  assumes "q_rep ps q xs"
  obtains r q' ys where "shmq_pop q = Inr (r, q')" "q_rep ps q' ys" "suffix ys xs" "mem q' = mem q"
    "head q' = head q" "q_length q' = q_length q"
proof (cases xs)
  case Nil
  then show thesis using shmq_pop_rep [OF assms] that shmq_pop_length by fastforce
next
  case (Cons x xs')
  then have "suffix xs' xs" by (simp add: suffix_ConsI)
  with Cons show thesis using shmq_pop_rep [OF assms] that shmq_pop_length by fastforce
qed

lemma pop_n_consumes:
  "q_rep ps q xs \<Longrightarrow> (\<exists>ys. suffix ys xs \<and> q_rep ps (pop_n n q) ys) \<and> head (pop_n n q) = head q \<and>
     mem (pop_n n q) = mem q \<and> q_length (pop_n n q) = q_length q"
proof (induction n arbitrary: q xs)
  case 0
  then show ?case by auto
next
  case (Suc n)
  obtain r q' ys where "shmq_pop q = Inr (r, q')" "q_rep ps q' ys" "suffix ys xs" "mem q' = mem q"
    "head q' = head q" "q_length q' = q_length q"
    using shmq_pop_suffix [OF Suc.prems] .
  then show ?case using Suc.IH [of q' ys] suffix_order.trans by auto
qed

lemma peer_ok_pop_n: "peer_ok ps (\<lambda>i. pop_n (k i))"
  unfolding peer_ok_def using pop_n_consumes by blast

lemma peer_ok_idle: "peer_ok ps (\<lambda>i q. q)"
  by (auto simp: peer_ok_def)

lemma push_wait_rep:
  assumes "peer_ok ps peer" "q_rep ps q xs"
  shows "\<exists>f q' ys. push_wait n peer ps len q = (f, q') \<and> suffix ys xs \<and> q_rep ps q' ys \<and>
    head q' = head q \<and> mem q' = mem q \<and> q_length q' = q_length q \<and> (\<not> f \<longrightarrow> \<not> queue_full ps len q')"
  using assms(2)
proof (induction n arbitrary: q xs)
  case 0
  then show ?case by auto
next
  case (Suc n)
  show ?case
  proof (cases "queue_full ps len q")
    case False
    then show ?thesis using Suc.prems by auto
  next
    case True
    obtain ys where ys: "suffix ys xs" "q_rep ps (peer n q) ys"
      and fr: "head (peer n q) = head q" "mem (peer n q) = mem q" "q_length (peer n q) = q_length q"
      using assms(1) Suc.prems unfolding peer_ok_def by blast
    show ?thesis using Suc.IH [OF ys(2)] True ys(1) fr suffix_order.trans by fastforce
  qed
qed

lemma not_queue_full_room:
  assumes rep: "q_rep ps q xs" and nf: "\<not> queue_full ps len q" and le: "unat len \<le> unat ps"
  shows "tpos q \<le> hpos q \<or> hpos q < tpos q \<and> hpos q + unat len + unat ps \<le> tpos q"
proof -
  note d = q_repD [OF rep]
  have "unat (head q + len) = hpos q + unat len"
    using d le by (intro unat_add_less32) auto
  then have "unat (head q + len + ps) = hpos q + unat len + unat ps"
    using d le unat_add_less32 [of "head q + len" ps] by auto
  then show ?thesis
    using nf q_rep_small [OF rep] by (auto simp: queue_full_def word_less_nat_alt sint_less_small)
qed

lemma end_mark_put_bytes:
  assumes "end_mark m e" "p + length bs \<le> e" "p + length bs \<le> length m"
  shows "end_mark (put_bytes m p bs) e"
  using assms nth_put_bytes [of p bs m "e + 12"]
  by (cases "length m - e < 13") (auto simp: end_mark_def length_put_bytes)

text \<open>Writing a message into the free room at \<open>head\<close> appends it.\<close>

lemma append_message:
  assumes rep: "q_rep ps q xs" and ok: "msg_ok (unat ps) x"
    and fits: "hpos q + msg_len x \<le> qsz q"
    and room: "tpos q \<le> hpos q \<or> hpos q < tpos q \<and> hpos q + msg_len x + unat ps \<le> tpos q"
  shows "q_rep ps (q\<lparr>mem := put_bytes (mem q) (hpos q) (enc_msg x),
      head := head q + mb_length (fst x), notified := k\<rparr>) (xs @ [x])"
    (is "q_rep ps ?q _")
proof -
  note d = q_repD [OF rep]
  have h: "unat (head q + mb_length (fst x)) = hpos q + msg_len x"
    using d fits ok unat_add_less32 [of "head q" "mb_length (fst x)"] by (auto simp: msg_ok_def)
  have cfg: "shmq_cfg ps ?q"
    using rep d fits by (auto simp: q_rep_def shmq_cfg_def length_put_bytes)
  from rep show ?thesis
  proof (cases rule: q_rep_cases)
    case linear
    then have "seg (put_bytes (mem q) (hpos q) (enc_msg x)) (tpos q) (xs @ [x]) (hpos q + msg_len x)"
      using d fits by (intro seg_snoc) auto
    then show ?thesis using cfg d h fits ok by (intro q_rep_linearI) auto
  next
    case (wrapped e ys zs)
    let ?m = "put_bytes (mem q) (hpos q) (enc_msg x)"
    have te: "tpos q \<le> e" using wrapped(4) by (rule seg_le)
    have rm: "hpos q + msg_len x + unat ps \<le> tpos q" using room wrapped(1) by auto
    have "seg ?m 8 (zs @ [x]) (hpos q + msg_len x)"
      using wrapped d fits by (intro seg_snoc) auto
    moreover have "seg ?m (tpos q) ys e"
      using wrapped d fits rm by (intro seg_put_bytes) auto
    moreover have "end_mark ?m e"
      using wrapped d fits rm te by (intro end_mark_put_bytes) auto
    ultimately have "q_rep ps ?q (ys @ (zs @ [x]))"
      using cfg d h ok rm wrapped by (intro q_rep_wrappedI [where e = e]) auto
    then show ?thesis using wrapped(3) by simp
  qed
qed

text \<open>
  The last stores of \<open>shmq_push\<close>: header and data land side by side at \<open>head\<close>.
\<close>

lemma push_stores:
  assumes "8 \<le> hpos q" "hpos q + 13 + length ds \<le> length (mem q)" "small (head q)"
  shows "bindR (store 8 (mem q) (head_mb q) (enc_block b)) (\<lambda>m1.
      bindR (store 8 m1 (head_mb q + 13) ds) f) = f (put_bytes (mem q) (hpos q) (enc_msg (b, ds)))"
proof -
  have off: "head_mb q = int (hpos q)"
    using assms by (simp add: head_mb_def sint_small)
  let ?m = "put_bytes (mem q) (hpos q) (enc_block b)"
  have "length ?m = length (mem q)" using assms by (intro length_put_bytes) simp
  then have "store 8 ?m (head_mb q + 13) ds = Inr (put_bytes ?m (hpos q + 13) ds)"
    using assms off store_nat [of 8 "hpos q + 13" ds ?m] by simp
  moreover have "put_bytes ?m (hpos q + 13) ds = put_bytes (mem q) (hpos q) (enc_msg (b, ds))"
    using assms put_bytes_put_bytes_adj [of "hpos q" "enc_block b" ds "mem q"]
    by (simp add: enc_msg_def)
  ultimately show ?thesis using assms off by simp
qed

text \<open>All ways \<open>shmq_push\<close> can go, with the memory it leaves behind.\<close>

lemma shmq_push_outcome:
  assumes rep: "q_rep ps q xs" and peer: "peer_ok ps peer" and len: "13 \<le> unat (mb_length b)"
    and data: "unat (mb_length b) - 13 \<le> length data" and ty: "mb_type b \<noteq> PAD_BLOCK"
  defines "x \<equiv> (b, take (unat (mb_length b) - 13) data)"
  obtains (big) "unat ps < unat (mb_length b)" "shmq_push peer ps q b data = Inr (-1, q)"
  | (exit) "tail q = 8" "qsz q < hpos q + unat (mb_length b)" "shmq_push peer ps q b data = Inl (Exit (-1))"
  | (full) q1 q2 ys where "align_queue_head q b = Inr q1" "push_wait 10 peer ps (mb_length b) q1 = (True, q2)"
      "shmq_push peer ps q b data = Inr (-1, q2)" "suffix ys xs" "q_rep ps q2 ys" "q_length q2 = q_length q"
      "q_rep ps q1 xs" "tail q1 = tail q" "\<forall>i < tpos q. mem q1 ! i = mem q ! i"
  | (ok) q1 q2 ys where "align_queue_head q b = Inr q1" "push_wait 10 peer ps (mb_length b) q1 = (False, q2)"
      "mem q2 = mem q1" "msg_len x = unat (mb_length b)" "msg_len x \<le> unat ps"
      "tpos q2 \<le> hpos q2 \<or> hpos q2 < tpos q2 \<and> hpos q2 + msg_len x + unat ps \<le> tpos q2"
      "shmq_push peer ps q b data = Inr (0, q2\<lparr>mem := put_bytes (mem q2) (hpos q2) (enc_msg x),
         head := head q2 + mb_length b, notified := notified q2 + 1\<rparr>)"
      "suffix ys xs" "q_rep ps q2 ys" "hpos q2 + msg_len x \<le> qsz q2" "q_length q2 = q_length q"
      "q_rep ps q1 xs" "tail q1 = tail q" "\<forall>i < tpos q. mem q1 ! i = mem q ! i"
proof (cases "unat ps < unat (mb_length b)")
  case True
  then show thesis using len big by (simp add: shmq_push_def word_less_nat_alt)
next
  case False
  then have le: "unat (mb_length b) \<le> unat ps" by simp
  have ml: "msg_len x = unat (mb_length b)" using len data by (simp add: x_def msg_len_def)
  have guards: "\<not> unat (mb_length b) < 13" "\<not> mb_length b > ps" "mapped q"
    using len le q_repD(1) [OF rep] by (auto simp: word_less_nat_alt)
  consider "align_queue_head q b = Inl (Exit (-1))" "tail q = 8" "qsz q < hpos q + unat (mb_length b)"
    | q1 where "align_queue_head q b = Inr q1" "q_rep ps q1 xs" "hpos q1 + unat (mb_length b) \<le> qsz q1"
        "q_length q1 = q_length q" "tail q1 = tail q" "\<forall>i < tpos q. mem q1 ! i = mem q ! i"
    using align_queue_head_rep [OF rep le] by blast
  then show thesis
  proof cases
    case 1
    then show thesis using guards exit by (simp add: shmq_push_def)
  next
    case (2 q1)
    obtain f q2 ys where w: "push_wait 10 peer ps (mb_length b) q1 = (f, q2)" and ys: "suffix ys xs"
      and rep2: "q_rep ps q2 ys" and fr: "head q2 = head q1" "mem q2 = mem q1" "q_length q2 = q_length q1"
      and nf: "\<not> f \<longrightarrow> \<not> queue_full ps (mb_length b) q2"
      using push_wait_rep [OF peer 2(2)] by metis
    have fits: "hpos q2 + msg_len x \<le> qsz q2" using 2 fr ml by simp
    show thesis
    proof (cases f)
      case True
      then have "shmq_push peer ps q b data = Inr (-1, q2)"
        using guards 2(1) w by (simp add: shmq_push_def)
      then show thesis using full 2 w True ys rep2 fr by simp
    next
      case False
      have room: "tpos q2 \<le> hpos q2 \<or> hpos q2 < tpos q2 \<and> hpos q2 + msg_len x + unat ps \<le> tpos q2"
        using not_queue_full_room [OF rep2 _ le] nf False ml by auto
      have "\<not> length data < unat (mb_length b) - 13" using data by simp
      moreover have "hpos q2 + 13 + length (take (unat (mb_length b) - 13) data) \<le> length (mem q2)"
        using fits q_repD(2) [OF rep2] ml len by (simp add: x_def msg_len_def)
      ultimately have "shmq_push peer ps q b data = Inr (0, q2\<lparr>mem := put_bytes (mem q2) (hpos q2) (enc_msg x),
         head := head q2 + mb_length b, notified := notified q2 + 1\<rparr>)"
        using guards 2(1) w False q_repD(5) [OF rep2] q_rep_small [OF rep2]
        by (simp add: shmq_push_def Let_def push_stores x_def)
      then show thesis
        using ok [of q1 q2 ys] 2 w False ml le room ys rep2 fits fr by simp
    qed
  qed
qed

theorem shmq_push_rep:
  assumes rep: "q_rep ps q xs" and peer: "peer_ok ps peer" and len: "13 \<le> unat (mb_length b)"
    and data: "unat (mb_length b) - 13 \<le> length data" and ty: "mb_type b \<noteq> PAD_BLOCK"
  shows "case shmq_push peer ps q b data of
      Inl e \<Rightarrow> e = Exit (-1) \<and> tail q = 8 \<and> qsz q < hpos q + unat (mb_length b)
    | Inr (r, q') \<Rightarrow> q_length q' = q_length q \<and> (\<exists>ys. suffix ys xs \<and>
        (if r = 0 then q_rep ps q' (ys @ [(b, take (unat (mb_length b) - 13) data)])
         else r = -1 \<and> q_rep ps q' ys))"
  using rep peer len data ty
proof (cases rule: shmq_push_outcome)
  case big
  then show ?thesis using rep by auto
next
  case exit
  then show ?thesis by simp
next
  case full
  then show ?thesis by auto
next
  case (ok q1 q2 ys)
  have "msg_ok (unat ps) (b, take (unat (mb_length b) - 13) data)"
    using ok ty by (simp add: msg_ok_def)
  then show ?thesis
    using append_message [OF ok(9), of "(b, take (unat (mb_length b) - 13) data)"] ok by auto
qed

section \<open>Reading a popped block\<close>

text \<open>
  The callers of \<open>shmq_pop\<close> read the block through the pointer it returns: the header fields
  and \<open>length - sizeof (shm_block_t)\<close> bytes of data.  A length below 13, which no queue with \<open>q_rep\<close>
  holds, gives no data here; the code would subtract in 32 bits.
\<close>

definition read_msg :: "shm_queue \<Rightarrow> int \<Rightarrow> message res" where
  "read_msg q off =
     bindR (load 8 (mem q) off 13) (\<lambda>h.
     let b = dec_block h in
     bindR (load 8 (mem q) (off + 13) (unat (mb_length b) - sizeof_shm_block)) (\<lambda>d. Inr (b, d)))"

lemma read_msg_enc:
  assumes "bytes_at (mem q) off (msg_len x) = enc_msg x" "8 \<le> off" "off + msg_len x \<le> length (mem q)"
    "unat (mb_length (fst x)) = msg_len x"
  shows "read_msg q (int off) = Inr x"
proof -
  have "bytes_at (mem q) off 13 = enc_block (fst x)"
    using assms(1-3) by (rule seg_first_fields)
  moreover have "bytes_at (mem q) (off + 13) (length (snd x)) = snd x"
    using assms(1) bytes_at_append_split [of "mem q" off 13 "length (snd x)"] calculation
    by (simp add: msg_len_def enc_msg_def)
  moreover have "dec_block (enc_block (fst x)) = fst x"
    using dec_enc_block [of "fst x" "[]"] by simp
  moreover have "load 8 (mem q) (int off + 13) (length (snd x)) = Inr (bytes_at (mem q) (off + 13) (length (snd x)))"
    using assms load_nat [of 8 "off + 13" "length (snd x)" "mem q"] by (simp add: msg_len_def)
  ultimately show ?thesis
    using assms by (simp add: read_msg_def Let_def msg_len_def)
qed

section \<open>An abstract FIFO channel\<close>

text \<open>
  The contract between the producer and the consumer of a queue: what \<open>recv\<close> returns is the
  oldest message sent and not yet received.  \<open>chan_run\<close> is any interleaving of whole
  operations of the two processes; it collects the messages accepted and the messages received.
\<close>

datatype 'a chan_ev = Snd 'a | Rcv

fun chan_run :: "('q \<Rightarrow> 'a \<Rightarrow> (bool \<times> 'q) res) \<Rightarrow> ('q \<Rightarrow> ('a option \<times> 'q) res) \<Rightarrow> 'a chan_ev list \<Rightarrow> 'q
    \<Rightarrow> ('a list \<times> 'a list \<times> 'q) res" where
  "chan_run sd rv [] q = Inr ([], [], q)"
| "chan_run sd rv (Snd x # es) q = bindR (sd q x) (\<lambda>(b, q').
     bindR (chan_run sd rv es q') (\<lambda>(acc, got, q''). Inr (if b then x # acc else acc, got, q'')))"
| "chan_run sd rv (Rcv # es) q = bindR (rv q) (\<lambda>(r, q').
     bindR (chan_run sd rv es q') (\<lambda>(acc, got, q''). Inr (acc, case r of None \<Rightarrow> got | Some x \<Rightarrow> x # got, q'')))"

fun sent_msgs :: "'a chan_ev list \<Rightarrow> 'a list" where
  "sent_msgs [] = []"
| "sent_msgs (Snd x # es) = x # sent_msgs es"
| "sent_msgs (Rcv # es) = sent_msgs es"

locale fifo_channel =
  fixes rep :: "'q \<Rightarrow> 'a list \<Rightarrow> bool"
    and valid :: "'a \<Rightarrow> bool"
    and send :: "'q \<Rightarrow> 'a \<Rightarrow> (bool \<times> 'q) res"
    and recv :: "'q \<Rightarrow> ('a option \<times> 'q) res"
    and stop :: fault
  assumes send_law: "rep q xs \<Longrightarrow> valid x \<Longrightarrow>
      (case send q x of Inl e \<Rightarrow> e = stop | Inr (b, q') \<Rightarrow> rep q' (if b then xs @ [x] else xs))"
    and recv_empty: "rep q [] \<Longrightarrow> \<exists>q'. recv q = Inr (None, q') \<and> rep q' []"
    and recv_cons: "rep q (x # xs) \<Longrightarrow> \<exists>q'. recv q = Inr (Some x, q') \<and> rep q' xs"
begin

text \<open>Nothing is lost, duplicated or reordered over any run.\<close>

lemma run_conserves:
  assumes "rep q xs" "list_all valid (sent_msgs es)"
  shows "case chan_run send recv es q of
      Inl e \<Rightarrow> e = stop
    | Inr (acc, got, q') \<Rightarrow> subseq acc (sent_msgs es) \<and> (\<exists>ys. rep q' ys \<and> got @ ys = xs @ acc)"
  using assms
proof (induction es arbitrary: q xs)
  case Nil
  then show ?case by simp
next
  case (Cons e es)
  show ?case
  proof (cases e)
    case (Snd x)
    show ?thesis
    proof (cases "send q x")
      case (Inl err)
      then show ?thesis using Snd send_law [OF Cons.prems(1), of x] Cons.prems(2) by simp
    next
      case (Inr p)
      then obtain b q' where s: "send q x = Inr (b, q')" by (cases p) auto
      then have "rep q' (if b then xs @ [x] else xs)"
        using send_law [OF Cons.prems(1), of x] Cons.prems(2) Snd by auto
      from Cons.IH [OF this] show ?thesis
        using Snd s Cons.prems(2) by (auto split: sum.splits prod.splits if_splits)
    qed
  next
    case Rcv
    show ?thesis
    proof (cases xs)
      case Nil
      then obtain q' where "recv q = Inr (None, q')" "rep q' []" using recv_empty Cons.prems by blast
      then show ?thesis using Rcv Nil Cons.IH [of q' "[]"] Cons.prems by (auto split: sum.splits)
    next
      case (Cons y ys)
      then obtain q' where "recv q = Inr (Some y, q')" "rep q' ys" using recv_cons Cons.prems by blast
      then show ?thesis using Rcv Cons Cons.IH [of q' ys] Cons.prems by (auto split: sum.splits)
    qed
  qed
qed

end

definition shmq_send :: "u32 \<Rightarrow> shm_queue \<Rightarrow> message \<Rightarrow> (bool \<times> shm_queue) res" where
  "shmq_send ps q x = bindR (shmq_push (\<lambda>i q. q) ps q (fst x) (snd x)) (\<lambda>(r, q'). Inr (r = 0, q'))"

definition shmq_recv :: "shm_queue \<Rightarrow> (message option \<times> shm_queue) res" where
  "shmq_recv q = bindR (shmq_pop q) (\<lambda>(r, q').
     case r of None \<Rightarrow> Inr (None, q') | Some off \<Rightarrow> bindR (read_msg q' off) (\<lambda>x. Inr (Some x, q')))"

definition msg_fits :: "message \<Rightarrow> bool" where
  "msg_fits x \<longleftrightarrow> unat (mb_length (fst x)) = msg_len x \<and> mb_type (fst x) \<noteq> PAD_BLOCK"

lemma push_wait_idle: "push_wait n (\<lambda>i q. q) ps len q = (f, q') \<Longrightarrow> q' = q"
  by (induction n) (auto split: if_splits)

lemma shmq_send_law:
  assumes "q_rep ps q xs" "msg_fits x"
  shows "case shmq_send ps q x of Inl e \<Rightarrow> e = Exit (-1) | Inr (b, q') \<Rightarrow> q_rep ps q' (if b then xs @ [x] else xs)"
proof -
  have n: "unat (mb_length (fst x)) - 13 = length (snd x)" "13 \<le> unat (mb_length (fst x))"
    "mb_type (fst x) \<noteq> PAD_BLOCK" "unat (mb_length (fst x)) = msg_len x"
    using assms(2) by (auto simp: msg_fits_def msg_len_def)
  have data: "unat (mb_length (fst x)) - 13 \<le> length (snd x)" using n by simp
  from assms(1) peer_ok_idle n(2) data n(3) show ?thesis
  proof (cases rule: shmq_push_outcome)
    case big
    then show ?thesis using assms(1) by (simp add: shmq_send_def)
  next
    case exit
    then show ?thesis by (simp add: shmq_send_def)
  next
    case (full q1 q2 ys)
    then show ?thesis using push_wait_idle [OF full(2)] by (simp add: shmq_send_def)
  next
    case (ok q1 q2 ys)
    have eq: "q2 = q1" using push_wait_idle [OF ok(2)] .
    have x: "(fst x, take (unat (mb_length (fst x)) - 13) (snd x)) = x" using n by simp
    have "msg_ok (unat ps) x" using ok n by (simp add: x msg_ok_def)
    then show ?thesis
      using append_message [OF ok(12), of x "notified q1 + 1"] ok(4,5,6,7,10) n
      by (simp add: shmq_send_def eq x)
  qed
qed

lemma shmq_recv_cons:
  assumes "q_rep ps q (x # xs)"
  shows "\<exists>q'. shmq_recv q = Inr (Some x, q') \<and> q_rep ps q' xs"
proof -
  obtain off q' where p: "shmq_pop q = Inr (Some (int off), q')" "q_rep ps q' xs"
      "bytes_at (mem q) off (msg_len x) = enc_msg x" "tpos q' = off + msg_len x" "8 \<le> off"
      "mem q' = mem q"
    using shmq_pop_rep [OF assms] by auto
  have "read_msg q' (int off) = Inr x"
    using p q_repD [OF p(2)] q_repD(7) [OF assms] by (intro read_msg_enc) (auto simp: msg_ok_def)
  then show ?thesis using p by (simp add: shmq_recv_def)
qed

interpretation shm: fifo_channel "q_rep ps" msg_fits "shmq_send ps" shmq_recv "Exit (-1)" for ps
proof unfold_locales
  show "q_rep ps q xs \<Longrightarrow> msg_fits x \<Longrightarrow> (case shmq_send ps q x of Inl e \<Rightarrow> e = Exit (-1)
      | Inr (b, q') \<Rightarrow> q_rep ps q' (if b then xs @ [x] else xs))" for q xs x
    by (rule shmq_send_law)
  show "q_rep ps q [] \<Longrightarrow> \<exists>q'. shmq_recv q = Inr (None, q') \<and> q_rep ps q' []" for q
    using shmq_pop_rep [of ps q "[]"] by (auto simp: shmq_recv_def)
  show "q_rep ps q (x # xs) \<Longrightarrow> \<exists>q'. shmq_recv q = Inr (Some x, q') \<and> q_rep ps q' xs" for q x xs
    by (rule shmq_recv_cons)
qed

text \<open>A freshly created queue is empty.\<close>

lemma do_shmq_create_rep:
  assumes "13 \<le> unat ps" "8 + unat ps \<le> qsz q" "qsz q < 2 ^ 31" "qsz q + 2 * unat ps < 2 ^ 32"
  shows "\<exists>q'. do_shmq_create True pa q = Inr (0, q') \<and> q_rep ps q' []"
  using assms by (auto simp: do_shmq_create_def shmq_cfg_def intro!: q_rep_linearI)

section \<open>The block in use\<close>

text \<open>
  \<open>shmq_pop\<close> advances \<open>tail\<close> before its caller has read the block.  The producer stays
  \<open>page_size\<close> bytes behind \<open>tail\<close>, so the \<open>page_size\<close> bytes before it are not written
  until the consumer pops again.
\<close>

definition in_use :: "u32 \<Rightarrow> shm_queue \<Rightarrow> nat \<Rightarrow> bool" where
  "in_use ps q i \<longleftrightarrow> i < tpos q \<and> tpos q \<le> i + unat ps"

lemma shmq_push_keeps_in_use:
  assumes rep: "q_rep ps q xs" and fits: "msg_fits x"
    and push: "shmq_push (\<lambda>i q. q) ps q (fst x) (snd x) = Inr (r, q')"
  shows "tail q' = tail q \<and> (\<forall>i. in_use ps q i \<longrightarrow> mem q' ! i = mem q ! i)"
proof -
  have n: "13 \<le> unat (mb_length (fst x))" "unat (mb_length (fst x)) - 13 \<le> length (snd x)"
    "mb_type (fst x) \<noteq> PAD_BLOCK" "unat (mb_length (fst x)) - 13 = length (snd x)"
    using fits by (auto simp: msg_fits_def msg_len_def)
  from rep peer_ok_idle n(1-3) show ?thesis
  proof (cases rule: shmq_push_outcome)
    case big
    then show ?thesis using push by simp
  next
    case exit
    then show ?thesis using push by simp
  next
    case (full q1 q2 ys)
    then show ?thesis using push push_wait_idle [OF full(2)] by (auto simp: in_use_def)
  next
    case (ok q1 q2 ys)
    have eq: "q2 = q1" using push_wait_idle [OF ok(2)] .
    note d = q_repD [OF ok(12)]
    have "put_bytes (mem q1) (hpos q1) (enc_msg x) ! i = mem q1 ! i" if "in_use ps q i" for i
      using that ok d n nth_put_bytes [of "hpos q1" "enc_msg x" "mem q1" i]
      by (auto simp: in_use_def eq)
    then show ?thesis using push ok n by (auto simp: eq in_use_def)
  qed
qed

fun push_all :: "u32 \<Rightarrow> message list \<Rightarrow> shm_queue \<Rightarrow> shm_queue res" where
  "push_all ps [] q = Inr q"
| "push_all ps (x # xs) q = bindR (shmq_push (\<lambda>i q. q) ps q (fst x) (snd x)) (\<lambda>(r, q'). push_all ps xs q')"

lemma push_all_keeps_in_use:
  "q_rep ps q xs \<Longrightarrow> list_all msg_fits zs \<Longrightarrow> push_all ps zs q = Inr q' \<Longrightarrow>
   tail q' = tail q \<and> length (mem q') = length (mem q) \<and> (\<exists>ys. q_rep ps q' ys) \<and>
   (\<forall>i. in_use ps q i \<longrightarrow> mem q' ! i = mem q ! i)"
proof (induction zs arbitrary: q xs)
  case Nil
  then show ?case by auto
next
  case (Cons z zs)
  then obtain r q1 where p: "shmq_push (\<lambda>i q. q) ps q (fst z) (snd z) = Inr (r, q1)"
    and rest: "push_all ps zs q1 = Inr q'" by auto
  have "q_rep ps q1 (if r = 0 then xs @ [z] else xs)"
    using shmq_send_law [OF Cons.prems(1), of z] Cons.prems(2) p by (simp add: shmq_send_def)
  then obtain ys where rep1: "q_rep ps q1 ys" by blast
  have k: "tail q1 = tail q" "\<forall>i. in_use ps q i \<longrightarrow> mem q1 ! i = mem q ! i"
    using shmq_push_keeps_in_use [OF Cons.prems(1) _ p] Cons.prems(2) by auto
  have n: "13 \<le> unat (mb_length (fst z))" "unat (mb_length (fst z)) - 13 \<le> length (snd z)"
    "mb_type (fst z) \<noteq> PAD_BLOCK"
    using Cons.prems(2) by (auto simp: msg_fits_def msg_len_def)
  have "q_length q1 = q_length q"
    using shmq_push_rep [OF Cons.prems(1) peer_ok_idle n] p by simp
  then have "length (mem q1) = length (mem q)"
    using q_repD(2) [OF rep1] q_repD(2) [OF Cons.prems(1)] by simp
  then show ?case
    using Cons.IH [OF rep1 _ rest] Cons.prems(2) k by (auto simp: in_use_def)
qed

section \<open>Progress\<close>

lemma pop_empty_sync:
  assumes rep: "q_rep ps q []" and pop: "shmq_pop q = Inr (r, q')"
  shows "tail q' = head q'"
  using rep
proof (cases rule: q_rep_cases)
  case linear
  then have "tail q = head q" by (simp add: word_unat_eq_iff)
  then show ?thesis using pop q_repD(1) [OF rep] by (simp add: shmq_pop_def)
next
  case (wrapped e ys zs)
  then have mark: "end_mark (mem q) (tpos q)" and h: "hpos q = 8" by auto
  then have "shmq_pop q = Inr (None, q\<lparr>tail := 8\<rparr>)"
    using shmq_pop_skip [OF rep wrapped(1) align_queue_tail_mark [OF rep wrapped(1) mark]] by simp
  then show ?thesis using pop h by (auto simp: word_unat_eq_iff)
qed

lemma pop_n_drains:
  "q_rep ps q xs \<Longrightarrow> length xs < n \<Longrightarrow> tail (pop_n n q) = head (pop_n n q)"
proof (induction n arbitrary: q xs)
  case 0
  then show ?case by simp
next
  case (Suc n)
  show ?case
  proof (cases xs)
    case Nil
    obtain r q' where q': "shmq_pop q = Inr (r, q')" "q_rep ps q' []"
      using shmq_pop_rep [OF Suc.prems(1)] Nil by auto
    then have "tail q' = head q'" using pop_empty_sync Suc.prems(1) Nil by blast
    moreover have "tail (pop_n m q') = head (pop_n m q')" if "tail q' = head q'" for m
      using that q_repD(1) [OF q'(2)] by (induction m) (auto simp: shmq_pop_def)
    ultimately show ?thesis using q' by simp
  next
    case (Cons x xs')
    then obtain off q' where "shmq_pop q = Inr (Some (int off), q')" "q_rep ps q' xs'"
      using shmq_pop_rep [OF Suc.prems(1)] by auto
    then show ?thesis using Suc.IH [of q' xs'] Suc.prems Cons by simp
  qed
qed

lemma push_wait_drained:
  assumes rep: "q_rep ps q xs"
  shows "\<exists>q'. push_wait 10 (\<lambda>i. pop_n (Suc (length xs))) ps len q = (False, q')"
proof -
  have "\<not> queue_full ps len (pop_n (Suc (length xs)) q)"
    using pop_n_drains [OF rep, of "Suc (length xs)"] by (simp add: queue_full_def)
  then show ?thesis
    by (simp add: eval_nat_numeral del: pop_n.simps)
qed

section \<open>Properties\<close>

text \<open>Concrete queues for the witnesses: 64 bytes, \<open>page_size\<close> 20.\<close>

definition demo_msg :: message where
  "demo_msg = (\<lparr>mb_id = 7, mb_fd = 5, mb_length = 15, mb_type = DATA_BLOCK\<rparr>, [1, 2])"

definition demo_empty :: shm_queue where
  "demo_empty = \<lparr>mapped = True, head = 8, tail = 8, mem = replicate 64 0, q_length = 64,
     pipe_handles = (3, 4), notified = 0\<rparr>"

definition demo_one :: shm_queue where
  "demo_one = demo_empty\<lparr>head := 23, mem := put_bytes (replicate 64 0) 8 (enc_msg demo_msg)\<rparr>"

definition demo_full :: shm_queue where
  "demo_full = demo_empty\<lparr>head := 53,
     mem := put_bytes (replicate 64 0) 8 (enc_msg demo_msg @ enc_msg demo_msg @ enc_msg demo_msg)\<rparr>"

lemma demo_msg_facts [simp]: "msg_fits demo_msg" "msg_ok 20 demo_msg" "msg_len demo_msg = 15"
  by (simp_all add: demo_msg_def msg_fits_def msg_ok_def msg_len_def)

lemma demo_empty_rep [simp]: "q_rep 20 demo_empty []"
  by (rule q_rep_linearI) (simp_all add: demo_empty_def shmq_cfg_def)

lemma demo_one_rep [simp]: "q_rep 20 demo_one [demo_msg]"
  by (rule q_rep_linearI)
    (simp_all add: demo_one_def demo_empty_def shmq_cfg_def length_put_bytes bytes_at_put_same)

lemma demo_full_rep [simp]: "q_rep 20 demo_full [demo_msg, demo_msg, demo_msg]"
proof (rule q_rep_linearI)
  have "seg (mem demo_full) 8 [demo_msg, demo_msg, demo_msg] 53" by code_simp
  then show "seg (mem demo_full) (tpos demo_full) [demo_msg, demo_msg, demo_msg] (hpos demo_full)"
    by (simp add: demo_full_def demo_empty_def)
qed (simp_all add: demo_full_def demo_empty_def shmq_cfg_def length_put_bytes)

text \<open>
  C6: Starting from a queue that \<open>do_shmq_create\<close> made, any interleaving of whole
  \<open>shmq_push\<close> and \<open>shmq_pop\<close> calls is a FIFO: the messages popped, followed by those still
  in the ring, are exactly the messages \<open>shmq_push\<close> accepted, in order, whatever wraps and pads
  happened in between.  The only way the run stops is the \<open>exit(-1)\<close> of a full queue.
\<close>

theorem shmq_fifo_refinement:
  assumes "13 \<le> unat ps" "8 + unat ps \<le> qsz q0" "qsz q0 < 2 ^ 31" "qsz q0 + 2 * unat ps < 2 ^ 32"
    and "do_shmq_create True pa q0 = Inr (0, q)"
    and "list_all msg_fits (sent_msgs es)"
  shows "case chan_run (shmq_send ps) shmq_recv es q of
      Inl e \<Rightarrow> e = Exit (-1)
    | Inr (acc, got, q') \<Rightarrow> subseq acc (sent_msgs es) \<and> (\<exists>ys. q_rep ps q' ys \<and> got @ ys = acc)"
proof -
  have "q_rep ps q []"
    using do_shmq_create_rep [OF assms(1-4), of pa] assms(5) by auto
  from shm.run_conserves [OF this assms(6), unfolded append_Nil] show ?thesis .
qed

theorem shmq_fifo_refinement_witness:
  "case chan_run (shmq_send 20) shmq_recv [Snd demo_msg, Rcv, Rcv] demo_empty of
      Inl e \<Rightarrow> e = Exit (-1)
    | Inr (acc, got, q') \<Rightarrow> subseq acc (sent_msgs [Snd demo_msg, Rcv, Rcv]) \<and>
        (\<exists>ys. q_rep 20 q' ys \<and> got @ ys = acc)"
proof (rule shmq_fifo_refinement)
  show "do_shmq_create True (Some (3, 4)) demo_empty = Inr (0, demo_empty)"
    by (simp add: do_shmq_create_def pipe_create_def demo_empty_def)
qed (simp_all add: demo_empty_def)

text \<open>
  \<open>shmq_push\<close> on a queue that holds \<open>xs\<close>, while the other process may consume during
  the sleeps.  If it returns 0 the message was appended after what the consumer left; if it
  returns -1 nothing was added; it never touches memory outside the mapping and exits only when
  the message does not fit before the end of the mapping and \<open>tail\<close> is at its start.
\<close>

theorem shmq_push_appends:
  assumes "q_rep ps q xs" and "peer_ok ps peer" and "13 \<le> unat (mb_length b)"
    and "unat (mb_length b) - 13 \<le> length data" and "mb_type b \<noteq> PAD_BLOCK"
  shows "case shmq_push peer ps q b data of
      Inl e \<Rightarrow> e = Exit (-1) \<and> tail q = 8 \<and> qsz q < hpos q + unat (mb_length b)
    | Inr (r, q') \<Rightarrow> q_length q' = q_length q \<and> (\<exists>ys. suffix ys xs \<and>
        (if r = 0 then q_rep ps q' (ys @ [(b, take (unat (mb_length b) - 13) data)])
         else r = -1 \<and> q_rep ps q' ys))"
  using assms by (rule shmq_push_rep)

theorem shmq_push_appends_witness:
  "case shmq_push (\<lambda>i. pop_n 1) 20 demo_one (fst demo_msg) (snd demo_msg) of
      Inl e \<Rightarrow> e = Exit (-1) \<and> tail demo_one = 8 \<and>
        qsz demo_one < hpos demo_one + unat (mb_length (fst demo_msg))
    | Inr (r, q') \<Rightarrow> q_length q' = q_length demo_one \<and> (\<exists>ys. suffix ys [demo_msg] \<and>
        (if r = 0 then q_rep 20 q' (ys @ [(fst demo_msg, take (unat (mb_length (fst demo_msg)) - 13) (snd demo_msg))])
         else r = -1 \<and> q_rep 20 q' ys))"
  by (rule shmq_push_appends [OF demo_one_rep peer_ok_pop_n]) (simp_all add: demo_msg_def)

text \<open>
  \<open>shmq_pop\<close> on a queue that holds \<open>xs\<close> reports emptiness exactly when \<open>xs\<close> is
  empty; otherwise the pointer it returns designates the encoding of the oldest message and the
  rest stays in the queue.  It writes neither the bytes of the mapping nor \<open>head\<close>.
\<close>

theorem shmq_pop_oldest:
  assumes "q_rep ps q xs"
  shows "case xs of
      [] \<Rightarrow> \<exists>q'. shmq_pop q = Inr (None, q') \<and> q_rep ps q' [] \<and> mem q' = mem q \<and> head q' = head q
    | x # xs' \<Rightarrow> \<exists>off q'. shmq_pop q = Inr (Some (int off), q') \<and> q_rep ps q' xs' \<and>
        bytes_at (mem q) off (msg_len x) = enc_msg x \<and> tpos q' = off + msg_len x \<and> 8 \<le> off \<and>
        mem q' = mem q \<and> head q' = head q"
  using assms by (rule shmq_pop_rep)

theorem shmq_pop_oldest_witness:
  "\<exists>off q'. shmq_pop demo_one = Inr (Some (int off), q') \<and> q_rep 20 q' [] \<and>
     bytes_at (mem demo_one) off 15 = enc_msg demo_msg \<and> tpos q' = off + 15 \<and> 8 \<le> off \<and>
     mem q' = mem demo_one \<and> head q' = head demo_one"
  using shmq_pop_oldest [OF demo_one_rep] by simp

text \<open>
  The block a pop returned stays readable, unchanged, however many messages the producer
  pushes before the consumer pops again: the reason for the extra \<open>page_size\<close> in the full test.
\<close>

theorem popped_block_intact:
  assumes rep: "q_rep ps q (x # xs)" and pop: "shmq_pop q = Inr (Some off, q1)"
    and fits: "list_all msg_fits zs" and push: "push_all ps zs q1 = Inr q2"
  shows "read_msg q2 off = Inr x"
proof -
  obtain o' where o': "off = int o'" "q_rep ps q1 xs" "bytes_at (mem q1) o' (msg_len x) = enc_msg x"
      "tpos q1 = o' + msg_len x" "8 \<le> o'"
    using shmq_pop_rep [OF rep] pop by auto
  have ok: "msg_ok (unat ps) x" using q_repD(7) [OF rep] by simp
  note k = push_all_keeps_in_use [OF o'(2) fits push]
  note d = q_repD [OF o'(2)]
  have "bytes_at (mem q2) o' (msg_len x) = bytes_at (mem q1) o' (msg_len x)"
    using k d o'(1,4,5) ok
    by (intro nth_equalityI) (auto simp: length_bytes_at nth_bytes_at in_use_def msg_ok_def)
  then show ?thesis
    using o' k d ok by (auto intro!: read_msg_enc simp: msg_ok_def)
qed

theorem popped_block_intact_witness:
  "shmq_pop demo_one = Inr (Some 8, demo_one\<lparr>tail := 23\<rparr>) \<and>
   push_all 20 [demo_msg] (demo_one\<lparr>tail := 23\<rparr>) = Inr (demo_one\<lparr>tail := 23, head := 38,
     mem := put_bytes (mem demo_one) 23 (enc_msg demo_msg), notified := 1\<rparr>) \<and>
   read_msg (demo_one\<lparr>tail := 23, head := 38, mem := put_bytes (mem demo_one) 23 (enc_msg demo_msg),
     notified := 1\<rparr>) 8 = Inr demo_msg"
proof -
  have pop: "shmq_pop demo_one = Inr (Some 8, demo_one\<lparr>tail := 23\<rparr>)"
    by code_simp
  have push: "push_all 20 [demo_msg] (demo_one\<lparr>tail := 23\<rparr>) = Inr (demo_one\<lparr>tail := 23, head := 38,
     mem := put_bytes (mem demo_one) 23 (enc_msg demo_msg), notified := 1\<rparr>)"
    by code_simp
  show ?thesis
    using popped_block_intact [OF demo_one_rep pop _ push] pop push by simp
qed

text \<open>
  C32: The producer never blocks for good: if the message fits in a page, the process does not
  have to exit for lack of room, and the consumer drains the queue during a sleep, then
  \<open>shmq_push\<close> accepts the message.
\<close>

theorem shmq_push_progress:
  assumes rep: "q_rep ps q xs" and ok: "msg_ok (unat ps) x"
    and room: "tail q \<noteq> 8 \<or> hpos q + msg_len x \<le> qsz q"
  shows "\<exists>q'. shmq_push (\<lambda>i. pop_n (Suc (length xs))) ps q (fst x) (snd x) = Inr (0, q') \<and>
    (\<exists>ys. suffix ys xs \<and> q_rep ps q' (ys @ [x]))"
proof -
  have n: "13 \<le> unat (mb_length (fst x))" "unat (mb_length (fst x)) - 13 \<le> length (snd x)"
    "mb_type (fst x) \<noteq> PAD_BLOCK" "unat (mb_length (fst x)) = msg_len x"
    "unat (mb_length (fst x)) - 13 = length (snd x)"
    using ok by (auto simp: msg_ok_def msg_len_def)
  from rep peer_ok_pop_n [of ps "\<lambda>i. Suc (length xs)"] n(1-3) show ?thesis
  proof (cases rule: shmq_push_outcome)
    case big
    then show ?thesis using ok n by (simp add: msg_ok_def)
  next
    case exit
    then show ?thesis using room n by simp
  next
    case (full q1 q2 ys)
    then show ?thesis using push_wait_drained [OF full(7), of "mb_length (fst x)"] by simp
  next
    case (ok q1 q2 ys)
    then show ?thesis
      using append_message [OF ok(9), of x "notified q2 + 1"] assms(2) n by auto
  qed
qed

theorem shmq_push_progress_witness:
  "\<exists>q'. shmq_push (\<lambda>i. pop_n (Suc (length [demo_msg]))) 20 demo_one (fst demo_msg) (snd demo_msg) = Inr (0, q') \<and>
    (\<exists>ys. suffix ys [demo_msg] \<and> q_rep 20 q' (ys @ [demo_msg]))"
  by (rule shmq_push_progress [OF demo_one_rep]) (simp_all add: demo_one_def demo_empty_def)

text \<open>
  C33: \<open>shmq_push\<close> terminates the whole process with \<open>exit(-1)\<close> in exactly one situation:
  the message fits in a page but not before the end of the mapping, and \<open>tail\<close> is at the first
  block.  Every other call on a well-formed queue returns.
\<close>

theorem shmq_push_exit_iff:
  assumes rep: "q_rep ps q xs" and peer: "peer_ok ps peer" and fits: "msg_fits x"
  shows "shmq_push peer ps q (fst x) (snd x) = Inl e \<longleftrightarrow>
    e = Exit (-1) \<and> msg_len x \<le> unat ps \<and> tail q = 8 \<and> qsz q < hpos q + msg_len x"
proof -
  have n: "13 \<le> unat (mb_length (fst x))" "unat (mb_length (fst x)) - 13 \<le> length (snd x)"
    "mb_type (fst x) \<noteq> PAD_BLOCK" "unat (mb_length (fst x)) = msg_len x"
    using fits by (auto simp: msg_fits_def msg_len_def)
  have sub: "unat (q_length q - head q) = qsz q - hpos q"
    using q_repD [OF rep] by (intro unat_sub_le32) auto
  have "align_queue_head q (fst x) = Inl (Exit (-1))"
    if "tail q = 8" "qsz q < hpos q + msg_len x"
    using that sub q_repD [OF rep] n by (simp add: align_queue_head_def Let_def word_less_nat_alt)
  moreover from rep peer n(1-3) have
    "shmq_push peer ps q (fst x) (snd x) = Inl e \<Longrightarrow>
      e = Exit (-1) \<and> msg_len x \<le> unat ps \<and> tail q = 8 \<and> qsz q < hpos q + msg_len x"
    by (cases rule: shmq_push_outcome) (use n in \<open>auto simp: shmq_push_def word_less_nat_alt split: if_splits\<close>)
  ultimately show ?thesis
    using n q_repD(1) [OF rep] by (auto simp: shmq_push_def word_less_nat_alt)
qed

theorem shmq_push_exit_iff_witness:
  "shmq_push (\<lambda>i. pop_n 1) 20 demo_full (fst demo_msg) (snd demo_msg) = Inl (Exit (-1))"
proof -
  have "tail demo_full = 8 \<and> qsz demo_full < hpos demo_full + msg_len demo_msg"
    by (simp add: demo_full_def demo_empty_def)
  then show ?thesis
    using shmq_push_exit_iff [OF demo_full_rep peer_ok_pop_n [of 20 "\<lambda>i. 1"], of demo_msg "Exit (-1)"]
    by simp
qed

end
