(* ===== verification/Mp_List.thy ===== *)
theory Mp_List
  imports Mp_Prelude
begin

text \<open>
  The intrusive circular doubly linked list of \<open>src/src/List.h\<close>.  Nodes live at addresses of
  any type; the heap maps an address to its two pointer fields, \<open>None\<close> being the null pointer,
  and an access through a null pointer faults.  \<open>circ h hn xs\<close> says that the nodes \<open>xs\<close> hang,
  in this order, on the list head \<open>hn\<close>; push and delete are shown to be the list operations.
\<close>

section \<open>Nodes and operations\<close>

record 'a list_node =
  lprev :: "'a option"
  lnext :: "'a option"

type_synonym 'a lheap = "'a \<Rightarrow> 'a list_node"

definition set_prev :: "'a option \<Rightarrow> 'a option \<Rightarrow> 'a lheap \<Rightarrow> 'a lheap res" where
  "set_prev p v h = (case p of None \<Rightarrow> Inl Segv | Some a \<Rightarrow> Inr (h(a := (h a)\<lparr>lprev := v\<rparr>)))"

definition set_next :: "'a option \<Rightarrow> 'a option \<Rightarrow> 'a lheap \<Rightarrow> 'a lheap res" where
  "set_next p v h = (case p of None \<Rightarrow> Inl Segv | Some a \<Rightarrow> Inr (h(a := (h a)\<lparr>lnext := v\<rparr>)))"

definition INIT_LIST_HEAD :: "'a \<Rightarrow> 'a lheap \<Rightarrow> 'a lheap" where
  "INIT_LIST_HEAD ptr h = h(ptr := \<lparr>lprev = Some ptr, lnext = Some ptr\<rparr>)"

definition list_push :: "'a \<Rightarrow> 'a option \<Rightarrow> 'a option \<Rightarrow> 'a lheap \<Rightarrow> 'a lheap res" where
  "list_push new_node prev nxt h =
     bindR (set_prev nxt (Some new_node) h) (\<lambda>h1.
     bindR (set_next (Some new_node) nxt h1) (\<lambda>h2.
     bindR (set_prev (Some new_node) prev h2) (\<lambda>h3.
     set_next prev (Some new_node) h3)))"

definition list_push_front :: "'a \<Rightarrow> 'a \<Rightarrow> 'a lheap \<Rightarrow> 'a lheap res" where
  "list_push_front new_node hn h = list_push new_node (lprev (h hn)) (Some hn) h"

definition list_push_tail :: "'a \<Rightarrow> 'a \<Rightarrow> 'a lheap \<Rightarrow> 'a lheap res" where
  "list_push_tail new_node hn h = list_push new_node (lprev (h hn)) (Some hn) h"

definition list_del :: "'a option \<Rightarrow> 'a option \<Rightarrow> 'a lheap \<Rightarrow> 'a lheap res" where
  "list_del prev nxt h = bindR (set_prev nxt prev h) (set_next prev nxt)"

definition list_del_node :: "'a \<Rightarrow> 'a lheap \<Rightarrow> 'a lheap res" where
  "list_del_node node h =
     bindR (list_del (lprev (h node)) (lnext (h node)) h) (\<lambda>h1.
     bindR (set_next (Some node) None h1) (set_prev (Some node) None))"

definition list_del_init :: "'a \<Rightarrow> 'a lheap \<Rightarrow> 'a lheap res" where
  "list_del_init entry h =
     bindR (list_del (lprev (h entry)) (lnext (h entry)) h) (\<lambda>h1. Inr (INIT_LIST_HEAD entry h1))"

definition list_empty :: "'a \<Rightarrow> 'a lheap \<Rightarrow> bool" where
  "list_empty hn h \<longleftrightarrow> lnext (h hn) = Some hn"

text \<open>
  \<open>list_for_each_safe (pos, n, head)\<close>: \<open>n\<close> is read before the body runs, so the body may
  unlink \<open>pos\<close>.  The loop works on any state \<open>'s\<close> that contains the heap (\<open>hp\<close>); fuel
  bounds the number of tests of its condition, running out of it is \<open>Blocked\<close>.
\<close>

fun for_each_safe :: "nat \<Rightarrow> ('s \<Rightarrow> 'a lheap) \<Rightarrow> ('a \<Rightarrow> 's \<Rightarrow> 's res) \<Rightarrow> 'a \<Rightarrow> 'a option \<Rightarrow> 's \<Rightarrow> 's res" where
  "for_each_safe 0 hp body hn pos s = Inl Blocked"
| "for_each_safe (Suc fuel) hp body hn pos s =
     (case pos of None \<Rightarrow> Inl Segv
      | Some p \<Rightarrow> if p = hn then Inr s
                  else let n = lnext (hp s p) in
                       bindR (body p s) (\<lambda>s'. for_each_safe fuel hp body hn n s'))"

definition list_for_each_safe :: "nat \<Rightarrow> ('s \<Rightarrow> 'a lheap) \<Rightarrow> ('a \<Rightarrow> 's \<Rightarrow> 's res) \<Rightarrow> 'a \<Rightarrow> 's \<Rightarrow> 's res" where
  "list_for_each_safe fuel hp body hn s = for_each_safe fuel hp body hn (lnext (hp s hn)) s"

section \<open>Well-formed lists\<close>

fun links :: "'a lheap \<Rightarrow> 'a \<Rightarrow> 'a list \<Rightarrow> 'a \<Rightarrow> bool" where
  "links h a [] b \<longleftrightarrow> lnext (h a) = Some b \<and> lprev (h b) = Some a"
| "links h a (x # xs) b \<longleftrightarrow> lnext (h a) = Some x \<and> lprev (h x) = Some a \<and> links h x xs b"

definition circ :: "'a lheap \<Rightarrow> 'a \<Rightarrow> 'a list \<Rightarrow> bool" where
  "circ h hn xs \<longleftrightarrow> distinct (hn # xs) \<and> links h hn xs hn"

lemma links_append: "links h a (xs @ x # ys) b \<longleftrightarrow> links h a xs x \<and> links h x ys b"
  by (induction xs arbitrary: a) auto

lemma links_prev_end: "links h a xs b \<Longrightarrow> lprev (h b) = Some (last (a # xs))"
  by (induction xs arbitrary: a) auto

lemma links_next_start: "links h a xs b \<Longrightarrow> lnext (h a) = Some (hd (xs @ [b]))"
  by (cases xs) auto

lemma links_cong:
  "links h a xs b \<Longrightarrow> \<forall>y\<in>set (a # xs). lnext (h' y) = lnext (h y) \<Longrightarrow>
   \<forall>y\<in>set (xs @ [b]). lprev (h' y) = lprev (h y) \<Longrightarrow> links h' a xs b"
  by (induction xs arbitrary: a) auto

lemma links_retarget:
  "links h a xs b \<Longrightarrow> \<forall>y\<in>set xs. lprev (h' y) = lprev (h y) \<Longrightarrow>
   \<forall>y\<in>set (butlast (a # xs)). lnext (h' y) = lnext (h y) \<Longrightarrow>
   lnext (h' (last (a # xs))) = Some c \<Longrightarrow> lprev (h' c) = Some (last (a # xs)) \<Longrightarrow> links h' a xs c"
  by (induction xs arbitrary: a) auto

lemma circ_cong:
  assumes "circ h hn xs" "\<forall>y\<in>set (hn # xs). h' y = h y"
  shows "circ h' hn xs"
  using assms links_cong [of h hn xs hn h'] by (auto simp: circ_def)

lemma circ_init: "circ (INIT_LIST_HEAD hn h) hn []"
  by (simp add: circ_def INIT_LIST_HEAD_def)

lemma circ_empty_iff: "circ h hn xs \<Longrightarrow> list_empty hn h \<longleftrightarrow> xs = []"
  by (cases xs) (auto simp: circ_def list_empty_def)

lemma last_notin_butlast: "distinct xs \<Longrightarrow> xs \<noteq> [] \<Longrightarrow> last xs \<notin> set (butlast xs)"
  by (metis append_butlast_last_id distinct_butlast not_distinct_conv_prefix)

lemma node_both: "(r :: 'a list_node)\<lparr>lnext := n, lprev := p\<rparr> = \<lparr>lprev = p, lnext = n\<rparr>"
  by (cases r) simp

section \<open>Push and delete\<close>

lemma list_push_tail_circ:
  assumes c: "circ h hn xs" and x: "x \<notin> set (hn # xs)"
  shows "\<exists>h'. list_push_tail x hn h = Inr h' \<and> circ h' hn (xs @ [x]) \<and>
    (\<forall>y. y \<notin> set (x # hn # xs) \<longrightarrow> h' y = h y)"
proof -
  let ?l = "last (hn # xs)"
  have lk: "links h hn xs hn" and di: "distinct (hn # xs)" using c by (auto simp: circ_def)
  have lp: "lprev (h hn) = Some ?l" using lk by (rule links_prev_end)
  have l: "?l \<in> set (hn # xs)" by (rule last_in_set) simp
  then have lx: "?l \<noteq> x" using x by auto
  define h3 where "h3 = (h(hn := (h hn)\<lparr>lprev := Some x\<rparr>))(x := \<lparr>lprev = Some ?l, lnext = Some hn\<rparr>)"
  define h' where "h' = h3(?l := (h3 ?l)\<lparr>lnext := Some x\<rparr>)"
  have "list_push_tail x hn h = Inr h'"
    using x by (auto simp add: list_push_tail_def list_push_def set_prev_def set_next_def lp h3_def h'_def
      node_both simp del: last.simps)
  moreover have "links h' hn xs x"
  proof (rule links_retarget [OF lk])
    show "\<forall>y\<in>set xs. lprev (h' y) = lprev (h y)"
      using di x lx by (auto simp: h'_def h3_def)
    show "\<forall>y\<in>set (butlast (hn # xs)). lnext (h' y) = lnext (h y)"
      using di x lx last_notin_butlast [OF di] in_set_butlastD [of _ "hn # xs"]
      by (auto simp: h'_def h3_def simp del: butlast.simps last.simps)
    show "lnext (h' ?l) = Some x" "lprev (h' x) = Some ?l"
      using lx by (auto simp: h'_def h3_def simp del: last.simps)
  qed
  moreover have "links h' x [] hn"
    using x lx by (auto simp: h'_def h3_def simp del: last.simps)
  ultimately show ?thesis
    using di x l by (auto simp: circ_def links_append h'_def h3_def simp del: last.simps)
qed

lemma list_del_init_circ:
  assumes c: "circ h hn (xs @ x # ys)"
  shows "\<exists>h'. list_del_init x h = Inr h' \<and> circ h' hn (xs @ ys) \<and>
    (\<forall>y. y \<notin> set (hn # xs @ x # ys) \<longrightarrow> h' y = h y)"
proof -
  let ?p = "last (hn # xs)" and ?n = "hd (ys @ [hn])"
  have l1: "links h hn xs x" and l2: "links h x ys hn" and di: "distinct (hn # xs @ x # ys)"
    using c by (auto simp: circ_def links_append)
  have p: "lprev (h x) = Some ?p" using l1 by (rule links_prev_end)
  have n: "lnext (h x) = Some ?n" using l2 by (rule links_next_start)
  have pin: "?p \<in> set (hn # xs)" by (rule last_in_set) simp
  have nin: "?n \<in> set (ys @ [hn])" by (rule hd_in_set) simp
  define h1 where "h1 = h(?n := (h ?n)\<lparr>lprev := Some ?p\<rparr>)"
  define h2 where "h2 = h1(?p := (h1 ?p)\<lparr>lnext := Some ?n\<rparr>)"
  define h' where "h' = INIT_LIST_HEAD x h2"
  have px: "?p \<noteq> x" and nx: "?n \<noteq> x" using pin nin di by auto
  have "list_del_init x h = Inr h'"
    by (simp add: list_del_init_def list_del_def set_prev_def set_next_def p n h1_def h2_def h'_def)
  moreover have first: "links h' hn xs ?n"
  proof (rule links_retarget [OF l1])
    show "\<forall>y\<in>set xs. lprev (h' y) = lprev (h y)"
      using di nin by (auto simp: h'_def h2_def h1_def INIT_LIST_HEAD_def)
    show "\<forall>y\<in>set (butlast (hn # xs)). lnext (h' y) = lnext (h y)"
      using di px nx last_notin_butlast [of "hn # xs"] in_set_butlastD [of _ "hn # xs"]
      by (auto simp: h'_def h2_def h1_def INIT_LIST_HEAD_def simp del: butlast.simps last.simps)
    show "lnext (h' ?p) = Some ?n" "lprev (h' ?n) = Some ?p"
      using px nx by (auto simp: h'_def h2_def h1_def INIT_LIST_HEAD_def simp del: last.simps)
  qed
  moreover have "links h' hn (xs @ ys) hn"
  proof (cases ys)
    case Nil
    then show ?thesis using first by simp
  next
    case (Cons y ys')
    have "links h y ys' hn" using l2 Cons by simp
    then have "links h' y ys' hn"
    proof (rule links_cong)
      show "\<forall>z\<in>set (y # ys'). lnext (h' z) = lnext (h z)"
        using di Cons pin by (auto simp: h'_def h2_def h1_def INIT_LIST_HEAD_def simp del: last.simps)
      show "\<forall>z\<in>set (ys' @ [hn]). lprev (h' z) = lprev (h z)"
        using di Cons by (auto simp: h'_def h2_def h1_def INIT_LIST_HEAD_def simp del: last.simps)
    qed
    then show ?thesis using first Cons by (simp add: links_append)
  qed
  ultimately show ?thesis
    using di pin nin by (auto simp: circ_def h'_def h2_def h1_def INIT_LIST_HEAD_def simp del: last.simps)
qed

section \<open>Iteration\<close>

text \<open>
  The contract of a loop body under \<open>list_for_each_safe\<close>: whatever it does to the nodes
  already visited and to \<open>p\<close> itself, the nodes still to come keep their place.  Then the
  loop is a fold over the nodes that were on the list when it started, and ends.
\<close>

locale safe_loop =
  fixes hp :: "'s \<Rightarrow> 'a lheap"
    and body :: "'a \<Rightarrow> 's \<Rightarrow> 's res"
    and hn :: 'a
    and I :: "'s \<Rightarrow> bool"
  assumes body_law: "I s \<Longrightarrow> circ (hp s) hn (pre @ p # post) \<Longrightarrow> body p s = Inr s' \<Longrightarrow>
      I s' \<and> (\<exists>pre'. circ (hp s') hn (pre' @ post))"
begin

lemma for_each_fold:
  "I s \<Longrightarrow> circ (hp s) hn (pre @ post) \<Longrightarrow> length post < fuel \<Longrightarrow>
   for_each_safe fuel hp body hn (Some (hd (post @ [hn]))) s = foldR body post s"
proof (induction post arbitrary: pre s fuel)
  case Nil
  then show ?case by (cases fuel) auto
next
  case (Cons p post)
  then obtain f where f: "fuel = Suc f" by (cases fuel) auto
  have lk: "links (hp s) p post hn" and ne: "p \<noteq> hn"
    using Cons.prems(2) by (auto simp: circ_def links_append)
  have n: "lnext (hp s p) = Some (hd (post @ [hn]))" using lk by (rule links_next_start)
  show ?case
  proof (cases "body p s")
    case (Inl e)
    then show ?thesis using f ne by simp
  next
    case (Inr s')
    then obtain pre' where "I s'" "circ (hp s') hn (pre' @ post)"
      using body_law Cons.prems(1,2) by blast
    then show ?thesis using Cons.IH [of s' pre' f] Cons.prems(3) f ne n Inr by simp
  qed
qed

lemma loop_is_fold:
  assumes "I s" "circ (hp s) hn xs" "length xs < fuel"
  shows "list_for_each_safe fuel hp body hn s = foldR body xs s"
proof -
  have "lnext (hp s hn) = Some (hd (xs @ [hn]))"
    using assms(2) links_next_start by (auto simp: circ_def)
  then show ?thesis
    using for_each_fold [of s "[]" xs fuel] assms by (simp add: list_for_each_safe_def)
qed

end

section \<open>Properties\<close>

definition demo_heap :: "nat lheap" where
  "demo_heap = (\<lambda>a. \<lparr>lprev = None, lnext = None\<rparr>)
     (0 := \<lparr>lprev = Some 2, lnext = Some 3\<rparr>, 3 := \<lparr>lprev = Some 0, lnext = Some 2\<rparr>,
      2 := \<lparr>lprev = Some 3, lnext = Some 0\<rparr>)"

lemma demo_heap_circ [simp]: "circ demo_heap 0 [3, 2]"
  by (simp add: circ_def demo_heap_def)

text \<open>
  Inserting a node that is on no list and unlinking it again with \<open>list_del_init\<close> are
  the list operations append and remove on the circular list; nodes outside the list are not
  written.
\<close>

theorem list_insert_delete:
  assumes "circ h hn xs" "x \<notin> set (hn # xs)" "circ h hn (ys @ y # zs)"
  shows "(\<exists>h'. list_push_tail x hn h = Inr h' \<and> circ h' hn (xs @ [x]) \<and>
            (\<forall>z. z \<notin> set (x # hn # xs) \<longrightarrow> h' z = h z)) \<and>
         (\<exists>h'. list_del_init y h = Inr h' \<and> circ h' hn (ys @ zs) \<and>
            (\<forall>z. z \<notin> set (hn # ys @ y # zs) \<longrightarrow> h' z = h z))"
  using list_push_tail_circ [OF assms(1,2)] list_del_init_circ [OF assms(3)] by blast

theorem list_insert_delete_witness:
  "(\<exists>h'. list_push_tail 5 0 demo_heap = Inr h' \<and> circ h' 0 [3, 2, 5] \<and>
      (\<forall>z. z \<notin> {5, 0, 3, 2} \<longrightarrow> h' z = demo_heap z)) \<and>
   (\<exists>h'. list_del_init 3 demo_heap = Inr h' \<and> circ h' 0 [2] \<and>
      (\<forall>z. z \<notin> {0, 3, 2} \<longrightarrow> h' z = demo_heap z))"
  using list_insert_delete [OF demo_heap_circ, of 5 "[]" 3 "[2]"] by simp

text \<open>
  \<open>list_push_front\<close> appends at the tail, exactly as \<open>list_push_tail\<close> does, although its
  comment announces an insertion at the front.
\<close>

theorem list_push_front_appends:
  assumes "circ h hn xs" "x \<notin> set (hn # xs)"
  shows "\<exists>h'. list_push_front x hn h = Inr h' \<and> circ h' hn (xs @ [x])"
  using list_push_tail_circ [OF assms] by (auto simp: list_push_front_def list_push_tail_def)

theorem list_push_front_appends_witness:
  "\<exists>h'. list_push_front 5 0 demo_heap = Inr h' \<and> circ h' 0 [3, 2, 5]"
  using list_push_front_appends [OF demo_heap_circ, of 5] by simp

end
