(* ===== verification/Mp_Tcp.thy ===== *)
theory Mp_Tcp
  imports Mp_Prelude
begin

unbundle bit_operations_syntax

text \<open>
  The socket helpers of \<open>src/src/tcp.c\<close>.  The kernel is an argument: a loop that repeats a
  system call consumes a list of the kernel's answers, and a call for which no answer is left
  blocks.  Functions that make a fixed sequence of calls take the answers as a record and
  report the descriptors they close, so that leaks are visible.
\<close>

section \<open>System calls\<close>

text \<open>\<open>EAGAIN\<close> and \<open>EWOULDBLOCK\<close> are one value on Linux.\<close>

datatype errno = EINTR | EAGAIN | EMFILE | ENFILE | EINPROGRESS | Eother int

datatype recv_ans = RecvData "byte list" | RecvEof | RecvErr errno
datatype send_ans = SendOk nat | SendErr errno

record sockaddr_in =
  sin_addr :: u32
  sin_port :: "16 word"

datatype accept_ans = AccOk int sockaddr_in | AccErr errno

text \<open>What a receive or send helper tells its caller: the return value and \<open>errno\<close>.\<close>

datatype io_ret = Bytes "byte list" | Closed | Failed errno

fun ret_code :: "io_ret \<Rightarrow> int" where
  "ret_code (Bytes bs) = int (length bs)"
| "ret_code Closed = 0"
| "ret_code (Failed e) = -1"

section \<open>Options\<close>

definition O_NONBLOCK :: "32 word" where "O_NONBLOCK = 2048"

text \<open>\<open>set_io_blockability\<close>: the value written back with \<open>F_SETFL\<close>, from the one read with \<open>F_GETFL\<close>.\<close>

definition set_io_blockability :: "bool \<Rightarrow> 32 word \<Rightarrow> 32 word" where
  "set_io_blockability nonblock getfl =
     (if nonblock then O_NONBLOCK OR getfl else NOT O_NONBLOCK AND getfl)"

text \<open>C division truncates towards zero.\<close>

definition c_div :: "int \<Rightarrow> int \<Rightarrow> int" where
  "c_div a b = sgn a * sgn b * (\<bar>a\<bar> div \<bar>b\<bar>)"

definition c_mod :: "int \<Rightarrow> int \<Rightarrow> int" where
  "c_mod a b = a - b * c_div a b"

text \<open>The \<open>timeval\<close> handed to \<open>setsockopt\<close>: seconds and microseconds.\<close>

definition set_sock_snd_timeo :: "int \<Rightarrow> int \<times> int" where
  "set_sock_snd_timeo millisec = (c_div millisec 1000, c_mod millisec 1000 * 1000)"

definition set_sock_rcv_timeo :: "int \<Rightarrow> int \<times> int" where
  "set_sock_rcv_timeo millisec = (c_div millisec 1000, c_mod millisec 1000 * 1000)"

section \<open>Receiving and sending\<close>

text \<open>\<open>recv\<close> takes a \<open>size_t\<close>: a negative \<open>bufsize\<close> becomes a huge one.\<close>

fun safe_tcp_recv :: "int \<Rightarrow> recv_ans list \<Rightarrow> (io_ret \<times> recv_ans list) res" where
  "safe_tcp_recv bufsize [] = Inl Blocked"
| "safe_tcp_recv bufsize (RecvEof # as) = Inr (Closed, as)"
| "safe_tcp_recv bufsize (RecvData bs # as) =
     (let cur = take (nat (bufsize mod 2 ^ 64)) bs in
      if cur = [] then Inr (Closed, as) else Inr (Bytes cur, as))"
| "safe_tcp_recv bufsize (RecvErr e # as) =
     (if e = EINTR then safe_tcp_recv bufsize as else Inr (Failed e, as))"

text \<open>The loop of \<open>safe_tcp_recv_n\<close>; \<open>got\<close> are the bytes in the buffer so far.\<close>

fun recv_n_loop :: "nat \<Rightarrow> byte list \<Rightarrow> recv_ans list \<Rightarrow> (io_ret \<times> recv_ans list) res" where
  "recv_n_loop tot got [] = (if length got < tot then Inl Blocked else Inr (Bytes got, []))"
| "recv_n_loop tot got (a # as) =
     (if length got < tot then
        (case a of
           RecvEof \<Rightarrow> Inr (Closed, as)
         | RecvData bs \<Rightarrow> (let cur = take (tot - length got) bs in
             if cur = [] then Inr (Closed, as) else recv_n_loop tot (got @ cur) as)
         | RecvErr e \<Rightarrow> if e = EINTR then recv_n_loop tot got as
                        else if e = EAGAIN then Inr (Bytes got, as)
                        else Inr (Failed e, as))
      else Inr (Bytes got, a # as))"

definition safe_tcp_recv_n :: "int \<Rightarrow> recv_ans list \<Rightarrow> (io_ret \<times> recv_ans list) res" where
  "safe_tcp_recv_n tot as = (if tot > 0 then recv_n_loop (nat tot) [] as else Inl Abort)"

text \<open>
  The loop of \<open>safe_tcp_send_n\<close>: the return value and the number of bytes of the buffer the
  kernel took, which differ when an error follows a partial send.
\<close>

fun send_n_loop :: "nat \<Rightarrow> nat \<Rightarrow> send_ans list \<Rightarrow> (int \<times> nat \<times> send_ans list) res" where
  "send_n_loop tot sent [] = (if sent < tot then Inl Blocked else Inr (int sent, sent, []))"
| "send_n_loop tot sent (a # as) =
     (if sent < tot then
        (case a of
           SendOk k \<Rightarrow> send_n_loop tot (sent + min k (tot - sent)) as
         | SendErr e \<Rightarrow> if e = EINTR then send_n_loop tot sent as
                        else if e = EAGAIN then Inr (int sent, sent, as)
                        else Inr (-1, sent, as))
      else Inr (int sent, sent, a # as))"

definition safe_tcp_send_n :: "int \<Rightarrow> send_ans list \<Rightarrow> (int \<times> nat \<times> send_ans list) res" where
  "safe_tcp_send_n tot as = (if tot > 0 then send_n_loop (nat tot) 0 as else Inl Abort)"

section \<open>Opening sockets\<close>

datatype sock_type = SOCK_STREAM | SOCK_DGRAM

text \<open>Answers of the calls a listening socket needs, in the order they are made.\<close>

record listen_env =
  socket_r :: int
  reuse_r :: int
  rcvbuf_r :: int
  sndbuf_r :: int
  bind_r :: int
  listen_r :: int

text \<open>\<open>err\<close> after the \<open>goto ret\<close> chain.\<close>

definition listen_err :: "sock_type \<Rightarrow> listen_env \<Rightarrow> int" where
  "listen_err ty k =
     (if ty \<noteq> SOCK_DGRAM \<and> reuse_r k = -1 then -1
      else if rcvbuf_r k = -1 then -1
      else if sndbuf_r k = -1 then -1
      else if bind_r k = -1 then -1
      else if ty = SOCK_STREAM \<and> listen_r k = -1 then -1
      else bind_r k)"

text \<open>The result is the descriptor and the list of descriptors closed on the way.\<close>

definition safe_socket_listen :: "sock_type \<Rightarrow> int \<Rightarrow> int \<Rightarrow> listen_env \<Rightarrow> (int \<times> int list) res" where
  "safe_socket_listen ty backlog bufsize k =
     (if \<not> (backlog > 0 \<and> bufsize > 0 \<and> bufsize \<le> 10 * 1024 * 1024) then Inl Abort
      else if socket_r k = -1 then Inr (-1, [])
      else if listen_err ty k \<noteq> 0 then Inr (-1, [socket_r k])
      else Inr (socket_r k, []))"

definition passive_err :: "sock_type \<Rightarrow> listen_env \<Rightarrow> int" where
  "passive_err ty k =
     (if ty \<noteq> SOCK_DGRAM \<and> reuse_r k = -1 then -1
      else if rcvbuf_r k = -1 then -1
      else if sndbuf_r k = -1 then -1
      else if bind_r k < 0 then bind_r k
      else if ty = SOCK_STREAM \<and> listen_r k = -1 then -1
      else bind_r k)"

definition create_passive_endpoint :: "sock_type \<Rightarrow> int \<Rightarrow> int \<Rightarrow> int \<Rightarrow> listen_env \<Rightarrow> (int \<times> int list) res" where
  "create_passive_endpoint ty backlog bufsize gai k =
     (if \<not> (backlog > 0 \<and> bufsize > 0 \<and> bufsize \<le> 10 * 1024 * 1024) then Inl Abort
      else if gai \<noteq> 0 then Inr (-1, [])
      else if socket_r k < 0 then Inr (-1, [])
      else if passive_err ty k \<noteq> 0 then Inr (-1, [socket_r k])
      else Inr (socket_r k, []))"

text \<open>
  \<open>safe_tcp_accept\<close>: the answers of \<open>accept\<close> and, for each accepted descriptor, whether
  \<open>fcntl\<close> could make it non-blocking.
\<close>

datatype accept_ret = Accepted int sockaddr_in | NotAccepted errno

fun safe_tcp_accept :: "bool \<Rightarrow> errno option \<Rightarrow> accept_ans list \<Rightarrow> (accept_ret \<times> int list \<times> accept_ans list) res" where
  "safe_tcp_accept nonblock fcntl_err [] = Inl Blocked"
| "safe_tcp_accept nonblock fcntl_err (AccErr e # as) =
     (if e = EINTR then safe_tcp_accept nonblock fcntl_err as else Inr (NotAccepted e, [], as))"
| "safe_tcp_accept nonblock fcntl_err (AccOk newfd peer # as) =
     (case (nonblock, fcntl_err) of
        (True, Some e) \<Rightarrow> Inr (NotAccepted e, [newfd], as)
      | _ \<Rightarrow> Inr (Accepted newfd peer, [], as))"

text \<open>\<open>safe_tcp_connect\<close>: \<open>addr_ok\<close> says that \<open>inet_pton\<close> accepted the address.\<close>

definition safe_tcp_connect :: "bool \<Rightarrow> int \<Rightarrow> int \<Rightarrow> int \<times> int list" where
  "safe_tcp_connect addr_ok sock conn =
     (if \<not> addr_ok then (-1, [])
      else if sock = -1 then (-1, [])
      else if conn = -1 then (-1, [sock])
      else (sock, []))"

section \<open>Properties\<close>

lemma send_n_loop_bounds:
  "send_n_loop tot sent as = Inr (r, k, as') \<Longrightarrow> sent \<le> tot \<Longrightarrow>
   sent \<le> k \<and> k \<le> tot \<and> (r = int k \<or> r = -1 \<and> k < tot)"
proof (induction tot sent as rule: send_n_loop.induct)
  case (2 tot sent a as)
  then show ?case by (cases a) (force split: if_splits)+
qed (auto split: if_splits)

lemma safe_tcp_send_n_bounds:
  "safe_tcp_send_n tot as = Inr (r, k, as') \<Longrightarrow>
   0 < tot \<and> int k \<le> tot \<and> (r = int k \<or> r = -1 \<and> int k < tot)"
  using send_n_loop_bounds [of "nat tot" 0 as r k as']
  by (auto simp: safe_tcp_send_n_def split: if_splits)

text \<open>The data answers of a script that a receive loop consumed.\<close>

fun script_bytes :: "recv_ans list \<Rightarrow> byte list" where
  "script_bytes [] = []"
| "script_bytes (RecvData bs # as) = bs @ script_bytes as"
| "script_bytes (a # as) = script_bytes as"

lemma recv_n_loop_prefix:
  "recv_n_loop tot got as = Inr (Bytes bs, as') \<Longrightarrow> length got \<le> tot \<Longrightarrow>
   length bs \<le> tot \<and> (\<exists>used. as = used @ as' \<and> take (length bs) (got @ script_bytes used) = bs)"
proof (induction tot got as rule: recv_n_loop.induct)
  case (2 tot got a as)
  show ?case
  proof (cases "length got < tot")
    case False
    with 2 show ?thesis by auto
  next
    case True
    show ?thesis
    proof (cases a)
      case (RecvData cs)
      let ?cur = "take (tot - length got) cs"
      have ne: "?cur \<noteq> []" and step: "recv_n_loop tot (got @ ?cur) as = Inr (Bytes bs, as')"
        using "2.prems" True RecvData by (auto simp: Let_def split: if_splits)
      have "length (got @ ?cur) \<le> tot" using True by simp
      from "2.IH"(1) [OF True RecvData refl ne step this] obtain used where
        l: "length bs \<le> tot" and u: "as = used @ as'"
        and t: "take (length bs) ((got @ ?cur) @ script_bytes used) = bs" by blast
      have "take (length bs) (got @ cs @ script_bytes used) = take (length bs) ((got @ ?cur) @ script_bytes used)"
      proof (cases "length cs \<le> tot - length got")
        case False
        define n where "n = length bs - length got"
        have "n \<le> tot - length got" "n - length cs = 0" "n - length ?cur = 0"
          using l False by (auto simp: n_def)
        then show ?thesis
          by (simp add: min_def flip: n_def)
      qed simp
      with t u l RecvData show ?thesis by (intro conjI exI [of _ "a # used"]) auto
    next
      case RecvEof
      with 2 True show ?thesis by simp
    next
      case (RecvErr e)
      with 2 True show ?thesis
        by (auto split: if_splits)
    qed
  qed
qed (auto split: if_splits)

lemma send_n_loop_total:
  "sent \<le> tot \<Longrightarrow> list_all (\<lambda>a. a = SendErr EINTR \<or> (\<exists>k. a = SendOk k)) as \<Longrightarrow>
   tot \<le> sent + (\<Sum>a\<leftarrow>as. case a of SendOk k \<Rightarrow> k | _ \<Rightarrow> 0) \<Longrightarrow>
   \<exists>as'. send_n_loop tot sent as = Inr (int tot, tot, as')"
proof (induction tot sent as rule: send_n_loop.induct)
  case (2 tot sent a as)
  then show ?case by (cases a) (auto split: if_splits simp: min_def)
qed auto

text \<open>
  C34: \<open>safe_tcp_send_n\<close> returns the number of bytes the kernel took, at most the number
  requested, or -1 with fewer bytes taken; and when the kernel neither refuses nor would block
  and takes enough bytes in all, it returns once the whole buffer is sent, however the bytes are
  split and however often the call is interrupted.
\<close>

theorem safe_tcp_send_n_correct:
  assumes "0 < tot"
  shows "(\<forall>r k as'. safe_tcp_send_n tot as = Inr (r, k, as') \<longrightarrow>
            int k \<le> tot \<and> (r = int k \<or> r = -1 \<and> int k < tot)) \<and>
         (list_all (\<lambda>a. a = SendErr EINTR \<or> (\<exists>k. a = SendOk k)) as \<and>
          tot \<le> int (\<Sum>a\<leftarrow>as. case a of SendOk k \<Rightarrow> k | _ \<Rightarrow> 0) \<longrightarrow>
          (\<exists>as'. safe_tcp_send_n tot as = Inr (tot, nat tot, as')))"
proof -
  have "\<exists>as'. safe_tcp_send_n tot as = Inr (tot, nat tot, as')"
    if "list_all (\<lambda>a. a = SendErr EINTR \<or> (\<exists>k. a = SendOk k)) as"
      "tot \<le> int (\<Sum>a\<leftarrow>as. case a of SendOk k \<Rightarrow> k | _ \<Rightarrow> 0)"
    using send_n_loop_total [of 0 "nat tot" as] that assms by (auto simp: safe_tcp_send_n_def)
  then show ?thesis using safe_tcp_send_n_bounds by blast
qed

theorem safe_tcp_send_n_correct_witness:
  "\<exists>as'. safe_tcp_send_n 5 [SendOk 2, SendErr EINTR, SendOk 9] = Inr (5, 5, as')"
  using safe_tcp_send_n_correct [of 5 "[SendOk 2, SendErr EINTR, SendOk 9]"] by simp

text \<open>
  The bytes \<open>safe_tcp_recv_n\<close> reports are the first bytes of what the kernel delivered,
  in order, and never more than requested.
\<close>

theorem safe_tcp_recv_n_prefix:
  assumes "safe_tcp_recv_n tot as = Inr (Bytes bs, as')"
  shows "int (length bs) \<le> tot \<and> (\<exists>used. as = used @ as' \<and> take (length bs) (script_bytes used) = bs)"
proof -
  have "0 < tot" and "recv_n_loop (nat tot) [] as = Inr (Bytes bs, as')"
    using assms by (auto simp: safe_tcp_recv_n_def split: if_splits)
  with recv_n_loop_prefix [OF this(2)] show ?thesis by auto
qed

theorem safe_tcp_recv_n_prefix_witness:
  "\<exists>used. [RecvData [1, 2], RecvErr EINTR, RecvData [3, 4]] = used @ [] \<and>
     take (length [1, 2, 3]) (script_bytes used) = [1, 2, 3 :: byte]"
  using safe_tcp_recv_n_prefix [of 3 "[RecvData [1, 2], RecvErr EINTR, RecvData [3, 4]]" "[1, 2, 3]" "[]"]
  by (simp add: safe_tcp_recv_n_def)



end
