(* ===== verification/Mp_Net.thy ===== *)
theory Mp_Net
  imports Mp_Shmq Mp_List Mp_Tcp
begin

unbundle bit_operations_syntax

text \<open>
  Connection table and queues of the event loop (\<open>src/src/net.h\<close>, first half of
  \<open>src/src/net.c\<close>).  One record holds the globals of a process; the queues of descriptors to
  close and to poll again are the pointer lists of \<open>Mp_List\<close>, threaded through the table.

  The plugin is code outside the repository: its entry points are the fields of \<open>serv_if\<close>,
  functions on the process state, and an argument of every operation that calls them.  The
  kernel's answers are fields of the state that the operations consume.
\<close>

section \<open>State\<close>

datatype fd_type = fd_type_unused | fd_type_listen | fd_type_pipe | fd_type_remote | fd_type_mcast
  | fd_type_addr_mcast | fd_type_udp | fd_type_asyn_connect

record conn_buf =
  rcvprotlen :: u32
  recvlen :: u32
  sendlen :: u32
  sndbufsz :: u32
  recvptr :: "byte list option"
  sendptr :: "byte list option"

record remote_info =
  remote_port :: "16 word"
  remote_ip :: u32
  last_tm :: u32

record fdinfo =
  fi_id :: u32
  sockfd :: nat
  fi_type :: fd_type
  flag :: byte
  cb :: conn_buf
  sk :: remote_info
  bc_elem :: "nat option"
  callback :: "nat option"

text \<open>The list heads of \<open>epinfo\<close> and the \<open>list\<close> member of each \<open>fdinfo\<close>.\<close>

datatype naddr = CloseHead | EtinHead | FdNode nat

record ep_flags =
  ep_in :: bool
  ep_out :: bool
  ep_et :: bool

record ev_bits =
  ev_in :: bool
  ev_out :: bool
  ev_hup :: bool

record fdsession =
  s_fd :: u32
  s_id :: u32
  s_remote_port :: "16 word"
  s_remote_ip :: u32

text \<open>
  The counters of \<open>atomic.h\<close>, kept in arrays: \<open>atomic_read(&v[i])\<close> and \<open>atomic_set(&v[i], n)\<close> are plain
  accesses to an \<open>int\<close>.  The only such array, \<open>child_pids\<close>, belongs to one process and is shared with its
  signal handler; an index out of range is checked where the code uses one that is not constant.
\<close>

type_synonym atomic_t = int

definition atomic_read :: "atomic_t list \<Rightarrow> nat \<Rightarrow> int" where
  "atomic_read v i = v ! i"

definition atomic_set :: "atomic_t list \<Rightarrow> nat \<Rightarrow> int \<Rightarrow> atomic_t list" where
  "atomic_set v i n = v[i := n]"

declare atomic_read_def [simp] atomic_set_def [simp]

text \<open>
  \<open>'t\<close> is the type of the session hash table of GLib.  \<open>bc_elem\<close> pointers are indices into
  \<open>configs\<close>.  \<open>interest\<close>, \<open>tx\<close>, \<open>rx\<close> and \<open>closed\<close> record the traffic with the kernel: the
  events registered with epoll, the bytes handed to and taken from each socket since it was
  registered, the descriptors closed.
  \<open>overlap\<close> records that \<open>memcpy\<close> was called on overlapping buffers.
\<close>

record 't world =
  fds :: "fdinfo list"
  nodes :: "naddr lheap"
  maxfd :: int
  ev_count :: int
  seq :: u32
  now_sec :: int
  page_size :: u32
  send_buf_limit_size :: u32
  socket_timeout :: int
  is_parent :: bool
  bindconf :: bind_config
  cn :: 't
  cn_count :: int
  cur_bc :: nat
  idle_timeout :: int
  child_pids :: "atomic_t list"
  stopped :: bool
  interest :: "nat \<rightharpoonup> ep_flags"
  tx :: "nat \<Rightarrow> byte list"
  rx :: "nat \<Rightarrow> byte list"
  closed :: "nat list"
  overlap :: bool
  epoll_add_ok :: bool
  mmap_ok :: bool
  recv_as :: "recv_ans list"
  send_as :: "send_ans list"
  accept_as :: "accept_ans list"
  read_as :: "recv_ans list"
  epoll_as :: "(nat \<times> ev_bits) list option list"
  time_as :: "int list"
  so_error_as :: "bool list"
  fcntl_err :: "errno option"
  peer :: "nat \<Rightarrow> shm_queue \<Rightarrow> shm_queue"

record 't serv_if =
  get_pkg_len :: "nat \<Rightarrow> byte list \<Rightarrow> bool \<Rightarrow> i32"
  proc_pkg_from_client :: "byte list \<Rightarrow> fdsession \<Rightarrow> 't world \<Rightarrow> (int \<times> 't world) res"
  proc_pkg_from_serv :: "nat \<Rightarrow> byte list \<Rightarrow> 't world \<Rightarrow> 't world res"
  on_client_conn_closed :: "u32 \<Rightarrow> 't world \<Rightarrow> 't world res"
  on_fd_closed :: "nat \<Rightarrow> 't world \<Rightarrow> 't world res"
  init_service :: "(bool \<Rightarrow> 't world \<Rightarrow> (int \<times> 't world) res) option"
  fini_service :: "(bool \<Rightarrow> 't world \<Rightarrow> (int \<times> 't world) res) option"
  proc_udp_pkg :: "(nat \<Rightarrow> byte list \<Rightarrow> 't world \<Rightarrow> 't world res) option"
  proc_mcast_pkg :: "(byte list \<Rightarrow> 't world \<Rightarrow> 't world res) option"
  connect_cb :: "nat \<Rightarrow> int \<Rightarrow> 't world \<Rightarrow> 't world res"

abbreviation "CN_NEED_CLOSE \<equiv> (1 :: byte)"
abbreviation "CN_NEED_POLLIN \<equiv> (2 :: byte)"

definition zero_cb :: conn_buf where
  "zero_cb = \<lparr>rcvprotlen = 0, recvlen = 0, sendlen = 0, sndbufsz = 0, recvptr = None, sendptr = None\<rparr>"

definition zero_fdinfo :: fdinfo where
  "zero_fdinfo = \<lparr>fi_id = 0, sockfd = 0, fi_type = fd_type_unused, flag = 0, cb = zero_cb,
     sk = \<lparr>remote_port = 0, remote_ip = 0, last_tm = 0\<rparr>, bc_elem = None, callback = None\<rparr>"

abbreviation fdi :: "'t world \<Rightarrow> nat \<Rightarrow> fdinfo" where
  "fdi w fd \<equiv> fds w ! fd"

definition fd_ok :: "'t world \<Rightarrow> nat \<Rightarrow> bool" where
  "fd_ok w fd \<longleftrightarrow> fd < length (fds w)"

definition upd_fd :: "nat \<Rightarrow> (fdinfo \<Rightarrow> fdinfo) \<Rightarrow> 't world \<Rightarrow> 't world" where
  "upd_fd fd f w = w\<lparr>fds := (fds w)[fd := f (fdi w fd)]\<rparr>"

definition upd_cb :: "nat \<Rightarrow> (conn_buf \<Rightarrow> conn_buf) \<Rightarrow> 't world \<Rightarrow> 't world" where
  "upd_cb fd f = upd_fd fd (\<lambda>i. i\<lparr>cb := f (cb i)\<rparr>)"

definition touch :: "nat \<Rightarrow> 't world \<Rightarrow> 't world" where
  "touch fd w = upd_fd fd (\<lambda>i. i\<lparr>sk := (sk i)\<lparr>last_tm := word_of_int (now_sec w)\<rparr>\<rparr>) w"

text \<open>
  \<open>net_init\<close>: a zeroed table of \<open>sz\<close> entries and empty queues.  \<open>epfd\<close> is the answer of
  \<open>epoll_create\<close>, \<open>calloc_ok\<close> that of the allocation of the table; after a failed allocation
  the table is null, and 0 is returned.
\<close>

definition net_init :: "int \<Rightarrow> bool \<Rightarrow> nat \<Rightarrow> 't world \<Rightarrow> int \<times> 't world" where
  "net_init epfd calloc_ok sz w =
     (if epfd < 0 then (-1, w)
      else if \<not> calloc_ok then (0, w\<lparr>fds := [], interest := Map.empty\<rparr>)
      else (0, w\<lparr>fds := replicate sz zero_fdinfo, maxfd := 0, ev_count := 0, interest := Map.empty,
        nodes := INIT_LIST_HEAD EtinHead (INIT_LIST_HEAD CloseHead
          (\<lambda>a. case a of FdNode _ \<Rightarrow> \<lparr>lprev = None, lnext = None\<rparr> | _ \<Rightarrow> nodes w a))\<rparr>))"

section \<open>The close and poll-again queues\<close>

definition free_cb :: "conn_buf \<Rightarrow> conn_buf" where
  "free_cb p = p\<lparr>sendptr := None, recvptr := None, recvlen := 0, sendlen := 0\<rparr>"

definition del_from_close_queue :: "nat \<Rightarrow> 't world \<Rightarrow> 't world res" where
  "del_from_close_queue fd w =
     (if \<not> fd_ok w fd then Inl Segv
      else if flag (fdi w fd) AND CN_NEED_CLOSE \<noteq> 0 then
        bindR (list_del_init (FdNode fd) (nodes w)) (\<lambda>h.
          Inr ((upd_fd fd (\<lambda>i. i\<lparr>flag := flag i AND NOT CN_NEED_CLOSE\<rparr>) w)\<lparr>nodes := h\<rparr>))
      else Inr w)"

definition del_from_etin_queue :: "nat \<Rightarrow> 't world \<Rightarrow> 't world res" where
  "del_from_etin_queue fd w =
     (if \<not> fd_ok w fd then Inl Segv
      else if flag (fdi w fd) AND CN_NEED_POLLIN \<noteq> 0 then
        bindR (list_del_init (FdNode fd) (nodes w)) (\<lambda>h.
          Inr ((upd_fd fd (\<lambda>i. i\<lparr>flag := flag i AND NOT CN_NEED_POLLIN\<rparr>) w)\<lparr>nodes := h\<rparr>))
      else Inr w)"

definition add_to_etin_queue :: "nat \<Rightarrow> 't world \<Rightarrow> 't world res" where
  "add_to_etin_queue fd w =
     (if \<not> fd_ok w fd then Inl Segv
      else if flag (fdi w fd) AND (CN_NEED_CLOSE OR CN_NEED_POLLIN) = 0 then
        bindR (list_push_tail (FdNode fd) EtinHead (nodes w)) (\<lambda>h.
          Inr ((upd_fd fd (\<lambda>i. i\<lparr>flag := flag i OR CN_NEED_POLLIN\<rparr>) w)\<lparr>nodes := h\<rparr>))
      else Inr w)"

definition add_to_close_queue :: "nat \<Rightarrow> 't world \<Rightarrow> 't world res" where
  "add_to_close_queue fd w =
     bindR (del_from_etin_queue fd w) (\<lambda>w1.
       if flag (fdi w1 fd) AND CN_NEED_CLOSE = 0 then
         bindR (list_push_tail (FdNode fd) CloseHead (nodes w1)) (\<lambda>h.
           Inr ((upd_fd fd (\<lambda>i. i\<lparr>flag := flag i OR CN_NEED_CLOSE\<rparr>) w1)\<lparr>nodes := h\<rparr>))
       else Inr w1)"

section \<open>Adding and removing connections\<close>

text \<open>\<open>add_events\<close> exits when epoll refuses; \<open>mod_events\<close> fails on a descriptor epoll does not watch.\<close>

definition add_events :: "nat \<Rightarrow> ep_flags \<Rightarrow> 't world \<Rightarrow> 't world res" where
  "add_events fd flags w =
     (if epoll_add_ok w then Inr (w\<lparr>interest := (interest w)(fd \<mapsto> flags)\<rparr>) else Inl (Exit 1))"

definition mod_events :: "nat \<Rightarrow> bool \<Rightarrow> 't world \<Rightarrow> int \<times> 't world" where
  "mod_events fd out w =
     (case interest w fd of
        None \<Rightarrow> (-1, w)
      | Some _ \<Rightarrow> (0, w\<lparr>interest := (interest w)(fd \<mapsto> \<lparr>ep_in = True, ep_out = out, ep_et = True\<rparr>)\<rparr>))"

definition conn_events :: "fd_type \<Rightarrow> ep_flags" where
  "conn_events ty =
     (if ty \<in> {fd_type_pipe, fd_type_mcast, fd_type_addr_mcast, fd_type_udp}
      then \<lparr>ep_in = True, ep_out = False, ep_et = False\<rparr>
      else if ty = fd_type_asyn_connect then \<lparr>ep_in = False, ep_out = True, ep_et = False\<rparr>
      else \<lparr>ep_in = True, ep_out = False, ep_et = True\<rparr>)"

text \<open>The static counter of \<open>do_add_conn\<close>: the next connection id, never 0.\<close>

definition next_seq :: "u32 \<Rightarrow> u32" where
  "next_seq s = (if s + 1 = 0 then s + 1 + 1 else s + 1)"

definition do_add_conn :: "nat \<Rightarrow> fd_type \<Rightarrow> sockaddr_in option \<Rightarrow> nat option \<Rightarrow> 't world \<Rightarrow> 't world res" where
  "do_add_conn fd ty pr bc w =
     bindR (add_events fd (conn_events ty) w) (\<lambda>w1.
       if \<not> fd_ok w1 fd then Inl Segv
       else let s = next_seq (seq w1) in
         Inr (w1\<lparr>
           fds := (fds w1)[fd := zero_fdinfo\<lparr>sockfd := fd, fi_type := ty, fi_id := s,
             sk := (case pr of None \<Rightarrow> sk zero_fdinfo
                    | Some a \<Rightarrow> \<lparr>remote_port = sin_port a, remote_ip = sin_addr a, last_tm = 0\<rparr>),
             bc_elem := bc\<rparr>],
           nodes := (nodes w1)(FdNode fd := \<lparr>lprev = None, lnext = None\<rparr>),
           seq := s, tx := (tx w1)(fd := []), rx := (rx w1)(fd := []),
           maxfd := (if maxfd w1 > int fd then maxfd w1 else int fd),
           ev_count := ev_count w1 + 1\<rparr>))"

text \<open>The downward search for the new \<open>maxfd\<close>: the index found, or -1.\<close>

fun scan_down :: "fdinfo list \<Rightarrow> nat \<Rightarrow> int" where
  "scan_down fs 0 = -1"
| "scan_down fs (Suc i) = (if fi_type (fs ! i) \<noteq> fd_type_unused then int i else scan_down fs i)"

text \<open>\<open>shmq_push\<close> on the receive queue of a bind element, null being a fault.\<close>

definition push_recvq :: "nat option \<Rightarrow> shm_block \<Rightarrow> byte list \<Rightarrow> 't world \<Rightarrow> (int \<times> 't world) res" where
  "push_recvq bc mb data w =
     (case bc of None \<Rightarrow> Inl Segv
      | Some i \<Rightarrow>
        if i < length (configs (bindconf w)) then
          (let e = configs (bindconf w) ! i in
           bindR (shmq_push (peer w) (page_size w) (recvq e) mb data) (\<lambda>(r, q).
             Inr (r, w\<lparr>bindconf := (bindconf w)\<lparr>configs :=
                        (configs (bindconf w))[i := e\<lparr>recvq := q\<rparr>]\<rparr>\<rparr>)))
        else Inl Segv)"

text \<open>
  \<open>do_del_conn\<close>; its second argument is 0 in the worker, 1 in the parent (the worker is told
  with a \<open>CLOSE_BLOCK\<close>) and 2 for a quiet removal.
\<close>

definition notify_close :: "'t serv_if \<Rightarrow> nat \<Rightarrow> nat \<Rightarrow> 't world \<Rightarrow> 't world res" where
  "notify_close dll fd mode w =
     (if mode = 0 then on_fd_closed dll fd w
      else if mode = 1 then
        bindR (push_recvq (bc_elem (fdi w fd))
          \<lparr>mb_id = fi_id (fdi w fd), mb_fd = of_nat fd, mb_length = 13, mb_type = CLOSE_BLOCK\<rparr> [] w)
          (\<lambda>(r, w'). Inr w')
      else Inr w)"

definition release_fd :: "nat \<Rightarrow> 't world \<Rightarrow> 't world" where
  "release_fd fd w =
     (let w1 = upd_fd fd (\<lambda>i. i\<lparr>cb := free_cb (cb i), fi_type := fd_type_unused\<rparr>) w in
      w1\<lparr>closed := closed w1 @ [fd], interest := (interest w1)(fd := None),
         ev_count := ev_count w1 - 1,
         maxfd := (if maxfd w1 = int fd then scan_down (fds w1) fd else maxfd w1)\<rparr>)"

definition do_del_conn :: "'t serv_if \<Rightarrow> nat \<Rightarrow> nat \<Rightarrow> 't world \<Rightarrow> 't world res" where
  "do_del_conn dll fd mode w =
     (if \<not> fd_ok w fd then Inl Segv
      else if fi_type (fdi w fd) = fd_type_unused then Inr w
      else bindR (notify_close dll fd mode w) (\<lambda>w1.
        bindR (del_from_etin_queue fd w1) (\<lambda>w2.
        bindR (del_from_close_queue fd w2) (\<lambda>w3.
        Inr (release_fd fd w3)))))"

text \<open>The packed \<open>remote_info\<close> that accompanies an \<open>OPEN_BLOCK\<close>.\<close>

definition enc_remote :: "remote_info \<Rightarrow> byte list" where
  "enc_remote r = le16 (remote_port r) @ le32 (remote_ip r) @ le32 (last_tm r)"

text \<open>
  \<open>accept\<close> returns a descriptor that is not open.  A script of answers that names one in use is not
  the behaviour of a kernel, and the run ends there; one that was closed before, in the same
  iteration or earlier, may come back.
\<close>

definition do_open_conn :: "'t serv_if \<Rightarrow> nat \<Rightarrow> bool \<Rightarrow> 't world \<Rightarrow> (int \<times> 't world) res" where
  "do_open_conn dll fd isconn w =
     (if \<not> fd_ok w fd then Inl Segv
      else bindR (safe_tcp_accept True (fcntl_err w) (accept_as w)) (\<lambda>(r, cl, as).
        let w0 = w\<lparr>accept_as := as, closed := closed w @ map nat cl\<rparr> in
        case r of
          Accepted newfd pr \<Rightarrow>
            if nat newfd < length (fds w0) \<and> fi_type (fdi w0 (nat newfd)) \<noteq> fd_type_unused then Inl Blocked
            else bindR (do_add_conn (nat newfd) fd_type_remote (Some pr) (bc_elem (fdi w0 fd)) w0) (\<lambda>w1.
            let w2 = touch (nat newfd) w1; i = fdi w2 (nat newfd) in
            if isconn then
              bindR (push_recvq (bc_elem i)
                \<lparr>mb_id = fi_id i, mb_fd = of_nat (nat newfd), mb_length = 23, mb_type = OPEN_BLOCK\<rparr>
                (enc_remote (sk i)) w2) (\<lambda>(pr, w3).
                if pr = -1 then bindR (do_del_conn dll (nat newfd) 2 w3) (\<lambda>w4. Inr (newfd, w4))
                else Inr (newfd, w3))
            else Inr (newfd, w2))
        | NotAccepted e \<Rightarrow>
            if e = EMFILE \<or> e = ENFILE then bindR (add_to_etin_queue fd w0) (\<lambda>w1. Inr (-1, w1))
            else if e = EAGAIN then bindR (del_from_etin_queue fd w0) (\<lambda>w1. Inr (-1, w1))
            else Inr (-1, w0)))"


section \<open>The invariant of the table and its queues\<close>

definition used :: "'t world \<Rightarrow> nat set" where
  "used w = {fd. fd < length (fds w) \<and> fi_type (fdi w fd) \<noteq> fd_type_unused}"

text \<open>
  The two pointer lists hold exactly the descriptors with the matching flag, each once, and
  no descriptor has both flags.
\<close>

definition queues_ok :: "'t world \<Rightarrow> nat list \<Rightarrow> nat list \<Rightarrow> bool" where
  "queues_ok w cl et \<longleftrightarrow>
     circ (nodes w) CloseHead (map FdNode cl) \<and> circ (nodes w) EtinHead (map FdNode et) \<and>
     set cl = {fd. fd < length (fds w) \<and> flag (fdi w fd) = CN_NEED_CLOSE} \<and>
     set et = {fd. fd < length (fds w) \<and> flag (fdi w fd) = CN_NEED_POLLIN} \<and>
     (\<forall>fd<length (fds w). flag (fdi w fd) \<in> {0, CN_NEED_CLOSE, CN_NEED_POLLIN})"

definition table_ok :: "'t world \<Rightarrow> bool" where
  "table_ok w \<longleftrightarrow>
     (\<forall>fd\<in>used w. sockfd (fdi w fd) = fd \<and> fi_id (fdi w fd) \<noteq> 0 \<and> int fd \<le> maxfd w) \<and>
     (\<forall>fd<length (fds w). fd \<notin> used w \<longrightarrow> flag (fdi w fd) = 0) \<and>
     -1 \<le> maxfd w \<and> maxfd w < int (length (fds w)) \<and> ev_count w = int (card (used w))"

definition net_inv :: "'t world \<Rightarrow> nat list \<Rightarrow> nat list \<Rightarrow> bool" where
  "net_inv w cl et \<longleftrightarrow> queues_ok w cl et \<and> table_ok w"

lemma finite_used [simp]: "finite (used w)"
  by (simp add: used_def)

lemma fd_ok_iff: "fd_ok w fd \<longleftrightarrow> fd < length (fds w)"
  by (simp add: fd_ok_def)

text \<open>A step that rewrites one flag and the heads.\<close>

definition set_flag :: "nat \<Rightarrow> byte \<Rightarrow> naddr lheap \<Rightarrow> 't world \<Rightarrow> 't world" where
  "set_flag fd v h w = (upd_fd fd (\<lambda>i. i\<lparr>flag := v\<rparr>) w)\<lparr>nodes := h\<rparr>"

lemma set_flag_sel [simp]:
  "length (fds (set_flag fd v h w)) = length (fds w)"
  "nodes (set_flag fd v h w) = h"
  "fd < length (fds w) \<Longrightarrow> fdi (set_flag fd v h w) x = (if x = fd then (fdi w fd)\<lparr>flag := v\<rparr> else fdi w x)"
  "maxfd (set_flag fd v h w) = maxfd w" "ev_count (set_flag fd v h w) = ev_count w"
  "closed (set_flag fd v h w) = closed w" "interest (set_flag fd v h w) = interest w"
  by (auto simp: set_flag_def upd_fd_def)

lemma set_flag_set_flag [simp]:
  "fd < length (fds w) \<Longrightarrow> set_flag fd v h (set_flag fd v' h' w) = set_flag fd v h w"
  by (simp add: set_flag_def upd_fd_def)

lemma used_set_flag [simp]: "fd < length (fds w) \<Longrightarrow> used (set_flag fd v h w) = used w"
  by (auto simp: used_def)

lemma table_ok_set_flag:
  "table_ok w \<Longrightarrow> fd < length (fds w) \<Longrightarrow> v = 0 \<or> fd \<in> used w \<Longrightarrow> table_ok (set_flag fd v h w)"
  by (auto simp: table_ok_def)

lemma inj_FdNode [simp]: "inj FdNode"
  by (simp add: inj_def)

lemma circ_FdNode_distinct: "circ h hn (map FdNode xs) \<Longrightarrow> distinct xs"
  by (auto simp: circ_def distinct_map)

lemma queues_ok_flag_cases:
  assumes "queues_ok w cl et" "fd < length (fds w)"
  obtains (none) "flag (fdi w fd) = 0" "fd \<notin> set cl" "fd \<notin> set et"
    | (close) "flag (fdi w fd) = CN_NEED_CLOSE" "fd \<in> set cl" "fd \<notin> set et"
    | (pollin) "flag (fdi w fd) = CN_NEED_POLLIN" "fd \<notin> set cl" "fd \<in> set et"
proof -
  have "flag (fdi w fd) \<in> {0, 1, 2}" using assms by (auto simp: queues_ok_def)
  then show thesis using that assms by (auto simp: queues_ok_def)
qed

text \<open>Unlinking from and appending to the lists, at the level of descriptors.\<close>

lemma unlink_FdNode:
  assumes c: "circ h hn (map FdNode xs)" and d: "circ h hn' (map FdNode ys)"
    and "fd \<in> set xs" "fd \<notin> set ys" "set xs \<inter> set ys = {}" "hn \<noteq> hn'"
    "hn' \<notin> range FdNode" "hn \<notin> range FdNode"
  shows "\<exists>h'. list_del_init (FdNode fd) h = Inr h' \<and>
    circ h' hn (map FdNode (remove1 fd xs)) \<and> circ h' hn' (map FdNode ys)"
proof -
  have di: "distinct xs" by (rule circ_FdNode_distinct [OF c])
  obtain as bs where xs: "xs = as @ fd # bs" using \<open>fd \<in> set xs\<close> split_list by fast
  with di have r: "remove1 fd xs = as @ bs" by (simp add: remove1_append)
  obtain h' where h': "list_del_init (FdNode fd) h = Inr h'" "circ h' hn (map FdNode as @ map FdNode bs)"
    "\<forall>y. y \<notin> set (hn # map FdNode as @ FdNode fd # map FdNode bs) \<longrightarrow> h' y = h y"
    using list_del_init_circ [of h hn "map FdNode as" "FdNode fd" "map FdNode bs"] c xs by auto
  have "\<forall>y\<in>set (hn' # map FdNode ys). h' y = h y"
    using h'(3) assms xs by (auto simp: image_iff)
  then have "circ h' hn' (map FdNode ys)" by (rule circ_cong [OF d])
  with h' r show ?thesis by auto
qed

lemma append_FdNode:
  assumes c: "circ h hn (map FdNode xs)" and d: "circ h hn' (map FdNode ys)"
    and "fd \<notin> set xs" "fd \<notin> set ys" "set xs \<inter> set ys = {}" "hn \<noteq> hn'"
    "hn' \<notin> range FdNode" "hn \<notin> range FdNode"
  shows "\<exists>h'. list_push_tail (FdNode fd) hn h = Inr h' \<and>
    circ h' hn (map FdNode (xs @ [fd])) \<and> circ h' hn' (map FdNode ys)"
proof -
  obtain h' where h': "list_push_tail (FdNode fd) hn h = Inr h'" "circ h' hn (map FdNode xs @ [FdNode fd])"
    "\<forall>y. y \<notin> set (FdNode fd # hn # map FdNode xs) \<longrightarrow> h' y = h y"
    using list_push_tail_circ [OF c, of "FdNode fd"] assms by auto
  have "\<forall>y\<in>set (hn' # map FdNode ys). h' y = h y"
    using h'(3) assms by (auto simp: image_iff)
  then have "circ h' hn' (map FdNode ys)" by (rule circ_cong [OF d])
  with h' show ?thesis by auto
qed

lemma queues_ok_disjoint:
  assumes "queues_ok w cl et"
  shows "set cl \<inter> set et = {}" "distinct cl" "distinct et"
proof -
  show "set cl \<inter> set et = {}" using assms by (auto simp: queues_ok_def)
  show "distinct cl" "distinct et"
    using assms by (auto simp: queues_ok_def dest: circ_FdNode_distinct)
qed

lemma queues_ok_set_flag:
  assumes "queues_ok w cl et" "fd < length (fds w)" "v \<in> {0, 1, 2}"
    "circ h CloseHead (map FdNode cl')" "circ h EtinHead (map FdNode et')"
    "set cl' = (if v = 1 then insert fd (set cl) else set cl - {fd})"
    "set et' = (if v = 2 then insert fd (set et) else set et - {fd})"
  shows "queues_ok (set_flag fd v h w) cl' et'"
  using assms by (auto simp: queues_ok_def)

text \<open>What the four queue operations do to the rest of the state: nothing but the flag of \<open>fd\<close>.\<close>

definition unflagged :: "nat \<Rightarrow> 't world \<Rightarrow> 't world \<Rightarrow> bool" where
  "unflagged fd w w' \<longleftrightarrow> w' = w \<or> (\<exists>h. w' = set_flag fd 0 h w)"

definition reflagged :: "nat \<Rightarrow> 't world \<Rightarrow> 't world \<Rightarrow> bool" where
  "reflagged fd w w' \<longleftrightarrow> w' = w \<or> (\<exists>v h. w' = set_flag fd v h w)"

lemma unflagged_table_ok: "unflagged fd w w' \<Longrightarrow> fd < length (fds w) \<Longrightarrow> table_ok w \<Longrightarrow> table_ok w'"
  by (auto simp: unflagged_def table_ok_set_flag)

lemma reflagged_table_ok: "reflagged fd w w' \<Longrightarrow> fd < length (fds w) \<Longrightarrow> fd \<in> used w \<Longrightarrow> table_ok w \<Longrightarrow> table_ok w'"
  by (auto simp: reflagged_def table_ok_set_flag)

lemma unflagged_used:
  "unflagged fd w w' \<Longrightarrow> fd < length (fds w) \<Longrightarrow> used w' = used w \<and> length (fds w') = length (fds w)"
  by (auto simp: unflagged_def)

lemma del_from_close_queue_spec:
  assumes q: "queues_ok w cl et" and fd: "fd < length (fds w)"
  shows "\<exists>w'. del_from_close_queue fd w = Inr w' \<and> queues_ok w' (remove1 fd cl) et \<and> unflagged fd w w'"
  using q fd
proof (cases rule: queues_ok_flag_cases)
  case close
  then obtain h where h: "list_del_init (FdNode fd) (nodes w) = Inr h"
    "circ h CloseHead (map FdNode (remove1 fd cl))" "circ h EtinHead (map FdNode et)"
    using unlink_FdNode [of "nodes w" CloseHead cl EtinHead et fd] q queues_ok_disjoint [OF q]
    by (auto simp: queues_ok_def)
  then have "queues_ok (set_flag fd 0 h w) (remove1 fd cl) et"
    using close queues_ok_disjoint [OF q] by (intro queues_ok_set_flag [OF q fd]) auto
  moreover have "del_from_close_queue fd w = Inr (set_flag fd 0 h w)"
    using fd close h by (simp add: del_from_close_queue_def fd_ok_iff set_flag_def upd_fd_def)
  ultimately show ?thesis by (auto simp: unflagged_def)
qed (use q fd in \<open>auto simp: del_from_close_queue_def fd_ok_iff remove1_idem unflagged_def\<close>)

lemma del_from_etin_queue_spec:
  assumes q: "queues_ok w cl et" and fd: "fd < length (fds w)"
  shows "\<exists>w'. del_from_etin_queue fd w = Inr w' \<and> queues_ok w' cl (remove1 fd et) \<and> unflagged fd w w'"
  using q fd
proof (cases rule: queues_ok_flag_cases)
  case pollin
  then obtain h where h: "list_del_init (FdNode fd) (nodes w) = Inr h"
    "circ h EtinHead (map FdNode (remove1 fd et))" "circ h CloseHead (map FdNode cl)"
    using unlink_FdNode [of "nodes w" EtinHead et CloseHead cl fd] q queues_ok_disjoint [OF q]
    by (auto simp: queues_ok_def)
  then have "queues_ok (set_flag fd 0 h w) cl (remove1 fd et)"
    using pollin queues_ok_disjoint [OF q] by (intro queues_ok_set_flag [OF q fd]) auto
  moreover have "del_from_etin_queue fd w = Inr (set_flag fd 0 h w)"
    using fd pollin h by (simp add: del_from_etin_queue_def fd_ok_iff set_flag_def upd_fd_def)
  ultimately show ?thesis by (auto simp: unflagged_def)
qed (use q fd in \<open>auto simp: del_from_etin_queue_def fd_ok_iff remove1_idem unflagged_def\<close>)

lemma add_to_etin_queue_spec:
  assumes q: "queues_ok w cl et" and fd: "fd < length (fds w)"
  shows "\<exists>w'. add_to_etin_queue fd w = Inr w' \<and> reflagged fd w w' \<and>
    queues_ok w' cl (if fd \<in> set cl \<union> set et then et else et @ [fd])"
  using q fd
proof (cases rule: queues_ok_flag_cases)
  case none
  then obtain h where h: "list_push_tail (FdNode fd) EtinHead (nodes w) = Inr h"
    "circ h EtinHead (map FdNode (et @ [fd]))" "circ h CloseHead (map FdNode cl)"
    using append_FdNode [of "nodes w" EtinHead et CloseHead cl fd] q queues_ok_disjoint [OF q]
    by (auto simp: queues_ok_def)
  then have "queues_ok (set_flag fd 2 h w) cl (et @ [fd])"
    using none by (intro queues_ok_set_flag [OF q fd]) auto
  moreover have "add_to_etin_queue fd w = Inr (set_flag fd 2 h w)"
    using fd none h by (simp add: add_to_etin_queue_def fd_ok_iff set_flag_def upd_fd_def)
  ultimately show ?thesis using none by (auto simp: reflagged_def)
qed (use q fd in \<open>auto simp: add_to_etin_queue_def fd_ok_iff reflagged_def\<close>)

lemma add_to_close_queue_spec:
  assumes q: "queues_ok w cl et" and fd: "fd < length (fds w)"
  shows "\<exists>w'. add_to_close_queue fd w = Inr w' \<and> reflagged fd w w' \<and>
    queues_ok w' (if fd \<in> set cl then cl else cl @ [fd]) (remove1 fd et)"
proof -
  obtain w1 where w1: "del_from_etin_queue fd w = Inr w1" "queues_ok w1 cl (remove1 fd et)"
    "unflagged fd w w1"
    using del_from_etin_queue_spec [OF q fd] by auto
  have l: "length (fds w1) = length (fds w)" using unflagged_used [OF w1(3) fd] by simp
  have ne: "fd \<notin> set (remove1 fd et)" using queues_ok_disjoint [OF q] by simp
  show ?thesis
  proof (cases "fd \<in> set cl")
    case True
    then have "flag (fdi w1 fd) = 1" using w1(2) by (auto simp: queues_ok_def)
    then have "add_to_close_queue fd w = Inr w1" using w1 by (simp add: add_to_close_queue_def)
    then show ?thesis using w1 True by (auto simp: unflagged_def reflagged_def)
  next
    case False
    then have n: "flag (fdi w1 fd) = 0"
      using w1(2) ne fd l by (auto elim!: queues_ok_flag_cases [of w1 cl "remove1 fd et" fd])
    obtain h where h: "list_push_tail (FdNode fd) CloseHead (nodes w1) = Inr h"
      "circ h CloseHead (map FdNode (cl @ [fd]))" "circ h EtinHead (map FdNode (remove1 fd et))"
      using append_FdNode [of "nodes w1" CloseHead cl EtinHead "remove1 fd et" fd] w1(2) ne False
        queues_ok_disjoint [OF w1(2)] by (auto simp: queues_ok_def)
    have "queues_ok (set_flag fd 1 h w1) (cl @ [fd]) (remove1 fd et)"
      using w1(2) fd l h ne by (intro queues_ok_set_flag [OF w1(2)]) auto
    moreover have "add_to_close_queue fd w = Inr (set_flag fd 1 h w1)"
      using n w1 h fd l by (simp add: add_to_close_queue_def set_flag_def upd_fd_def)
    moreover have "reflagged fd w (set_flag fd 1 h w1)"
      using w1(3) fd unfolding unflagged_def reflagged_def by (metis set_flag_set_flag)
    ultimately show ?thesis using False by auto
  qed
qed

section \<open>Adding and removing keep the invariant\<close>

lemma scan_down_bounds: "-1 \<le> scan_down fs n \<and> scan_down fs n < int n"
  by (induction n) auto

lemma scan_down_max: "j < n \<Longrightarrow> fi_type (fs ! j) \<noteq> fd_type_unused \<Longrightarrow> int j \<le> scan_down fs n"
  by (induction n) (auto simp: less_Suc_eq)

lemma next_seq_nonzero [simp]: "next_seq s \<noteq> 0"
  by (auto simp: next_seq_def)

lemma net_inv_notin_used:
  assumes "net_inv w cl et" "fd \<notin> used w" "fd < length (fds w)"
  shows "fd \<notin> set cl" "fd \<notin> set et" "flag (fdi w fd) = 0"
  using assms by (auto simp: net_inv_def table_ok_def queues_ok_def)

text \<open>The entry \<open>do_add_conn\<close> writes.\<close>

definition new_entry :: "nat \<Rightarrow> fd_type \<Rightarrow> u32 \<Rightarrow> sockaddr_in option \<Rightarrow> nat option \<Rightarrow> fdinfo" where
  "new_entry fd ty s pr bc = zero_fdinfo\<lparr>sockfd := fd, fi_type := ty, fi_id := s,
     sk := (case pr of None \<Rightarrow> sk zero_fdinfo
            | Some a \<Rightarrow> \<lparr>remote_port = sin_port a, remote_ip = sin_addr a, last_tm = 0\<rparr>),
     bc_elem := bc\<rparr>"

lemma new_entry_sel [simp]:
  "fi_type (new_entry fd ty s pr bc) = ty" "sockfd (new_entry fd ty s pr bc) = fd"
  "fi_id (new_entry fd ty s pr bc) = s" "flag (new_entry fd ty s pr bc) = 0"
  "cb (new_entry fd ty s pr bc) = zero_cb" "bc_elem (new_entry fd ty s pr bc) = bc"
  by (simp_all add: new_entry_def zero_fdinfo_def)

definition added :: "nat \<Rightarrow> fd_type \<Rightarrow> sockaddr_in option \<Rightarrow> nat option \<Rightarrow> 't world \<Rightarrow> 't world" where
  "added fd ty pr bc w = w\<lparr>fds := (fds w)[fd := new_entry fd ty (next_seq (seq w)) pr bc],
     nodes := (nodes w)(FdNode fd := \<lparr>lprev = None, lnext = None\<rparr>), seq := next_seq (seq w),
     tx := (tx w)(fd := []), rx := (rx w)(fd := []), maxfd := max (maxfd w) (int fd), ev_count := ev_count w + 1,
     interest := (interest w)(fd \<mapsto> conn_events ty)\<rparr>"

lemma do_add_conn_eq:
  "epoll_add_ok w \<Longrightarrow> fd < length (fds w) \<Longrightarrow> do_add_conn fd ty pr bc w = Inr (added fd ty pr bc w)"
  by (simp add: do_add_conn_def add_events_def fd_ok_def Let_def added_def new_entry_def max_def not_less)

lemma added_sel [simp]:
  "length (fds (added fd ty pr bc w)) = length (fds w)"
  "fd < length (fds w) \<Longrightarrow> fdi (added fd ty pr bc w) x =
     (if x = fd then new_entry fd ty (next_seq (seq w)) pr bc else fdi w x)"
  "maxfd (added fd ty pr bc w) = max (maxfd w) (int fd)"
  "ev_count (added fd ty pr bc w) = ev_count w + 1"
  by (auto simp: added_def)

lemma used_added:
  "fd < length (fds w) \<Longrightarrow> ty \<noteq> fd_type_unused \<Longrightarrow> used (added fd ty pr bc w) = insert fd (used w)"
  by (auto simp: used_def)

lemma added_inv:
  assumes inv: "net_inv w cl et" and fd: "fd < length (fds w)" "fd \<notin> used w" and ty: "ty \<noteq> fd_type_unused"
  shows "net_inv (added fd ty pr bc w) cl et"
proof -
  have n: "fd \<notin> set cl" "fd \<notin> set et" using net_inv_notin_used [OF inv fd(2,1)] by auto
  have q: "queues_ok w cl et" and t: "table_ok w" using inv by (auto simp: net_inv_def)
  have c: "circ (nodes w) CloseHead (map FdNode cl)" "circ (nodes w) EtinHead (map FdNode et)"
    using q by (auto simp: queues_ok_def)
  have "circ (nodes (added fd ty pr bc w)) CloseHead (map FdNode cl)"
    using n by (intro circ_cong [OF c(1)]) (auto simp: added_def)
  moreover have "circ (nodes (added fd ty pr bc w)) EtinHead (map FdNode et)"
    using n by (intro circ_cong [OF c(2)]) (auto simp: added_def)
  ultimately have "queues_ok (added fd ty pr bc w) cl et"
    using q n fd by (auto simp: queues_ok_def)
  moreover have "table_ok (added fd ty pr bc w)"
    unfolding table_ok_def used_added [OF fd(1) ty]
    using t fd by (auto simp: table_ok_def card_insert_if)
  ultimately show ?thesis by (simp add: net_inv_def)
qed

lemma release_fd_sel [simp]:
  "length (fds (release_fd fd w)) = length (fds w)"
  "fd < length (fds w) \<Longrightarrow> fdi (release_fd fd w) x =
     (if x = fd then (fdi w fd)\<lparr>cb := free_cb (cb (fdi w fd)), fi_type := fd_type_unused\<rparr> else fdi w x)"
  "ev_count (release_fd fd w) = ev_count w - 1"
  "nodes (release_fd fd w) = nodes w" "closed (release_fd fd w) = closed w @ [fd]"
  "interest (release_fd fd w) = (interest w)(fd := None)"
  by (auto simp: release_fd_def Let_def upd_fd_def)

lemma used_release_fd: "fd < length (fds w) \<Longrightarrow> used (release_fd fd w) = used w - {fd}"
  by (auto simp: used_def)

lemma maxfd_release_fd:
  "fd < length (fds w) \<Longrightarrow> maxfd (release_fd fd w) =
     (if maxfd w = int fd then scan_down (fds (release_fd fd w)) fd else maxfd w)"
  by (simp add: release_fd_def Let_def upd_fd_def)

lemma release_fd_inv:
  assumes inv: "net_inv w cl et" and fd: "fd \<in> used w" "fd \<notin> set cl" "fd \<notin> set et"
  shows "net_inv (release_fd fd w) cl et"
proof -
  have q: "queues_ok w cl et" and t: "table_ok w" using inv by (auto simp: net_inv_def)
  have l: "fd < length (fds w)" using fd by (simp add: used_def)
  have f0: "flag (fdi w fd) = 0" using q l fd by (auto elim!: queues_ok_flag_cases)
  let ?w = "release_fd fd w"
  have "queues_ok ?w cl et" using q l fd f0 by (auto simp: queues_ok_def)
  moreover have "table_ok ?w"
  proof -
    have mx: "int x \<le> maxfd ?w" if "x \<in> used w" "x \<noteq> fd" for x
    proof -
      have le: "int x \<le> maxfd w" using that t by (auto simp: table_ok_def)
      have ty: "fi_type (fdi ?w x) \<noteq> fd_type_unused" using that l by (auto simp: used_def)
      show ?thesis
        using le that scan_down_max [of x fd "fds ?w"] ty
        by (auto simp: maxfd_release_fd [OF l])
    qed
    have "maxfd ?w < int (length (fds w)) \<and> -1 \<le> maxfd ?w"
      using t l scan_down_bounds [of "fds ?w" fd] by (auto simp: maxfd_release_fd [OF l] table_ok_def)
    moreover have "0 < card (used w)" using fd card_gt_0_iff by fastforce
    moreover have "card (used w - {fd}) = card (used w) - 1" using fd by simp
    ultimately show ?thesis
      unfolding table_ok_def used_release_fd [OF l] using t l mx f0
      by (auto simp: table_ok_def)
  qed
  ultimately show ?thesis by (simp add: net_inv_def)
qed

text \<open>What a callback of the plugin or a queue operation must leave alone.\<close>

definition same_net :: "'t world \<Rightarrow> 't world \<Rightarrow> bool" where
  "same_net w w' \<longleftrightarrow> fds w' = fds w \<and> nodes w' = nodes w \<and> maxfd w' = maxfd w \<and>
     ev_count w' = ev_count w \<and> closed w' = closed w"

lemma same_net_refl [simp]: "same_net w w"
  by (simp add: same_net_def)

lemma same_net_bindconf [simp]: "same_net w (w\<lparr>bindconf := b\<rparr>)"
  by (simp add: same_net_def)

lemma same_net_inv: "same_net w w' \<Longrightarrow> net_inv w' cl et = net_inv w cl et \<and> used w' = used w"
  by (auto simp: same_net_def net_inv_def queues_ok_def table_ok_def used_def)

lemma push_recvq_bindconf: "push_recvq bc mb d w = Inr (r, w') \<Longrightarrow> \<exists>b. w' = w\<lparr>bindconf := b\<rparr>"
  by (auto simp: push_recvq_def Let_def split: option.splits if_splits)

text \<open>The worker's plugin hook may do its own bookkeeping only.\<close>

definition quiet_hook :: "'t serv_if \<Rightarrow> bool" where
  "quiet_hook dll \<longleftrightarrow> (\<forall>fd w w'. on_fd_closed dll fd w = Inr w' \<longrightarrow> same_net w w')"

lemma notify_close_same:
  assumes "notify_close dll fd mode w = Inr w'" "mode \<noteq> 0 \<or> quiet_hook dll"
  shows "same_net w w'"
  using assms
  by (auto simp: notify_close_def quiet_hook_def dest!: push_recvq_bindconf split: if_splits)

lemma do_del_conn_from_notify:
  assumes inv: "net_inv w cl et" and fd: "fd \<in> used w"
    and nc: "notify_close dll fd mode w = Inr w1" and sm: "same_net w w1"
  shows "\<exists>w'. do_del_conn dll fd mode w = Inr w' \<and> net_inv w' (remove1 fd cl) (remove1 fd et) \<and>
    used w' = used w - {fd} \<and> closed w' = closed w @ [fd]"
proof -
  have l: "fd < length (fds w)" and ty: "fi_type (fdi w fd) \<noteq> fd_type_unused"
    using fd by (auto simp: used_def)
  have s1: "net_inv w1 cl et" "used w1 = used w" "length (fds w1) = length (fds w)" "closed w1 = closed w"
    using same_net_inv [OF sm] inv sm by (auto simp: same_net_def)
  have q1: "queues_ok w1 cl et" "table_ok w1" using s1 by (auto simp: net_inv_def)
  from l s1 have l1: "fd < length (fds w1)" by simp
  obtain w2 where w2: "del_from_etin_queue fd w1 = Inr w2" "queues_ok w2 cl (remove1 fd et)" "unflagged fd w1 w2"
    using del_from_etin_queue_spec [OF q1(1) l1] by auto
  have u2: "used w2 = used w" "length (fds w2) = length (fds w)" using unflagged_used [OF w2(3) l1] s1 by auto
  obtain w3 where w3: "del_from_close_queue fd w2 = Inr w3" "queues_ok w3 (remove1 fd cl) (remove1 fd et)"
    "unflagged fd w2 w3"
    using del_from_close_queue_spec [OF w2(2), of fd] u2 l by auto
  have u3: "used w3 = used w" "length (fds w3) = length (fds w)" using unflagged_used [OF w3(3)] u2 l by auto
  have "table_ok w3"
    using unflagged_table_ok [OF w3(3)] unflagged_table_ok [OF w2(3) l1 q1(2)] u2 l by simp
  then have i3: "net_inv w3 (remove1 fd cl) (remove1 fd et)" using w3 by (simp add: net_inv_def)
  have c3: "closed w3 = closed w"
    using w3(3) w2(3) s1 by (auto simp: unflagged_def)
  have "net_inv (release_fd fd w3) (remove1 fd cl) (remove1 fd et)"
    using fd u3 queues_ok_disjoint [OF q1(1)] by (intro release_fd_inv [OF i3]) auto
  moreover have "do_del_conn dll fd mode w = Inr (release_fd fd w3)"
    using l ty nc w2 w3 by (simp add: do_del_conn_def fd_ok_iff)
  ultimately show ?thesis using u3 l c3 by (simp add: used_release_fd)
qed

lemma do_del_conn_unused:
  "fd < length (fds w) \<Longrightarrow> fd \<notin> used w \<Longrightarrow> do_del_conn dll fd mode w = Inr w"
  by (simp add: do_del_conn_def fd_ok_iff used_def)

lemma do_del_conn_spec:
  assumes inv: "net_inv w cl et" and l: "fd < length (fds w)" and "mode \<noteq> 0 \<or> quiet_hook dll"
    and r: "do_del_conn dll fd mode w = Inr w'"
  shows "net_inv w' (remove1 fd cl) (remove1 fd et) \<and> used w' = used w - {fd} \<and>
    closed w' = (if fd \<in> used w then closed w @ [fd] else closed w)"
proof (cases "fd \<in> used w")
  case True
  then obtain w1 where n: "notify_close dll fd mode w = Inr w1"
    using r l by (auto simp: do_del_conn_def fd_ok_iff used_def split: if_splits)
  from do_del_conn_from_notify [OF inv True n notify_close_same [OF n assms(3)]] r True show ?thesis by auto
next
  case False
  with net_inv_notin_used [OF inv False l] do_del_conn_unused [OF l False, of dll mode] r inv
  show ?thesis by (simp add: remove1_idem)
qed

lemma do_del_conn_quiet_total:
  assumes "net_inv w cl et" "fd < length (fds w)"
  shows "\<exists>w'. do_del_conn dll fd 2 w = Inr w'"
proof (cases "fd \<in> used w")
  case True
  have "notify_close dll fd 2 w = Inr w" by (simp add: notify_close_def)
  from do_del_conn_from_notify [OF assms(1) True this] show ?thesis by auto
qed (simp add: do_del_conn_unused assms)

lemma do_del_conn_length:
  assumes "net_inv w cl et" "fd < length (fds w)" "mode \<noteq> 0 \<or> quiet_hook dll"
    "do_del_conn dll fd mode w = Inr w'"
  shows "length (fds w') = length (fds w)"
  using assms
  by (auto simp: do_del_conn_def fd_ok_iff del_from_etin_queue_def del_from_close_queue_def upd_fd_def
      same_net_def dest!: notify_close_same split: if_splits)

section \<open>Connection ids\<close>

lemma unat_max32: "unat (- 1 :: u32) = 4294967295"
  by (simp add: unsigned_minus_1_eq_mask mask_eq_exp_minus_1)

lemma unat_next_seq: "unat (next_seq s) = unat s mod (2 ^ 32 - 1) + 1"
proof (cases "s + 1 = 0")
  case True
  then have "s = -1" by (simp add: eq_neg_iff_add_eq_0)
  then show ?thesis by (simp add: next_seq_def unat_max32)
next
  case False
  then have s: "s \<noteq> -1" by auto
  have "unat s \<noteq> 2 ^ 32 - 1"
  proof
    assume "unat s = 2 ^ 32 - 1"
    then have "unat s = unat (- 1 :: u32)" by (simp add: unat_max32)
    with s show False by (simp only: word_unat_eq_iff)
  qed
  moreover have "unat s < 2 ^ 32" using unsigned_less [of s, where 'a = nat] by simp
  ultimately have "unat s < 2 ^ 32 - 1" by simp
  moreover have "unat (s + 1) = unat s + 1"
    using \<open>unat s < 2 ^ 32 - 1\<close> by (simp add: unat_word_ariths)
  ultimately show ?thesis using False by (simp add: next_seq_def)
qed

lemma unat_next_seq_funpow:
  "unat ((next_seq ^^ Suc k) s) = (unat s + k) mod (2 ^ 32 - 1) + 1"
proof (induction k)
  case 0
  then show ?case by (simp add: unat_next_seq)
next
  case (Suc k)
  have "unat ((next_seq ^^ Suc (Suc k)) s) = unat ((next_seq ^^ Suc k) s) mod (2 ^ 32 - 1) + 1"
    by (simp only: funpow.simps o_apply unat_next_seq)
  also have "\<dots> = ((unat s + k) mod (2 ^ 32 - 1) + 1) mod (2 ^ 32 - 1) + 1"
    by (simp only: Suc.IH)
  also have "\<dots> = (unat s + Suc k) mod (2 ^ 32 - 1) + 1"
    by (simp only: mod_add_left_eq add_Suc_right Suc_eq_plus1 add.assoc)
  finally show ?case .
qed

lemma next_seq_periodic:
  assumes "j < k" "k - j < 2 ^ 32 - 1"
  shows "(next_seq ^^ Suc j) s \<noteq> (next_seq ^^ Suc k) s"
proof
  assume "(next_seq ^^ Suc j) s = (next_seq ^^ Suc k) s"
  then have "unat ((next_seq ^^ Suc j) s) = unat ((next_seq ^^ Suc k) s)" by (rule arg_cong)
  then have "(unat s + j) mod (2 ^ 32 - 1) = (unat s + k) mod (2 ^ 32 - 1)"
    unfolding unat_next_seq_funpow by (rule add_right_imp_eq)
  then have "(2 ^ 32 - 1) dvd (unat s + k) - (unat s + j)"
    using mod_eq_dvd_iff_nat [of "unat s + j" "unat s + k" "2 ^ 32 - 1"] assms by simp
  then have "(2 ^ 32 - 1) dvd k - j" by simp
  moreover have "0 < k - j" using assms by simp
  ultimately have "2 ^ 32 - 1 \<le> k - j" by (rule dvd_imp_le)
  with assms show False by simp
qed

section \<open>Properties\<close>

definition demo_queue :: shm_queue where
  "demo_queue = \<lparr>mapped = True, head = 8, tail = 8, mem = replicate 256 0, q_length = 256,
     pipe_handles = (3, 4), notified = 0\<rparr>"

definition demo_bc :: bind_config_info where
  "demo_bc = \<lparr>server_id = 1, server_name = ''s'', bind_ip = ''0'', bind_port = 80, restart_cnt = 0,
     sendq = demo_queue, recvq = demo_queue\<rparr>"

definition demo_world :: "unit world" where
  "demo_world = \<lparr>fds = replicate 8 zero_fdinfo,
     nodes = INIT_LIST_HEAD EtinHead (INIT_LIST_HEAD CloseHead (\<lambda>a. \<lparr>lprev = None, lnext = None\<rparr>)),
     maxfd = 0, ev_count = 0, seq = 0, now_sec = 0, page_size = 64, send_buf_limit_size = 0,
     socket_timeout = 0, is_parent = True, bindconf = \<lparr>bind_num = 1, configs = [demo_bc]\<rparr>,
     cn = (), cn_count = 0, cur_bc = 0, idle_timeout = 10, child_pids = [0, 0, 0], stopped = False, interest = Map.empty, tx = (\<lambda>_. []),
     rx = (\<lambda>_. []),
     closed = [], overlap = False, epoll_add_ok = True, mmap_ok = True, recv_as = [], send_as = [],
     accept_as = [], read_as = [], epoll_as = [], time_as = [], so_error_as = [], fcntl_err = None,
     peer = (\<lambda>_ q. q)\<rparr>"

definition demo_dll :: "'t serv_if" where
  "demo_dll = \<lparr>get_pkg_len = (\<lambda>_ bs _. if bs = [] then 0 else ucast (bs ! 0)),
     proc_pkg_from_client = (\<lambda>_ _ w. Inr (0, w)), proc_pkg_from_serv = (\<lambda>_ _ w. Inr w),
     on_client_conn_closed = (\<lambda>_ w. Inr w), on_fd_closed = (\<lambda>_ w. Inr w), init_service = None,
     fini_service = None, proc_udp_pkg = None, proc_mcast_pkg = None, connect_cb = (\<lambda>_ _ w. Inr w)\<rparr>"

lemma zero_fdinfo_sel [simp]: "fi_type zero_fdinfo = fd_type_unused" "flag zero_fdinfo = 0"
  by (simp_all add: zero_fdinfo_def)

lemma demo_world_inv: "net_inv demo_world [] []"
proof -
  have u: "used demo_world = {}" by (auto simp: used_def demo_world_def)
  have "queues_ok demo_world [] []"
    by (auto simp: queues_ok_def demo_world_def circ_def INIT_LIST_HEAD_def)
  moreover have "table_ok demo_world"
    unfolding table_ok_def u by (simp add: demo_world_def)
  ultimately show ?thesis by (simp add: net_inv_def)
qed

lemma demo_quiet: "quiet_hook demo_dll"
  by (simp add: quiet_hook_def demo_dll_def)

text \<open>
  C19: Registering a descriptor that is not in use, when epoll accepts it, keeps the invariant of the
  connection table: it becomes the one additional used entry, with a non-zero id and the events of its
  type, \<open>maxfd\<close> stays an upper bound, \<open>count\<close> the number of used entries, and both pointer queues are
  untouched.
\<close>

theorem do_add_conn_keeps_inv:
  assumes "net_inv w cl et" "fd < length (fds w)" "fd \<notin> used w" "ty \<noteq> fd_type_unused" "epoll_add_ok w"
  shows "\<exists>w'. do_add_conn fd ty pr bc w = Inr w' \<and> net_inv w' cl et \<and> used w' = insert fd (used w) \<and>
    fi_id (fdi w' fd) = next_seq (seq w) \<and> fi_type (fdi w' fd) = ty \<and>
    interest w' fd = Some (conn_events ty)"
  using added_inv [OF assms(1-4)] do_add_conn_eq [OF assms(5,2)] assms(2,4)
  by (simp add: used_added) (simp add: added_def)

theorem do_add_conn_keeps_inv_witness:
  "\<exists>w'. do_add_conn 5 fd_type_remote None (Some 0) demo_world = Inr w' \<and> net_inv w' [] [] \<and>
    used w' = insert 5 (used demo_world) \<and> fi_id (fdi w' 5) = next_seq (seq demo_world) \<and>
    fi_type (fdi w' 5) = fd_type_remote \<and> interest w' 5 = Some (conn_events fd_type_remote)"
  using do_add_conn_keeps_inv [OF demo_world_inv, of 5 fd_type_remote None "Some 0"]
  by (simp add: demo_world_def used_def zero_fdinfo_def)

text \<open>
  C15: \<open>do_del_conn\<close>, in the parent or in a worker whose hook does not touch the table, keeps the
  invariant, unlinks the descriptor from whichever queue holds it, frees exactly its entry and
  closes it once; on an unused entry it does nothing, so a second removal is harmless.
\<close>

theorem do_del_conn_keeps_inv:
  assumes "net_inv w cl et" "fd < length (fds w)" "mode \<noteq> 0 \<or> quiet_hook dll"
    "do_del_conn dll fd mode w = Inr w'"
  shows "net_inv w' (remove1 fd cl) (remove1 fd et) \<and> used w' = used w - {fd} \<and>
    closed w' = (if fd \<in> used w then closed w @ [fd] else closed w) \<and>
    do_del_conn dll fd mode w' = Inr w'"
proof -
  note s = do_del_conn_spec [OF assms]
  then have "length (fds w') = length (fds w)"
    using do_del_conn_length [OF assms] by simp
  with s assms(2) show ?thesis by (simp add: do_del_conn_unused)
qed

definition demo_world1 :: "unit world" where
  "demo_world1 = added 5 fd_type_remote None (Some 0) demo_world"

lemma demo_world1_inv: "net_inv demo_world1 [] []"
  unfolding demo_world1_def
  by (rule added_inv [OF demo_world_inv]) (simp_all add: demo_world_def used_def zero_fdinfo_def)

theorem do_del_conn_keeps_inv_witness:
  "\<exists>w'. do_del_conn demo_dll 5 0 demo_world1 = Inr w' \<and> net_inv w' [] [] \<and> closed w' = [5]"
proof -
  have l: "5 < length (fds demo_world1)" by (simp add: demo_world1_def demo_world_def)
  have u: "5 \<in> used demo_world1"
    unfolding demo_world1_def by (subst used_added) (simp_all add: demo_world_def)
  have n: "notify_close demo_dll 5 0 demo_world1 = Inr demo_world1" by (simp add: notify_close_def demo_dll_def)
  obtain w' where w': "do_del_conn demo_dll 5 0 demo_world1 = Inr w'"
    using do_del_conn_from_notify [OF demo_world1_inv u n] by auto
  have "closed demo_world1 = []" by (simp add: demo_world1_def added_def demo_world_def)
  with do_del_conn_keeps_inv [OF demo_world1_inv l disjI2 [OF demo_quiet] w'] w' u show ?thesis by simp
qed

text \<open>
  C16: Connection ids tell reused descriptors apart: two connections with fewer than
  \<open>2 ^ 32 - 2\<close> others registered between them have different ids, across the wrap-around of the
  counter, and no id is 0.
\<close>

theorem conn_ids_distinct:
  assumes "do_add_conn fd1 ty1 pr1 bc1 w1 = Inr w1'" "do_add_conn fd2 ty2 pr2 bc2 w2 = Inr w2'"
    "seq w2 = (next_seq ^^ n) (seq w1')" "n < 2 ^ 32 - 2"
  shows "fi_id (fdi w1' fd1) \<noteq> fi_id (fdi w2' fd2) \<and> fi_id (fdi w1' fd1) \<noteq> 0"
proof -
  have 1: "fi_id (fdi w1' fd1) = next_seq (seq w1)" "seq w1' = next_seq (seq w1)"
    using assms(1) by (auto simp: do_add_conn_def add_events_def Let_def fd_ok_def split: if_splits)
  have 2: "fi_id (fdi w2' fd2) = next_seq (seq w2)"
    using assms(2) by (auto simp: do_add_conn_def add_events_def Let_def fd_ok_def split: if_splits)
  have "(next_seq ^^ Suc 0) (seq w1) \<noteq> (next_seq ^^ Suc (Suc n)) (seq w1)"
    by (rule next_seq_periodic) (use assms(4) in auto)
  moreover have "(next_seq ^^ Suc (Suc n)) (seq w1) = next_seq (seq w2)"
    by (simp add: assms(3) 1(2) funpow_swap1)
  ultimately show ?thesis using 1 2 by simp
qed

theorem conn_ids_distinct_witness:
  "\<exists>w1 w2. do_add_conn 5 fd_type_remote None None (demo_world\<lparr>seq := -1\<rparr>) = Inr w1 \<and>
     do_add_conn 5 fd_type_remote None None w1 = Inr w2 \<and> fi_id (fdi w1 5) \<noteq> fi_id (fdi w2 5)"
proof -
  let ?w = "demo_world\<lparr>seq := -1\<rparr>"
  have 1: "do_add_conn 5 fd_type_remote None None ?w = Inr (added 5 fd_type_remote None None ?w)"
    by (rule do_add_conn_eq) (simp_all add: demo_world_def)
  have 2: "do_add_conn 5 fd_type_remote None None (added 5 fd_type_remote None None ?w) =
      Inr (added 5 fd_type_remote None None (added 5 fd_type_remote None None ?w))"
    by (rule do_add_conn_eq) (simp_all add: added_def demo_world_def)
  from conn_ids_distinct [OF 1 2, of 0] 1 2 show ?thesis by auto
qed

end
