(* ===== verification/Mp_NetIO.thy ===== *)
theory Mp_NetIO
  imports Mp_Net
begin

unbundle bit_operations_syntax

text \<open>
  Reading from and writing to connections: the middle part of \<open>src/src/net.c\<close>
  (\<open>do_write_conn\<close>, \<open>do_read_conn\<close>, \<open>net_recv\<close>, \<open>schedule_output\<close>) and
  \<open>net_send\<close> of \<open>src/src/net_if.c\<close>.

  Framing is specified by \<open>cut\<close>, a function on byte strings, and \<open>net_recv\<close> is shown to
  implement it whatever the segmentation of the stream.
\<close>

section \<open>Writing\<close>

definition do_write_conn :: "nat \<Rightarrow> 't world \<Rightarrow> (int \<times> 't world) res" where
  "do_write_conn fd w =
     (if \<not> fd_ok w fd then Inl Segv
      else let n = sendlen (cb (fdi w fd)) in
      case sendptr (cb (fdi w fd)) of None \<Rightarrow> Inl Segv
      | Some buf \<Rightarrow>
        if length buf < unat n then Inl Segv
        else bindR (safe_tcp_send_n (sint n) (send_as w)) (\<lambda>(r, k, as).
          let w1 = w\<lparr>send_as := as, tx := (tx w)(fd := tx w fd @ take k buf)\<rparr> in
          if r = 0 then Inr (0, w1)
          else if r > 0 then
            let b = (if word_of_int r < n
                     then put_bytes buf 0 (bytes_at buf (nat r) (unat (n - word_of_int r))) else buf) in
            Inr (r, touch fd (upd_cb fd (\<lambda>c. c\<lparr>sendptr := Some b, sendlen := n - word_of_int r\<rparr>) w1))
          else Inr (-1, w1)))"

text \<open>
  \<open>net_send\<close>: \<open>malloc_ok\<close> is the answer of \<open>malloc\<close> and \<open>realloc\<close>.  A new buffer is filled
  with zeros here; only its first \<open>sendlen\<close> bytes are ever read.
\<close>

definition grow_sendbuf :: "bool \<Rightarrow> u32 \<Rightarrow> conn_buf \<Rightarrow> conn_buf res" where
  "grow_sendbuf malloc_ok rest c =
     (case sendptr c of
        None \<Rightarrow> if malloc_ok then Inr (c\<lparr>sendptr := Some (replicate (unat rest) 0), sndbufsz := rest\<rparr>)
                else Inl (Exit 1)
      | Some buf \<Rightarrow>
        if sndbufsz c < sendlen c + rest then
          (if malloc_ok then
             Inr (c\<lparr>sendptr := Some (take (unat (sendlen c + rest)) (buf @ replicate (unat (sendlen c + rest)) 0)),
                    sndbufsz := sendlen c + rest\<rparr>)
           else Inl (Exit 1))
        else Inr c)"

definition merge_buffer :: "bool \<Rightarrow> nat \<Rightarrow> byte list \<Rightarrow> 't world \<Rightarrow> 't world res" where
  "merge_buffer malloc_ok fd rest w =
     bindR (grow_sendbuf malloc_ok (of_nat (length rest)) (cb (fdi w fd))) (\<lambda>c.
     case sendptr c of None \<Rightarrow> Inl Segv
     | Some buf \<Rightarrow>
       bindR (store 0 buf (int (unat (sendlen c))) rest) (\<lambda>b.
         Inr (upd_cb fd (\<lambda>_. c\<lparr>sendptr := Some b, sendlen := sendlen c + of_nat (length rest)\<rparr>) w)))"

definition flush_pending :: "'t serv_if \<Rightarrow> nat \<Rightarrow> 't world \<Rightarrow> (bool option \<times> 't world) res" where
  "flush_pending dll fd w =
     (if sendlen (cb (fdi w fd)) > 0 then
        bindR (do_write_conn fd w) (\<lambda>(r, w1).
          if r = -1 then bindR (do_del_conn dll fd (if is_parent w1 then 1 else 0) w1) (\<lambda>w2. Inr (None, w2))
          else Inr (Some True, w1))
      else Inr (Some False, w))"

definition send_fresh :: "'t serv_if \<Rightarrow> nat \<Rightarrow> byte list \<Rightarrow> 't world \<Rightarrow> (nat option \<times> 't world) res" where
  "send_fresh dll fd data w =
     (if sendlen (cb (fdi w fd)) = 0 then
        bindR (safe_tcp_send_n (sint (of_nat (length data) :: u32)) (send_as w)) (\<lambda>(r, k, as).
          let w1 = w\<lparr>send_as := as, tx := (tx w)(fd := tx w fd @ take k data)\<rparr> in
          if r = -1 then bindR (do_del_conn dll fd (if is_parent w1 then 1 else 0) w1) (\<lambda>w2. Inr (None, w2))
          else Inr (Some (nat r), w1))
      else Inr (Some 0, w))"

definition over_limit :: "nat \<Rightarrow> 't world \<Rightarrow> bool" where
  "over_limit fd w \<longleftrightarrow> is_parent w \<and> send_buf_limit_size w > 0 \<and>
     sendlen (cb (fdi w fd)) > send_buf_limit_size w"

definition arm_events :: "nat \<Rightarrow> bool \<Rightarrow> 't world \<Rightarrow> 't world" where
  "arm_events fd prev_stat w =
     (let n = sendlen (cb (fdi w fd)) in
      if n > 0 \<and> \<not> prev_stat then snd (mod_events fd True w)
      else if prev_stat \<and> n = 0 then snd (mod_events fd False w)
      else w)"

definition net_send :: "'t serv_if \<Rightarrow> bool \<Rightarrow> nat \<Rightarrow> byte list \<Rightarrow> 't world \<Rightarrow> (int \<times> 't world) res" where
  "net_send dll malloc_ok fd data w =
     (if \<not> fd_ok w fd then Inl Segv
      else bindR (flush_pending dll fd w) (\<lambda>(st, w1).
        case st of None \<Rightarrow> Inr (-1, w1)
        | Some prev_stat \<Rightarrow>
          bindR (send_fresh dll fd data w1) (\<lambda>(sb, w2).
            case sb of None \<Rightarrow> Inr (-1, w2)
            | Some send_bytes \<Rightarrow>
              if length data > send_bytes then
                bindR (merge_buffer malloc_ok fd (drop send_bytes data) w2) (\<lambda>w3.
                  if over_limit fd w3 then Inr (-1, w3) else Inr (0, arm_events fd prev_stat w3))
              else Inr (0, arm_events fd prev_stat w2))))"

text \<open>
  \<open>schedule_output\<close>: a block that the worker sent, with the signed comparisons of its \<open>fd\<close>
  field.  A block whose connection is gone is discarded.
\<close>

definition schedule_output :: "'t serv_if \<Rightarrow> bool \<Rightarrow> message \<Rightarrow> 't world \<Rightarrow> (int \<times> 't world) res" where
  "schedule_output dll malloc_ok x w =
     (let mb = fst x; ifd = sint (mb_fd mb); fd = nat ifd in
      if ifd > maxfd w \<or> ifd < 0 then Inr (-1, w)
      else if \<not> fd_ok w fd then Inl Segv
      else if fi_type (fdi w fd) \<noteq> fd_type_remote \<or> mb_id mb \<noteq> fi_id (fdi w fd) then Inr (-1, w)
      else if mb_type mb = FIN_BLOCK \<and> fi_type (fdi w fd) \<noteq> fd_type_listen then
        bindR (add_to_close_queue fd w) (\<lambda>w1. Inr (0, w1))
      else net_send dll malloc_ok fd (snd x) w)"

section \<open>Reading\<close>

definition map_recvbuf :: "nat \<Rightarrow> 't world \<Rightarrow> 't world res" where
  "map_recvbuf fd w =
     (case recvptr (cb (fdi w fd)) of
        Some _ \<Rightarrow> Inr w
      | None \<Rightarrow> if mmap_ok w
          then Inr (upd_cb fd (\<lambda>c. c\<lparr>rcvprotlen := 0, recvlen := 0,
                 recvptr := Some (replicate (unat (page_size w)) 0)\<rparr>) w)
          else Inl (Exit 1))"

definition do_read_conn :: "nat \<Rightarrow> u32 \<Rightarrow> 't world \<Rightarrow> (int \<times> 't world) res" where
  "do_read_conn fd max_len w =
     (if \<not> fd_ok w fd then Inl Segv
      else bindR (map_recvbuf fd w) (\<lambda>w1.
        let n = recvlen (cb (fdi w1 fd)) in
        if page_size w1 = n then Inr (0, w1)
        else bindR (safe_tcp_recv (sint (max_len - n)) (recv_as w1)) (\<lambda>(a, as).
          let w2 = w1\<lparr>recv_as := as\<rparr> in
          case a of
            Closed \<Rightarrow> Inr (-1, w2)
          | _ \<Rightarrow>
            let bs = (case a of Bytes bs \<Rightarrow> bs | _ \<Rightarrow> []) in
            bindR (case recvptr (cb (fdi w2 fd)) of None \<Rightarrow> Inl Segv
                   | Some buf \<Rightarrow> store 0 buf (int (unat n)) bs) (\<lambda>b.
            let w3 = (if bs = [] then w2
                      else touch fd (upd_cb fd (\<lambda>c. c\<lparr>recvptr := Some b, recvlen := n + of_nat (length bs)\<rparr>)
                             (w2\<lparr>rx := (rx w2)(fd := rx w2 fd @ bs)\<rparr>))) in
            bindR ((if recvlen (cb (fdi w3 fd)) = max_len then add_to_etin_queue else del_from_etin_queue) fd w3)
              (\<lambda>w4. Inr (int (length bs), w4))))))"

text \<open>
  The loop at \<open>parse_again\<close>.  \<open>pos\<close> is \<open>tmp_recvptr - recvptr\<close>, \<open>cnt\<close> the packages so far;
  the result is the value returned, with \<open>None\<close> for the pointer when the function returns from
  inside the loop.  Fuel counts the rounds; every round in the parent consumes at least a byte,
  so \<open>recvlen + 1\<close> is enough there.
\<close>

definition recv_bytes :: "nat \<Rightarrow> nat \<Rightarrow> nat \<Rightarrow> 't world \<Rightarrow> byte list res" where
  "recv_bytes fd pos n w =
     (case recvptr (cb (fdi w fd)) of None \<Rightarrow> Inl Segv | Some buf \<Rightarrow> load 0 buf (int pos) n)"

definition hand_over :: "'t serv_if \<Rightarrow> nat \<Rightarrow> bool \<Rightarrow> byte list \<Rightarrow> 't world \<Rightarrow> (int \<times> 't world) res" where
  "hand_over dll fd is_par pkg w =
     (if is_par then
        push_recvq (bc_elem (fdi w fd))
          \<lparr>mb_id = fi_id (fdi w fd), mb_fd = of_nat fd, mb_length = of_nat (length pkg) + 13,
           mb_type = DATA_BLOCK\<rparr> pkg w
      else bindR (proc_pkg_from_serv dll fd pkg w) (\<lambda>w1. Inr (0, w1)))"

definition learn_pkg_len :: "'t serv_if \<Rightarrow> nat \<Rightarrow> bool \<Rightarrow> nat \<Rightarrow> 't world \<Rightarrow> 't world res" where
  "learn_pkg_len dll fd is_par pos w =
     (if rcvprotlen (cb (fdi w fd)) = 0 then
        bindR (recv_bytes fd pos (unat (recvlen (cb (fdi w fd)))) w) (\<lambda>avail.
          Inr (upd_cb fd (\<lambda>c. c\<lparr>rcvprotlen := get_pkg_len dll fd avail is_par\<rparr>) w))
      else Inr w)"

fun parse_loop :: "nat \<Rightarrow> 't serv_if \<Rightarrow> nat \<Rightarrow> u32 \<Rightarrow> bool \<Rightarrow> nat \<Rightarrow> int \<Rightarrow> 't world \<Rightarrow> (int \<times> nat option \<times> 't world) res" where
  "parse_loop 0 dll fd max_len is_par pos cnt w = Inl Blocked"
| "parse_loop (Suc fuel) dll fd max_len is_par pos cnt w =
     bindR (learn_pkg_len dll fd is_par pos w) (\<lambda>w1.
     let n = rcvprotlen (cb (fdi w1 fd)); len = recvlen (cb (fdi w1 fd)) in
     if n > max_len then Inr (-1, None, w1)
     else if n = 0 then (if len = max_len then Inl (Exit 1) else Inr (cnt, Some pos, w1))
     else if len \<ge> n then
       bindR (recv_bytes fd pos (unat n) w1) (\<lambda>pkg.
       bindR (hand_over dll fd is_par pkg w1) (\<lambda>(r, w2).
       if is_par \<and> r \<noteq> 0 then Inr (-1, None, w2)
       else if \<not> is_par \<and> fi_type (fdi w2 fd) = fd_type_unused then Inr (cnt, None, w2)
       else
         let n2 = rcvprotlen (cb (fdi w2 fd)); len2 = recvlen (cb (fdi w2 fd));
             pos2 = (if len2 > n2 then pos + unat n2 else pos);
             w3 = upd_cb fd (\<lambda>c. c\<lparr>recvlen := len2 - n2, rcvprotlen := 0\<rparr>) w2 in
         if len2 - n2 > 0 then parse_loop fuel dll fd max_len is_par pos2 (cnt + 1) w3
         else Inr (cnt + 1, Some pos2, w3)))
     else Inr (cnt, Some pos, w1))"

text \<open>The rest of the buffer is moved to its front, with \<open>memcpy\<close>.\<close>

definition compact :: "nat \<Rightarrow> nat \<Rightarrow> 't world \<Rightarrow> 't world res" where
  "compact fd pos w =
     (let len = unat (recvlen (cb (fdi w fd))) in
      if pos \<noteq> 0 \<and> len \<noteq> 0 then
        bindR (recv_bytes fd pos len w) (\<lambda>rest.
        case recvptr (cb (fdi w fd)) of None \<Rightarrow> Inl Segv
        | Some buf \<Rightarrow> Inr ((upd_cb fd (\<lambda>c. c\<lparr>recvptr := Some (put_bytes buf 0 rest)\<rparr>) w)
            \<lparr>overlap := overlap w \<or> pos < len\<rparr>))
      else Inr w)"

definition net_recv :: "'t serv_if \<Rightarrow> nat \<Rightarrow> u32 \<Rightarrow> bool \<Rightarrow> 't world \<Rightarrow> (int \<times> 't world) res" where
  "net_recv dll fd max_len is_par w =
     (if \<not> sint max_len \<le> sint (page_size w) then Inl Abort
      else if \<not> fd_ok w fd then Inl Segv
      else if fi_type (fdi w fd) = fd_type_pipe then
        (case read_as w of [] \<Rightarrow> Inl Blocked
         | a # as \<Rightarrow>
           let bs = (case a of RecvData bs \<Rightarrow> take (nat (sint max_len)) bs | _ \<Rightarrow> []) in
           (case recvptr (cb (fdi w fd)) of None \<Rightarrow> Inr (0, w\<lparr>read_as := as\<rparr>)
            | Some buf \<Rightarrow> bindR (store 0 buf 0 bs) (\<lambda>b.
                Inr (0, upd_cb fd (\<lambda>c. c\<lparr>recvptr := Some b\<rparr>) (w\<lparr>read_as := as\<rparr>)))))
      else bindR (do_read_conn fd max_len w) (\<lambda>(r, w1).
        if r = -1 then Inr (-1, w1)
        else bindR (parse_loop (unat (recvlen (cb (fdi w1 fd))) + 1) dll fd max_len is_par 0 0 w1) (\<lambda>(cnt, pos, w2).
          case pos of None \<Rightarrow> Inr (cnt, w2)
          | Some p \<Rightarrow> bindR (compact fd p w2) (\<lambda>w3. Inr (cnt, w3)))))"

section \<open>Framing, abstractly\<close>

text \<open>
  \<open>cut gl bs\<close> splits a byte string into the packages whose lengths \<open>gl\<close> announces and the
  incomplete rest.
\<close>

function cut :: "(byte list \<Rightarrow> nat) \<Rightarrow> byte list \<Rightarrow> byte list list \<times> byte list" where
  "cut gl bs =
     (if gl bs = 0 \<or> length bs < gl bs then ([], bs)
      else let (ps, r) = cut gl (drop (gl bs) bs) in (take (gl bs) bs # ps, r))"
  by pat_completeness auto
termination
  by (relation "measure (\<lambda>(gl, bs). length bs)") auto

declare cut.simps [simp del]

text \<open>
  What the server expects of \<open>get_pkg_len\<close>: once it knows the length of the first package it
  keeps to it when more bytes arrive.
\<close>

definition stable_len :: "(byte list \<Rightarrow> nat) \<Rightarrow> bool" where
  "stable_len gl \<longleftrightarrow> (\<forall>bs cs. gl bs \<noteq> 0 \<longrightarrow> gl (bs @ cs) = gl bs)"

lemma cut_stop: "gl bs = 0 \<or> length bs < gl bs \<Longrightarrow> cut gl bs = ([], bs)"
  by (subst cut.simps) simp

lemma cut_step:
  "gl bs \<noteq> 0 \<Longrightarrow> gl bs \<le> length bs \<Longrightarrow> cut gl (drop (gl bs) bs) = (ps, r) \<Longrightarrow>
   cut gl bs = (take (gl bs) bs # ps, r)"
  by (subst cut.simps) simp

lemma cut_Nil: "cut gl [] = ([], [])"
  by (rule cut_stop) auto

lemma cut_concat: "cut gl bs = (ps, r) \<Longrightarrow> concat ps @ r = bs"
proof (induction gl bs arbitrary: ps r rule: cut.induct)
  case (1 gl bs)
  show ?case
  proof (cases "gl bs = 0 \<or> length bs < gl bs")
    case True
    then show ?thesis using 1 by (simp add: cut_stop)
  next
    case False
    obtain ps' r' where c: "cut gl (drop (gl bs) bs) = (ps', r')" by fastforce
    then have "concat ps' @ r' = drop (gl bs) bs" using 1(1) False by blast
    moreover have "cut gl bs = (take (gl bs) bs # ps', r')"
      using cut_step [OF _ _ c] False by simp
    ultimately show ?thesis using 1(2) by auto
  qed
qed

lemma cut_append:
  "cut gl bs = (ps, r) \<Longrightarrow> cut gl (r @ cs) = (qs, r') \<Longrightarrow> stable_len gl \<Longrightarrow>
   cut gl (bs @ cs) = (ps @ qs, r')"
proof (induction gl bs arbitrary: ps rule: cut.induct)
  case (1 gl bs)
  show ?case
  proof (cases "gl bs = 0 \<or> length bs < gl bs")
    case True
    then show ?thesis using 1 by (simp add: cut_stop)
  next
    case False
    obtain ps' r1 where c: "cut gl (drop (gl bs) bs) = (ps', r1)" by fastforce
    then have e: "ps = take (gl bs) bs # ps'" "r1 = r"
      using 1(2) cut_step [OF _ _ c] False by auto
    have "cut gl (drop (gl bs) bs @ cs) = (ps' @ qs, r')"
      using 1(1) [OF False] c e 1(3,4) by blast
    moreover have "gl (bs @ cs) = gl bs" using 1(4) False by (simp add: stable_len_def)
    ultimately show ?thesis
      using cut_step [of gl "bs @ cs" "ps' @ qs" r'] False e by simp
  qed
qed

section \<open>The receive buffer\<close>

definition pkg_len :: "'t serv_if \<Rightarrow> nat \<Rightarrow> byte list \<Rightarrow> nat" where
  "pkg_len dll fd bs = unat (get_pkg_len dll fd bs True)"

text \<open>
  The unread bytes of a connection, in the parent: the length of the first package, once asked
  for, is remembered.
\<close>

definition conn_rep :: "'t serv_if \<Rightarrow> nat \<Rightarrow> 't world \<Rightarrow> byte list \<Rightarrow> bool" where
  "conn_rep dll fd w B \<longleftrightarrow> fd < length (fds w) \<and> small (page_size w) \<and>
     (case recvptr (cb (fdi w fd)) of None \<Rightarrow> B = []
      | Some buf \<Rightarrow> length buf = unat (page_size w) \<and> length B \<le> length buf \<and>
          recvlen (cb (fdi w fd)) = of_nat (length B) \<and> take (length B) buf = B \<and>
          (rcvprotlen (cb (fdi w fd)) = 0 \<or> rcvprotlen (cb (fdi w fd)) = get_pkg_len dll fd B True))"

definition conf_rep :: "u32 \<Rightarrow> bind_config \<Rightarrow> nat \<Rightarrow> message list \<Rightarrow> bool" where
  "conf_rep ps b i xs \<longleftrightarrow> i < length (configs b) \<and> q_rep ps (recvq (configs b ! i)) xs"

definition idle :: "nat \<Rightarrow> shm_queue \<Rightarrow> shm_queue" where
  "idle i q = q"

lemma idle_eq: "idle = (\<lambda>i q. q)"
  by (intro ext) (simp add: idle_def)

lemma push_recvq_rep:
  assumes rep: "conf_rep (page_size w) (bindconf w) i xs" and pe: "peer w = idle" and fits: "msg_fits (mb, d)"
    and r: "push_recvq (Some i) mb d w = Inr (r, w')"
  shows "\<exists>b. w' = w\<lparr>bindconf := b\<rparr> \<and> conf_rep (page_size w) b i (if r = 0 then xs @ [(mb, d)] else xs)"
proof -
  let ?e = "configs (bindconf w) ! i"
  have i: "i < length (configs (bindconf w))" and q: "q_rep (page_size w) (recvq ?e) xs"
    using rep by (auto simp: conf_rep_def)
  obtain q' where q': "shmq_push idle (page_size w) (recvq ?e) mb d = Inr (r, q')"
    "w' = w\<lparr>bindconf := (bindconf w)\<lparr>configs := (configs (bindconf w))[i := ?e\<lparr>recvq := q'\<rparr>]\<rparr>\<rparr>"
    using r i pe by (auto simp: push_recvq_def Let_def)
  have "q_rep (page_size w) q' (if r = 0 then xs @ [(mb, d)] else xs)"
    using shmq_send_law [OF q fits] q'(1) by (simp add: shmq_send_def idle_eq)
  with q' i show ?thesis by (auto simp: conf_rep_def)
qed

definition mk_block :: "'t world \<Rightarrow> nat \<Rightarrow> byte list \<Rightarrow> message" where
  "mk_block w fd pkg = (\<lparr>mb_id = fi_id (fdi w fd), mb_fd = of_nat fd,
     mb_length = of_nat (length pkg) + 13, mb_type = DATA_BLOCK\<rparr>, pkg)"

lemma unat_of_nat_small: "n < 2 ^ 32 \<Longrightarrow> unat (of_nat n :: u32) = n"
  by (simp add: unsigned_of_nat take_bit_nat_eq_self)

lemma mk_block_fits: "length pkg < 2 ^ 31 \<Longrightarrow> msg_fits (mk_block w fd pkg)"
  by (auto simp: msg_fits_def mk_block_def msg_len_def unat_word_ariths unat_of_nat_small)

lemma upd_cb_sel [simp]:
  "length (fds (upd_cb fd f w)) = length (fds w)"
  "fd < length (fds w) \<Longrightarrow> fdi (upd_cb fd f w) x = (if x = fd then (fdi w fd)\<lparr>cb := f (cb (fdi w fd))\<rparr> else fdi w x)"
  "page_size (upd_cb fd f w) = page_size w" "bindconf (upd_cb fd f w) = bindconf w"
  "peer (upd_cb fd f w) = peer w" "overlap (upd_cb fd f w) = overlap w" "rx (upd_cb fd f w) = rx w"
  by (auto simp: upd_cb_def upd_fd_def)

lemma upd_cb_upd_cb [simp]:
  "fd < length (fds w) \<Longrightarrow> upd_cb fd f (upd_cb fd g w) = upd_cb fd (\<lambda>c. f (g c)) w"
  by (simp add: upd_cb_def upd_fd_def)

lemma upd_cb_bindconf [simp]: "upd_cb fd f (w\<lparr>bindconf := b\<rparr>) = (upd_cb fd f w)\<lparr>bindconf := b\<rparr>"
  by (simp add: upd_cb_def upd_fd_def)


text \<open>The bytes of the window at \<open>pos\<close> of the buffer that \<open>tmp_recvptr\<close> points to.\<close>

definition window :: "'t serv_if \<Rightarrow> nat \<Rightarrow> 't world \<Rightarrow> byte list \<Rightarrow> nat \<Rightarrow> byte list \<Rightarrow> bool" where
  "window dll fd w buf pos B \<longleftrightarrow> fd < length (fds w) \<and> small (page_size w) \<and>
     length buf = unat (page_size w) \<and> recvptr (cb (fdi w fd)) = Some buf \<and>
     pos + length B \<le> length buf \<and> bytes_at buf pos (length B) = B \<and>
     recvlen (cb (fdi w fd)) = of_nat (length B) \<and>
     (rcvprotlen (cb (fdi w fd)) = 0 \<or> rcvprotlen (cb (fdi w fd)) = get_pkg_len dll fd B True)"

lemma window_len:
  assumes "window dll fd w buf pos B"
  shows "length B < 2 ^ 31" "unat (recvlen (cb (fdi w fd))) = length B"
proof -
  show "length B < 2 ^ 31" using assms by (auto simp: window_def small_def)
  then show "unat (recvlen (cb (fdi w fd))) = length B"
    using assms by (simp add: window_def unat_of_nat_small)
qed

lemma window_recv_bytes:
  assumes "window dll fd w buf pos B" "n \<le> length B"
  shows "recv_bytes fd pos n w = Inr (take n B)"
proof -
  have "bytes_at buf pos n = take n (bytes_at buf pos (length B))"
    using assms(2) by (simp add: bytes_at_def min_absorb1)
  then show ?thesis using assms by (auto simp: window_def recv_bytes_def)
qed

lemma learn_pkg_len_window:
  assumes win: "window dll fd w buf pos B"
  defines "w1 \<equiv> upd_cb fd (\<lambda>c. c\<lparr>rcvprotlen := get_pkg_len dll fd B True\<rparr>) w"
  shows "learn_pkg_len dll fd True pos w = Inr w1" "window dll fd w1 buf pos B"
    "rcvprotlen (cb (fdi w1 fd)) = get_pkg_len dll fd B True"
    "recvlen (cb (fdi w1 fd)) = of_nat (length B)"
proof -
  have l: "fd < length (fds w)" using win by (simp add: window_def)
  show "learn_pkg_len dll fd True pos w = Inr w1"
  proof (cases "rcvprotlen (cb (fdi w fd)) = 0")
    case True
    then show ?thesis
      using window_recv_bytes [OF win order.refl] window_len [OF win] by (simp add: learn_pkg_len_def w1_def)
  next
    case False
    then have "rcvprotlen (cb (fdi w fd)) = get_pkg_len dll fd B True" using win by (simp add: window_def)
    then have "w1 = w" by (simp add: w1_def upd_cb_def upd_fd_def flip: \<open>rcvprotlen _ = _\<close>)
    with False show ?thesis by (simp add: learn_pkg_len_def)
  qed
  show "window dll fd w1 buf pos B" using win l by (simp add: window_def w1_def)
  show "rcvprotlen (cb (fdi w1 fd)) = get_pkg_len dll fd B True" using l by (simp add: w1_def)
  show "recvlen (cb (fdi w1 fd)) = of_nat (length B)" using win l by (simp add: w1_def window_def)
qed

text \<open>One package is pushed and the window moves on.\<close>

lemma window_advance:
  assumes win: "window dll fd w buf pos B" and n: "unat n = k" "0 < k" "k \<le> length B"
    and "rcvprotlen (cb (fdi w fd)) = n"
  defines "w' \<equiv> upd_cb fd (\<lambda>c. c\<lparr>recvlen := recvlen (cb (fdi w fd)) - n, rcvprotlen := 0\<rparr>) w"
    and "pos' \<equiv> (if recvlen (cb (fdi w fd)) > n then pos + k else pos)"
  shows "window dll fd w' buf pos' (drop k B)" "recvlen (cb (fdi w fd)) - n = of_nat (length B - k)"
proof -
  have l: "fd < length (fds w)" and rl: "recvlen (cb (fdi w fd)) = of_nat (length B)"
    using win by (auto simp: window_def)
  have le: "unat n \<le> unat (recvlen (cb (fdi w fd)))" using window_len [OF win] n by simp
  have "unat (of_nat (length B - k) :: u32) = length B - k"
    using window_len [OF win] by (intro unat_of_nat_small) simp
  then show len: "recvlen (cb (fdi w fd)) - n = of_nat (length B - k)"
    unfolding word_unat_eq_iff unat_sub_le32 [OF le] using n window_len [OF win] by (simp del: of_nat_diff)
  have gt: "recvlen (cb (fdi w fd)) > n \<longleftrightarrow> k < length B"
    using n window_len [OF win] by (simp add: word_less_nat_alt)
  have "bytes_at buf pos' (length B - k) = drop k B"
  proof (cases "k < length B")
    case True
    then have "bytes_at buf pos' (length B - k) = drop k (bytes_at buf pos (length B))"
      unfolding pos'_def gt by (simp add: bytes_at_def drop_take add.commute)
    then show ?thesis using win by (simp add: window_def)
  next
    case False
    then show ?thesis using n by simp
  qed
  then show "window dll fd w' buf pos' (drop k B)"
    using win l len n unfolding w'_def pos'_def gt by (auto simp: window_def)
qed

lemma window_bindconf: "window dll fd (w\<lparr>bindconf := b\<rparr>) buf pos B = window dll fd w buf pos B"
  by (simp add: window_def)

text \<open>One round of the loop: what follows the hand-over of a package.\<close>

definition take_pkg :: "nat \<Rightarrow> u32 \<Rightarrow> 't world \<Rightarrow> 't world" where
  "take_pkg fd n w = upd_cb fd (\<lambda>c. c\<lparr>recvlen := recvlen (cb (fdi w fd)) - n, rcvprotlen := 0\<rparr>) w"

definition skip_pkg :: "nat \<Rightarrow> u32 \<Rightarrow> nat \<Rightarrow> 't world \<Rightarrow> nat" where
  "skip_pkg fd n pos w = (if recvlen (cb (fdi w fd)) > n then pos + unat n else pos)"

definition after_pkg ::
  "nat \<Rightarrow> 't serv_if \<Rightarrow> nat \<Rightarrow> u32 \<Rightarrow> bool \<Rightarrow> nat \<Rightarrow> int \<Rightarrow> int \<times> 't world \<Rightarrow> (int \<times> nat option \<times> 't world) res"
where
  "after_pkg fuel dll fd max_len is_par pos cnt = (\<lambda>(r, w).
     if is_par \<and> r \<noteq> 0 then Inr (-1, None, w)
     else if \<not> is_par \<and> fi_type (fdi w fd) = fd_type_unused then Inr (cnt, None, w)
     else
       let n = rcvprotlen (cb (fdi w fd)); pos' = skip_pkg fd n pos w; w' = take_pkg fd n w in
       if recvlen (cb (fdi w fd)) - n > 0 then parse_loop fuel dll fd max_len is_par pos' (cnt + 1) w'
       else Inr (cnt + 1, Some pos', w'))"

lemma parse_loop_Suc:
  "parse_loop (Suc fuel) dll fd max_len is_par pos cnt w =
     bindR (learn_pkg_len dll fd is_par pos w) (\<lambda>w1.
     let n = rcvprotlen (cb (fdi w1 fd)); len = recvlen (cb (fdi w1 fd)) in
     if n > max_len then Inr (-1, None, w1)
     else if n = 0 then (if len = max_len then Inl (Exit 1) else Inr (cnt, Some pos, w1))
     else if len \<ge> n then
       bindR (recv_bytes fd pos (unat n) w1) (\<lambda>pkg.
       bindR (hand_over dll fd is_par pkg w1) (after_pkg fuel dll fd max_len is_par pos cnt))
     else Inr (cnt, Some pos, w1))"
  unfolding parse_loop.simps after_pkg_def take_pkg_def skip_pkg_def Let_def ..

lemma take_window:
  assumes win: "window dll fd w buf pos B" and n: "0 < unat n" "unat n \<le> length B" "rcvprotlen (cb (fdi w fd)) = n"
  shows "window dll fd (take_pkg fd n w) buf (skip_pkg fd n pos w) (drop (unat n) B)"
    "0 < recvlen (cb (fdi w fd)) - n \<longleftrightarrow> unat n < length B"
proof -
  note adv = window_advance [OF win refl n]
  show "window dll fd (take_pkg fd n w) buf (skip_pkg fd n pos w) (drop (unat n) B)"
    using adv(1) by (simp add: take_pkg_def skip_pkg_def)
  show "0 < recvlen (cb (fdi w fd)) - n \<longleftrightarrow> unat n < length B"
    unfolding adv(2) using window_len(1) [OF win] by (simp add: word_less_nat_alt unat_of_nat_small del: of_nat_diff)
qed

lemma parse_round:
  assumes win: "window dll fd w buf pos B" and bc: "bc_elem (fdi w fd) = Some i"
  defines "k \<equiv> pkg_len dll fd B" and "w1 \<equiv> upd_cb fd (\<lambda>c. c\<lparr>rcvprotlen := get_pkg_len dll fd B True\<rparr>) w"
    and "x \<equiv> mk_block w fd (take (pkg_len dll fd B) B)"
  shows "k = 0 \<or> length B < k \<Longrightarrow> parse_loop (Suc fuel) dll fd (page_size w) True pos cnt w \<in>
      {Inr (-1, None, w1), Inl (Exit 1), Inr (cnt, Some pos, w1)}"
    "0 < k \<Longrightarrow> k \<le> length B \<Longrightarrow> parse_loop (Suc fuel) dll fd (page_size w) True pos cnt w =
      bindR (push_recvq (Some i) (fst x) (snd x) w1) (after_pkg fuel dll fd (page_size w) True pos cnt)"
proof -
  let ?n = "get_pkg_len dll fd B True"
  note lp = learn_pkg_len_window [OF win, folded w1_def]
  have l: "fd < length (fds w)" and le: "length B \<le> unat (page_size w)" using win by (auto simp: window_def)
  have k: "unat ?n = k" by (simp add: k_def pkg_len_def)
  have ge: "(of_nat (length B) :: u32) \<ge> ?n \<longleftrightarrow> k \<le> length B"
    using window_len [OF win] by (simp add: word_le_nat_alt k unat_of_nat_small)
  have n0: "?n = 0 \<longleftrightarrow> k = 0" by (simp add: k_def pkg_len_def unat_eq_0)
  show "parse_loop (Suc fuel) dll fd (page_size w) True pos cnt w \<in> {Inr (-1, None, w1), Inl (Exit 1), Inr (cnt, Some pos, w1)}"
    if "k = 0 \<or> length B < k"
    using lp ge n0 that unfolding parse_loop_Suc by (auto simp: Let_def)
  assume kle: "0 < k" "k \<le> length B"
  have "recv_bytes fd pos k w1 = Inr (take k B)" by (rule window_recv_bytes [OF lp(2) kle(2)])
  moreover have "hand_over dll fd True (take k B) w1 = push_recvq (Some i) (fst x) (snd x) w1"
    using l bc by (simp add: hand_over_def mk_block_def x_def w1_def k_def)
  moreover have "\<not> ?n > page_size w" using kle(2) le by (simp add: word_less_nat_alt k)
  ultimately show "parse_loop (Suc fuel) dll fd (page_size w) True pos cnt w =
      bindR (push_recvq (Some i) (fst x) (snd x) w1) (after_pkg fuel dll fd (page_size w) True pos cnt)"
    using lp ge n0 k kle unfolding parse_loop_Suc by (simp add: Let_def)
qed

definition parsed ::
  "'t serv_if \<Rightarrow> nat \<Rightarrow> byte list \<Rightarrow> nat \<Rightarrow> byte list \<Rightarrow> message list \<Rightarrow> 't world \<Rightarrow> byte list list \<Rightarrow> 't world \<Rightarrow> nat \<Rightarrow> bool"
where
  "parsed dll fd buf i B xs w ps w' pos' \<longleftrightarrow>
     (\<exists>R c b. cut (pkg_len dll fd) B = (ps, R) \<and> w' = (upd_cb fd (\<lambda>_. c) w)\<lparr>bindconf := b\<rparr> \<and>
        window dll fd w' buf pos' R \<and> conf_rep (page_size w) b i (xs @ map (mk_block w fd) ps))"

lemma upd_cb_const: "fd < length (fds w) \<Longrightarrow> upd_cb fd f w = upd_cb fd (\<lambda>_. f (cb (fdi w fd))) w"
  by (simp add: upd_cb_def upd_fd_def)

lemma parse_loop_parent:
  assumes "window dll fd w buf pos B" "length B < fuel" "bc_elem (fdi w fd) = Some i" "peer w = idle"
    "conf_rep (page_size w) (bindconf w) i xs" "0 \<le> cnt" "r \<noteq> -1"
    "parse_loop fuel dll fd (page_size w) True pos cnt w = Inr (r, p, w')"
  shows "\<exists>ps pos'. p = Some pos' \<and> r = cnt + int (length ps) \<and> parsed dll fd buf i B xs w ps w' pos'"
  using assms
proof (induction fuel arbitrary: pos cnt w B xs)
  case (Suc fuel)
  note win = Suc.prems(1)
  let ?n = "get_pkg_len dll fd B True" and ?k = "pkg_len dll fd B" and ?c = "\<lambda>B. cut (pkg_len dll fd) B"
  define w1 where "w1 = upd_cb fd (\<lambda>c. c\<lparr>rcvprotlen := ?n\<rparr>) w"
  note lp = learn_pkg_len_window [OF win, folded w1_def] and round = parse_round [OF win Suc.prems(3), folded w1_def]
  have l: "fd < length (fds w)" using win by (simp add: window_def)
  show ?case
  proof (cases "?k = 0 \<or> length B < ?k")
    case True
    then have e: "r = cnt" "p = Some pos" "w' = w1" using round(1) [OF True, of fuel cnt] Suc.prems(7,8) by auto
    have "\<exists>c. w1 = (upd_cb fd (\<lambda>_. c) w)\<lparr>bindconf := bindconf w\<rparr>"
      unfolding w1_def using upd_cb_const [OF l] by (intro exI [of _ "(cb (fdi w fd))\<lparr>rcvprotlen := ?n\<rparr>"]) (simp add: upd_cb_def upd_fd_def)
    then show ?thesis using e lp(2) Suc.prems(5) cut_stop [of "pkg_len dll fd" B] True by (auto simp: parsed_def)
  next
    case False
    then have k: "0 < ?k" "?k \<le> length B" by auto
    let ?x = "mk_block w fd (take ?k B)"
    obtain r2 w2 where push: "push_recvq (Some i) (fst ?x) (snd ?x) w1 = Inr (r2, w2)"
      and rest: "after_pkg fuel dll fd (page_size w) True pos cnt (r2, w2) = Inr (r, p, w')"
      using round(2) [OF k, of fuel cnt] Suc.prems(8) by auto
    have r2: "r2 = 0" using rest Suc.prems(7) by (auto simp: after_pkg_def split: if_splits)
    have "msg_fits (fst ?x, snd ?x)" using mk_block_fits [of "take ?k B" w fd] window_len(1) [OF win] by simp
    then obtain b where b: "w2 = w1\<lparr>bindconf := b\<rparr>" "conf_rep (page_size w) b i (xs @ [?x])"
      using push_recvq_rep [of w1 i xs "fst ?x" "snd ?x" 0 w2] Suc.prems(4,5) push r2 by (auto simp: w1_def)
    have n2: "window dll fd w2 buf pos B" "rcvprotlen (cb (fdi w2 fd)) = ?n" "fd < length (fds w2)"
      using lp b(1) l by (auto simp: window_bindconf w1_def)
    let ?w3 = "take_pkg fd ?n w2" and ?pos3 = "skip_pkg fd ?n pos w2"
    have kn: "unat ?n = ?k" by (simp add: pkg_len_def)
    note adv = take_window [OF n2(1) _ _ n2(2), unfolded kn, OF k]
    have "\<exists>f. ?w3 = (upd_cb fd f w)\<lparr>bindconf := b\<rparr>" unfolding take_pkg_def b(1) w1_def using l by auto
    then obtain c3 where w3: "?w3 = (upd_cb fd (\<lambda>_. c3) w)\<lparr>bindconf := b\<rparr>" using upd_cb_const [OF l] by metis
    have next3: "(if ?k < length B then parse_loop fuel dll fd (page_size w) True ?pos3 (cnt + 1) ?w3
         else Inr (cnt + 1, Some ?pos3, ?w3)) = Inr (r, p, w')"
      using rest r2 adv(2) by (simp add: after_pkg_def n2(2) Let_def cong: if_cong)
    show ?thesis
    proof (cases "?k < length B")
      case True
      have mk: "mk_block ?w3 fd = mk_block w fd" using l by (intro ext) (simp add: mk_block_def w3)
      have "length (drop ?k B) < fuel" using Suc.prems(2) k by simp
      then obtain ps pos' where ih: "p = Some pos'" "r = cnt + 1 + int (length ps)"
        "parsed dll fd buf i (drop ?k B) (xs @ [?x]) ?w3 ps w' pos'"
        using Suc.IH [OF adv(1), of "xs @ [?x]" "cnt + 1"] Suc.prems(3,4,6,7) True next3 l b(2) by (auto simp: w3)
      then have "parsed dll fd buf i B xs w (take ?k B # ps) w' pos'"
        using cut_step [of "pkg_len dll fd" B, OF _ k(2)] k l by (auto simp: parsed_def mk) (auto simp: w3)
      with ih show ?thesis by (intro exI [of _ "take ?k B # ps"] exI [of _ pos']) simp
    next
      case False
      then have e: "drop ?k B = []" "cut (pkg_len dll fd) (drop ?k B) = ([], [])" using k by (auto simp: cut_Nil)
      have "parsed dll fd buf i B xs w [take ?k B] ?w3 ?pos3"
        using cut_step [of "pkg_len dll fd" B, OF _ k(2) e(2)] k adv(1) b(2) unfolding parsed_def e(1) by (auto simp: w3)
      then show ?thesis using next3 False by (intro exI [of _ "[take ?k B]"] exI [of _ ?pos3]) simp
    qed
  qed
qed simp

lemma window_conn_rep: "window dll fd w buf 0 B \<Longrightarrow> conn_rep dll fd w B"
  by (auto simp: window_def conn_rep_def bytes_at_def)

lemma conn_rep_window:
  "conn_rep dll fd w B \<Longrightarrow> recvptr (cb (fdi w fd)) = Some buf \<Longrightarrow> window dll fd w buf 0 B"
  by (auto simp: window_def conn_rep_def bytes_at_def)

lemma compact_window:
  assumes win: "window dll fd w buf pos B"
  shows "\<exists>c ov. compact fd pos w = Inr ((upd_cb fd (\<lambda>_. c) w)\<lparr>overlap := ov\<rparr>) \<and>
    conn_rep dll fd ((upd_cb fd (\<lambda>_. c) w)\<lparr>overlap := ov\<rparr>) B \<and> (ov \<longleftrightarrow> overlap w \<or> 0 < pos \<and> pos < length B)"
proof -
  have l: "fd < length (fds w)" using win by (simp add: window_def)
  have same: "(upd_cb fd (\<lambda>_. cb (fdi w fd)) w)\<lparr>overlap := overlap w\<rparr> = w"
    by (simp add: upd_cb_def upd_fd_def)
  consider "pos = 0" | "pos \<noteq> 0" "B = []" | "pos \<noteq> 0" "B \<noteq> []" by blast
  then show ?thesis
  proof cases
    case 1
    then show ?thesis
      using same win window_conn_rep [of dll fd w buf B]
      by (intro exI [of _ "cb (fdi w fd)"] exI [of _ "overlap w"]) (simp add: compact_def Let_def)
  next
    case 2
    moreover have "conn_rep dll fd w []" using win 2 by (auto simp: window_def conn_rep_def)
    ultimately show ?thesis
      using same window_len [OF win]
      by (intro exI [of _ "cb (fdi w fd)"] exI [of _ "overlap w"]) (simp add: compact_def Let_def)
  next
    case 3
    let ?c = "(cb (fdi w fd))\<lparr>recvptr := Some (put_bytes buf 0 B)\<rparr>"
    have buf: "recvptr (cb (fdi w fd)) = Some buf" "length B \<le> length buf" using win by (auto simp: window_def)
    have "compact fd pos w = Inr ((upd_cb fd (\<lambda>_. ?c) w)\<lparr>overlap := overlap w \<or> pos < length B\<rparr>)"
      using 3 window_len [OF win] window_recv_bytes [OF win order.refl] buf l
      by (simp add: compact_def Let_def upd_cb_const [of fd w "\<lambda>c. c\<lparr>recvptr := _\<rparr>"])
    moreover have "conn_rep dll fd ((upd_cb fd (\<lambda>_. ?c) w)\<lparr>overlap := ov\<rparr>) B" for ov
      using win l buf by (simp add: conn_rep_def window_def length_put_bytes) (simp add: put_bytes_def)
    ultimately show ?thesis using 3 by blast
  qed
qed

text \<open>What a read leaves alone.\<close>

definition same_conn :: "nat \<Rightarrow> 't world \<Rightarrow> 't world \<Rightarrow> bool" where
  "same_conn fd w w' \<longleftrightarrow> length (fds w') = length (fds w) \<and> page_size w' = page_size w \<and>
     bindconf w' = bindconf w \<and> peer w' = peer w \<and> fi_id (fdi w' fd) = fi_id (fdi w fd) \<and>
     bc_elem (fdi w' fd) = bc_elem (fdi w fd) \<and> fi_type (fdi w' fd) = fi_type (fdi w fd)"

lemma add_to_etin_queue_reflagged: "add_to_etin_queue fd w = Inr w' \<Longrightarrow> reflagged fd w w'"
  by (auto simp: add_to_etin_queue_def reflagged_def set_flag_def upd_fd_def split: if_splits)

lemma del_from_etin_queue_reflagged: "del_from_etin_queue fd w = Inr w' \<Longrightarrow> reflagged fd w w'"
  by (auto simp: del_from_etin_queue_def reflagged_def set_flag_def upd_fd_def split: if_splits)

lemma reflagged_same_conn:
  assumes "reflagged fd w w'" "fd < length (fds w)"
  shows "same_conn fd w w' \<and> cb (fdi w' fd) = cb (fdi w fd) \<and> rx w' = rx w"
  using assms by (auto simp: reflagged_def same_conn_def) (auto simp: set_flag_def upd_fd_def)

lemma touch_sel [simp]:
  "length (fds (touch fd w)) = length (fds w)" "page_size (touch fd w) = page_size w"
  "bindconf (touch fd w) = bindconf w" "peer (touch fd w) = peer w" "rx (touch fd w) = rx w"
  "fd < length (fds w) \<Longrightarrow> cb (fdi (touch fd w) x) = cb (fdi w x)"
  "fd < length (fds w) \<Longrightarrow> fi_id (fdi (touch fd w) x) = fi_id (fdi w x)"
  "fd < length (fds w) \<Longrightarrow> bc_elem (fdi (touch fd w) x) = bc_elem (fdi w x)"
  "fd < length (fds w) \<Longrightarrow> fi_type (fdi (touch fd w) x) = fi_type (fdi w x)"
  by (auto simp: touch_def upd_fd_def nth_list_update)

lemma map_recvbuf_rep:
  assumes "conn_rep dll fd w B" "map_recvbuf fd w = Inr w1"
  shows "(\<exists>buf. window dll fd w1 buf 0 B) \<and> same_conn fd w w1 \<and> rx w1 = rx w"
proof (cases "recvptr (cb (fdi w fd))")
  case None
  then show ?thesis
    using assms by (auto simp: map_recvbuf_def conn_rep_def window_def same_conn_def split: if_splits)
next
  case (Some buf)
  then have "w1 = w" using assms(2) by (simp add: map_recvbuf_def)
  then show ?thesis using conn_rep_window [OF assms(1) Some] by (auto simp: same_conn_def)
qed


lemma safe_tcp_recv_bound:
  "safe_tcp_recv n as = Inr (Bytes bs, as') \<Longrightarrow> 0 \<le> n \<Longrightarrow> bs \<noteq> [] \<and> int (length bs) \<le> n"
proof (induction n as rule: safe_tcp_recv.induct)
  case (3 n bs as)
  have "nat (n mod 2 ^ 64) \<le> nat n" using 3 by (intro nat_mono zmod_le_nonneg_dividend)
  then show ?case using 3 by (auto simp: Let_def split: if_splits)
qed (auto split: if_splits)

lemma same_conn_trans: "same_conn fd w1 w2 \<Longrightarrow> same_conn fd w2 w3 \<Longrightarrow> same_conn fd w1 w3"
  by (simp add: same_conn_def)

lemma window_extend:
  assumes win: "window dll fd w buf 0 B" and st: "stable_len (pkg_len dll fd)"
    and bl: "length B + length bs \<le> length buf"
    and c: "cb (fdi w' fd) = (cb (fdi w fd))\<lparr>recvptr := Some (put_bytes buf (length B) bs),
      recvlen := recvlen (cb (fdi w fd)) + of_nat (length bs)\<rparr>"
    and "page_size w' = page_size w" "fd < length (fds w')"
  shows "window dll fd w' (put_bytes buf (length B) bs) 0 (B @ bs)"
proof -
  have "get_pkg_len dll fd (B @ bs) True = get_pkg_len dll fd B True" if "get_pkg_len dll fd B True \<noteq> 0"
  proof -
    have "pkg_len dll fd B \<noteq> 0" using that by (simp add: pkg_len_def unat_eq_0)
    then have "pkg_len dll fd (B @ bs) = pkg_len dll fd B" using st unfolding stable_len_def by blast
    then show ?thesis by (simp add: pkg_len_def word_unat_eq_iff)
  qed
  moreover have "rcvprotlen (cb (fdi w' fd)) = 0 \<or> rcvprotlen (cb (fdi w' fd)) = get_pkg_len dll fd B True"
    using c win by (simp add: window_def)
  ultimately have 1: "rcvprotlen (cb (fdi w' fd)) = 0 \<or>
      rcvprotlen (cb (fdi w' fd)) = get_pkg_len dll fd (B @ bs) True" by metis
  have 2: "bytes_at (put_bytes buf (length B) bs) 0 (length (B @ bs)) = B @ bs"
    using win bl by (auto simp: window_def bytes_at_def put_bytes_def)
  have 3: "length (put_bytes buf (length B) bs) = length buf" using bl by (rule length_put_bytes)
  have 4: "recvlen (cb (fdi w' fd)) = of_nat (length (B @ bs))"
    using c win by (simp add: window_def)
  have 5: "recvptr (cb (fdi w' fd)) = Some (put_bytes buf (length B) bs)" using c by simp
  have 6: "small (page_size w')" "length buf = unat (page_size w')" using win assms(5) by (auto simp: window_def)
  show ?thesis
    unfolding window_def 3 5 using 1 2 4 6 bl assms(6) by (intro conjI) simp_all
qed

lemma window_cong:
  "window dll fd w buf pos B \<Longrightarrow> cb (fdi w' fd) = cb (fdi w fd) \<Longrightarrow> page_size w' = page_size w \<Longrightarrow>
   length (fds w') = length (fds w) \<Longrightarrow> window dll fd w' buf pos B"
  by (simp add: window_def)

lemma do_read_conn_rep:
  assumes rep: "conn_rep dll fd w B" and st: "stable_len (pkg_len dll fd)"
    and r: "do_read_conn fd (page_size w) w = Inr (r, w')" "r \<noteq> -1"
  shows "\<exists>bs buf. window dll fd w' buf 0 (B @ bs) \<and> same_conn fd w w' \<and> rx w' fd = rx w fd @ bs"
proof -
  have l: "fd < length (fds w)" using rep by (simp add: conn_rep_def)
  obtain w1 where w1: "map_recvbuf fd w = Inr w1" using r by (auto simp: do_read_conn_def split: if_splits)
  obtain buf where win: "window dll fd w1 buf 0 B" and sc: "same_conn fd w w1" and rx: "rx w1 = rx w"
    using map_recvbuf_rep [OF rep w1] by auto
  let ?n = "recvlen (cb (fdi w1 fd))"
  have l1: "fd < length (fds w1)" and ps: "page_size w1 = page_size w" using win sc by (auto simp: window_def same_conn_def)
  show ?thesis
  proof (cases "page_size w = ?n")
    case True
    then have "w' = w1" using r w1 ps by (auto simp: do_read_conn_def Let_def split: if_splits)
    then show ?thesis using win sc rx by (intro exI [of _ "[]"] exI [of _ buf]) auto
  next
    case False
    obtain a as where a: "safe_tcp_recv (sint (page_size w - ?n)) (recv_as w1) = Inr (a, as)"
      using r False w1 ps by (auto simp: do_read_conn_def Let_def split: if_splits)
    have "a \<noteq> Closed" using r False w1 ps a by (auto simp: do_read_conn_def split: if_splits)
    define bs where "bs = (case a of Bytes bs \<Rightarrow> bs | _ \<Rightarrow> [])"
    have len: "length B \<le> unat (page_size w)" "unat ?n = length B" "small (page_size w)"
      using win window_len [OF win] ps by (auto simp: window_def)
    then have sub: "unat (page_size w - ?n) = unat (page_size w) - length B" by (simp add: unat_sub_le32)
    then have sg: "sint (page_size w - ?n) = int (unat (page_size w) - length B)"
      using len by (subst sint_small) (auto simp: small_def)
    have "int (length bs) \<le> sint (page_size w - ?n)"
      using safe_tcp_recv_bound [of "sint (page_size w - ?n)" "recv_as w1"] a sg by (cases a) (auto simp: bs_def)
    then have bl: "length B + length bs \<le> length buf"
      using sg len win ps by (simp add: window_def)
    define w3 where "w3 = (if bs = [] then w1\<lparr>recv_as := as\<rparr>
        else touch fd (upd_cb fd (\<lambda>c. c\<lparr>recvptr := Some (put_bytes buf (length B) bs), recvlen := ?n + of_nat (length bs)\<rparr>)
               (w1\<lparr>recv_as := as, rx := (rx w1)(fd := rx w1 fd @ bs)\<rparr>)))"
    have "(if recvlen (cb (fdi w3 fd)) = page_size w then add_to_etin_queue else del_from_etin_queue) fd w3 = Inr w'"
      using r False w1 ps a win bl len l
      unfolding do_read_conn_def w3_def bs_def
      by (cases a) (auto simp: Let_def fd_ok_def window_def split: if_splits)
    then have rf: "reflagged fd w3 w'"
      by (auto split: if_splits dest: add_to_etin_queue_reflagged del_from_etin_queue_reflagged)
    obtain b3 where b3: "window dll fd w3 b3 0 (B @ bs)"
    proof (cases "bs = []")
      case True
      then show ?thesis using that window_cong [OF win, of w3] by (auto simp: w3_def)
    next
      case False
      have "window dll fd w3 (put_bytes buf (length B) bs) 0 (B @ bs)"
        by (rule window_extend [OF win st bl]) (use False l1 in \<open>auto simp: w3_def\<close>)
      then show ?thesis by (rule that)
    qed
    have s3: "same_conn fd w1 w3" "rx w3 fd = rx w1 fd @ bs" "fd < length (fds w3)"
      using l1 by (auto simp: same_conn_def w3_def)
    note s4 = reflagged_same_conn [OF rf s3(3)]
    then have "window dll fd w' b3 0 (B @ bs)" using window_cong [OF b3] by (auto simp: same_conn_def)
    then show ?thesis
      using s3 s4 sc rx by (intro exI [of _ bs] exI [of _ b3]) (simp add: same_conn_def)
  qed
qed


section \<open>Framing with a stable length\<close>

definition framed :: "'t serv_if \<Rightarrow> nat \<Rightarrow> 't world \<Rightarrow> byte list list \<Rightarrow> bool" where
  "framed dll fd w ps \<longleftrightarrow> (\<exists>B. cut (pkg_len dll fd) (rx w fd) = (ps, B) \<and> conn_rep dll fd w B)"

lemma framed_fresh:
  "fd < length (fds w) \<Longrightarrow> small (page_size w) \<Longrightarrow> recvptr (cb (fdi w fd)) = None \<Longrightarrow> rx w fd = [] \<Longrightarrow>
   framed dll fd w []"
  by (simp add: framed_def conn_rep_def cut_Nil)

lemma net_recv_step:
  assumes fr: "framed dll fd w ps" and st: "stable_len (pkg_len dll fd)"
    and ty: "fi_type (fdi w fd) \<noteq> fd_type_pipe" and bc: "bc_elem (fdi w fd) = Some i" and pe: "peer w = idle"
    and q: "conf_rep (page_size w) (bindconf w) i xs"
    and r: "net_recv dll fd (page_size w) True w = Inr (r, w')" "r \<noteq> -1"
  shows "\<exists>qs. r = int (length qs) \<and> framed dll fd w' (ps @ qs) \<and> peer w' = peer w \<and>
    page_size w' = page_size w \<and> fi_type (fdi w' fd) = fi_type (fdi w fd) \<and>
    bc_elem (fdi w' fd) = bc_elem (fdi w fd) \<and> mk_block w' fd = mk_block w fd \<and>
    conf_rep (page_size w) (bindconf w') i (xs @ map (mk_block w fd) qs)"
proof -
  obtain B where B: "cut (pkg_len dll fd) (rx w fd) = (ps, B)" "conn_rep dll fd w B"
    using fr by (auto simp: framed_def)
  obtain r1 w1 cnt pos w2 where rd: "do_read_conn fd (page_size w) w = Inr (r1, w1)" "r1 \<noteq> -1"
    and pl: "parse_loop (unat (recvlen (cb (fdi w1 fd))) + 1) dll fd (page_size w) True 0 0 w1 = Inr (r, pos, w2)"
    and fin: "(case pos of None \<Rightarrow> Inr (r, w2) | Some p \<Rightarrow> bindR (compact fd p w2) (\<lambda>w3. Inr (r, w3))) = Inr (r, w')"
    using r ty by (auto simp: net_recv_def split: if_splits option.splits)
  obtain bs buf where win: "window dll fd w1 buf 0 (B @ bs)" and sc: "same_conn fd w w1"
    and rx1: "rx w1 fd = rx w fd @ bs"
    using do_read_conn_rep [OF B(2) st rd] by auto
  have l: "fd < length (fds w1)" using win by (simp add: window_def)
  have fuel: "length (B @ bs) < unat (recvlen (cb (fdi w1 fd))) + 1" using window_len [OF win] by simp
  obtain qs p where p: "pos = Some p" "r = int (length qs)" "parsed dll fd buf i (B @ bs) xs w1 qs w2 p"
    using parse_loop_parent [OF win fuel, of i xs 0 r pos w2] bc pe q pl r(2) sc
    by (auto simp: same_conn_def simp del: parse_loop.simps)
  then obtain R c b where R: "cut (pkg_len dll fd) (B @ bs) = (qs, R)"
      "w2 = (upd_cb fd (\<lambda>_. c) w1)\<lparr>bindconf := b\<rparr>" "window dll fd w2 buf p R"
      "conf_rep (page_size w1) b i (xs @ map (mk_block w1 fd) qs)"
    by (auto simp: parsed_def)
  obtain c' ov where c': "w' = (upd_cb fd (\<lambda>_. c') w2)\<lparr>overlap := ov\<rparr>" "conn_rep dll fd w' R"
    using compact_window [OF R(3)] fin p(1) by auto
  have "cut (pkg_len dll fd) (rx w1 fd) = (ps @ qs, R)"
    using cut_append [OF B(1) R(1) st] rx1 by simp
  moreover have "rx w' fd = rx w1 fd" using c' R(2) by simp
  moreover have mk: "mk_block w1 fd = mk_block w fd" "mk_block w' fd = mk_block w1 fd"
    using sc l c'(1) R(2) by (auto simp: mk_block_def same_conn_def)
  ultimately have "framed dll fd w' (ps @ qs)" "conf_rep (page_size w) (bindconf w') i (xs @ map (mk_block w fd) qs)"
    using c' R sc by (auto simp: framed_def same_conn_def)
  then show ?thesis using p(2) mk sc l c'(1) R(2) by (auto simp: same_conn_def)
qed

text \<open>Successive calls on one connection, as the event loop makes them.\<close>

fun recv_calls :: "nat \<Rightarrow> 't serv_if \<Rightarrow> nat \<Rightarrow> 't world \<Rightarrow> (bool \<times> 't world) res" where
  "recv_calls 0 dll fd w = Inr (True, w)"
| "recv_calls (Suc k) dll fd w =
     bindR (net_recv dll fd (page_size w) True w) (\<lambda>(r, w1).
       if r = -1 then Inr (False, w1) else recv_calls k dll fd w1)"

lemma recv_calls_framed:
  assumes "framed dll fd w ps" "stable_len (pkg_len dll fd)"
    "fi_type (fdi w fd) \<noteq> fd_type_pipe" "bc_elem (fdi w fd) = Some i" "peer w = idle"
    "conf_rep (page_size w) (bindconf w) i xs" "recv_calls k dll fd w = Inr (True, w')"
  shows "\<exists>qs. framed dll fd w' (ps @ qs) \<and> conf_rep (page_size w) (bindconf w') i (xs @ map (mk_block w fd) qs)"
  using assms
proof (induction k arbitrary: w ps xs)
  case 0
  then show ?case by (intro exI [of _ "[]"]) simp
next
  case (Suc k)
  obtain r w1 where 1: "net_recv dll fd (page_size w) True w = Inr (r, w1)" "r \<noteq> -1"
    "recv_calls k dll fd w1 = Inr (True, w')"
    using Suc.prems(7) by (auto split: if_splits)
  obtain qs where qs: "framed dll fd w1 (ps @ qs)" "peer w1 = peer w" "page_size w1 = page_size w"
    "fi_type (fdi w1 fd) = fi_type (fdi w fd)" "bc_elem (fdi w1 fd) = bc_elem (fdi w fd)"
    "mk_block w1 fd = mk_block w fd"
    "conf_rep (page_size w) (bindconf w1) i (xs @ map (mk_block w fd) qs)"
    using net_recv_step [OF Suc.prems(1-6) 1(1,2)] by blast
  obtain qs' where "framed dll fd w' ((ps @ qs) @ qs')"
    "conf_rep (page_size w) (bindconf w') i ((xs @ map (mk_block w fd) qs) @ map (mk_block w fd) qs')"
    using Suc.IH [OF qs(1) Suc.prems(2)] Suc.prems(3-5) qs 1(3) by (metis (full_types))
  then show ?case by (intro exI [of _ "qs @ qs'"]) simp
qed

section \<open>The send buffer\<close>

definition pending :: "nat \<Rightarrow> 't world \<Rightarrow> byte list" where
  "pending fd w = (case sendptr (cb (fdi w fd)) of None \<Rightarrow> []
     | Some buf \<Rightarrow> take (unat (sendlen (cb (fdi w fd)))) buf)"

definition send_rep :: "nat \<Rightarrow> 't world \<Rightarrow> bool" where
  "send_rep fd w \<longleftrightarrow> fd < length (fds w) \<and>
     (case sendptr (cb (fdi w fd)) of None \<Rightarrow> sendlen (cb (fdi w fd)) = 0
      | Some buf \<Rightarrow> length buf = unat (sndbufsz (cb (fdi w fd))) \<and>
          unat (sendlen (cb (fdi w fd))) \<le> length buf)"

lemma length_pending: "send_rep fd w \<Longrightarrow> length (pending fd w) = unat (sendlen (cb (fdi w fd)))"
  by (auto simp: send_rep_def pending_def split: option.splits)

lemma touch_frame [simp]:
  "tx (touch fd w) = tx w" "interest (touch fd w) = interest w" "is_parent (touch fd w) = is_parent w"
  "send_buf_limit_size (touch fd w) = send_buf_limit_size w" "send_as (touch fd w) = send_as w"
  by (simp_all add: touch_def upd_fd_def)

lemma upd_cb_frame [simp]:
  "tx (upd_cb fd f w) = tx w" "interest (upd_cb fd f w) = interest w" "is_parent (upd_cb fd f w) = is_parent w"
  "send_buf_limit_size (upd_cb fd f w) = send_buf_limit_size w" "send_as (upd_cb fd f w) = send_as w"
  by (simp_all add: upd_cb_def upd_fd_def)

text \<open>A step of the write path: the send log and the pending bytes of \<open>fd\<close> carry the stream.\<close>

definition stream :: "nat \<Rightarrow> 't world \<Rightarrow> byte list" where
  "stream fd w = tx w fd @ pending fd w"

definition same_out :: "'t world \<Rightarrow> 't world \<Rightarrow> bool" where
  "same_out w w' \<longleftrightarrow> interest w' = interest w \<and> is_parent w' = is_parent w \<and>
     send_buf_limit_size w' = send_buf_limit_size w"

lemma do_write_conn_rep:
  assumes rep: "send_rep fd w" and sm: "small (sendlen (cb (fdi w fd)))"
    and r: "do_write_conn fd w = Inr (r, w')" "r \<noteq> -1"
  shows "send_rep fd w' \<and> stream fd w' = stream fd w \<and> same_out w w' \<and>
    small (sendlen (cb (fdi w' fd))) \<and> length (pending fd w') \<le> length (pending fd w)"
proof -
  let ?c = "cb (fdi w fd)" and ?n = "sendlen (cb (fdi w fd))"
  have l: "fd < length (fds w)" using rep by (simp add: send_rep_def)
  obtain buf where buf: "sendptr ?c = Some buf" "unat ?n \<le> length buf" "length buf = unat (sndbufsz ?c)"
    using rep r by (auto simp: send_rep_def do_write_conn_def Let_def split: option.splits if_splits)
  obtain k as where k: "safe_tcp_send_n (sint ?n) (send_as w) = Inr (r, k, as)"
    using r buf l by (auto simp: do_write_conn_def fd_ok_def Let_def split: if_splits)
  have b: "r = int k" "k \<le> unat ?n"
    using safe_tcp_send_n_bounds [OF k] r(2) sint_small [OF sm] by auto
  let ?w1 = "w\<lparr>send_as := as, tx := (tx w)(fd := tx w fd @ take k buf)\<rparr>"
  show ?thesis
  proof (cases "k = 0")
    case True
    then have "w' = w\<lparr>send_as := as\<rparr>" using r(1) k buf(1,2) l b(1) by (simp add: do_write_conn_def fd_ok_def Let_def)
    then show ?thesis
      using l sm buf by (simp add: send_rep_def stream_def pending_def same_out_def)
  next
    case False
    have "0 < r" using b False by simp
    define b' where "b' = (if word_of_int r < ?n
        then put_bytes buf 0 (bytes_at buf (nat r) (unat (?n - word_of_int r))) else buf)"
    have w': "w' = touch fd (upd_cb fd (\<lambda>c. c\<lparr>sendptr := Some b', sendlen := ?n - word_of_int r\<rparr>) ?w1)"
      using r(1) k buf(1,2) l \<open>0 < r\<close> unfolding b'_def by (simp add: do_write_conn_def fd_ok_def Let_def)
    have uk: "unat (word_of_int r :: u32) = k"
      using b sm by (simp add: small_def unat_of_nat_small)
    have sub: "unat (?n - word_of_int r) = unat ?n - k"
      using uk b by (simp add: unat_sub_le32)
    have bl: "length b' = length buf"
      using buf(2) sub b by (simp add: b'_def length_put_bytes length_bytes_at)
    have "take (unat ?n - k) b' = drop k (take (unat ?n) buf)"
    proof (cases "k < unat ?n")
      case True
      then have "b' = put_bytes buf 0 (bytes_at buf k (unat ?n - k))"
        using uk sub b by (simp add: b'_def word_less_nat_alt)
      then show ?thesis
        using buf(2) by (simp add: put_bytes_def bytes_at_def drop_take)
    qed (use b in simp)
    moreover have "take k buf = take k (take (unat ?n) buf)" using b by (simp add: min_absorb1)
    ultimately have "take k buf @ take (unat ?n - k) b' = take (unat ?n) buf"
      by (simp only: append_take_drop_id)
    then show ?thesis
      using w' l sub bl buf sm b
      by (auto simp: send_rep_def stream_def pending_def same_out_def small_def)
  qed
qed


lemma grow_sendbuf_rep:
  assumes "grow_sendbuf ok rest c = Inr c'" "unat (sendlen c) + unat rest < 2 ^ 32"
    "case sendptr c of None \<Rightarrow> sendlen c = 0
      | Some buf \<Rightarrow> length buf = unat (sndbufsz c) \<and> unat (sendlen c) \<le> length buf"
  shows "\<exists>buf. sendptr c' = Some buf \<and> sendlen c' = sendlen c \<and> length buf = unat (sndbufsz c') \<and>
    unat (sendlen c) + unat rest \<le> length buf \<and>
    take (unat (sendlen c)) buf = (case sendptr c of None \<Rightarrow> [] | Some b \<Rightarrow> take (unat (sendlen c)) b)"
proof (cases "sendptr c")
  case None
  then show ?thesis using assms by (auto simp: grow_sendbuf_def split: if_splits)
next
  case (Some b)
  have s: "unat (sendlen c + rest) = unat (sendlen c) + unat rest"
    using assms(2) by (simp add: unat_add_less32)
  show ?thesis
  proof (cases "sndbufsz c < sendlen c + rest")
    case True
    then show ?thesis using Some assms s by (auto simp: grow_sendbuf_def min_def split: if_splits)
  next
    case False
    then show ?thesis
      using Some assms s by (auto simp: grow_sendbuf_def word_less_nat_alt)
  qed
qed

lemma merge_buffer_rep:
  assumes rep: "send_rep fd w" and m: "merge_buffer ok fd rest w = Inr w'"
    and len: "unat (sendlen (cb (fdi w fd))) + length rest < 2 ^ 32"
  shows "send_rep fd w' \<and> pending fd w' = pending fd w @ rest \<and> tx w' = tx w \<and> same_out w w'"
proof -
  let ?c = "cb (fdi w fd)"
  have l: "fd < length (fds w)" using rep by (simp add: send_rep_def)
  have ur: "unat (of_nat (length rest) :: u32) = length rest" using len by (intro unat_of_nat_small) simp
  obtain c where c: "grow_sendbuf ok (of_nat (length rest)) ?c = Inr c"
    using m by (auto simp: merge_buffer_def)
  obtain buf where buf: "sendptr c = Some buf" "sendlen c = sendlen ?c" "length buf = unat (sndbufsz c)"
    "unat (sendlen ?c) + length rest \<le> length buf" "take (unat (sendlen ?c)) buf = pending fd w"
    using grow_sendbuf_rep [OF c] rep len ur by (auto simp: send_rep_def pending_def)
  have w': "w' = upd_cb fd (\<lambda>_. c\<lparr>sendptr := Some (put_bytes buf (unat (sendlen ?c)) rest),
      sendlen := sendlen ?c + of_nat (length rest)\<rparr>) w"
    using m c buf by (simp add: merge_buffer_def)
  have s: "unat (sendlen ?c + of_nat (length rest)) = unat (sendlen ?c) + length rest"
    using len ur by (subst unat_add_less32) auto
  have "take (unat (sendlen ?c) + length rest) (put_bytes buf (unat (sendlen ?c)) rest) = pending fd w @ rest"
    using buf(4,5) length_pending [OF rep] by (simp add: put_bytes_def)
  then show ?thesis
    using w' l s buf by (simp add: send_rep_def pending_def same_out_def length_put_bytes)
qed


text \<open>Pending bytes imply that \<open>EPOLLOUT\<close> is registered, so the event loop will come back.\<close>

definition armed :: "nat \<Rightarrow> 't world \<Rightarrow> bool" where
  "armed fd w \<longleftrightarrow> (\<exists>f. interest w fd = Some f \<and> (pending fd w \<noteq> [] \<longrightarrow> ep_out f))"

lemma mod_events_frame [simp]:
  "fds (snd (mod_events fd o' w)) = fds w" "tx (snd (mod_events fd o' w)) = tx w"
  by (auto simp: mod_events_def split: option.splits)

lemma arm_events_frame [simp]: "fds (arm_events fd p w) = fds w" "tx (arm_events fd p w) = tx w"
  by (auto simp: arm_events_def Let_def)

lemma frame_fds:
  "fds w' = fds w \<Longrightarrow> send_rep fd w' = send_rep fd w \<and> pending fd w' = pending fd w"
  by (simp add: send_rep_def pending_def split: option.split)

lemma arm_events_armed:
  assumes "send_rep fd w" "interest w fd = Some f" "p \<Longrightarrow> ep_out f"
  shows "armed fd (arm_events fd p w)"
proof -
  have "sendlen (cb (fdi w fd)) = 0 \<longleftrightarrow> pending fd w = []"
    using length_pending [OF assms(1)] by (metis length_0_conv unat_eq_0)
  moreover have "pending fd (arm_events fd p w) = pending fd w" using frame_fds arm_events_frame by metis
  ultimately show ?thesis
    using assms(2,3) by (auto simp: armed_def arm_events_def Let_def mod_events_def word_gt_0)
qed

lemma flush_pending_rep:
  assumes rep: "send_rep fd w" and sm: "small (sendlen (cb (fdi w fd)))"
    and r: "flush_pending dll fd w = Inr (Some p, w1)"
  shows "send_rep fd w1 \<and> stream fd w1 = stream fd w \<and> same_out w w1 \<and>
    small (sendlen (cb (fdi w1 fd))) \<and> length (pending fd w1) \<le> length (pending fd w) \<and>
    (p \<longleftrightarrow> pending fd w \<noteq> [])"
proof (cases "sendlen (cb (fdi w fd)) = 0")
  case True
  then show ?thesis
    using assms length_pending [OF rep] by (auto simp: flush_pending_def same_out_def)
next
  case False
  then have ne: "pending fd w \<noteq> []" using length_pending [OF rep] by (auto simp: unat_eq_0)
  obtain r' where "do_write_conn fd w = Inr (r', w1)" "r' \<noteq> -1" "p"
    using r False by (auto simp: flush_pending_def word_gt_0 split: if_splits)
  with do_write_conn_rep [OF rep sm] ne show ?thesis by auto
qed

lemma send_fresh_rep:
  assumes rep: "send_rep fd w" and len: "length data < 2 ^ 31"
    and r: "send_fresh dll fd data w = Inr (Some k, w1)"
  shows "send_rep fd w1 \<and> pending fd w1 = pending fd w \<and> same_out w w1 \<and> cb (fdi w1 fd) = cb (fdi w fd) \<and>
    tx w1 fd = tx w fd @ take k data \<and> k \<le> length data \<and> (pending fd w \<noteq> [] \<longrightarrow> k = 0)"
proof (cases "sendlen (cb (fdi w fd)) = 0")
  case False
  then show ?thesis using r rep by (auto simp: send_fresh_def same_out_def)
next
  case True
  have "small (of_nat (length data))" using len by (auto simp: small_def unat_of_nat_small)
  then have si: "sint (of_nat (length data) :: u32) = int (length data)"
    using len by (simp add: sint_small unat_of_nat_small)
  obtain r' k' as where s: "safe_tcp_send_n (int (length data)) (send_as w) = Inr (r', k', as)" "r' \<noteq> -1"
    "k = nat r'" "w1 = w\<lparr>send_as := as, tx := (tx w)(fd := tx w fd @ take k' data)\<rparr>"
    using r True si by (auto simp: send_fresh_def Let_def split: if_splits)
  then have "k' = k" "k \<le> length data" using safe_tcp_send_n_bounds [OF s(1)] by auto
  moreover have "pending fd w = []" using length_pending [OF rep] True by simp
  ultimately show ?thesis using s rep frame_fds [of w1 w fd] by (simp add: same_out_def)
qed

lemma net_send_rep:
  assumes rep: "send_rep fd w" and sm: "small (sendlen (cb (fdi w fd)))" and len: "length data < 2 ^ 31"
    and arm: "armed fd w" and r: "net_send dll ok fd data w = Inr (0, w')"
  shows "send_rep fd w' \<and> stream fd w' = stream fd w @ data \<and> armed fd w' \<and>
    length (pending fd w') \<le> length (pending fd w) + length data"
proof -
  have l: "fd < length (fds w)" using rep by (simp add: send_rep_def)
  obtain p w1 where p: "flush_pending dll fd w = Inr (Some p, w1)"
    using r l by (auto simp: net_send_def fd_ok_def split: option.splits)
  then obtain k w2 where k: "send_fresh dll fd data w1 = Inr (Some k, w2)"
    and rest: "(if length data > k then
                bindR (merge_buffer ok fd (drop k data) w2) (\<lambda>w3.
                  if over_limit fd w3 then Inr (-1, w3) else Inr (0, arm_events fd p w3))
              else Inr (0, arm_events fd p w2)) = Inr (0 :: int, w')"
    using r l by (auto simp: net_send_def fd_ok_def split: option.splits)
  note f = flush_pending_rep [OF rep sm p]
  note g = send_fresh_rep [OF conjunct1 [OF f] len k]
  obtain w3 where w3: "w' = arm_events fd p w3" "send_rep fd w3" "same_out w2 w3"
    "stream fd w3 = stream fd w2 @ drop k data" "length (pending fd w3) \<le> length (pending fd w2) + length data"
  proof (cases "k < length data")
    case True
    then obtain w3 where m: "merge_buffer ok fd (drop k data) w2 = Inr w3" "w' = arm_events fd p w3"
      using rest by (auto split: if_splits)
    have "unat (sendlen (cb (fdi w2 fd))) + length (drop k data) < 2 ^ 32"
      using f g len by (auto simp: small_def)
    from merge_buffer_rep [OF conjunct1 [OF g] m(1) this] m(2) that show thesis
      by (auto simp: stream_def)
  next
    case False
    then show thesis using that [of w2] rest g by (simp add: same_out_def)
  qed
  obtain fl where fl: "interest w fd = Some fl" "pending fd w \<noteq> [] \<longrightarrow> ep_out fl"
    using arm by (auto simp: armed_def)
  have "interest w3 fd = Some fl" using f g w3(3) fl by (simp add: same_out_def)
  with fl f have "armed fd (arm_events fd p w3)" by (intro arm_events_armed [OF w3(2)]) auto
  moreover have "stream fd w2 @ drop k data = stream fd w1 @ data"
    using g by (auto simp: stream_def)
  moreover have "stream fd (arm_events fd p w3) = stream fd w3" "send_rep fd (arm_events fd p w3)"
    "pending fd (arm_events fd p w3) = pending fd w3"
    using frame_fds [of "arm_events fd p w3" w3 fd] w3(2) by (auto simp: stream_def)
  ultimately show ?thesis using w3 f g by auto
qed

section \<open>Faults of the read path\<close>

text \<open>The ways the parent may stop inside \<open>net_recv\<close>: \<open>exit\<close>, never a memory fault.\<close>

definition exit_fault :: "fault \<Rightarrow> bool" where
  "exit_fault e \<longleftrightarrow> e = Exit 1 \<or> e = Exit (-1)"

lemma push_recvq_fault:
  assumes rep: "conf_rep (page_size w) (bindconf w) i xs" and pe: "peer_ok (page_size w) (peer w)"
    and fits: "msg_fits (mb, d)"
    and r: "push_recvq (Some i) mb d w = Inl e"
  shows "e = Exit (-1)"
proof -
  have i: "i < length (configs (bindconf w))" and q: "q_rep (page_size w) (recvq (configs (bindconf w) ! i)) xs"
    using rep by (auto simp: conf_rep_def)
  have "shmq_push (peer w) (page_size w) (recvq (configs (bindconf w) ! i)) mb d = Inl e"
    using r i by (auto simp: push_recvq_def Let_def bindR_Inl_iff)
  then show ?thesis
    using shmq_push_rep [OF q pe, of mb d] fits by (simp add: msg_fits_def msg_len_def)
qed

lemma push_recvq_keeps:
  assumes rep: "conf_rep (page_size w) (bindconf w) i xs" and pe: "peer_ok (page_size w) (peer w)"
    and fits: "msg_fits (mb, d)"
    and r: "push_recvq (Some i) mb d w = Inr (r, w')"
  shows "\<exists>b ys. w' = w\<lparr>bindconf := b\<rparr> \<and> conf_rep (page_size w) b i ys"
proof -
  let ?e = "configs (bindconf w) ! i"
  have i: "i < length (configs (bindconf w))" and q: "q_rep (page_size w) (recvq ?e) xs"
    using rep by (auto simp: conf_rep_def)
  obtain q' where q': "shmq_push (peer w) (page_size w) (recvq ?e) mb d = Inr (r, q')"
    "w' = w\<lparr>bindconf := (bindconf w)\<lparr>configs := (configs (bindconf w))[i := ?e\<lparr>recvq := q'\<rparr>]\<rparr>\<rparr>"
    using r i by (auto simp: push_recvq_def Let_def)
  have "\<exists>ys. q_rep (page_size w) q' ys"
    using shmq_push_rep [OF q pe, of mb d] q'(1) fits by (auto simp: msg_fits_def msg_len_def split: if_splits)
  then have "\<exists>ys. conf_rep (page_size w) ((bindconf w)\<lparr>configs := (configs (bindconf w))[i := ?e\<lparr>recvq := q'\<rparr>]\<rparr>) i ys"
    using i by (simp add: conf_rep_def)
  with q'(2) show ?thesis by blast
qed

definition parse_safe :: "'t serv_if \<Rightarrow> nat \<Rightarrow> byte list \<Rightarrow> (int \<times> nat option \<times> 't world) res \<Rightarrow> bool" where
  "parse_safe dll fd buf m \<longleftrightarrow> (case m of Inl e \<Rightarrow> exit_fault e
     | Inr (r, p, w') \<Rightarrow> (\<forall>q. p = Some q \<longrightarrow> (\<exists>R. window dll fd w' buf q R)))"

lemma parse_loop_safe:
  assumes "window dll fd w buf pos B" "length B < fuel" "bc_elem (fdi w fd) = Some i"
    "peer_ok (page_size w) (peer w)" "conf_rep (page_size w) (bindconf w) i xs"
  shows "parse_safe dll fd buf (parse_loop fuel dll fd (page_size w) True pos cnt w)"
  using assms
proof (induction fuel arbitrary: pos cnt w B xs)
  case (Suc fuel)
  note win = Suc.prems(1)
  let ?n = "get_pkg_len dll fd B True" and ?k = "pkg_len dll fd B"
  define w1 where "w1 = upd_cb fd (\<lambda>c. c\<lparr>rcvprotlen := ?n\<rparr>) w"
  note lp = learn_pkg_len_window [OF win, folded w1_def] and round = parse_round [OF win Suc.prems(3), folded w1_def]
  have l: "fd < length (fds w)" using win by (simp add: window_def)
  show ?case
  proof (cases "?k = 0 \<or> length B < ?k")
    case True
    then show ?thesis using lp(2) round(1) [OF True, of fuel cnt] by (auto simp: parse_safe_def exit_fault_def)
  next
    case False
    then have k: "0 < ?k" "?k \<le> length B" by auto
    let ?x = "mk_block w fd (take ?k B)"
    have fits: "msg_fits (fst ?x, snd ?x)" using mk_block_fits [of "take ?k B" w fd] window_len(1) [OF win] by simp
    have id1: "page_size w1 = page_size w" "bindconf w1 = bindconf w" "peer w1 = peer w" by (simp_all add: w1_def)
    show ?thesis
    proof (cases "push_recvq (Some i) (fst ?x) (snd ?x) w1")
      case (Inl e')
      then have "e' = Exit (-1)" using push_recvq_fault [of w1 i xs "fst ?x" "snd ?x" e'] fits Suc.prems(4,5) id1 by simp
      then show ?thesis using round(2) [OF k, of fuel cnt] Inl by (simp add: parse_safe_def exit_fault_def)
    next
      case (Inr p)
      then obtain r2 w2 where h: "push_recvq (Some i) (fst ?x) (snd ?x) w1 = Inr (r2, w2)" by (cases p) auto
      obtain b ys where b: "w2 = w1\<lparr>bindconf := b\<rparr>" "conf_rep (page_size w) b i ys"
        using push_recvq_keeps [of w1 i xs "fst ?x" "snd ?x" r2 w2] h fits Suc.prems(4,5) id1 by auto
      have n2: "window dll fd w2 buf pos B" "rcvprotlen (cb (fdi w2 fd)) = ?n" "unat ?n = ?k"
        using lp b by (auto simp: window_bindconf pkg_len_def)
      note adv = take_window [OF n2(1) _ _ n2(2), unfolded n2(3), OF k]
      have "length (drop ?k B) < fuel" using Suc.prems(2) k by simp
      moreover have "page_size (take_pkg fd ?n w2) = page_size w" "bindconf (take_pkg fd ?n w2) = b"
          "peer (take_pkg fd ?n w2) = peer w" "bc_elem (fdi (take_pkg fd ?n w2) fd) = Some i"
        using l Suc.prems(3) by (simp_all add: take_pkg_def b(1) w1_def)
      ultimately have "parse_safe dll fd buf (parse_loop fuel dll fd (page_size w) True (skip_pkg fd ?n pos w2) (cnt + 1) (take_pkg fd ?n w2))"
        using Suc.IH [OF adv(1)] Suc.prems(4) b(2) by simp
      then show ?thesis
        using round(2) [OF k, of fuel cnt] h adv(1) n2(2) by (auto simp: parse_safe_def after_pkg_def Let_def)
    qed
  qed
qed simp

lemma compact_no_fault: "window dll fd w buf pos B \<Longrightarrow> \<exists>w'. compact fd pos w = Inr w'"
  using compact_window by blast


lemma queues_ok_cong:
  assumes "queues_ok w cl et" "nodes w' = nodes w" "length (fds w') = length (fds w)"
    "\<And>x. x < length (fds w) \<Longrightarrow> flag (fdi w' x) = flag (fdi w x)"
  shows "queues_ok w' cl et"
  using assms by (auto simp: queues_ok_def)

lemma upd_cb_nodes [simp]:
  "nodes (upd_cb fd f w) = nodes w" "nodes (touch fd w) = nodes w"
  "fd < length (fds w) \<Longrightarrow> flag (fdi (touch fd w) x) = flag (fdi w x)"
  by (auto simp: upd_cb_def upd_fd_def touch_def nth_list_update)

lemma safe_tcp_recv_fault: "safe_tcp_recv n as = Inl e \<Longrightarrow> e = Blocked"
  by (induction n as rule: safe_tcp_recv.induct) (auto simp: Let_def split: if_splits)

lemma etin_ops_no_fault:
  assumes "queues_ok w cl et" "fd < length (fds w)"
  shows "\<exists>w'. (if b then add_to_etin_queue else del_from_etin_queue) fd w = Inr w'"
  using add_to_etin_queue_spec [OF assms] del_from_etin_queue_spec [OF assms] by auto

lemma do_read_conn_fault:
  assumes rep: "conn_rep dll fd w B" and q: "queues_ok w cl et"
    and r: "do_read_conn fd (page_size w) w = Inl e"
  shows "exit_fault e \<or> e = Blocked"
proof -
  have l: "fd < length (fds w)" using rep by (simp add: conn_rep_def)
  show ?thesis
  proof (cases "map_recvbuf fd w")
    case (Inl e')
    then show ?thesis
      using r l by (auto simp: do_read_conn_def fd_ok_def map_recvbuf_def exit_fault_def split: option.splits if_splits)
  next
    case (Inr w1)
    then obtain buf where win: "window dll fd w1 buf 0 B" and sc: "same_conn fd w w1"
      using map_recvbuf_rep [OF rep] by auto
    have q1: "queues_ok w1 cl et"
      by (rule queues_ok_cong [OF q])
        (use Inr l in \<open>auto simp: map_recvbuf_def split: option.splits if_splits\<close>)
    let ?n = "recvlen (cb (fdi w1 fd))"
    have l1: "fd < length (fds w1)" and ps: "page_size w1 = page_size w"
      using win sc by (auto simp: window_def same_conn_def)
    have len: "length B \<le> unat (page_size w)" "unat ?n = length B" "small (page_size w)"
      "recvptr (cb (fdi w1 fd)) = Some buf" "length buf = unat (page_size w)"
      using win window_len [OF win] ps by (auto simp: window_def)
    then have sub: "unat (page_size w - ?n) = unat (page_size w) - length B" by (simp add: unat_sub_le32)
    then have sg: "sint (page_size w - ?n) = int (unat (page_size w) - length B)"
      using len by (subst sint_small) (auto simp: small_def)
    show ?thesis
    proof (cases "safe_tcp_recv (sint (page_size w - ?n)) (recv_as w1)")
      case (Inl e')
      then show ?thesis
        using r l Inr ps safe_tcp_recv_fault [OF Inl] by (auto simp: do_read_conn_def fd_ok_def Let_def split: if_splits)
    next
      case I2: (Inr p)
      then obtain a as where a: "safe_tcp_recv (sint (page_size w - ?n)) (recv_as w1) = Inr (a, as)" by (cases p) auto
      define bs where "bs = (case a of Bytes bs \<Rightarrow> bs | _ \<Rightarrow> [])"
      have "int (length bs) \<le> sint (page_size w - ?n)"
        using safe_tcp_recv_bound [of "sint (page_size w - ?n)" "recv_as w1"] a sg by (cases a) (auto simp: bs_def)
      then have bl: "length B + length bs \<le> length buf" using sg len by simp
      define w3 where "w3 = (if bs = [] then w1\<lparr>recv_as := as\<rparr>
        else touch fd (upd_cb fd (\<lambda>c. c\<lparr>recvptr := Some (put_bytes buf (length B) bs), recvlen := ?n + of_nat (length bs)\<rparr>)
               (w1\<lparr>recv_as := as, rx := (rx w1)(fd := rx w1 fd @ bs)\<rparr>)))"
      have q3: "queues_ok w3 cl et" "fd < length (fds w3)"
        using l1 by (auto simp: w3_def intro!: queues_ok_cong [OF q1])
      obtain w4 where "(if recvlen (cb (fdi w3 fd)) = page_size w then add_to_etin_queue
          else del_from_etin_queue) fd w3 = Inr w4"
        using etin_ops_no_fault [OF q3] by blast
      then show ?thesis
        using r Inr ps a len bl l unfolding do_read_conn_def w3_def bs_def
        by (cases a) (auto simp: Let_def fd_ok_def split: if_splits)
    qed
  qed
qed

lemma net_recv_fault:
  assumes inv: "queues_ok w cl et" and rep: "conn_rep dll fd w B" and st: "stable_len (pkg_len dll fd)"
    and ty: "fi_type (fdi w fd) \<noteq> fd_type_pipe" and bc: "bc_elem (fdi w fd) = Some i"
    and pe: "peer_ok (page_size w) (peer w)" and q: "conf_rep (page_size w) (bindconf w) i xs"
    and r: "net_recv dll fd (page_size w) True w = Inl e"
  shows "exit_fault e \<or> e = Blocked"
proof (cases "do_read_conn fd (page_size w) w")
  case (Inl e')
  then show ?thesis
    using r ty rep do_read_conn_fault [OF rep inv Inl] by (auto simp: net_recv_def conn_rep_def fd_ok_def)
next
  case (Inr p)
  then obtain r1 w1 where rd: "do_read_conn fd (page_size w) w = Inr (r1, w1)" by (cases p) auto
  have ne: "r1 \<noteq> -1" using r rd ty rep by (auto simp: net_recv_def conn_rep_def fd_ok_def)
  obtain bs buf where win: "window dll fd w1 buf 0 (B @ bs)" and sc: "same_conn fd w w1"
    using do_read_conn_rep [OF rep st rd ne] by auto
  let ?pl = "parse_loop (unat (recvlen (cb (fdi w1 fd))) + 1) dll fd (page_size w) True 0 0 w1"
  have fuel: "length (B @ bs) < unat (recvlen (cb (fdi w1 fd))) + 1" using window_len [OF win] by simp
  have ps: "parse_safe dll fd buf ?pl"
    using parse_loop_safe [OF win fuel, of i xs 0] bc pe q sc by (simp add: same_conn_def del: parse_loop.simps)
  show ?thesis
  proof (cases ?pl)
    case (Inl e')
    then have "e' = e" using r rd ne ty rep by (auto simp: net_recv_def conn_rep_def fd_ok_def)
    then show ?thesis using ps Inl by (simp add: parse_safe_def)
  next
    case I3: (Inr t)
    then obtain cnt pos w2 where pl: "?pl = Inr (cnt, pos, w2)" by (cases t) auto
    then obtain p where p: "pos = Some p" "compact fd p w2 = Inl e"
      using r rd ne ty rep by (auto simp: net_recv_def conn_rep_def fd_ok_def bindR_Inl_iff split: option.splits if_splits)
    then show ?thesis using ps pl compact_no_fault by (fastforce simp: parse_safe_def)
  qed
qed


section \<open>Properties\<close>

definition demo_conn :: "recv_ans list \<Rightarrow> unit world" where
  "demo_conn as = demo_world1\<lparr>recv_as := as\<rparr>"

lemma demo_conn_sel [simp]:
  "page_size (demo_conn as) = 64" "peer (demo_conn as) = idle" "bindconf (demo_conn as) = bindconf demo_world"
  "length (fds (demo_conn as)) = 8" "recv_as (demo_conn as) = as" "rx (demo_conn as) 5 = []"
  "fdi (demo_conn as) 5 = new_entry 5 fd_type_remote 1 None (Some 0)"
  by (simp_all add: demo_conn_def demo_world1_def added_def demo_world_def idle_eq next_seq_def)

lemma zero_cb_sel [simp]: "recvptr zero_cb = None" "sendptr zero_cb = None" "sendlen zero_cb = 0"
  by (simp_all add: zero_cb_def)

lemma demo_conn_conf: "conf_rep 64 (bindconf demo_world) 0 []"
proof -
  have "q_rep 64 demo_queue []"
    by (rule q_rep_linearI) (simp_all add: demo_queue_def shmq_cfg_def)
  then show ?thesis by (simp add: conf_rep_def demo_world_def demo_bc_def)
qed

lemma demo_stable: "stable_len (pkg_len demo_dll fd)"
  by (auto simp: stable_len_def pkg_len_def demo_dll_def nth_append)

lemma demo_conn_framed: "framed demo_dll 5 (demo_conn as) []"
  by (rule framed_fresh) (simp_all add: small_def)

text \<open>
  \<open>net_recv\<close> in the parent accesses no memory outside the receive buffer and the shared
  queue, whatever the peer sends and the plugin answers: apart from waiting for the kernel it can
  only return or \<open>exit\<close>.  In particular the parse loop ends.
\<close>

theorem net_recv_memory_safe:
  assumes "queues_ok w cl et" "conn_rep dll fd w B" "stable_len (pkg_len dll fd)"
    "fi_type (fdi w fd) \<noteq> fd_type_pipe" "bc_elem (fdi w fd) = Some i"
    "peer_ok (page_size w) (peer w)" "conf_rep (page_size w) (bindconf w) i xs"
  shows "net_recv dll fd (page_size w) True w \<notin> {Inl Segv, Inl Abort}"
  using net_recv_fault [OF assms] by (auto simp: exit_fault_def)

theorem net_recv_memory_safe_witness:
  "net_recv demo_dll 5 (page_size (demo_conn [RecvData [1, 80, 3]])) True (demo_conn [RecvData [1, 80, 3]])
     \<notin> {Inl Segv, Inl Abort}"
proof -
  let ?w = "demo_conn [RecvData [1, 80, 3]]"
  have q: "queues_ok ?w [] []"
    using demo_world1_inv by (auto simp: net_inv_def demo_conn_def queues_ok_def)
  have c: "conn_rep demo_dll 5 ?w []" by (simp add: conn_rep_def small_def)
  have p: "peer_ok (page_size ?w) (peer ?w)" using peer_ok_idle by (simp add: idle_eq)
  show ?thesis
    by (rule net_recv_memory_safe [OF q c demo_stable _ _ p, of 0 "[]"]) (simp_all add: demo_conn_conf)
qed

text \<open>
  C9: When \<open>net_send\<close> returns 0 nothing is lost, repeated or reordered: the bytes handed to the
  kernel followed by the bytes still buffered are the old ones followed by the new data; and
  whenever bytes stay buffered, \<open>EPOLLOUT\<close> is registered.
\<close>

theorem net_send_stream:
  assumes "send_rep fd w" "small (sendlen (cb (fdi w fd)))" "length data < 2 ^ 31" "armed fd w"
    "net_send dll ok fd data w = Inr (0, w')"
  shows "send_rep fd w' \<and> tx w' fd @ pending fd w' = tx w fd @ pending fd w @ data \<and> armed fd w'"
  using net_send_rep [OF assms] by (simp add: stream_def)

definition demo_send :: "send_ans list \<Rightarrow> unit world" where
  "demo_send as = demo_world1\<lparr>send_as := as\<rparr>"

lemma demo_send_facts:
  "send_rep 5 (demo_send as)" "sendlen (cb (fdi (demo_send as) 5)) = 0" "armed 5 (demo_send as)"
  "tx (demo_send as) 5 = []" "pending 5 (demo_send as) = []" "interest (demo_send as) 5 = Some (conn_events fd_type_remote)"
  by (simp_all add: demo_send_def demo_world1_def send_rep_def pending_def armed_def)
    (simp_all add: added_def demo_world_def)

theorem net_send_stream_witness:
  "\<exists>w'. net_send demo_dll True 5 [1, 2, 3, 4] (demo_send [SendOk 3, SendErr EAGAIN]) = Inr (0, w') \<and>
     tx w' 5 @ pending 5 w' = [1, 2, 3, 4] \<and> armed 5 w'"
proof -
  let ?w = "demo_send [SendOk 3, SendErr EAGAIN]"
  have "(case net_send demo_dll True 5 [1, 2, 3, 4] ?w of Inr (r, w') \<Rightarrow> r = 0 | _ \<Rightarrow> False)"
    by code_simp
  then obtain w' where "net_send demo_dll True 5 [1, 2, 3, 4] ?w = Inr (0, w')" by (auto split: sum.splits)
  with net_send_stream [OF demo_send_facts(1) _ _ demo_send_facts(3) this] show ?thesis
    by (simp add: demo_send_facts small_def)
qed

lemma merge_buffer_total:
  assumes rep: "send_rep fd w" and len: "unat (sendlen (cb (fdi w fd))) + length rest < 2 ^ 32"
  shows "\<exists>w'. merge_buffer True fd rest w = Inr w'"
proof -
  have ur: "unat (of_nat (length rest) :: u32) = length rest" using len by (intro unat_of_nat_small) simp
  have "\<exists>c. grow_sendbuf True (of_nat (length rest)) (cb (fdi w fd)) = Inr c"
    by (cases "sendptr (cb (fdi w fd))") (auto simp: grow_sendbuf_def)
  then obtain c where c: "grow_sendbuf True (of_nat (length rest)) (cb (fdi w fd)) = Inr c" ..
  then obtain buf where "sendptr c = Some buf" "sendlen c = sendlen (cb (fdi w fd))"
    "unat (sendlen (cb (fdi w fd))) + length rest \<le> length buf"
    using grow_sendbuf_rep [OF c] rep len ur by (auto simp: send_rep_def)
  then show ?thesis using c by (simp add: merge_buffer_def)
qed


definition addressed :: "shm_block \<Rightarrow> nat \<Rightarrow> 't world \<Rightarrow> bool" where
  "addressed mb fd w \<longleftrightarrow> fd < length (fds w) \<and> sint (mb_fd mb) = int fd \<and>
     fi_type (fdi w fd) = fd_type_remote \<and> fi_id (fdi w fd) = mb_id mb"

text \<open>
  C12: A block of the worker reaches only the connection it was meant for: if no open client
  connection has both its descriptor and its id, \<open>schedule_output\<close> discards it without touching
  any state; a \<open>FIN_BLOCK\<close> for an open one puts exactly that connection on the close queue.
\<close>

theorem schedule_output_addressing:
  assumes "net_inv w cl et"
  shows "((\<nexists>fd. addressed (fst x) fd w) \<longrightarrow> schedule_output dll ok x w = Inr (-1, w)) \<and>
    (\<forall>fd. addressed (fst x) fd w \<and> mb_type (fst x) = FIN_BLOCK \<longrightarrow>
      (\<exists>w'. schedule_output dll ok x w = Inr (0, w') \<and>
        net_inv w' (if fd \<in> set cl then cl else cl @ [fd]) (remove1 fd et)))"
proof (intro conjI impI allI)
  let ?i = "sint (mb_fd (fst x))"
  have mx: "maxfd w < int (length (fds w))" using assms by (simp add: net_inv_def table_ok_def)
  show "schedule_output dll ok x w = Inr (-1, w)" if n: "\<nexists>fd. addressed (fst x) fd w"
  proof (cases "?i > maxfd w \<or> ?i < 0")
    case True
    then show ?thesis by (simp add: schedule_output_def)
  next
    case False
    then have "nat ?i < length (fds w)" "int (nat ?i) = ?i" using mx by auto
    with False n [unfolded addressed_def not_ex, rule_format, of "nat ?i"] show ?thesis
      by (auto simp: schedule_output_def Let_def fd_ok_def)
  qed
  fix fd assume a: "addressed (fst x) fd w \<and> mb_type (fst x) = FIN_BLOCK"
  then have l: "fd < length (fds w)" and u: "fd \<in> used w" by (auto simp: addressed_def used_def)
  have le: "int fd \<le> maxfd w" using u assms by (auto simp: net_inv_def table_ok_def)
  obtain w' where w': "add_to_close_queue fd w = Inr w'" "reflagged fd w w'"
    "queues_ok w' (if fd \<in> set cl then cl else cl @ [fd]) (remove1 fd et)"
    using add_to_close_queue_spec [of w cl et fd] assms l by (auto simp: net_inv_def)
  have "table_ok w'" using reflagged_table_ok [OF w'(2) l u] assms by (simp add: net_inv_def)
  moreover have "schedule_output dll ok x w = Inr (0, w')"
    using a w'(1) le by (simp add: schedule_output_def addressed_def fd_ok_def Let_def)
  ultimately show "\<exists>w'. schedule_output dll ok x w = Inr (0, w') \<and>
      net_inv w' (if fd \<in> set cl then cl else cl @ [fd]) (remove1 fd et)"
    using w'(3) by (auto simp: net_inv_def)
qed

definition demo_fin :: "u32 \<Rightarrow> message" where
  "demo_fin n = (\<lparr>mb_id = n, mb_fd = 5, mb_length = 13, mb_type = FIN_BLOCK\<rparr>, [])"

lemma demo_addressed: "addressed (fst (demo_fin n)) fd demo_world1 \<longleftrightarrow> fd = 5 \<and> n = 1"
proof -
  have e: "fdi demo_world1 5 = new_entry 5 fd_type_remote 1 None (Some 0)"
    "length (fds demo_world1) = 8"
    by (simp_all add: demo_world1_def demo_world_def next_seq_def)
  have "sint (5 :: u32) = 5" by simp
  then show ?thesis
    using e by (auto simp: addressed_def demo_fin_def)
qed

theorem schedule_output_addressing_witness:
  "schedule_output demo_dll True (demo_fin 9) demo_world1 = Inr (-1, demo_world1) \<and>
   (\<exists>w'. schedule_output demo_dll True (demo_fin 1) demo_world1 = Inr (0, w') \<and> net_inv w' [5] [])"
  using schedule_output_addressing [OF demo_world1_inv, of "demo_fin 9" demo_dll True]
    schedule_output_addressing [OF demo_world1_inv, of "demo_fin 1" demo_dll True]
  by (simp add: demo_addressed) (simp add: demo_fin_def)

text \<open>
  When the buffered bytes exceed \<open>send_buf_limit_size\<close>, \<open>net_send\<close> returns -1 but has
  already buffered the data and leaves the epoll registration as it was: on a connection that had
  nothing pending the bytes stay in the buffer without \<open>EPOLLOUT\<close>.
\<close>

theorem net_send_over_limit:
  assumes "send_rep fd w" "pending fd w = []" "send_as w = SendErr EAGAIN # as"
    "is_parent w" "0 < send_buf_limit_size w" "unat (send_buf_limit_size w) < length data" "length data < 2 ^ 31"
  shows "\<exists>w'. net_send dll True fd data w = Inr (-1, w') \<and> pending fd w' = data \<and> interest w' = interest w"
proof -
  have l: "fd < length (fds w)" using assms(1) by (simp add: send_rep_def)
  have n0: "sendlen (cb (fdi w fd)) = 0" using length_pending [OF assms(1)] assms(2) by (simp add: unat_eq_0)
  have "small (of_nat (length data))" using assms(7) by (auto simp: small_def unat_of_nat_small)
  then have si: "sint (of_nat (length data) :: u32) = int (length data)"
    using assms(7) by (simp add: sint_small unat_of_nat_small)
  define w1 where "w1 = w\<lparr>send_as := as\<rparr>"
  have fr: "flush_pending dll fd w = Inr (Some False, w)" using n0 by (simp add: flush_pending_def)
  have sf: "send_fresh dll fd data w = Inr (Some 0, w1)"
    using n0 si assms(3,6) by (auto simp: send_fresh_def safe_tcp_send_n_def w1_def)
  have rep1: "send_rep fd w1" "pending fd w1 = []" "sendlen (cb (fdi w1 fd)) = 0"
    using frame_fds [of w1 w fd] assms(1,2) n0 by (auto simp: w1_def)
  obtain w3 where w3: "merge_buffer True fd data w1 = Inr w3"
    using merge_buffer_total [OF rep1(1), of data] rep1(3) assms(7) by auto
  have m: "send_rep fd w3" "pending fd w3 = data" "same_out w1 w3"
    using merge_buffer_rep [OF rep1(1) w3] rep1 assms(7) by auto
  have "unat (sendlen (cb (fdi w3 fd))) = length data" using length_pending [OF m(1)] m(2) by simp
  then have "over_limit fd w3"
    using m(3) assms(4-6) by (simp add: over_limit_def same_out_def w1_def word_less_nat_alt)
  then have "net_send dll True fd data w = Inr (-1, w3)"
    using l fr sf w3 assms(6) by (auto simp: net_send_def fd_ok_def)
  with m show ?thesis by (auto simp: same_out_def w1_def)
qed

theorem net_send_over_limit_witness:
  "\<exists>w'. net_send demo_dll True 5 [1, 2, 3] ((demo_send [SendErr EAGAIN])\<lparr>send_buf_limit_size := 2\<rparr>) = Inr (-1, w') \<and>
     pending 5 w' = [1, 2, 3] \<and> interest w' 5 = Some \<lparr>ep_in = True, ep_out = False, ep_et = True\<rparr>"
proof -
  let ?w = "(demo_send [SendErr EAGAIN])\<lparr>send_buf_limit_size := 2\<rparr>"
  have s: "send_rep 5 ?w" "pending 5 ?w = []" "interest ?w 5 = Some \<lparr>ep_in = True, ep_out = False, ep_et = True\<rparr>"
    using demo_send_facts [of "[SendErr EAGAIN]"] frame_fds [of ?w "demo_send [SendErr EAGAIN]" 5]
    by (simp_all add: conn_events_def)
  have "send_as ?w = SendErr EAGAIN # []" "is_parent ?w"
    by (simp_all add: demo_send_def demo_world1_def added_def demo_world_def)
  from net_send_over_limit [OF s(1,2) this(1,2), of "[1, 2, 3]" demo_dll] s(3) show ?thesis by auto
qed

end
