(* ===== verification/Mp_Service.thy ===== *)
theory Mp_Service
  imports Mp_NetIO
begin

unbundle bit_operations_syntax

text \<open>
  The worker process: sessions and the receive queue (\<open>src/src/service.c\<close>) and the calls a plugin
  makes (\<open>src/src/net_if.c\<close>).  The GLib hash table that holds the sessions is code outside the
  repository: its operations are the record \<open>ght\<close>, an argument of the definitions, and
  \<open>ght_laws\<close> states the documented behaviour the proofs use.
\<close>

section \<open>The session table\<close>

record 't ght =
  ht_new :: 't
  ht_lookup :: "'t \<Rightarrow> u32 \<Rightarrow> fdsession option"
  ht_insert :: "'t \<Rightarrow> u32 \<Rightarrow> fdsession \<Rightarrow> 't"
  ht_remove :: "'t \<Rightarrow> u32 \<Rightarrow> 't"
  ht_destroy :: "'t \<Rightarrow> 't"

definition ght_laws :: "'t ght \<Rightarrow> bool" where
  "ght_laws g \<longleftrightarrow>
     (\<forall>k. ht_lookup g (ht_new g) k = None) \<and>
     (\<forall>t k v k'. ht_lookup g (ht_insert g t k v) k' = (if k' = k then Some v else ht_lookup g t k')) \<and>
     (\<forall>t k k'. ht_lookup g (ht_remove g t k) k' = (if k' = k then None else ht_lookup g t k'))"

definition get_fdsess :: "'t ght \<Rightarrow> u32 \<Rightarrow> 't world \<Rightarrow> fdsession option" where
  "get_fdsess g fd w = ht_lookup g (cn w) fd"

definition add_fdsess :: "'t ght \<Rightarrow> fdsession \<Rightarrow> 't world \<Rightarrow> 't world" where
  "add_fdsess g s w = w\<lparr>cn := ht_insert g (cn w) (s_fd s) s, cn_count := cn_count w + 1\<rparr>"

definition remove_fdsess :: "'t ght \<Rightarrow> u32 \<Rightarrow> 't world \<Rightarrow> 't world" where
  "remove_fdsess g fd w = w\<lparr>cn := ht_remove g (cn w) fd, cn_count := cn_count w - 1\<rparr>"

text \<open>\<open>handle_init\<close>: \<open>ini_idle\<close> is \<open>iniparser_getint(ini, "idle_timeout", 10)\<close>.\<close>

definition handle_init :: "'t serv_if \<Rightarrow> 't ght \<Rightarrow> int \<Rightarrow> nat \<Rightarrow> 't world \<Rightarrow> (int \<times> 't world) res" where
  "handle_init dll g ini_idle bc w =
     (let w1 = w\<lparr>idle_timeout := ini_idle, cur_bc := bc, cn := ht_new g\<rparr> in
      case init_service dll of None \<Rightarrow> Inr (0, w1) | Some f \<Rightarrow> f False w1)"

fun unsent_upto :: "nat \<Rightarrow> 't world \<Rightarrow> bool" where
  "unsent_upto 0 w \<longleftrightarrow> False"
| "unsent_upto (Suc n) w \<longleftrightarrow>
     unsent_upto n w \<or> fi_type (fdi w n) = fd_type_remote \<and> sendlen (cb (fdi w n)) > 0"

definition handle_fini :: "'t serv_if \<Rightarrow> 't ght \<Rightarrow> 't world \<Rightarrow> (bool \<times> 't world) res" where
  "handle_fini dll g w =
     (if length (fds w) < nat (maxfd w + 1) then Inl Segv
      else if unsent_upto (nat (maxfd w + 1)) w then Inr (False, w)
      else bindR (case fini_service dll of None \<Rightarrow> Inr (0, w) | Some f \<Rightarrow> f False w) (\<lambda>(r, w1).
        if r \<noteq> 0 then Inr (False, w1) else Inr (True, w1\<lparr>cn := ht_destroy g (cn w1)\<rparr>)))"

text \<open>\<open>handle_open\<close>: the data of an \<open>OPEN_BLOCK\<close> is the packed \<open>remote_info\<close>.\<close>

definition handle_open :: "'t ght \<Rightarrow> shm_block \<Rightarrow> byte list \<Rightarrow> 't world \<Rightarrow> int \<times> 't world" where
  "handle_open g mb data w =
     (if get_fdsess g (mb_fd mb) w \<noteq> None \<or> mb_length mb \<noteq> 13 + 10 then (-1, w)
      else (0, add_fdsess g \<lparr>s_fd = mb_fd mb, s_id = mb_id mb, s_remote_port = of_le16 (take 2 data),
                             s_remote_ip = of_le32 (take 4 (drop 2 data))\<rparr> w))"

text \<open>A missing session is logged, not refused.\<close>

definition handle_close :: "'t serv_if \<Rightarrow> 't ght \<Rightarrow> u32 \<Rightarrow> 't world \<Rightarrow> 't world res" where
  "handle_close dll g fd w = bindR (on_client_conn_closed dll fd w) (\<lambda>w1. Inr (remove_fdsess g fd w1))"

section \<open>The queues of the worker\<close>

definition my_bc :: "'t world \<Rightarrow> bind_config_info res" where
  "my_bc w = (if cur_bc w < length (configs (bindconf w)) then Inr (configs (bindconf w) ! cur_bc w) else Inl Segv)"

definition set_bc :: "bind_config_info \<Rightarrow> 't world \<Rightarrow> 't world" where
  "set_bc e w = w\<lparr>bindconf := (bindconf w)\<lparr>configs := (configs (bindconf w))[cur_bc w := e]\<rparr>\<rparr>"

definition push_sendq :: "shm_block \<Rightarrow> byte list \<Rightarrow> 't world \<Rightarrow> (int \<times> 't world) res" where
  "push_sendq mb data w =
     bindR (my_bc w) (\<lambda>e.
     bindR (shmq_push (peer w) (page_size w) (sendq e) mb data) (\<lambda>(r, q).
     Inr (r, set_bc (e\<lparr>sendq := q\<rparr>) w)))"

definition close_client_conn :: "'t serv_if \<Rightarrow> 't ght \<Rightarrow> u32 \<Rightarrow> 't world \<Rightarrow> 't world res" where
  "close_client_conn dll g fd w =
     (case get_fdsess g fd w of None \<Rightarrow> Inr w
      | Some s \<Rightarrow>
        bindR (handle_close dll g fd w) (\<lambda>w1.
        bindR (push_sendq \<lparr>mb_id = s_id s, mb_fd = fd, mb_length = 13, mb_type = FIN_BLOCK\<rparr> [] w1) (\<lambda>(r, w2).
        Inr w2)))"

definition handle_process :: "'t serv_if \<Rightarrow> 't ght \<Rightarrow> byte list \<Rightarrow> u32 \<Rightarrow> 't world \<Rightarrow> 't world res" where
  "handle_process dll g pkg fd w =
     (case get_fdsess g fd w of None \<Rightarrow> Inr w
      | Some s \<Rightarrow> bindR (proc_pkg_from_client dll pkg s w) (\<lambda>(r, w1).
          if r \<noteq> 0 then close_client_conn dll g fd w1 else Inr w1))"

text \<open>
  The fields of the rejected block are overwritten in the mapping of the receive queue, then its
  header is pushed to the send queue.
\<close>

definition reject_open :: "int \<Rightarrow> shm_block \<Rightarrow> 't world \<Rightarrow> 't world res" where
  "reject_open off mb w =
     bindR (my_bc w) (\<lambda>e.
     bindR (store 8 (mem (recvq e)) (off + 12) [FIN_BLOCK]) (\<lambda>m1.
     bindR (store 8 m1 (off + 8) (le32 13)) (\<lambda>m2.
     bindR (push_sendq (mb\<lparr>mb_type := FIN_BLOCK, mb_length := 13\<rparr>) []
              (set_bc (e\<lparr>recvq := (recvq e)\<lparr>mem := m2\<rparr>\<rparr>) w)) (\<lambda>(r, w1).
     Inr w1))))"

definition handle_block :: "'t serv_if \<Rightarrow> 't ght \<Rightarrow> int \<Rightarrow> message \<Rightarrow> 't world \<Rightarrow> 't world res" where
  "handle_block dll g off x w =
     (let mb = fst x in
      if mb_type mb = DATA_BLOCK then
        (if unat (mb_length mb) > sizeof_shm_block then handle_process dll g (snd x) (mb_fd mb) w else Inr w)
      else if mb_type mb = OPEN_BLOCK then
        (case handle_open g mb (snd x) w of (r, w1) \<Rightarrow> if r = -1 then reject_open off mb w1 else Inr w1)
      else if mb_type mb = CLOSE_BLOCK then handle_close dll g (mb_fd mb) w
      else Inr w)"

text \<open>\<open>handle_recv_queue\<close>: fuel bounds the number of calls of \<open>shmq_pop\<close>.\<close>

fun handle_recv_queue :: "nat \<Rightarrow> 't serv_if \<Rightarrow> 't ght \<Rightarrow> 't world \<Rightarrow> 't world res" where
  "handle_recv_queue 0 dll g w = Inl Blocked"
| "handle_recv_queue (Suc fuel) dll g w =
     bindR (my_bc w) (\<lambda>e.
     bindR (shmq_pop (recvq e)) (\<lambda>(p, q).
     let w1 = set_bc (e\<lparr>recvq := q\<rparr>) w in
     case p of None \<Rightarrow> Inr w1
     | Some off \<Rightarrow>
       bindR (read_msg q off) (\<lambda>x.
       bindR (handle_block dll g off x w1) (handle_recv_queue fuel dll g))))"

section \<open>Sending to a client\<close>

text \<open>
  The loop of \<open>send_pkg_to_client\<close>: \<open>page_size - sizeof(shm_block_t)\<close> is computed in \<open>size_t\<close>.
  Fuel counts the rounds; when \<open>page_size\<close> leaves room for data every round sends at least a byte.
\<close>

definition frag_len :: "u32 \<Rightarrow> nat \<Rightarrow> nat" where
  "frag_len ps rest = (let room = nat ((sint ps - 13) mod 2 ^ 64) in if rest > room then room else rest)"

fun send_frags :: "nat \<Rightarrow> fdsession \<Rightarrow> byte list \<Rightarrow> 't world \<Rightarrow> (int \<times> 't world) res" where
  "send_frags 0 s pkg w = Inl Blocked"
| "send_frags (Suc fuel) s pkg w =
     (if pkg = [] then Inr (0, w)
      else let n = frag_len (page_size w) (length pkg) in
        bindR (push_sendq \<lparr>mb_id = s_id s, mb_fd = s_fd s, mb_length = of_nat n + 13, mb_type = DATA_BLOCK\<rparr>
                 pkg w) (\<lambda>(r, w1).
          if r = -1 then Inr (-1, w1) else send_frags fuel s (drop n pkg) w1))"

definition send_pkg_to_client :: "nat \<Rightarrow> fdsession \<Rightarrow> byte list \<Rightarrow> 't world \<Rightarrow> (int \<times> 't world) res" where
  "send_pkg_to_client fuel s pkg w = send_frags fuel s pkg w"

section \<open>Other calls of the plugin\<close>

text \<open>
  \<open>addr\<close> is the answer of \<open>inet_pton\<close>, \<open>sock\<close> and \<open>conn\<close> those of \<open>socket\<close> and
  \<open>connect\<close>; with an address \<open>inet_pton\<close> refuses the function still asks
  \<open>safe_tcp_connect\<close>, which fails.
\<close>

definition connect_to_svr :: "u32 option \<Rightarrow> 16 word \<Rightarrow> int \<Rightarrow> int \<Rightarrow> 't world \<Rightarrow> (int \<times> 't world) res" where
  "connect_to_svr addr port sock conn w =
     (let pr = \<lparr>sin_addr = (case addr of None \<Rightarrow> 0 | Some a \<Rightarrow> a), sin_port = port\<rparr>;
          (fd, cl) = safe_tcp_connect (addr \<noteq> None) sock conn;
          w0 = w\<lparr>closed := closed w @ map nat cl\<rparr> in
      if fd \<noteq> -1 then bindR (do_add_conn (nat fd) fd_type_remote (Some pr) None w0) (\<lambda>w1. Inr (fd, w1))
      else Inr (-1, w0))"

definition close_svr :: "'t serv_if \<Rightarrow> nat \<Rightarrow> 't world \<Rightarrow> 't world res" where
  "close_svr dll svrfd w = do_del_conn dll svrfd 2 w"

definition create_udp_socket :: "u32 option \<Rightarrow> 16 word \<Rightarrow> int \<Rightarrow> int \<times> sockaddr_in" where
  "create_udp_socket addr port sock =
     (case addr of None \<Rightarrow> (-1, \<lparr>sin_addr = 0, sin_port = port\<rparr>)
      | Some a \<Rightarrow> (sock, \<lparr>sin_addr = a, sin_port = port\<rparr>))"

definition get_remote_ip :: "int \<Rightarrow> 't world \<Rightarrow> u32 res" where
  "get_remote_ip fd w =
     (if fd \<ge> 0 \<and> fd \<le> maxfd w then
        (if length (fds w) \<le> nat fd then Inl Segv
         else if fi_type (fdi w (nat fd)) \<noteq> fd_type_unused then Inr (remote_ip (sk (fdi w (nat fd)))) else Inr 0)
      else Inr 0)"

definition get_server_id :: "'t world \<Rightarrow> u32 res" where
  "get_server_id w = bindR (my_bc w) (\<lambda>e. Inr (server_id e))"

definition get_server_ip :: "'t world \<Rightarrow> string res" where
  "get_server_ip w = bindR (my_bc w) (\<lambda>e. Inr (bind_ip e))"

definition get_server_port :: "'t world \<Rightarrow> 16 word res" where
  "get_server_port w = bindR (my_bc w) (\<lambda>e. Inr (ucast (bind_port e)))"

definition get_server_name :: "'t world \<Rightarrow> string res" where
  "get_server_name w = bindR (my_bc w) (\<lambda>e. Inr (server_name e))"

definition get_cli_ip :: "fdsession \<Rightarrow> u32" where
  "get_cli_ip s = s_remote_ip s"

definition get_cli_port :: "fdsession \<Rightarrow> u32" where
  "get_cli_port s = ucast (s_remote_port s)"

section \<open>Fragments\<close>

definition sq_rep :: "'t world \<Rightarrow> message list \<Rightarrow> bool" where
  "sq_rep w xs \<longleftrightarrow> cur_bc w < length (configs (bindconf w)) \<and>
     q_rep (page_size w) (sendq (configs (bindconf w) ! cur_bc w)) xs"

definition rq_rep :: "'t world \<Rightarrow> message list \<Rightarrow> bool" where
  "rq_rep w xs \<longleftrightarrow> cur_bc w < length (configs (bindconf w)) \<and>
     q_rep (page_size w) (recvq (configs (bindconf w) ! cur_bc w)) xs"

lemma set_bc_sel [simp]:
  "cur_bc (set_bc e w) = cur_bc w" "page_size (set_bc e w) = page_size w" "peer (set_bc e w) = peer w"
  "length (configs (bindconf (set_bc e w))) = length (configs (bindconf w))"
  "cur_bc w < length (configs (bindconf w)) \<Longrightarrow> configs (bindconf (set_bc e w)) ! cur_bc w = e"
  "cn (set_bc e w) = cn w" "cn_count (set_bc e w) = cn_count w" "fds (set_bc e w) = fds w"
  by (simp_all add: set_bc_def)

lemma shmq_push_take:
  "unat (mb_length mb) - 13 \<le> length d \<Longrightarrow>
   shmq_push p ps q mb (take (unat (mb_length mb) - 13) d) = shmq_push p ps q mb d"
proof -
  let ?n = "unat (mb_length mb) - 13"
  assume "?n \<le> length d"
  then have "length (take ?n d) < ?n \<longleftrightarrow> length d < ?n" "take ?n (take ?n d) = take ?n d" by auto
  then show ?thesis by (simp only: shmq_push_def Let_def)
qed

lemma shmq_push_rep_idle:
  assumes q: "q_rep ps q xs" and fits: "msg_fits (mb, take (unat (mb_length mb) - 13) d)"
  shows "case shmq_push idle ps q mb d of Inl e \<Rightarrow> e = Exit (-1)
    | Inr (r, q') \<Rightarrow> q_rep ps q' (if r = 0 then xs @ [(mb, take (unat (mb_length mb) - 13) d)] else xs) \<and> (r = 0 \<or> r = -1)"
proof -
  let ?n = "unat (mb_length mb) - 13"
  have l: "13 \<le> unat (mb_length mb)" "?n \<le> length d" "mb_type mb \<noteq> PAD_BLOCK"
    using fits by (auto simp: msg_fits_def msg_len_def)
  have r: "case shmq_push idle ps q mb d of Inl e \<Rightarrow> True | Inr (r, q') \<Rightarrow> r = 0 \<or> r = -1"
    using shmq_push_rep [OF q peer_ok_idle l(1,2,3)] by (auto simp: idle_eq split: sum.splits if_splits)
  have "case shmq_push idle ps q mb d of Inl e \<Rightarrow> e = Exit (-1)
    | Inr (r, q') \<Rightarrow> q_rep ps q' (if r = 0 then xs @ [(mb, take ?n d)] else xs)"
    using shmq_send_law [OF q fits] l(2)
    by (cases "shmq_push idle ps q mb d") (auto simp: shmq_send_def shmq_push_take idle_eq)
  with r show ?thesis by (auto split: sum.splits)
qed

lemma push_sendq_rep:
  assumes rep: "sq_rep w xs" and pe: "peer w = idle" and fits: "msg_fits (mb, take (unat (mb_length mb) - 13) d)"
    and r: "push_sendq mb d w = Inr (r, w')"
  shows "sq_rep w' (if r = 0 then xs @ [(mb, take (unat (mb_length mb) - 13) d)] else xs) \<and> (r = 0 \<or> r = -1) \<and>
    (\<exists>e. w' = set_bc e w \<and> recvq e = recvq (configs (bindconf w) ! cur_bc w))"
proof -
  let ?e = "configs (bindconf w) ! cur_bc w" and ?n = "unat (mb_length mb) - 13"
  have i: "cur_bc w < length (configs (bindconf w))" and q: "q_rep (page_size w) (sendq ?e) xs"
    using rep by (auto simp: sq_rep_def)
  obtain q' where q': "shmq_push idle (page_size w) (sendq ?e) mb d = Inr (r, q')" "w' = set_bc (?e\<lparr>sendq := q'\<rparr>) w"
    using r i pe by (auto simp: push_sendq_def my_bc_def)
  have "q_rep (page_size w) q' (if r = 0 then xs @ [(mb, take ?n d)] else xs) \<and> (r = 0 \<or> r = -1)"
    using shmq_push_rep_idle [OF q fits] q'(1) by simp
  with q' i show ?thesis by (auto simp: sq_rep_def)
qed


lemma push_sendq_fault:
  assumes rep: "sq_rep w xs" and pe: "peer w = idle" and fits: "msg_fits (mb, take (unat (mb_length mb) - 13) d)"
    and r: "push_sendq mb d w = Inl e"
  shows "e = Exit (-1)"
  using assms shmq_push_rep_idle [of "page_size w" "sendq (configs (bindconf w) ! cur_bc w)" xs mb d]
  by (auto simp: sq_rep_def push_sendq_def my_bc_def bindR_Inl_iff split: sum.splits)

text \<open>A data fragment of a session.\<close>

definition frag_of :: "fdsession \<Rightarrow> message \<Rightarrow> bool" where
  "frag_of s x \<longleftrightarrow> mb_id (fst x) = s_id s \<and> mb_fd (fst x) = s_fd s \<and> mb_type (fst x) = DATA_BLOCK \<and> snd x \<noteq> [] \<and> msg_fits x"

lemma frag_len_bounds:
  assumes "13 < unat ps" "small ps" "0 < n"
  shows "0 < frag_len ps n" "frag_len ps n \<le> n" "frag_len ps n + 13 \<le> unat ps"
proof -
  have "nat ((sint ps - 13) mod 2 ^ 64) = unat ps - 13"
    using assms by (simp add: sint_small small_def nat_diff_distrib)
  then show "0 < frag_len ps n" "frag_len ps n \<le> n" "frag_len ps n + 13 \<le> unat ps"
    using assms by (auto simp: frag_len_def Let_def)
qed

definition frag_block :: "u32 \<Rightarrow> fdsession \<Rightarrow> nat \<Rightarrow> shm_block" where
  "frag_block ps s n = \<lparr>mb_id = s_id s, mb_fd = s_fd s, mb_length = of_nat (frag_len ps n) + 13, mb_type = DATA_BLOCK\<rparr>"

lemma frag_block_fits:
  assumes "13 < unat ps" "small ps" "pkg \<noteq> []"
  defines "n \<equiv> frag_len ps (length pkg)"
  shows "unat (mb_length (frag_block ps s (length pkg))) - 13 = n"
    "msg_fits (frag_block ps s (length pkg), take n pkg)" "frag_of s (frag_block ps s (length pkg), take n pkg)"
proof -
  have b: "0 < n" "n \<le> length pkg" "n + 13 \<le> unat ps"
    using frag_len_bounds [OF assms(1,2), of "length pkg"] assms(3) by (auto simp: n_def)
  then have "n + 13 < 2 ^ 32" using unsigned_less [of ps, where 'a = nat] by simp
  then have u: "unat (of_nat n + 13 :: u32) = n + 13"
    by (subst unat_add_less32) (auto simp: unat_of_nat_small)
  show "unat (mb_length (frag_block ps s (length pkg))) - 13 = n"
    using u by (simp add: frag_block_def n_def)
  show f: "msg_fits (frag_block ps s (length pkg), take n pkg)"
    using u b by (simp add: frag_block_def msg_fits_def msg_len_def flip: n_def)
  show "frag_of s (frag_block ps s (length pkg), take n pkg)"
    using f b by (auto simp: frag_of_def) (simp_all add: frag_block_def)
qed

lemma send_frags_spec:
  assumes "sq_rep w xs" "peer w = idle" "13 < unat (page_size w)" "small (page_size w)" "length pkg < fuel"
  shows "case send_frags fuel s pkg w of Inl e \<Rightarrow> e = Exit (-1)
    | Inr (r, w') \<Rightarrow> (\<exists>frs. sq_rep w' (xs @ frs) \<and> list_all (frag_of s) frs \<and>
        prefix (concat (map snd frs)) pkg \<and> (if r = 0 then concat (map snd frs) = pkg else r = -1))"
  using assms
proof (induction fuel arbitrary: pkg w xs)
  case 0
  then show ?case by simp
next
  case (Suc fuel)
  show ?case
  proof (cases "pkg = []")
    case True
    then show ?thesis using Suc.prems by (auto intro!: exI [of _ "[]"])
  next
    case False
    let ?n = "frag_len (page_size w) (length pkg)" and ?b = "frag_block (page_size w) s (length pkg)"
    note ff = frag_block_fits [OF Suc.prems(3,4) False]
    have e: "send_frags (Suc fuel) s pkg w = bindR (push_sendq ?b pkg w) (\<lambda>(r, w1).
          if r = -1 then Inr (-1, w1) else send_frags fuel s (drop ?n pkg) w1)"
      using False by (simp add: frag_block_def Let_def)
    have fits: "msg_fits (?b, take (unat (mb_length ?b) - 13) pkg)" unfolding ff(1) by (rule ff(2))
    show ?thesis
    proof (cases "push_sendq ?b pkg w")
      case (Inl err)
      then show ?thesis using push_sendq_fault [OF Suc.prems(1,2) fits Inl] unfolding e by simp
    next
      case (Inr p)
      then obtain r w1 where p: "push_sendq ?b pkg w = Inr (r, w1)" by (cases p) auto
      have s: "sq_rep w1 (if r = 0 then xs @ [(?b, take ?n pkg)] else xs)" "r = 0 \<or> r = -1"
        "page_size w1 = page_size w" "peer w1 = idle"
        using push_sendq_rep [OF Suc.prems(1,2) fits p] Suc.prems(2) unfolding ff(1) by auto
      show ?thesis
      proof (cases "r = -1")
        case True
        then show ?thesis using s p unfolding e by (auto intro!: exI [of _ "[]"])
      next
        case False
        then have r0: "r = 0" using s(2) by simp
        have "length (drop ?n pkg) < fuel"
          using Suc.prems(3-5) frag_len_bounds [OF Suc.prems(3,4), of "length pkg"] \<open>pkg \<noteq> []\<close> by auto
        then have ih: "case send_frags fuel s (drop ?n pkg) w1 of Inl e \<Rightarrow> e = Exit (-1)
          | Inr (r, w') \<Rightarrow> (\<exists>frs. sq_rep w' ((xs @ [(?b, take ?n pkg)]) @ frs) \<and> list_all (frag_of s) frs \<and>
              prefix (concat (map snd frs)) (drop ?n pkg) \<and>
              (if r = 0 then concat (map snd frs) = drop ?n pkg else r = -1))"
          using s r0 Suc.prems(3,4) by (intro Suc.IH) simp_all
        have pre: "prefix (take ?n pkg @ c) pkg \<longleftrightarrow> prefix c (drop ?n pkg)" for c
          by (metis append_take_drop_id same_prefix_prefix)
        have go: "send_frags (Suc fuel) s pkg w = send_frags fuel s (drop ?n pkg) w1"
          unfolding e using p False by simp
        show ?thesis
        proof (cases "send_frags fuel s (drop ?n pkg) w1")
          case (Inl err)
          then show ?thesis using ih go by simp
        next
          case (Inr q)
          then obtain r' w' frs where q: "send_frags fuel s (drop ?n pkg) w1 = Inr (r', w')"
            "sq_rep w' ((xs @ [(?b, take ?n pkg)]) @ frs)" "list_all (frag_of s) frs"
            "prefix (concat (map snd frs)) (drop ?n pkg)"
            "if r' = 0 then concat (map snd frs) = drop ?n pkg else r' = -1"
            using ih by (cases q) auto
          then show ?thesis
            using ff(3) unfolding go by (auto intro!: exI [of _ "(?b, take ?n pkg) # frs"] simp: pre)
        qed
      qed
    qed
  qed
qed

section \<open>Sessions\<close>

definition sessions :: "'t ght \<Rightarrow> 't world \<Rightarrow> u32 \<Rightarrow> fdsession option" where
  "sessions g w = (\<lambda>fd. get_fdsess g fd w)"

definition rq_frame :: "'t world \<Rightarrow> 't world \<Rightarrow> bool" where
  "rq_frame w w' \<longleftrightarrow> cur_bc w' = cur_bc w \<and> page_size w' = page_size w \<and>
     length (configs (bindconf w')) = length (configs (bindconf w)) \<and>
     recvq (configs (bindconf w') ! cur_bc w) = recvq (configs (bindconf w) ! cur_bc w)"

text \<open>
  What the worker relies on in a plugin: its callbacks may send to clients and keep state of
  their own, but leave the receive queue and the session table alone.
\<close>

definition well_behaved :: "'t serv_if \<Rightarrow> bool" where
  "well_behaved dll \<longleftrightarrow>
     (\<forall>pkg s w r w'. proc_pkg_from_client dll pkg s w = Inr (r, w') \<longrightarrow>
        rq_frame w w' \<and> cn w' = cn w \<and> cn_count w' = cn_count w) \<and>
     (\<forall>fd w w'. on_client_conn_closed dll fd w = Inr w' \<longrightarrow>
        rq_frame w w' \<and> cn w' = cn w \<and> cn_count w' = cn_count w)"

text \<open>
  The session table and its counter, message by message; \<open>refused\<close> says that the plugin asked to close
  the connection of a package.
\<close>

definition session_of :: "message \<Rightarrow> fdsession" where
  "session_of x = \<lparr>s_fd = mb_fd (fst x), s_id = mb_id (fst x), s_remote_port = of_le16 (take 2 (snd x)),
     s_remote_ip = of_le32 (take 4 (drop 2 (snd x)))\<rparr>"

definition sess_step :: "bool \<Rightarrow> message \<Rightarrow> (u32 \<rightharpoonup> fdsession) \<times> int \<Rightarrow> (u32 \<rightharpoonup> fdsession) \<times> int" where
  "sess_step refused x = (\<lambda>(T, n).
     let fd = mb_fd (fst x); ty = mb_type (fst x) in
     if ty = DATA_BLOCK then
       (case T fd of Some s \<Rightarrow> if snd x \<noteq> [] \<and> refused then (T(fd := None), n - 1) else (T, n)
        | None \<Rightarrow> (T, n))
     else if ty = OPEN_BLOCK then
       (if T fd = None \<and> length (snd x) = 10 then (T(fd \<mapsto> session_of x), n + 1) else (T, n))
     else if ty = CLOSE_BLOCK then (T(fd := None), n - 1)
     else (T, n))"

text \<open>
  What the plugin answered to a package: the result of a call made with the session table \<open>T\<close> and the
  blocks \<open>xs\<close> still in the queue.
\<close>

definition answered :: "'t serv_if \<Rightarrow> 't ght \<Rightarrow> (u32 \<rightharpoonup> fdsession) \<Rightarrow> message list \<Rightarrow> byte list \<Rightarrow> fdsession \<Rightarrow> bool \<Rightarrow> bool" where
  "answered dll g T xs pkg s refused \<longleftrightarrow> (\<exists>w r w'. sessions g w = T \<and> rq_rep w xs \<and>
     proc_pkg_from_client dll pkg s w = Inr (r, w') \<and> (refused \<longleftrightarrow> r \<noteq> 0))"

text \<open>A package for an open session is handed over and its answer taken; nothing else is.\<close>

definition asks :: "message \<Rightarrow> (u32 \<rightharpoonup> fdsession) \<Rightarrow> fdsession option" where
  "asks x T = (if mb_type (fst x) = DATA_BLOCK \<and> snd x \<noteq> [] then T (mb_fd (fst x)) else None)"

inductive sess_run ::
  "'t serv_if \<Rightarrow> 't ght \<Rightarrow> (u32 \<rightharpoonup> fdsession) \<times> int \<Rightarrow> message list \<Rightarrow> (u32 \<rightharpoonup> fdsession) \<times> int \<Rightarrow> bool"
  for dll g
where
  Nil: "sess_run dll g S [] S"
| Cons: "case asks x (fst S) of None \<Rightarrow> True | Some s \<Rightarrow> answered dll g (fst S) xs (snd x) s refused \<Longrightarrow>
    sess_run dll g (sess_step refused x S) xs S' \<Longrightarrow> sess_run dll g S (x # xs) S'"

inductive_simps sess_run_Nil: "sess_run dll g S [] S'"
inductive_simps sess_run_Cons: "sess_run dll g S (x # xs) S'"

lemma rq_frame_refl [simp]: "rq_frame w w"
  by (simp add: rq_frame_def)

lemma rq_frame_trans: "rq_frame w1 w2 \<Longrightarrow> rq_frame w2 w3 \<Longrightarrow> rq_frame w1 w3"
  by (simp add: rq_frame_def)

lemma rq_frame_rep: "rq_frame w w' \<Longrightarrow> rq_rep w' xs = rq_rep w xs"
  by (simp add: rq_frame_def rq_rep_def)

lemma push_sendq_frame:
  "push_sendq mb d w = Inr (r, w') \<Longrightarrow> rq_frame w w' \<and> cn w' = cn w \<and> cn_count w' = cn_count w"
  by (auto simp: push_sendq_def my_bc_def rq_frame_def split: if_splits)

lemma handle_close_sess:
  assumes "well_behaved dll" "ght_laws g" "handle_close dll g fd w = Inr w'"
  shows "rq_frame w w' \<and> sessions g w' = (sessions g w)(fd := None) \<and> cn_count w' = cn_count w - 1"
proof -
  obtain w1 where w1: "on_client_conn_closed dll fd w = Inr w1" "w' = remove_fdsess g fd w1"
    using assms(3) by (auto simp: handle_close_def)
  then have "rq_frame w w1" "cn w1 = cn w" "cn_count w1 = cn_count w"
    using assms(1) by (auto simp: well_behaved_def)
  then show ?thesis
    using w1(2) assms(2) by (auto simp: remove_fdsess_def rq_frame_def sessions_def get_fdsess_def ght_laws_def)
qed

lemma close_client_conn_sess:
  assumes "well_behaved dll" "ght_laws g" "close_client_conn dll g fd w = Inr w'" "sessions g w fd \<noteq> None"
  shows "rq_frame w w' \<and> sessions g w' = (sessions g w)(fd := None) \<and> cn_count w' = cn_count w - 1"
proof -
  obtain s :: fdsession and w1 r where w1: "handle_close dll g fd w = Inr w1"
    "push_sendq \<lparr>mb_id = s_id s, mb_fd = fd, mb_length = 13, mb_type = FIN_BLOCK\<rparr> [] w1 = Inr (r, w')"
    using assms(3,4) by (auto simp: close_client_conn_def sessions_def)
  from handle_close_sess [OF assms(1,2) w1(1)] push_sendq_frame [OF w1(2)] show ?thesis
    using rq_frame_trans by (auto simp: sessions_def get_fdsess_def)
qed

lemma handle_process_sess:
  assumes wb: "well_behaved dll" and g: "ght_laws g" and r: "handle_process dll g pkg fd w = Inr w'"
  shows "rq_frame w w' \<and> (case sessions g w fd of None \<Rightarrow> (sessions g w', cn_count w') = (sessions g w, cn_count w)
    | Some s \<Rightarrow> \<exists>c w1. proc_pkg_from_client dll pkg s w = Inr (c, w1) \<and> (sessions g w', cn_count w') =
        (if c \<noteq> 0 then ((sessions g w)(fd := None), cn_count w - 1) else (sessions g w, cn_count w)))"
proof (cases "get_fdsess g fd w")
  case None
  then show ?thesis using r by (simp add: handle_process_def sessions_def)
next
  case (Some s)
  then obtain c w1 where p: "proc_pkg_from_client dll pkg s w = Inr (c, w1)"
    and rest: "(if c \<noteq> 0 then close_client_conn dll g fd w1 else Inr w1) = Inr w'"
    using r by (auto simp: handle_process_def)
  have f: "rq_frame w w1" "sessions g w1 = sessions g w" "cn_count w1 = cn_count w"
    using wb p by (auto simp: well_behaved_def sessions_def get_fdsess_def)
  show ?thesis
  proof (cases "c = 0")
    case True
    then show ?thesis using rest f p Some by (simp add: sessions_def)
  next
    case False
    then have "close_client_conn dll g fd w1 = Inr w'" using rest by simp
    moreover have sw: "sessions g w fd = Some s" using Some by (simp add: sessions_def)
    ultimately have "rq_frame w1 w' \<and> sessions g w' = (sessions g w1)(fd := None) \<and> cn_count w' = cn_count w1 - 1"
      using close_client_conn_sess [OF wb g, of fd w1 w'] f by simp
    then show ?thesis using f False sw p rq_frame_trans [OF f(1)] by simp
  qed
qed

lemma handle_open_sess:
  assumes g: "ght_laws g" and fits: "msg_fits x"
  shows "(case handle_open g (fst x) (snd x) w of (r, w') \<Rightarrow> rq_frame w w' \<and> (sessions g w', cn_count w') =
    (if sessions g w (mb_fd (fst x)) = None \<and> length (snd x) = 10
     then ((sessions g w)(mb_fd (fst x) \<mapsto> session_of x), cn_count w + 1) else (sessions g w, cn_count w)))"
proof -
  have "mb_length (fst x) = 13 + 10 \<longleftrightarrow> length (snd x) = 10"
    using fits by (simp add: msg_fits_def msg_len_def word_unat_eq_iff)
  then show ?thesis
    using g by (auto simp: handle_open_def add_fdsess_def sessions_def get_fdsess_def session_of_def
      rq_frame_def ght_laws_def fun_eq_iff)
qed


text \<open>Bytes of the block just popped may be overwritten: the queue does not read them again.\<close>

lemma q_rep_overwrite_popped:
  assumes rep: "q_rep ps q xs" and off: "8 \<le> off" "off + n = tpos q" "n \<le> unat ps"
    and p: "off \<le> p" "p + length bs \<le> tpos q"
  shows "q_rep ps (q\<lparr>mem := put_bytes (mem q) p bs\<rparr>) xs"
proof -
  note d = q_repD [OF rep]
  let ?m = "put_bytes (mem q) p bs"
  have in_m: "p + length bs \<le> length (mem q)" using d p by simp
  then have len: "length ?m = length (mem q)" by (rule length_put_bytes)
  have cfg: "shmq_cfg ps (q\<lparr>mem := ?m\<rparr>)" using rep len by (simp add: q_rep_def shmq_cfg_def)
  from rep have "linear (q\<lparr>mem := ?m\<rparr>) xs \<or> wrapped ps (q\<lparr>mem := ?m\<rparr>) xs"
  proof (cases rule: q_rep_cases)
    case linear
    then have "seg ?m (tpos q) xs (hpos q)" using in_m p d by (intro seg_put_bytes) auto
    then show ?thesis using linear by (simp add: linear_def)
  next
    case (wrapped e ys zs)
    have te: "tpos q \<le> e" using seg_le [OF wrapped(4)] .
    have "seg ?m (tpos q) ys e" using wrapped in_m p d by (intro seg_put_bytes) auto
    moreover have "hpos q \<le> p" using wrapped(2) off p by auto
    then have "seg ?m 8 zs (hpos q)" using wrapped in_m d by (intro seg_put_bytes) auto
    moreover have "end_mark ?m e"
    proof (cases "length (mem q) - e < 13")
      case True
      then show ?thesis by (simp add: end_mark_def len)
    next
      case False
      then have "?m ! (e + 12) = mem q ! (e + 12)" using te p in_m by (subst nth_put_bytes) auto
      then show ?thesis using wrapped(6) by (simp add: end_mark_def len)
    qed
    ultimately have "wrapped ps (q\<lparr>mem := ?m\<rparr>) xs"
      unfolding wrapped_def using wrapped(1,2,3,5) by auto
    then show ?thesis ..
  qed
  then show ?thesis using rep cfg by (simp add: q_rep_def)
qed

lemma reject_open_eq:
  assumes rep: "rq_rep w xs" and off: "8 \<le> off" "off + n = tpos (recvq (configs (bindconf w) ! cur_bc w))"
    "13 \<le> n" "n \<le> unat (page_size w)"
  obtains q where "q_rep (page_size w) q xs" "q_length q = q_length (recvq (configs (bindconf w) ! cur_bc w))"
    "reject_open (int off) mb w = bindR (push_sendq (mb\<lparr>mb_type := FIN_BLOCK, mb_length := 13\<rparr>) []
       (set_bc ((configs (bindconf w) ! cur_bc w)\<lparr>recvq := q\<rparr>) w)) (\<lambda>(r, w1). Inr w1)"
proof -
  let ?q = "recvq (configs (bindconf w) ! cur_bc w)"
  have i: "cur_bc w < length (configs (bindconf w))" and q: "q_rep (page_size w) ?q xs"
    using rep by (auto simp: rq_rep_def)
  let ?m1 = "put_bytes (mem ?q) (off + 12) [FIN_BLOCK]"
  let ?q1 = "?q\<lparr>mem := ?m1\<rparr>"
  let ?q2 = "?q1\<lparr>mem := put_bytes ?m1 (off + 8) (le32 13)\<rparr>"
  have q1: "q_rep (page_size w) ?q1 xs"
    using off by (intro q_rep_overwrite_popped [OF q off(1,2,4)]) auto
  have q2: "q_rep (page_size w) ?q2 xs"
    using q_rep_overwrite_popped [OF q1 off(1), of n "off + 8" "le32 13"] off by simp
  have fit: "off + 13 \<le> length (mem ?q)" using q_repD [OF q] off by simp
  have l1: "length ?m1 = length (mem ?q)" using fit by (intro length_put_bytes) simp
  have "store 8 (mem ?q) (int off + 12) [FIN_BLOCK] = Inr ?m1"
    using store_nat [of 8 "off + 12" "[FIN_BLOCK]" "mem ?q"] fit by simp
  moreover have "store 8 ?m1 (int off + 8) (le32 13) = Inr (mem ?q2)"
    using store_nat [of 8 "off + 8" "le32 13" ?m1] fit l1 by simp
  ultimately show thesis using that [OF q2] i by (simp add: reject_open_def my_bc_def)
qed

lemma reject_open_sess:
  assumes rep: "rq_rep w xs" and off: "8 \<le> off" "off + n = tpos (recvq (configs (bindconf w) ! cur_bc w))"
    "13 \<le> n" "n \<le> unat (page_size w)"
    and r: "reject_open (int off) mb w = Inr w'"
  shows "rq_rep w' xs \<and> cn w' = cn w \<and> cn_count w' = cn_count w"
proof -
  obtain q where q: "q_rep (page_size w) q xs" "q_length q = q_length (recvq (configs (bindconf w) ! cur_bc w))"
    "reject_open (int off) mb w =
      bindR (push_sendq (mb\<lparr>mb_type := FIN_BLOCK, mb_length := 13\<rparr>) []
       (set_bc ((configs (bindconf w) ! cur_bc w)\<lparr>recvq := q\<rparr>) w)) (\<lambda>(r, w1). Inr w1)"
    by (rule reject_open_eq [OF rep off])
  obtain r where "push_sendq (mb\<lparr>mb_type := FIN_BLOCK, mb_length := 13\<rparr>) []
       (set_bc ((configs (bindconf w) ! cur_bc w)\<lparr>recvq := q\<rparr>) w) = Inr (r, w')"
    using r unfolding q(3) by auto
  note p = push_sendq_frame [OF this]
  have "cur_bc w < length (configs (bindconf w))" using rep by (simp add: rq_rep_def)
  with p q(1) show ?thesis by (auto simp: rq_rep_def rq_frame_def)
qed

lemma handle_block_sess:
  assumes wb: "well_behaved dll" and g: "ght_laws g" and fits: "msg_fits x"
    and rep: "rq_rep w xs" and off: "8 \<le> off" "off + msg_len x = tpos (recvq (configs (bindconf w) ! cur_bc w))"
    "msg_len x \<le> unat (page_size w)"
    and r: "handle_block dll g (int off) x w = Inr w'"
  shows "rq_rep w' xs \<and> (\<exists>v. (case asks x (sessions g w) of None \<Rightarrow> True
      | Some s \<Rightarrow> answered dll g (sessions g w) xs (snd x) s v) \<and>
    (sessions g w', cn_count w') = sess_step v x (sessions g w, cn_count w))"
proof -
  let ?mb = "fst x"
  have quiet: ?thesis if "rq_rep w' xs" "asks x (sessions g w) = None"
    "(sessions g w', cn_count w') = sess_step False x (sessions g w, cn_count w)"
    using that by (intro conjI exI [of _ False]) simp_all
  have len: "13 < unat (mb_length ?mb) \<longleftrightarrow> snd x \<noteq> []" using fits by (auto simp: msg_fits_def msg_len_def)
  consider "mb_type ?mb = DATA_BLOCK" | "mb_type ?mb = OPEN_BLOCK" | "mb_type ?mb = CLOSE_BLOCK"
    | "mb_type ?mb \<notin> {DATA_BLOCK, OPEN_BLOCK, CLOSE_BLOCK}" by blast
  then show ?thesis
  proof cases
    case 1
    show ?thesis
    proof (cases "snd x = []")
      case True
      then have "w' = w" using r 1 len by (simp add: handle_block_def Let_def)
      then show ?thesis using rep 1 True by (intro quiet) (simp_all add: sess_step_def asks_def Let_def split: option.split)
    next
      case False
      then have "handle_process dll g (snd x) (mb_fd ?mb) w = Inr w'"
        using r 1 len by (simp add: handle_block_def Let_def)
      note h = handle_process_sess [OF wb g this]
      have rep': "rq_rep w' xs" using rq_frame_rep [OF conjunct1 [OF h]] rep by simp
      show ?thesis
      proof (cases "sessions g w (mb_fd ?mb)")
        case None
        then show ?thesis using h 1 rep' by (intro quiet) (simp_all add: sess_step_def asks_def Let_def)
      next
        case (Some s)
        then obtain c w1 where c: "proc_pkg_from_client dll (snd x) s w = Inr (c, w1)" "(sessions g w', cn_count w') =
            (if c \<noteq> 0 then ((sessions g w)(mb_fd ?mb := None), cn_count w - 1) else (sessions g w, cn_count w))"
          using h by auto
        have "answered dll g (sessions g w) xs (snd x) s (c \<noteq> 0)" using c(1) rep by (auto simp: answered_def)
        then show ?thesis
          using c(2) Some 1 False rep' by (intro conjI exI [of _ "c \<noteq> 0"]) (simp_all add: sess_step_def asks_def Let_def)
      qed
    qed
  next
    case 2
    obtain c w1 where ho: "handle_open g ?mb (snd x) w = (c, w1)" by fastforce
    note h = handle_open_sess [OF g fits, of w, unfolded ho prod.case]
    have s1: "rq_frame w w1" by (rule conjunct1 [OF h])
    have s2: "(sessions g w1, cn_count w1) = sess_step False x (sessions g w, cn_count w)"
      unfolding conjunct2 [OF h] using 2 by (simp add: sess_step_def Let_def)
    have rest: "(if c = -1 then reject_open (int off) ?mb w1 else Inr w1) = Inr w'"
      using r 2 ho by (simp add: handle_block_def Let_def)
    have "rq_rep w' xs \<and> cn w' = cn w1 \<and> cn_count w' = cn_count w1"
    proof (cases "c = -1")
      case True
      then show ?thesis
        using reject_open_sess [of w1 xs off "msg_len x" ?mb w'] rest rep off rq_frame_rep [OF s1, of xs] s1
        by (simp add: rq_frame_def msg_len_ge)
    next
      case False
      then show ?thesis using rest rq_frame_rep [OF s1, of xs] rep by simp
    qed
    then have "sessions g w' = sessions g w1" "cn_count w' = cn_count w1" "rq_rep w' xs"
      by (auto simp: sessions_def get_fdsess_def)
    then show ?thesis using s2 2 by (intro quiet) (simp_all add: asks_def)
  next
    case 3
    then have "handle_close dll g (mb_fd ?mb) w = Inr w'" using r by (simp add: handle_block_def Let_def)
    from handle_close_sess [OF wb g this] show ?thesis
      using 3 rep rq_frame_rep [of w w' xs] by (intro quiet) (simp_all add: sess_step_def asks_def Let_def)
  next
    case 4
    then show ?thesis using r rep by (intro quiet) (simp_all add: handle_block_def Let_def sess_step_def asks_def)
  qed
qed

lemma handle_recv_queue_sess:
  assumes "well_behaved dll" "ght_laws g" "rq_rep w xs" "length xs < fuel"
    "handle_recv_queue fuel dll g w = Inr w'"
  shows "rq_rep w' [] \<and> sess_run dll g (sessions g w, cn_count w) xs (sessions g w', cn_count w')"
  using assms(3-5)
proof (induction xs arbitrary: w fuel)
  case Nil
  then obtain f where f: "fuel = Suc f" by (cases fuel) auto
  let ?e = "configs (bindconf w) ! cur_bc w"
  have i: "cur_bc w < length (configs (bindconf w))" and q: "q_rep (page_size w) (recvq ?e) []"
    using Nil.prems by (auto simp: rq_rep_def)
  obtain q' where "shmq_pop (recvq ?e) = Inr (None, q')" "q_rep (page_size w) q' []"
    using shmq_pop_rep [OF q] by auto
  then show ?case using Nil.prems(3) f i by (auto simp: my_bc_def rq_rep_def sessions_def get_fdsess_def sess_run_Nil)
next
  case (Cons x xs)
  then obtain f where f: "fuel = Suc f" by (cases fuel) auto
  let ?e = "configs (bindconf w) ! cur_bc w"
  have i: "cur_bc w < length (configs (bindconf w))" and q: "q_rep (page_size w) (recvq ?e) (x # xs)"
    using Cons.prems by (auto simp: rq_rep_def)
  have ok: "msg_ok (unat (page_size w)) x" using q_repD(7) [OF q] by simp
  obtain off q' where p: "shmq_pop (recvq ?e) = Inr (Some (int off), q')" "q_rep (page_size w) q' xs"
      "bytes_at (mem (recvq ?e)) off (msg_len x) = enc_msg x" "tpos q' = off + msg_len x" "8 \<le> off"
      "mem q' = mem (recvq ?e)"
    using shmq_pop_rep [OF q] by auto
  have rd: "read_msg q' (int off) = Inr x"
    using p q_repD [OF p(2)] ok by (intro read_msg_enc) (auto simp: msg_ok_def)
  let ?w1 = "set_bc (?e\<lparr>recvq := q'\<rparr>) w"
  obtain w2 where w2: "handle_block dll g (int off) x ?w1 = Inr w2" "handle_recv_queue f dll g w2 = Inr w'"
    using Cons.prems(3) f i p(1) rd by (auto simp: my_bc_def Let_def)
  have e: "sessions g ?w1 = sessions g w" "cn_count ?w1 = cn_count w" by (auto simp: sessions_def get_fdsess_def)
  have "rq_rep w2 xs \<and> (\<exists>v. (case asks x (sessions g ?w1) of None \<Rightarrow> True
      | Some s \<Rightarrow> answered dll g (sessions g ?w1) xs (snd x) s v) \<and>
    (sessions g w2, cn_count w2) = sess_step v x (sessions g ?w1, cn_count ?w1))"
    using p i ok by (intro handle_block_sess [OF assms(1,2) _ _ p(5) _ _ w2(1)])
      (auto simp: rq_rep_def msg_ok_def msg_fits_def)
  then obtain v where v: "rq_rep w2 xs" "(sessions g w2, cn_count w2) = sess_step v x (sessions g w, cn_count w)"
    "case asks x (sessions g w) of None \<Rightarrow> True | Some s \<Rightarrow> answered dll g (sessions g w) xs (snd x) s v" unfolding e by blast
  have "rq_rep w' [] \<and> sess_run dll g (sessions g w2, cn_count w2) xs (sessions g w', cn_count w')"
    using Cons.IH [OF v(1)] w2(2) Cons.prems(2) f by simp
  then show ?case unfolding sess_run_Cons fst_conv using v(2,3) by metis
qed

section \<open>Properties\<close>

text \<open>A session table that obeys the laws.\<close>

definition demo_ght :: "(u32 \<rightharpoonup> fdsession) ght" where
  "demo_ght = \<lparr>ht_new = Map.empty, ht_lookup = (\<lambda>t. t), ht_insert = (\<lambda>t k v. t(k \<mapsto> v)),
     ht_remove = (\<lambda>t k. t(k := None)), ht_destroy = (\<lambda>t. Map.empty)\<rparr>"

lemma demo_ght_laws: "ght_laws demo_ght"
  by (simp add: ght_laws_def demo_ght_def)

lemma send_frags_frame:
  "send_frags fuel s pkg w = Inr (r, w') \<Longrightarrow> rq_frame w w' \<and> cn w' = cn w \<and> cn_count w' = cn_count w"
proof (induction fuel arbitrary: pkg w)
  case (Suc fuel)
  show ?case
  proof (cases "pkg = []")
    case False
    then obtain mb n r1 w1 where p: "push_sendq mb pkg w = Inr (r1, w1)"
      and rest: "(if r1 = -1 then Inr (-1, w1) else send_frags fuel s (drop n pkg) w1) = Inr (r, w')"
      using Suc.prems by (auto simp: Let_def)
    from push_sendq_frame [OF p] rest Suc.IH [of "drop n pkg" w1] show ?thesis
      using rq_frame_trans by (auto split: if_splits)
  qed (use Suc.prems in simp)
qed simp

text \<open>
  The plugin of \<open>src/samples/echo.cpp\<close>: everything that has arrived is one package, and a package goes
  back to its client; the result is that of the send.  The other callbacks are empty.
\<close>

definition echo_get_pkg_len :: "nat \<Rightarrow> byte list \<Rightarrow> bool \<Rightarrow> i32" where
  "echo_get_pkg_len fd pkg isparent = of_nat (length pkg)"

definition echo_plugin :: "'t serv_if" where
  "echo_plugin = \<lparr>get_pkg_len = echo_get_pkg_len,
     proc_pkg_from_client = (\<lambda>pkg s w. send_pkg_to_client (length pkg + 1) s pkg w),
     proc_pkg_from_serv = (\<lambda>_ _ w. Inr w), on_client_conn_closed = (\<lambda>_ w. Inr w), on_fd_closed = (\<lambda>_ w. Inr w),
     init_service = None, fini_service = None, proc_udp_pkg = None, proc_mcast_pkg = None,
     connect_cb = (\<lambda>_ _ w. Inr w)\<rparr>"

lemma echo_plugin_sel [simp]:
  "get_pkg_len echo_plugin = echo_get_pkg_len" "on_client_conn_closed echo_plugin fd w = Inr w"
  "proc_pkg_from_client echo_plugin pkg s w = send_frags (length pkg + 1) s pkg w"
  by (simp_all add: echo_plugin_def send_pkg_to_client_def)

lemma echo_well_behaved: "well_behaved echo_plugin"
  by (auto simp: well_behaved_def dest: send_frags_frame simp del: send_frags.simps)

definition demo_open :: message where
  "demo_open = (\<lparr>mb_id = 1, mb_fd = 5, mb_length = 23, mb_type = OPEN_BLOCK\<rparr>,
     enc_remote \<lparr>remote_port = 80, remote_ip = 42, last_tm = 0\<rparr>)"

definition demo_data :: message where
  "demo_data = (\<lparr>mb_id = 1, mb_fd = 5, mb_length = 15, mb_type = DATA_BLOCK\<rparr>, [7, 9])"

definition demo_rq :: shm_queue where
  "demo_rq = demo_queue\<lparr>head := 46, mem := put_bytes (replicate 256 0) 8 (enc_msg demo_open @ enc_msg demo_data)\<rparr>"

definition demo_worker :: "(u32 \<rightharpoonup> fdsession) world" where
  "demo_worker = \<lparr>fds = fds demo_world, nodes = nodes demo_world,
     maxfd = 0, ev_count = 0, seq = 0, now_sec = 0, page_size = 64, send_buf_limit_size = 0,
     socket_timeout = 0, is_parent = False,
     bindconf = \<lparr>bind_num = 1, configs = [demo_bc\<lparr>recvq := demo_rq\<rparr>]\<rparr>,
     cn = Map.empty, cn_count = 0, cur_bc = 0, idle_timeout = 10, child_pids = [0, 0, 0], stopped = False, interest = Map.empty,
     tx = (\<lambda>_. []), rx = (\<lambda>_. []), closed = [], overlap = False, epoll_add_ok = True, mmap_ok = True,
     recv_as = [], send_as = [], accept_as = [], read_as = [], epoll_as = [], time_as = [],
     so_error_as = [], fcntl_err = None, peer = idle\<rparr>"

lemma demo_worker_rq: "rq_rep demo_worker [demo_open, demo_data]"
proof -
  have "q_rep 64 demo_rq [demo_open, demo_data]"
  proof (rule q_rep_linearI)
    have "seg (mem demo_rq) 8 [demo_open, demo_data] 46" by code_simp
    then show "seg (mem demo_rq) (tpos demo_rq) [demo_open, demo_data] (hpos demo_rq)"
      by (simp add: demo_rq_def demo_queue_def)
    show "\<forall>x\<in>set [demo_open, demo_data]. msg_ok (unat (64 :: u32)) x"
      by (simp add: demo_open_def demo_data_def msg_ok_def msg_len_def enc_remote_def)
  qed (simp_all add: demo_rq_def demo_queue_def shmq_cfg_def length_put_bytes msg_len_def demo_open_def demo_data_def enc_remote_def)
  then show ?thesis by (simp add: rq_rep_def demo_worker_def)
qed

lemma demo_worker_sq: "sq_rep demo_worker []"
proof -
  have "q_rep 64 demo_queue []"
    by (rule q_rep_linearI) (simp_all add: demo_queue_def shmq_cfg_def)
  then show ?thesis by (simp add: sq_rep_def demo_worker_def demo_bc_def)
qed



text \<open>
  C26: \<open>send_pkg_to_client\<close> splits a package into data blocks of at most \<open>page_size\<close> bytes for the
  session's connection.  It always ends; when it returns 0 the payloads of the blocks it queued,
  joined, are the package, and when it returns -1 they are a prefix of it.
\<close>

theorem send_pkg_to_client_fragments:
  assumes "sq_rep w xs" "peer w = idle" "13 < unat (page_size w)" "small (page_size w)" "length pkg < fuel"
  shows "case send_pkg_to_client fuel s pkg w of Inl e \<Rightarrow> e = Exit (-1)
    | Inr (r, w') \<Rightarrow> (\<exists>frs. sq_rep w' (xs @ frs) \<and> list_all (frag_of s) frs \<and>
        prefix (concat (map snd frs)) pkg \<and> (if r = 0 then concat (map snd frs) = pkg else r = -1))"
  using send_frags_spec [OF assms] by (simp add: send_pkg_to_client_def)

theorem send_pkg_to_client_fragments_witness:
  "case send_pkg_to_client 100 \<lparr>s_fd = 5, s_id = 1, s_remote_port = 0, s_remote_ip = 0\<rparr> (replicate 90 7) demo_worker of
      Inl e \<Rightarrow> e = Exit (-1)
    | Inr (r, w') \<Rightarrow> (\<exists>frs. sq_rep w' ([] @ frs) \<and>
        list_all (frag_of \<lparr>s_fd = 5, s_id = 1, s_remote_port = 0, s_remote_ip = 0\<rparr>) frs \<and>
        prefix (concat (map snd frs)) (replicate 90 7) \<and>
        (if r = 0 then concat (map snd frs) = replicate 90 7 else r = -1))"
  by (rule send_pkg_to_client_fragments [OF demo_worker_sq]) (simp_all add: demo_worker_def small_def)

text \<open>
  The address the parent packs into an \<open>OPEN_BLOCK\<close> is the address the worker's session gets.
\<close>

theorem open_block_roundtrip:
  assumes "ght_laws g" "get_fdsess g (mb_fd mb) w = None" "mb_length mb = 23"
  shows "\<exists>w'. handle_open g mb (enc_remote r) w = (0, w') \<and>
    get_fdsess g (mb_fd mb) w' = Some \<lparr>s_fd = mb_fd mb, s_id = mb_id mb, s_remote_port = remote_port r, s_remote_ip = remote_ip r\<rparr>"
proof -
  have "take 2 (enc_remote r) = le16 (remote_port r)" "take 4 (drop 2 (enc_remote r)) = le32 (remote_ip r)"
    by (simp_all add: enc_remote_def)
  then show ?thesis
    using assms by (simp add: handle_open_def add_fdsess_def) (simp add: get_fdsess_def ght_laws_def)
qed

theorem open_block_roundtrip_witness:
  "\<exists>w'. handle_open demo_ght (fst demo_open) (enc_remote \<lparr>remote_port = 80, remote_ip = 42, last_tm = 0\<rparr>) demo_worker = (0, w') \<and>
    get_fdsess demo_ght 5 w' = Some \<lparr>s_fd = 5, s_id = 1, s_remote_port = 80, s_remote_ip = 42\<rparr>"
  using open_block_roundtrip [OF demo_ght_laws, of "fst demo_open" demo_worker "\<lparr>remote_port = 80, remote_ip = 42, last_tm = 0\<rparr>"]
  by (simp add: demo_open_def get_fdsess_def demo_ght_def demo_worker_def)

text \<open>
  \<open>handle_close\<close> for a descriptor without a session logs the fact and goes on: the plugin's
  \<open>on_client_conn_closed\<close> runs a second time and the session counter drops although the table
  does not change.
\<close>

theorem handle_close_absent_session:
  assumes "well_behaved dll" "ght_laws g" "get_fdsess g fd w = None" "handle_close dll g fd w = Inr w'"
  shows "(\<exists>w1. on_client_conn_closed dll fd w = Inr w1) \<and> sessions g w' = sessions g w \<and> cn_count w' = cn_count w - 1"
proof -
  have "\<exists>w1. on_client_conn_closed dll fd w = Inr w1" using assms(4) by (auto simp: handle_close_def)
  moreover have "(sessions g w)(fd := None) = sessions g w" using assms(3) by (auto simp: sessions_def)
  ultimately show ?thesis using handle_close_sess [OF assms(1,2,4)] by simp
qed

theorem handle_close_absent_session_witness:
  "\<exists>w'. handle_close echo_plugin demo_ght 5 demo_worker = Inr w' \<and> cn_count w' = -1"
proof -
  have n: "get_fdsess demo_ght 5 demo_worker = None" by (simp add: get_fdsess_def demo_ght_def demo_worker_def)
  have h: "handle_close echo_plugin demo_ght 5 demo_worker = Inr (remove_fdsess demo_ght 5 demo_worker)"
    by (simp add: handle_close_def)
  have "cn_count demo_worker = 0" by (simp add: demo_worker_def)
  with handle_close_absent_session [OF echo_well_behaved demo_ght_laws n h] h show ?thesis by simp
qed

end
