(* ===== verification/Mp_Loop.thy ===== *)
theory Mp_Loop
  imports Mp_Service
begin

unbundle bit_operations_syntax

text \<open>
  The event loop (\<open>net_loop\<close> and the functions it calls in \<open>src/src/net.c\<close>) and the life of a
  worker (\<open>run_worker_process\<close>, \<open>restart_child_process\<close> in \<open>src/src/service.c\<close>).

  Loops over the pointer queues carry the fuel \<open>length (fds w) + 1\<close>: a well-formed queue holds
  every descriptor of the table at most once.  The accept loop consumes one answer of the kernel
  per round.  Draining a shared queue takes its fuel as an argument, since the other process may
  keep filling it.
\<close>

section \<open>The close and poll-again queues\<close>

definition close_body :: "'t serv_if \<Rightarrow> naddr \<Rightarrow> 't world \<Rightarrow> 't world res" where
  "close_body dll p w =
     (case p of
        FdNode n \<Rightarrow>
          if \<not> fd_ok w n then Inl Segv
          else let fd = sockfd (fdi w n) in
            bindR (if sendlen (cb (fdi w n)) > 0 then bindR (do_write_conn fd w) (\<lambda>(r, w1). Inr w1) else Inr w)
              (\<lambda>w1. do_del_conn dll fd (if is_parent w1 then 2 else 0) w1)
      | _ \<Rightarrow> Inl Segv)"

definition iterate_close_queue :: "'t serv_if \<Rightarrow> 't world \<Rightarrow> 't world res" where
  "iterate_close_queue dll w = list_for_each_safe (length (fds w) + 1) nodes (close_body dll) CloseHead w"

text \<open>\<open>while (do_open_conn(fd, is_parent) > 0) ;\<close>\<close>

fun accept_loop :: "nat \<Rightarrow> 't serv_if \<Rightarrow> nat \<Rightarrow> bool \<Rightarrow> 't world \<Rightarrow> 't world res" where
  "accept_loop 0 dll fd is_par w = Inl Blocked"
| "accept_loop (Suc fuel) dll fd is_par w =
     bindR (do_open_conn dll fd is_par w) (\<lambda>(r, w1).
       if r > 0 then accept_loop fuel dll fd is_par w1 else Inr w1)"

definition accept_all :: "'t serv_if \<Rightarrow> nat \<Rightarrow> bool \<Rightarrow> 't world \<Rightarrow> 't world res" where
  "accept_all dll fd is_par w = accept_loop (length (accept_as w) + 1) dll fd is_par w"

definition del_mode :: "bool \<Rightarrow> nat" where
  "del_mode is_par = (if is_par then 1 else 0)"

definition recv_or_close :: "'t serv_if \<Rightarrow> nat \<Rightarrow> u32 \<Rightarrow> bool \<Rightarrow> 't world \<Rightarrow> 't world res" where
  "recv_or_close dll fd max_len is_par w =
     bindR (net_recv dll fd max_len is_par w) (\<lambda>(r, w1).
       if r = -1 then do_del_conn dll fd (del_mode is_par) w1 else Inr w1)"

definition etin_body :: "'t serv_if \<Rightarrow> u32 \<Rightarrow> bool \<Rightarrow> naddr \<Rightarrow> 't world \<Rightarrow> 't world res" where
  "etin_body dll max_len is_par p w =
     (case p of
        FdNode n \<Rightarrow>
          if \<not> fd_ok w n then Inl Segv
          else let fd = sockfd (fdi w n) in
            if fi_type (fdi w n) = fd_type_listen then accept_all dll fd is_par w
            else recv_or_close dll fd max_len is_par w
      | _ \<Rightarrow> Inl Segv)"

definition iterate_etin_queue :: "'t serv_if \<Rightarrow> u32 \<Rightarrow> bool \<Rightarrow> 't world \<Rightarrow> 't world res" where
  "iterate_etin_queue dll max_len is_par w =
     list_for_each_safe (length (fds w) + 1) nodes (etin_body dll max_len is_par) EtinHead w"

section \<open>Output of the workers\<close>

text \<open>\<open>handle_send_queue\<close> on the send queue of bind element \<open>i\<close>, then on all of them.\<close>

fun drain_sendq :: "nat \<Rightarrow> 't serv_if \<Rightarrow> bool \<Rightarrow> nat \<Rightarrow> 't world \<Rightarrow> 't world res" where
  "drain_sendq 0 dll malloc_ok i w = Inl Blocked"
| "drain_sendq (Suc fuel) dll malloc_ok i w =
     (if length (configs (bindconf w)) \<le> i then Inl Segv
      else let e = configs (bindconf w) ! i in
        bindR (shmq_pop (sendq e)) (\<lambda>(p, q).
        let w1 = w\<lparr>bindconf := (bindconf w)\<lparr>configs := (configs (bindconf w))[i := e\<lparr>sendq := q\<rparr>]\<rparr>\<rparr> in
        case p of None \<Rightarrow> Inr w1
        | Some off \<Rightarrow>
          bindR (read_msg q off) (\<lambda>x.
          bindR (schedule_output dll malloc_ok x w1) (\<lambda>(r, w2). drain_sendq fuel dll malloc_ok i w2))))"

definition handle_send_queue :: "nat \<Rightarrow> 't serv_if \<Rightarrow> bool \<Rightarrow> 't world \<Rightarrow> 't world res" where
  "handle_send_queue fuel dll malloc_ok w =
     foldR (drain_sendq fuel dll malloc_ok) [0..<bind_num (bindconf w)] w"

section \<open>Events\<close>

text \<open>\<open>for (i = 0; i <= epi.maxfd; ++i)\<close> with a body that may lower \<open>maxfd\<close>.\<close>

fun scan_fds :: "nat \<Rightarrow> ('t world \<Rightarrow> nat \<Rightarrow> bool) \<Rightarrow> (nat \<Rightarrow> 't world \<Rightarrow> 't world res) \<Rightarrow> nat \<Rightarrow> 't world \<Rightarrow> 't world res" where
  "scan_fds 0 c body i w = (if int i \<le> maxfd w then Inl Blocked else Inr w)"
| "scan_fds (Suc fuel) c body i w =
     (if int i \<le> maxfd w then
        if \<not> fd_ok w i then Inl Segv
        else bindR (if c w i then body i w else Inr w) (scan_fds fuel c body (i + 1))
      else Inr w)"

definition idle_conn :: "'t world \<Rightarrow> nat \<Rightarrow> bool" where
  "idle_conn w i \<longleftrightarrow> fi_type (fdi w i) = fd_type_remote \<and>
     now_sec w - int (unat (last_tm (sk (fdi w i)))) \<ge> socket_timeout w"

definition close_idle :: "'t serv_if \<Rightarrow> 't world \<Rightarrow> 't world res" where
  "close_idle dll w = scan_fds (length (fds w)) idle_conn (\<lambda>i. do_del_conn dll i 1) 0 w"

definition of_bind :: "nat option \<Rightarrow> 't world \<Rightarrow> nat \<Rightarrow> bool" where
  "of_bind bc w i \<longleftrightarrow> bc_elem (fdi w i) = bc \<and> fi_type (fdi w i) \<noteq> fd_type_listen"

definition close_bind :: "'t serv_if \<Rightarrow> nat option \<Rightarrow> 't world \<Rightarrow> 't world res" where
  "close_bind dll bc w = scan_fds (length (fds w)) (of_bind bc) (\<lambda>i. do_del_conn dll i 1) 0 w"

text \<open>\<open>while (read(fd, trash, trash_size) == trash_size) ;\<close>\<close>

fun empty_pipe :: "recv_ans list \<Rightarrow> recv_ans list res" where
  "empty_pipe [] = Inl Blocked"
| "empty_pipe (RecvData bs # as) = (if length bs \<ge> 4096 then empty_pipe as else Inr as)"
| "empty_pipe (a # as) = Inr as"

text \<open>
  \<open>handle_pipe_event\<close>: \<open>restart\<close> is \<open>restart_child_process\<close>; the counter is compared before
  it is incremented.
\<close>

definition bump_restart :: "nat \<Rightarrow> 't world \<Rightarrow> 't world" where
  "bump_restart i w = w\<lparr>bindconf := (bindconf w)\<lparr>configs := (configs (bindconf w))[i :=
     (configs (bindconf w) ! i)\<lparr>restart_cnt := restart_cnt (configs (bindconf w) ! i) + 1\<rparr>]\<rparr>\<rparr>"

definition handle_pipe_event ::
  "'t serv_if \<Rightarrow> (nat \<Rightarrow> 't world \<Rightarrow> 't world res) \<Rightarrow> nat \<Rightarrow> bool \<Rightarrow> bool \<Rightarrow> 't world \<Rightarrow> (int \<times> 't world) res"
where
  "handle_pipe_event dll restart fd hup is_par w =
     (if hup then
        (if is_par then
           (case bc_elem (fdi w fd) of None \<Rightarrow> Inl Segv
            | Some i \<Rightarrow>
              if length (configs (bindconf w)) \<le> i then Inl Segv
              else bindR (close_bind dll (Some i) w) (\<lambda>w1.
                let again = restart_cnt (configs (bindconf w1) ! i) < 20; w2 = bump_restart i w1 in
                if again then bindR (restart i w2) (\<lambda>w3. Inr (0, w3)) else Inr (0, w2)))
         else Inr (-1, w\<lparr>stopped := True\<rparr>))
      else bindR (empty_pipe (read_as w)) (\<lambda>as. Inr (0, w\<lparr>read_as := as\<rparr>)))"

text \<open>\<open>so_error_as\<close> says for each connection attempt whether it failed.\<close>

definition handle_asyn_connect :: "'t serv_if \<Rightarrow> nat \<Rightarrow> 't world \<Rightarrow> 't world res" where
  "handle_asyn_connect dll fd w =
     (case so_error_as w of [] \<Rightarrow> Inl Blocked
      | failed # es \<Rightarrow>
        let w0 = w\<lparr>so_error_as := es\<rparr> in
        bindR (if failed then bindR (do_del_conn dll fd 2 w0) (\<lambda>w1. Inr (-1, w1))
               else Inr (int fd, snd (mod_events fd False (upd_fd fd (\<lambda>i. i\<lparr>fi_type := fd_type_remote\<rparr>) w0))))
          (\<lambda>(r, w1). case callback (fdi w1 fd) of None \<Rightarrow> Inl Segv | Some k \<Rightarrow> connect_cb dll k r w1))"

text \<open>At most 100 datagrams of at most 8192 bytes per event; a null handler is not checked for UDP.\<close>

fun recv_dgrams :: "nat \<Rightarrow> (byte list \<Rightarrow> 't world \<Rightarrow> 't world res) \<Rightarrow> 't world \<Rightarrow> 't world res" where
  "recv_dgrams 0 f w = Inr w"
| "recv_dgrams (Suc n) f w =
     (case read_as w of [] \<Rightarrow> Inl Blocked
      | RecvData bs # as \<Rightarrow>
        if bs = [] then Inr (w\<lparr>read_as := as\<rparr>)
        else bindR (f (take 8192 bs) (w\<lparr>read_as := as\<rparr>)) (recv_dgrams n f)
      | a # as \<Rightarrow> Inr (w\<lparr>read_as := as\<rparr>))"

definition handle_in :: "'t serv_if \<Rightarrow> nat \<Rightarrow> u32 \<Rightarrow> bool \<Rightarrow> 't world \<Rightarrow> 't world res" where
  "handle_in dll fd max_len is_par w =
     (case fi_type (fdi w fd) of
        fd_type_listen \<Rightarrow> accept_all dll fd is_par w
      | fd_type_mcast \<Rightarrow> recv_dgrams 100 (\<lambda>bs w. case proc_mcast_pkg dll of None \<Rightarrow> Inr w | Some f \<Rightarrow> f bs w) w
      | fd_type_udp \<Rightarrow> recv_dgrams 100 (\<lambda>bs w. case proc_udp_pkg dll of None \<Rightarrow> Inl Segv | Some f \<Rightarrow> f fd bs w) w
      | _ \<Rightarrow> recv_or_close dll fd max_len is_par w)"

definition handle_out :: "'t serv_if \<Rightarrow> nat \<Rightarrow> bool \<Rightarrow> 't world \<Rightarrow> 't world res" where
  "handle_out dll fd is_par w =
     bindR (if sendlen (cb (fdi w fd)) > 0 then
              bindR (do_write_conn fd w) (\<lambda>(r, w1).
                if r = -1 then do_del_conn dll fd (del_mode is_par) w1 else Inr w1)
            else Inr w)
       (\<lambda>w1. if sendlen (cb (fdi w1 fd)) = 0 then Inr (snd (mod_events fd False w1)) else Inr w1)"

text \<open>One event; the flag of the result says that \<open>net_loop\<close> returns -1.\<close>

definition handle_event ::
  "'t serv_if \<Rightarrow> (nat \<Rightarrow> 't world \<Rightarrow> 't world res) \<Rightarrow> u32 \<Rightarrow> bool \<Rightarrow> nat \<times> ev_bits \<Rightarrow> 't world \<Rightarrow> (bool \<times> 't world) res"
where
  "handle_event dll restart max_len is_par e w =
     (let fd = fst e; ev = snd e in
      if int fd > maxfd w then Inr (False, w)
      else if \<not> fd_ok w fd then Inl Segv
      else if sockfd (fdi w fd) \<noteq> fd \<or> fi_type (fdi w fd) = fd_type_unused then Inr (False, w)
      else if fi_type (fdi w fd) = fd_type_pipe then
        bindR (handle_pipe_event dll restart fd (ev_hup ev) is_par w) (\<lambda>(r, w1). Inr (r \<noteq> 0, w1))
      else
        bindR (if fi_type (fdi w fd) = fd_type_asyn_connect then handle_asyn_connect dll fd w else Inr w) (\<lambda>w1.
        bindR (if ev_in ev then handle_in dll fd max_len is_par w1 else Inr w1) (\<lambda>w2.
        bindR (if ev_out ev then handle_out dll fd is_par w2 else Inr w2) (\<lambda>w3.
        bindR (if ev_hup ev then do_del_conn dll fd (del_mode is_par) w3 else Inr w3) (\<lambda>w4.
        Inr (False, w4))))))"

fun handle_events ::
  "'t serv_if \<Rightarrow> (nat \<Rightarrow> 't world \<Rightarrow> 't world res) \<Rightarrow> u32 \<Rightarrow> bool \<Rightarrow> (nat \<times> ev_bits) list \<Rightarrow> 't world \<Rightarrow> (bool \<times> 't world) res"
where
  "handle_events dll restart max_len is_par [] w = Inr (False, w)"
| "handle_events dll restart max_len is_par (e # es) w =
     bindR (handle_event dll restart max_len is_par e w) (\<lambda>(stop, w1).
       if stop then Inr (True, w1) else handle_events dll restart max_len is_par es w1)"

definition renew_now :: "'t world \<Rightarrow> 't world" where
  "renew_now w = (case time_as w of [] \<Rightarrow> w | t # ts \<Rightarrow> w\<lparr>now_sec := t, time_as := ts\<rparr>)"

definition net_loop ::
  "nat \<Rightarrow> 't serv_if \<Rightarrow> 't ght \<Rightarrow> bool \<Rightarrow> (nat \<Rightarrow> 't world \<Rightarrow> 't world res) \<Rightarrow> u32 \<Rightarrow> bool \<Rightarrow> 't world \<Rightarrow> (int \<times> 't world) res"
where
  "net_loop fuel dll g malloc_ok restart max_len is_par w =
     bindR (iterate_close_queue dll w) (\<lambda>w1.
     bindR (iterate_etin_queue dll max_len is_par w1) (\<lambda>w2.
     case epoll_as w2 of [] \<Rightarrow> Inl Blocked
     | evs # as \<Rightarrow>
       let w3 = renew_now (w2\<lparr>epoll_as := as\<rparr>) in
       bindR (if is_par then handle_send_queue fuel dll malloc_ok w3 else Inr w3) (\<lambda>w4.
       bindR (handle_events dll restart max_len is_par (case evs of None \<Rightarrow> [] | Some l \<Rightarrow> l) w4) (\<lambda>(stop, w5).
       if stop then Inr (-1, w5)
       else
         bindR (if is_par \<and> socket_timeout w5 \<noteq> 0 then close_idle dll w5 else Inr w5) (\<lambda>w6.
         bindR (if \<not> is_par then handle_recv_queue fuel dll g w6 else Inr w6) (\<lambda>w7.
         Inr (0, w7)))))))"

section \<open>Starting and stopping\<close>

definition net_start :: "listen_env \<Rightarrow> nat option \<Rightarrow> 't world \<Rightarrow> (int \<times> 't world) res" where
  "net_start k bc w =
     bindR (safe_socket_listen SOCK_STREAM 1024 (32 * 1024) k) (\<lambda>(fd, cl).
       let w0 = w\<lparr>closed := closed w @ map nat cl\<rparr> in
       if fd \<noteq> -1 then bindR (do_add_conn (nat fd) fd_type_listen None bc w0) (\<lambda>w1. Inr (0, w1))
       else Inr (-1, w0))"

definition net_exit :: "'t world \<Rightarrow> 't world res" where
  "net_exit w =
     (if length (fds w) < nat (maxfd w + 1) then Inl Segv
      else Inr (w\<lparr>closed := closed w @ filter (\<lambda>i. fi_type (fdi w i) \<noteq> fd_type_unused) [0..<nat (maxfd w + 1)],
                  fds := [], interest := Map.empty\<rparr>))"

text \<open>Answers of the kernel when a worker is started again.\<close>

record fork_env =
  fk_mmap :: "bool \<times> bool"
  fk_pipes :: "(int \<times> int) option \<times> (int \<times> int) option"
  fk_pid :: int

definition get_bind_conf_idx :: "nat \<Rightarrow> nat" where
  "get_bind_conf_idx i = i"

definition set_conf :: "nat \<Rightarrow> bind_config_info \<Rightarrow> 't world \<Rightarrow> 't world" where
  "set_conf i e w = w\<lparr>bindconf := (bindconf w)\<lparr>configs := (configs (bindconf w))[i := e]\<rparr>\<rparr>"

text \<open>
  \<open>restart_child_process\<close>: \<open>shmq_length\<close> is the configured size, \<open>run_worker\<close> what the child does;
  it does not return.
\<close>

definition restart_child_process ::
  "'t serv_if \<Rightarrow> int \<Rightarrow> fork_env \<Rightarrow> (nat \<Rightarrow> nat \<Rightarrow> 't world \<Rightarrow> 't world res) \<Rightarrow> nat \<Rightarrow> 't world \<Rightarrow> 't world res"
where
  "restart_child_process dll shmq_length k run_worker i w =
     (if length (configs (bindconf w)) \<le> i then Inl Segv
      else let e = configs (bindconf w) ! i;
               w0 = w\<lparr>closed := closed w @ [nat (snd (pipe_handles (recvq e)))]\<rparr> in
        bindR (do_del_conn dll (nat (fst (pipe_handles (sendq e)))) 2 w0) (\<lambda>w1.
        bindR (shmq_create shmq_length (fk_mmap k) (fk_pipes k) (do_destroy_shmq e)) (\<lambda>(c, e1).
        let w2 = set_conf i e1 w1; j = get_bind_conf_idx i in
        if fk_pid k < 0 then Inr w2
        else if fk_pid k > 0 then
          bindR (do_add_conn (nat (fst (pipe_handles (sendq e1)))) fd_type_pipe None (Some i)
                   (w2\<lparr>closed := closed w2 @ map nat (close_shmq_pipe (bindconf w2) j False)\<rparr>)) (\<lambda>w3.
          if length (child_pids w3) \<le> j then Inl Segv
          else Inr (w3\<lparr>child_pids := atomic_set (child_pids w3) j (fk_pid k)\<rparr>))
        else run_worker j (bind_num (bindconf w2)) w2)))"

text \<open>
  The main loop of a worker.  Each element of the list says whether a termination signal arrived
  before the test of the loop condition; the loop is still running when the list is used up.
\<close>

fun worker_loop :: "bool list \<Rightarrow> nat \<Rightarrow> 't serv_if \<Rightarrow> 't ght \<Rightarrow> bool \<Rightarrow> 't world \<Rightarrow> 't world res" where
  "worker_loop [] fuel dll g malloc_ok w = Inl Blocked"
| "worker_loop (sig # sigs) fuel dll g malloc_ok w =
     (let w0 = (if sig then w\<lparr>stopped := True\<rparr> else w) in
      bindR (if stopped w0 then handle_fini dll g w0 else Inr (False, w0)) (\<lambda>(fini, w1).
        if fini then Inr w1
        else bindR (net_loop fuel dll g malloc_ok (\<lambda>i w. Inr w) (page_size w1) False w1) (\<lambda>(r, w2).
          worker_loop sigs fuel dll g malloc_ok w2)))"

text \<open>
  \<open>run_worker_process\<close>.  The title prefix is built in a buffer of ten characters at the index
  \<open>snprintf\<close> returns, which is ten for a \<open>server_id\<close> of ten digits.
\<close>

definition run_worker_process ::
  "bool list \<Rightarrow> nat \<Rightarrow> 't serv_if \<Rightarrow> 't ght \<Rightarrow> bool \<Rightarrow> int \<Rightarrow> int \<Rightarrow> nat \<Rightarrow> nat \<Rightarrow> nat \<Rightarrow> 't world \<Rightarrow> 't world res"
where
  "run_worker_process sigs fuel dll g malloc_ok epfd ini_idle max_fd_num idx n_inited w =
     (if length (configs (bindconf w)) \<le> idx \<or> length (configs (bindconf w)) < n_inited then Inl Segv
      else if unat (server_id (configs (bindconf w) ! idx)) \<ge> 10 ^ 9 then Inl Segv
      else
        let w1 = w\<lparr>is_parent := False,
                   closed := closed w @ map nat (close_shmq_pipe (bindconf w) n_inited True),
                   bindconf := shmq_destroy (Some idx) n_inited (bindconf w)\<rparr> in
        bindR (net_exit w1) (\<lambda>w2.
        let w3 = snd (net_init epfd True max_fd_num w2);
            e = configs (bindconf w3) ! idx in
        bindR (do_add_conn (nat (fst (pipe_handles (recvq e)))) fd_type_pipe None None w3) (\<lambda>w4.
        bindR (handle_init dll g ini_idle idx w4) (\<lambda>(r, w5).
        bindR (if r \<noteq> 0 then Inr w5 else worker_loop sigs fuel dll g malloc_ok w5) (\<lambda>w6.
        bindR (net_exit (set_conf idx (do_destroy_shmq (configs (bindconf w6) ! idx)) w6)) (\<lambda>w7.
        Inl (Exit 0)))))))"

section \<open>Steps that keep the table\<close>

lemma links_unique:
  "links h a xs b \<Longrightarrow> links h a ys b \<Longrightarrow> b \<notin> set xs \<Longrightarrow> b \<notin> set ys \<Longrightarrow> xs = ys"
proof (induction xs arbitrary: a ys)
  case Nil
  then show ?case by (cases ys) auto
next
  case (Cons x xs)
  then show ?case by (cases ys) auto
qed

lemma circ_unique: "circ h hn xs \<Longrightarrow> circ h hn ys \<Longrightarrow> xs = ys"
  using links_unique [of h hn xs hn ys] by (auto simp: circ_def)

definition same_table :: "'t world \<Rightarrow> 't world \<Rightarrow> bool" where
  "same_table w w' \<longleftrightarrow> nodes w' = nodes w \<and> maxfd w' = maxfd w \<and> ev_count w' = ev_count w \<and>
     closed w' = closed w \<and> is_parent w' = is_parent w \<and> accept_as w' = accept_as w \<and>
     length (fds w') = length (fds w) \<and>
     (\<forall>x<length (fds w). flag (fdi w' x) = flag (fdi w x) \<and> fi_type (fdi w' x) = fi_type (fdi w x) \<and>
        sockfd (fdi w' x) = sockfd (fdi w x) \<and> fi_id (fdi w' x) = fi_id (fdi w x))"

lemma same_table_refl [simp]: "same_table w w"
  by (simp add: same_table_def)

lemma same_table_trans: "same_table w1 w2 \<Longrightarrow> same_table w2 w3 \<Longrightarrow> same_table w1 w3"
  by (simp add: same_table_def)

lemma same_table_used: "same_table w w' \<Longrightarrow> used w' = used w"
  by (auto simp: same_table_def used_def)

lemma same_table_inv: "same_table w w' \<Longrightarrow> net_inv w' cl et = net_inv w cl et"
  using same_table_used [of w w']
  by (auto simp: same_table_def net_inv_def queues_ok_def table_ok_def used_def)

lemma nth_list_update_other: "x < length xs \<Longrightarrow> xs[i := y] ! x = (if x = i then y else xs ! x)"
  by (cases "x = i") auto

lemma same_table_upd_cb [simp]: "same_table w (upd_cb fd f w)"
  by (auto simp: same_table_def upd_cb_def upd_fd_def nth_list_update_other)

lemma same_table_touch [simp]: "same_table w (touch fd w)"
  by (auto simp: same_table_def touch_def upd_fd_def nth_list_update_other)

lemma same_table_fields [simp]:
  "same_table w (w\<lparr>bindconf := b\<rparr>)" "same_table w (w\<lparr>overlap := ov\<rparr>)" "same_table w (w\<lparr>recv_as := ra\<rparr>)"
  "same_table w (w\<lparr>send_as := sa, tx := t\<rparr>)" "same_table w (w\<lparr>recv_as := ra, rx := rxs\<rparr>)" "same_table w (w\<lparr>rx := rxs\<rparr>)"
  by (simp_all add: same_table_def)

text \<open>Process state besides the table, its entries and the shared queues.\<close>

definition env :: "'t world \<Rightarrow> u32 \<times> (nat \<Rightarrow> shm_queue \<Rightarrow> shm_queue) \<times> bool \<times> int list \<times> accept_ans list \<times> nat \<times> nat" where
  "env w = (page_size w, peer w, is_parent w, child_pids w, accept_as w, length (fds w), cur_bc w)"

lemma env_eqD:
  assumes "env w' = env w"
  shows "page_size w' = page_size w" "peer w' = peer w" "is_parent w' = is_parent w" "child_pids w' = child_pids w"
    "accept_as w' = accept_as w" "length (fds w') = length (fds w)" "cur_bc w' = cur_bc w"
  using assms by (simp_all add: env_def)

text \<open>Steps on the buffers of one connection, and the halves of a buffer they may change.\<close>

definition only_cb :: "nat \<Rightarrow> 't world \<Rightarrow> 't world \<Rightarrow> bool" where
  "only_cb fd w w' \<longleftrightarrow> same_table w w' \<and> env w' = env w \<and>
     (\<forall>x<length (fds w). bc_elem (fdi w' x) = bc_elem (fdi w x) \<and> (x \<noteq> fd \<longrightarrow> cb (fdi w' x) = cb (fdi w x)))"

lemma only_cb_trans: "only_cb fd w1 w2 \<Longrightarrow> only_cb fd w2 w3 \<Longrightarrow> only_cb fd w1 w3"
  using same_table_trans by (auto simp: only_cb_def same_table_def)

lemma only_cb_simps [simp]:
  "only_cb fd w w" "only_cb fd w (upd_cb fd f w)" "only_cb fd w (touch fd w)"
  "only_cb fd w (w\<lparr>send_as := sa, tx := t\<rparr>)" "only_cb fd w (w\<lparr>recv_as := ra\<rparr>)" "only_cb fd w (w\<lparr>bindconf := bc\<rparr>)"
  "only_cb fd w (w\<lparr>recv_as := ra, rx := rxs\<rparr>)" "only_cb fd w (w\<lparr>overlap := ov\<rparr>)" "only_cb fd w (w\<lparr>read_as := rd\<rparr>)"
  "only_cb fd w (snd (mod_events fd o' w))"
  by (auto simp: only_cb_def same_table_def upd_cb_def touch_def upd_fd_def env_def mod_events_def
      nth_list_update_other split: option.splits)

lemma only_cb_used: "only_cb fd w w' \<Longrightarrow> used w' = used w"
  by (auto simp: only_cb_def same_table_used)

definition recv_half :: "conn_buf \<Rightarrow> u32 \<times> u32 \<times> byte list option" where
  "recv_half c = (rcvprotlen c, recvlen c, recvptr c)"

definition send_half :: "conn_buf \<Rightarrow> u32 \<times> u32 \<times> byte list option" where
  "send_half c = (sendlen c, sndbufsz c, sendptr c)"

definition send_step :: "nat \<Rightarrow> 't world \<Rightarrow> 't world \<Rightarrow> bool" where
  "send_step fd w w' \<longleftrightarrow> only_cb fd w w' \<and> bindconf w' = bindconf w \<and>
     recv_half (cb (fdi w' fd)) = recv_half (cb (fdi w fd))"

lemma send_step_trans: "send_step fd w1 w2 \<Longrightarrow> send_step fd w2 w3 \<Longrightarrow> send_step fd w1 w3"
  using only_cb_trans by (auto simp: send_step_def)

definition recv_only :: "nat \<Rightarrow> 't world \<Rightarrow> 't world \<Rightarrow> bool" where
  "recv_only fd w w' \<longleftrightarrow> only_cb fd w w' \<and> bindconf w' = bindconf w \<and>
     send_half (cb (fdi w' fd)) = send_half (cb (fdi w fd))"

lemma recv_only_trans: "recv_only fd w1 w2 \<Longrightarrow> recv_only fd w2 w3 \<Longrightarrow> recv_only fd w1 w3"
  using only_cb_trans by (auto simp: recv_only_def)

lemma recv_only_simps [simp]:
  "recv_only fd w (w\<lparr>recv_as := ra\<rparr>)" "recv_only fd w (w\<lparr>recv_as := ra, rx := rxs\<rparr>)" "recv_only fd w w"
  "fd < length (fds w) \<Longrightarrow> recv_only fd w (touch fd w)"
  "fd < length (fds w) \<Longrightarrow> send_half (f (cb (fdi w fd))) = send_half (cb (fdi w fd)) \<Longrightarrow> recv_only fd w (upd_cb fd f w)"
  by (simp_all add: recv_only_def)

lemma recv_only_table: "recv_only fd w w' \<Longrightarrow> same_table w w'"
  by (simp add: recv_only_def only_cb_def)

lemma do_write_conn_step:
  assumes "do_write_conn fd w = Inr (r, w')"
  shows "send_step fd w w' \<and> (r = -1 \<longrightarrow> fds w' = fds w)"
proof -
  obtain buf where buf: "sendptr (cb (fdi w fd)) = Some buf" "\<not> length buf < unat (sendlen (cb (fdi w fd)))" "fd < length (fds w)"
    using assms unfolding do_write_conn_def Let_def fd_ok_def by (cases "sendptr (cb (fdi w fd))") (auto split: if_splits)
  obtain r1 k as where s: "safe_tcp_send_n (sint (sendlen (cb (fdi w fd)))) (send_as w) = Inr (r1, k, as)"
    using assms buf unfolding do_write_conn_def Let_def fd_ok_def
    by (cases "safe_tcp_send_n (sint (sendlen (cb (fdi w fd)))) (send_as w)") auto
  let ?w1 = "w\<lparr>send_as := as, tx := (tx w)(fd := tx w fd @ take k buf)\<rparr>"
  have 1: "send_step fd w ?w1" by (simp add: send_step_def)
  consider "r1 = 0" | "r1 > 0" | "r1 < 0" by linarith
  then show ?thesis
  proof cases
    case 2
    then obtain b n where w': "w' = touch fd (upd_cb fd (\<lambda>c. c\<lparr>sendptr := b, sendlen := n\<rparr>) ?w1)" "r = r1"
      using assms buf s unfolding do_write_conn_def Let_def fd_ok_def by (simp, blast)
    let ?w2 = "upd_cb fd (\<lambda>c. c\<lparr>sendptr := b, sendlen := n\<rparr>) ?w1"
    have "send_step fd ?w1 ?w2" using buf(3) by (simp add: send_step_def recv_half_def)
    moreover have "send_step fd ?w2 (touch fd ?w2)" using buf(3) by (simp add: send_step_def)
    ultimately have "send_step fd w w'" unfolding w'(1) using send_step_trans [OF 1] send_step_trans by blast
    then show ?thesis using w'(2) 2 by simp
  qed (use assms buf s 1 in \<open>auto simp: do_write_conn_def Let_def fd_ok_def\<close>)
qed


lemma do_write_conn_table: "do_write_conn fd w = Inr (r, w') \<Longrightarrow> same_table w w'"
  using do_write_conn_step by (fastforce simp: send_step_def only_cb_def)

lemma del_from_close_queue_reflagged: "del_from_close_queue fd w = Inr w' \<Longrightarrow> reflagged fd w w'"
  by (auto simp: del_from_close_queue_def reflagged_def set_flag_def upd_fd_def split: if_splits)

lemma reflagged_process: "reflagged fd w w' \<Longrightarrow> is_parent w' = is_parent w \<and> accept_as w' = accept_as w"
  by (auto simp: reflagged_def set_flag_def upd_fd_def)

lemma release_fd_process [simp]: "is_parent (release_fd fd w) = is_parent w" "accept_as (release_fd fd w) = accept_as w"
  by (simp_all add: release_fd_def Let_def upd_fd_def)

lemma notify_close_process:
  "notify_close dll fd mode w = Inr w' \<Longrightarrow> mode \<noteq> 0 \<Longrightarrow> is_parent w' = is_parent w \<and> accept_as w' = accept_as w"
  by (auto simp: notify_close_def dest!: push_recvq_bindconf split: if_splits)

lemma do_del_conn_is_parent:
  assumes "do_del_conn dll fd mode w = Inr w'" "mode \<noteq> 0"
  shows "is_parent w' = is_parent w \<and> accept_as w' = accept_as w"
proof (cases "fi_type (fdi w fd) = fd_type_unused")
  case True
  then show ?thesis using assms by (auto simp: do_del_conn_def split: if_splits)
next
  case False
  obtain w1 w2 w3 where "notify_close dll fd mode w = Inr w1" "del_from_etin_queue fd w1 = Inr w2"
    "del_from_close_queue fd w2 = Inr w3" "w' = release_fd fd w3"
    using assms(1) False by (auto simp: do_del_conn_def split: if_splits)
  then show ?thesis
    using notify_close_process [OF _ assms(2)] reflagged_process del_from_etin_queue_reflagged del_from_close_queue_reflagged
    by (metis release_fd_process)
qed

section \<open>Closing\<close>

lemma net_inv_flagged_used: "net_inv w cl et \<Longrightarrow> fd \<in> set cl \<union> set et \<Longrightarrow> fd \<in> used w \<and> sockfd (fdi w fd) = fd"
  by (auto simp: net_inv_def queues_ok_def table_ok_def)

lemma close_body_step:
  assumes inv: "net_inv w cl et" and n: "n \<in> set cl" and m: "is_parent w \<or> quiet_hook dll"
    and r: "close_body dll (FdNode n) w = Inr w'"
  shows "net_inv w' (remove1 n cl) et \<and> used w' = used w - {n} \<and> closed w' = closed w @ [n] \<and>
    (is_parent w' \<or> quiet_hook dll)"
proof -
  have u: "n \<in> used w" "sockfd (fdi w n) = n" using net_inv_flagged_used [OF inv] n by auto
  have l: "n < length (fds w)" using u by (simp add: used_def)
  obtain w1 where w1: "same_table w w1" "do_del_conn dll n (if is_parent w1 then 2 else 0) w1 = Inr w'"
  proof (cases "sendlen (cb (fdi w n)) > 0")
    case True
    then obtain r1 w1 where "do_write_conn n w = Inr (r1, w1)"
        "do_del_conn dll n (if is_parent w1 then 2 else 0) w1 = Inr w'"
      using r u l by (auto simp: close_body_def fd_ok_def Let_def)
    then show thesis using that do_write_conn_table by blast
  next
    case False
    then show thesis using that [of w] r u l by (simp add: close_body_def fd_ok_def Let_def)
  qed
  have inv1: "net_inv w1 cl et" "used w1 = used w" "length (fds w1) = length (fds w)" "closed w1 = closed w"
    "is_parent w1 = is_parent w"
    using same_table_inv [OF w1(1)] same_table_used [OF w1(1)] inv w1(1) by (auto simp: same_table_def)
  have mode: "(if is_parent w1 then 2 else 0 :: nat) \<noteq> 0 \<or> quiet_hook dll" using m inv1 by auto
  have "n \<notin> set et" using n inv queues_ok_disjoint(1) [of w cl et] by (auto simp: net_inv_def)
  then have e: "remove1 n et = et" by (simp add: remove1_idem)
  have "is_parent w' \<or> quiet_hook dll"
    using do_del_conn_is_parent [OF w1(2)] m inv1 by auto
  then show ?thesis
    using do_del_conn_spec [OF inv1(1) _ mode w1(2)] inv1 l u e by simp
qed

interpretation close_loop: safe_loop nodes "close_body dll" CloseHead
  "\<lambda>w. (\<exists>cl et. net_inv w cl et) \<and> (is_parent w \<or> quiet_hook dll)" for dll
proof unfold_locales
  fix w :: "'a world" and pre p post w'
  assume I: "(\<exists>cl et. net_inv w cl et) \<and> (is_parent w \<or> quiet_hook dll)"
    and c: "circ (nodes w) CloseHead (pre @ p # post)" and b: "close_body dll p w = Inr w'"
  then obtain cl et where inv: "net_inv w cl et" by blast
  then have "circ (nodes w) CloseHead (map FdNode cl)" by (simp add: net_inv_def queues_ok_def)
  from circ_unique [OF this c] have eq: "map FdNode cl = pre @ p # post" .
  then obtain as n bs where cl: "cl = as @ n # bs" "p = FdNode n" "post = map FdNode bs"
    by (auto simp: map_eq_append_conv map_eq_Cons_conv)
  have "distinct cl" using inv queues_ok_disjoint by (auto simp: net_inv_def)
  then have rm: "remove1 n cl = as @ bs" using cl by (simp add: remove1_append)
  have s: "net_inv w' (as @ bs) et" "is_parent w' \<or> quiet_hook dll"
    using close_body_step [OF inv, of n dll w'] I b cl rm by auto
  then have "circ (nodes w') CloseHead (map FdNode as @ post)"
    using cl by (simp add: net_inv_def queues_ok_def)
  with s show "((\<exists>cl et. net_inv w' cl et) \<and> (is_parent w' \<or> quiet_hook dll)) \<and>
      (\<exists>pre'. circ (nodes w') CloseHead (pre' @ post))" by blast
qed

lemma close_fold:
  "net_inv w cl et \<Longrightarrow> is_parent w \<or> quiet_hook dll \<Longrightarrow> foldR (close_body dll) (map FdNode cl) w = Inr w' \<Longrightarrow>
   net_inv w' [] et \<and> used w' = used w - set cl \<and> closed w' = closed w @ cl"
proof (induction cl arbitrary: w)
  case Nil
  then show ?case by simp
next
  case (Cons n cl)
  obtain w1 where w1: "close_body dll (FdNode n) w = Inr w1" "foldR (close_body dll) (map FdNode cl) w1 = Inr w'"
    using Cons.prems(3) by auto
  have "net_inv w1 cl et \<and> used w1 = used w - {n} \<and> closed w1 = closed w @ [n] \<and> (is_parent w1 \<or> quiet_hook dll)"
    using close_body_step [OF Cons.prems(1) _ Cons.prems(2) w1(1)] by simp
  then show ?case using Cons.IH [of w1] w1(2) by auto
qed

lemma iterate_close_queue_fold:
  assumes "net_inv w cl et" "is_parent w \<or> quiet_hook dll"
  shows "iterate_close_queue dll w = foldR (close_body dll) (map FdNode cl) w"
proof -
  have q: "queues_ok w cl et" using assms by (simp add: net_inv_def)
  have "set cl \<subseteq> {..<length (fds w)}" using q by (auto simp: queues_ok_def)
  then have "card (set cl) \<le> length (fds w)" using card_mono [of "{..<length (fds w)}" "set cl"] by simp
  then have "length (map FdNode cl) < length (fds w) + 1"
    using queues_ok_disjoint(2) [OF q] by (simp add: distinct_card)
  moreover have "circ (nodes w) CloseHead (map FdNode cl)" using q by (simp add: queues_ok_def)
  ultimately show ?thesis
    unfolding iterate_close_queue_def using assms by (intro close_loop.loop_is_fold) auto
qed

section \<open>Polling again, in the parent\<close>

text \<open>The descriptors \<open>accept\<close> will return fit the table, which has an entry for every descriptor.\<close>

fun acc_fds :: "accept_ans list \<Rightarrow> int list" where
  "acc_fds [] = []"
| "acc_fds (AccOk n pr # as) = n # acc_fds as"
| "acc_fds (AccErr e # as) = acc_fds as"

definition accepts_fit :: "'t world \<Rightarrow> bool" where
  "accepts_fit w \<longleftrightarrow> (\<forall>n\<in>set (acc_fds (accept_as w)). 0 \<le> n \<and> nat n < length (fds w))"

lemma safe_tcp_accept_fds:
  "safe_tcp_accept nb fe as = Inr (r, cl, as') \<Longrightarrow>
   (case r of Accepted n pr \<Rightarrow> acc_fds as = n # acc_fds as'
    | NotAccepted e \<Rightarrow> acc_fds as = acc_fds as' \<or> (\<exists>n. acc_fds as = n # acc_fds as'))"
  by (induction nb fe as rule: safe_tcp_accept.induct) (auto split: if_splits bool.splits option.splits accept_ret.splits)

lemma accepts_fit_mono:
  assumes "accepts_fit w" "set (acc_fds (accept_as w')) \<subseteq> set (acc_fds (accept_as w))"
    "length (fds w') = length (fds w)"
  shows "accepts_fit w'"
  using assms by (auto simp: accepts_fit_def)

lemma net_inv_accepting [simp]:
  "net_inv (w\<lparr>accept_as := a, closed := c\<rparr>) cl et = net_inv w cl et"
  "used (w\<lparr>accept_as := a, closed := c\<rparr>) = used w"
  by (auto simp: net_inv_def queues_ok_def table_ok_def used_def)

lemma do_add_conn_ok:
  "do_add_conn fd ty pr bc w = Inr w' \<Longrightarrow> fd < length (fds w) \<and> w' = added fd ty pr bc w"
  using do_add_conn_eq [of w fd ty pr bc]
  by (auto simp: do_add_conn_def add_events_def fd_ok_def split: if_splits)

lemma added_accept_as [simp]: "accept_as (added fd ty pr bc w) = accept_as w"
  by (simp add: added_def)

lemma open_new_conn:
  assumes inv: "net_inv w cl et" and n: "n < length (fds w)" "n \<notin> used w"
    and r: "bindR (do_add_conn n fd_type_remote (Some pr) bc w) (\<lambda>w1.
            let w2 = touch n w1; i = fdi w2 n in
            if isconn then
              bindR (push_recvq (bc_elem i)
                \<lparr>mb_id = fi_id i, mb_fd = of_nat n, mb_length = 23, mb_type = OPEN_BLOCK\<rparr>
                (enc_remote (sk i)) w2) (\<lambda>(p, w3).
                if p = -1 then bindR (do_del_conn dll n 2 w3) (\<lambda>w4. Inr (newfd :: int, w4))
                else Inr (newfd, w3))
            else Inr (newfd, w2)) = Inr (c, w')"
  shows "net_inv w' cl et \<and> used w \<subseteq> used w' \<and> used w' \<subseteq> insert n (used w) \<and>
    length (fds w') = length (fds w) \<and> accept_as w' = accept_as w \<and> c = newfd"
proof -
  define w2 where "w2 = touch n (added n fd_type_remote (Some pr) bc w)"
  have inv2: "net_inv w2 cl et" "used w2 = insert n (used w)" "length (fds w2) = length (fds w)" "accept_as w2 = accept_as w"
    using added_inv [OF inv n, of fd_type_remote "Some pr" bc] used_added [OF n(1), of fd_type_remote "Some pr" bc]
      same_table_inv [OF same_table_touch [of "added n fd_type_remote (Some pr) bc w" n], of cl et]
      same_table_used [OF same_table_touch [of "added n fd_type_remote (Some pr) bc w" n]]
      same_table_touch [of "added n fd_type_remote (Some pr) bc w" n]
    by (auto simp: w2_def same_table_def)
  obtain w1 where a: "do_add_conn n fd_type_remote (Some pr) bc w = Inr w1" using r by auto
  have w1: "touch n w1 = w2" using do_add_conn_ok [OF a] by (simp add: w2_def)
  show ?thesis
  proof (cases isconn)
    case False
    then show ?thesis using r a w1 inv2 by (auto simp: Let_def)
  next
    case True
    then obtain p w3 mb d bc' where p: "push_recvq bc' mb d w2 = Inr (p, w3)"
      and rest: "(if p = -1 then bindR (do_del_conn dll n 2 w3) (\<lambda>w4. Inr (newfd, w4)) else Inr (newfd, w3)) = Inr (c, w')"
      using r a w1 by (auto simp: Let_def)
    obtain b where w3: "w3 = w2\<lparr>bindconf := b\<rparr>" using push_recvq_bindconf [OF p] by blast
    have inv3: "net_inv w3 cl et" "used w3 = insert n (used w)" "length (fds w3) = length (fds w)" "accept_as w3 = accept_as w"
      using inv2 same_table_inv [OF same_table_fields(1) [of w2 b]] same_table_used [OF same_table_fields(1) [of w2 b]]
      by (auto simp: w3)
    show ?thesis
    proof (cases "p = -1")
      case False
      then show ?thesis using rest inv3 by auto
    next
      case True
      then have d: "do_del_conn dll n 2 w3 = Inr w'" "c = newfd" using rest by auto
      have l3: "n < length (fds w3)" using inv3 n by simp
      have nq: "n \<notin> set cl" "n \<notin> set et" using net_inv_notin_used [OF inv n(2,1)] by auto
      have "net_inv w' cl et \<and> used w' = used w3 - {n}"
        using do_del_conn_spec [OF inv3(1) l3 _ d(1)] nq by (simp add: remove1_idem)
      moreover have "length (fds w') = length (fds w3)" using do_del_conn_length [OF inv3(1) l3 _ d(1)] by simp
      moreover have "accept_as w' = accept_as w3" using do_del_conn_is_parent [OF d(1)] by simp
      ultimately show ?thesis using inv3 d n by auto
    qed
  qed
qed


text \<open>One \<open>accept\<close> on a descriptor that waits in the poll-again queue.\<close>

lemma do_open_conn_step:
  assumes inv: "net_inv w cl et" and fr: "accepts_fit w" and n: "n \<in> set et"
    and r: "do_open_conn dll n isconn w = Inr (c, w')"
  shows "accepts_fit w' \<and> length (fds w') = length (fds w) \<and>
    (net_inv w' cl et \<or> c = -1 \<and> net_inv w' cl (remove1 n et))"
proof -
  have q: "queues_ok w cl et" using inv by (simp add: net_inv_def)
  have u: "n \<in> used w" and l: "n < length (fds w)" using net_inv_flagged_used [OF inv] n by (auto simp: used_def)
  obtain a cs as where acc: "safe_tcp_accept True (fcntl_err w) (accept_as w) = Inr (a, cs, as)"
    using r l by (auto simp: do_open_conn_def fd_ok_def)
  define w0 where "w0 = w\<lparr>accept_as := as, closed := closed w @ map nat cs\<rparr>"
  have inv0: "net_inv w0 cl et" "used w0 = used w" "fds w0 = fds w" "accept_as w0 = as"
    using inv by (simp_all add: w0_def)
  note af = safe_tcp_accept_fds [OF acc]
  have sub: "set (acc_fds as) \<subseteq> set (acc_fds (accept_as w))"
    using af by (auto split: accept_ret.splits)
  have fresh: "accepts_fit v" if "accept_as v = as" "length (fds v) = length (fds w)" for v
    using accepts_fit_mono [OF fr, of v] sub that by simp
  show ?thesis
  proof (cases a)
    case (Accepted newfd pr)
    then have nf: "acc_fds (accept_as w) = newfd # acc_fds as" using af by simp
    then have l2: "0 \<le> newfd" "nat newfd < length (fds w)" using fr by (auto simp: accepts_fit_def)
    have nn: "nat newfd < length (fds w)" "nat newfd \<notin> used w"
      using r l acc Accepted l2 by (auto simp: do_open_conn_def fd_ok_def Let_def used_def split: if_splits)
    have o: "net_inv w' cl et \<and> used w0 \<subseteq> used w' \<and> used w' \<subseteq> insert (nat newfd) (used w0) \<and>
        length (fds w') = length (fds w0) \<and> accept_as w' = accept_as w0 \<and> c = newfd"
      using r l acc Accepted nn inv0 l2
      by (intro open_new_conn [OF inv0(1), of "nat newfd" pr "bc_elem (fdi w0 n)" isconn dll])
        (auto simp: do_open_conn_def fd_ok_def Let_def w0_def split: if_splits)
    then show ?thesis using o inv0 fresh [of w'] by auto
  next
    case (NotAccepted e)
    have qq: "queues_ok w0 cl et" "n < length (fds w0)" "n \<in> used w0" "table_ok w0" using inv0 l u by (auto simp: net_inv_def)
    have ok: "accepts_fit v" if "reflagged n w0 v" for v
      using that reflagged_process [OF that] inv0
      by (intro fresh) (auto simp: reflagged_def)
    have c: "c = -1" using r l acc NotAccepted by (auto simp: do_open_conn_def fd_ok_def Let_def split: if_splits)
    consider "add_to_etin_queue n w0 = Inr w'" | "del_from_etin_queue n w0 = Inr w'" | "w' = w0"
      using r l acc NotAccepted by (auto simp: do_open_conn_def fd_ok_def Let_def w0_def split: if_splits)
    then show ?thesis
    proof cases
      case 1
      then have "reflagged n w0 w'" "queues_ok w' cl et"
        using add_to_etin_queue_spec [OF qq(1,2)] n by auto
      then show ?thesis
        using ok reflagged_table_ok [OF _ qq(2,3,4)] inv0 by (auto simp: net_inv_def reflagged_def)
    next
      case 2
      then have f: "unflagged n w0 w'" "queues_ok w' cl (remove1 n et)"
        using del_from_etin_queue_spec [OF qq(1,2)] by auto
      then have "net_inv w' cl (remove1 n et)" "length (fds w') = length (fds w0)"
        using unflagged_table_ok [OF f(1) qq(2,4)] unflagged_used [OF f(1) qq(2)] by (auto simp: net_inv_def)
      then show ?thesis using ok [OF del_from_etin_queue_reflagged [OF 2]] c inv0 by simp
    next
      case 3
      then show ?thesis using inv0 ok [of w0] by (simp add: reflagged_def)
    qed
  qed
qed

lemma accept_loop_step:
  assumes "net_inv w cl et" "accepts_fit w" "n \<in> set et" "accept_loop fuel dll n isconn w = Inr w'"
  shows "accepts_fit w' \<and> (net_inv w' cl et \<or> net_inv w' cl (remove1 n et))"
  using assms
proof (induction fuel arbitrary: w)
  case (Suc fuel)
  obtain c w1 where o: "do_open_conn dll n isconn w = Inr (c, w1)"
    and rest: "(if c > 0 then accept_loop fuel dll n isconn w1 else Inr w1) = Inr w'"
    using Suc.prems(4) by auto
  note s = do_open_conn_step [OF Suc.prems(1-3) o]
  show ?case
  proof (cases "c > 0")
    case True
    then show ?thesis using s rest Suc.IH [of w1] Suc.prems(3) by auto
  next
    case False
    then show ?thesis using s rest by auto
  qed
qed simp


lemma hand_over_table: "hand_over dll fd True pkg w = Inr (r, w') \<Longrightarrow> same_table w w'"
  by (auto simp: hand_over_def dest!: push_recvq_bindconf)

lemma learn_pkg_len_table: "learn_pkg_len dll fd b pos w = Inr w' \<Longrightarrow> same_table w w'"
  by (auto simp: learn_pkg_len_def split: if_splits)

lemma compact_table: "compact fd pos w = Inr w' \<Longrightarrow> same_table w w'"
  by (auto simp: compact_def Let_def intro: same_table_trans [OF same_table_upd_cb same_table_fields(2)]
      split: if_splits option.splits)

lemma parse_loop_table:
  "parse_loop fuel dll fd max_len True pos cnt w = Inr (r, p, w') \<Longrightarrow> same_table w w'"
proof (induction fuel arbitrary: pos cnt w)
  case (Suc fuel)
  obtain w1 where w1: "learn_pkg_len dll fd True pos w = Inr w1" using Suc.prems by auto
  let ?n = "rcvprotlen (cb (fdi w1 fd))" and ?len = "recvlen (cb (fdi w1 fd))"
  have t1: "same_table w w1" using learn_pkg_len_table [OF w1] .
  show ?case
  proof (cases "?n > max_len \<or> ?n = 0 \<or> ?len < ?n")
    case True
    then show ?thesis using Suc.prems w1 t1 by (auto simp: Let_def not_less split: if_splits)
  next
    case False
    then have n: "\<not> max_len < ?n" "?n \<noteq> 0" "?n \<le> ?len" by auto
    obtain pkg where pk: "recv_bytes fd pos (unat ?n) w1 = Inr pkg"
      using Suc.prems w1 n by (auto simp: Let_def)
    obtain c w2 where h: "hand_over dll fd True pkg w1 = Inr (c, w2)"
      using Suc.prems w1 pk n by (auto simp: Let_def)
    have rest: "(if c \<noteq> 0 then Inr (-1, None, w2) else
         let n2 = rcvprotlen (cb (fdi w2 fd)); len2 = recvlen (cb (fdi w2 fd));
             pos2 = (if len2 > n2 then pos + unat n2 else pos);
             w3 = upd_cb fd (\<lambda>c. c\<lparr>recvlen := len2 - n2, rcvprotlen := 0\<rparr>) w2 in
         if len2 - n2 > 0 then parse_loop fuel dll fd max_len True pos2 (cnt + 1) w3
         else Inr (cnt + 1, Some pos2, w3)) = Inr (r, p, w')"
      using Suc.prems w1 pk h n by (cases "c = 0") (simp_all add: Let_def)
    have t2: "same_table w w2" using same_table_trans [OF t1 hand_over_table [OF h]] .
    let ?w3 = "upd_cb fd (\<lambda>c. c\<lparr>recvlen := recvlen (cb (fdi w2 fd)) - rcvprotlen (cb (fdi w2 fd)), rcvprotlen := 0\<rparr>) w2"
    have t3: "same_table w ?w3" using same_table_trans [OF t2 same_table_upd_cb] .
    show ?thesis
      using rest t2 t3 Suc.IH [of _ _ ?w3] same_table_trans [OF t3]
      by (auto simp: Let_def split: if_splits)
  qed
qed simp

lemma map_recvbuf_only: "map_recvbuf fd w = Inr w' \<Longrightarrow> fd < length (fds w) \<Longrightarrow> recv_only fd w w'"
  by (auto simp: map_recvbuf_def send_half_def split: option.splits if_splits)

lemma recv_only_read:
  assumes "fd < length (fds w)" "\<And>c. send_half (f c) = send_half c"
  shows "recv_only fd w (touch fd (upd_cb fd f (w\<lparr>recv_as := ra, rx := rxs\<rparr>)))"
proof -
  let ?w = "w\<lparr>recv_as := ra, rx := rxs\<rparr>"
  have "recv_only fd ?w (upd_cb fd f ?w)" "recv_only fd (upd_cb fd f ?w) (touch fd (upd_cb fd f ?w))"
    using assms by simp_all
  then show ?thesis using recv_only_simps(2) recv_only_trans by blast
qed

lemma do_read_conn_steps:
  assumes "do_read_conn fd max_len w = Inr (r, w')"
  obtains w3 where "recv_only fd w w3" "fd < length (fds w)"
    "w' = w3 \<or> add_to_etin_queue fd w3 = Inr w' \<or> del_from_etin_queue fd w3 = Inr w'"
proof -
  obtain w1 where w1: "map_recvbuf fd w = Inr w1" and l: "fd < length (fds w)"
    using assms by (auto simp: do_read_conn_def fd_ok_def split: if_splits)
  note t1 = map_recvbuf_only [OF w1 l]
  have l1: "fd < length (fds w1)" using t1 l by (simp add: recv_only_def only_cb_def same_table_def)
  show thesis
  proof (cases "page_size w1 = recvlen (cb (fdi w1 fd))")
    case True
    then show ?thesis using that [OF t1 l] assms w1 by (auto simp: do_read_conn_def Let_def split: if_splits)
  next
    case False
    obtain a as where a: "safe_tcp_recv (sint (max_len - recvlen (cb (fdi w1 fd)))) (recv_as w1) = Inr (a, as)"
      using assms w1 False by (auto simp: do_read_conn_def Let_def split: if_splits)
    let ?w2 = "w1\<lparr>recv_as := as\<rparr>"
    have t2: "recv_only fd w ?w2" using recv_only_trans [OF t1 recv_only_simps(1)] .
    show ?thesis
    proof (cases "a = Closed")
      case True
      then show ?thesis
        using that [OF t2 l] assms w1 False a by (auto simp: do_read_conn_def Let_def split: if_splits)
    next
      case nc: False
      define bs where "bs = (case a of Bytes bs \<Rightarrow> bs | _ \<Rightarrow> [])"
      define W3 where "W3 b = (if bs = [] then ?w2
          else touch fd (upd_cb fd (\<lambda>c. c\<lparr>recvptr := Some b, recvlen := recvlen (cb (fdi w1 fd)) + of_nat (length bs)\<rparr>)
                 (w1\<lparr>recv_as := as, rx := (rx ?w2)(fd := rx ?w2 fd @ bs)\<rparr>)))" for b
      obtain b where w3: "add_to_etin_queue fd (W3 b) = Inr w' \<or> del_from_etin_queue fd (W3 b) = Inr w'"
        using assms w1 False a nc unfolding W3_def bs_def do_read_conn_def Let_def
        by (cases a; cases "recvptr (cb (fdi w1 fd))") (auto split: if_split_asm)
      have "recv_only fd w (W3 b)"
        using t2 recv_only_trans [OF t1 recv_only_read [OF l1]] by (simp add: W3_def send_half_def)
      from that [OF this l] w3 show ?thesis by blast
    qed
  qed
qed


lemma etin_ops_step:
  assumes inv: "net_inv w cl et" and n: "n \<in> set et"
    and r: "w' = w \<or> add_to_etin_queue n w = Inr w' \<or> del_from_etin_queue n w = Inr w'"
  shows "(net_inv w' cl et \<or> net_inv w' cl (remove1 n et)) \<and> used w' = used w \<and> accept_as w' = accept_as w \<and>
    length (fds w') = length (fds w)"
proof -
  have q: "queues_ok w cl et" "table_ok w" using inv by (auto simp: net_inv_def)
  have u: "n \<in> used w" and l: "n < length (fds w)" using net_inv_flagged_used [OF inv] n by (auto simp: used_def)
  from r consider "w' = w" | "add_to_etin_queue n w = Inr w'" | "del_from_etin_queue n w = Inr w'" by blast
  then show ?thesis
  proof cases
    case 2
    then have f: "reflagged n w w'" "queues_ok w' cl et" using add_to_etin_queue_spec [OF q(1) l] n by auto
    have "used w' = used w \<and> length (fds w') = length (fds w)" using f(1) l by (auto simp: reflagged_def)
    then show ?thesis
      using f reflagged_table_ok [OF f(1) l u q(2)] reflagged_process [OF f(1)] by (simp add: net_inv_def)
  next
    case 3
    then have f: "unflagged n w w'" "queues_ok w' cl (remove1 n et)" using del_from_etin_queue_spec [OF q(1) l] by auto
    then show ?thesis
      using unflagged_table_ok [OF f(1) l q(2)] unflagged_used [OF f(1) l]
        reflagged_process [OF del_from_etin_queue_reflagged [OF 3]] by (simp add: net_inv_def)
  qed (use inv in simp)
qed

lemma net_recv_table:
  assumes inv: "net_inv w cl et" and n: "n \<in> set et" and r: "net_recv dll n max_len True w = Inr (r, w')"
  shows "(net_inv w' cl et \<or> net_inv w' cl (remove1 n et)) \<and> used w' = used w \<and> accept_as w' = accept_as w \<and>
    length (fds w') = length (fds w)"
proof (cases "fi_type (fdi w n) = fd_type_pipe")
  case True
  then have "same_table w w'"
    using r by (auto simp: net_recv_def Let_def same_table_def upd_cb_def upd_fd_def nth_list_update_other
        split: if_splits list.splits option.splits)
  then show ?thesis
    using inv same_table_inv [of w w'] same_table_used [of w w'] by (auto simp: same_table_def)
next
  case False
  obtain c w1 where rd: "do_read_conn n max_len w = Inr (c, w1)"
    and rest: "(if c = -1 then Inr (-1, w1)
        else bindR (parse_loop (unat (recvlen (cb (fdi w1 n))) + 1) dll n max_len True 0 0 w1) (\<lambda>(cnt, pos, w2).
          case pos of None \<Rightarrow> Inr (cnt, w2)
          | Some p \<Rightarrow> bindR (compact n p w2) (\<lambda>w3. Inr (cnt, w3)))) = Inr (r, w')"
    using r False by (auto simp: net_recv_def split: if_splits simp del: parse_loop.simps)
  obtain w0 where w0: "same_table w w0" "w1 = w0 \<or> add_to_etin_queue n w0 = Inr w1 \<or> del_from_etin_queue n w0 = Inr w1"
    using do_read_conn_steps [OF rd] recv_only_table by metis
  have inv0: "net_inv w0 cl et" "used w0 = used w" "accept_as w0 = accept_as w" "length (fds w0) = length (fds w)"
    using inv w0(1) same_table_inv [OF w0(1)] same_table_used [OF w0(1)] by (auto simp: same_table_def)
  note s1 = etin_ops_step [OF inv0(1) n w0(2)]
  have "same_table w1 w'"
  proof (cases "c = -1")
    case True
    then show ?thesis using rest by simp
  next
    case False
    then obtain cnt pos w2 where pl: "parse_loop (unat (recvlen (cb (fdi w1 n))) + 1) dll n max_len True 0 0 w1 = Inr (cnt, pos, w2)"
      and fin: "(case pos of None \<Rightarrow> Inr (cnt, w2) | Some p \<Rightarrow> bindR (compact n p w2) (\<lambda>w3. Inr (cnt, w3))) = Inr (r, w')"
      using rest by (auto simp del: parse_loop.simps)
    from parse_loop_table [OF pl] fin compact_table [of n _ w2 w'] show ?thesis
      by (auto split: option.splits intro: same_table_trans)
  qed
  then show ?thesis
    using s1 inv0 same_table_inv [of w1 w'] same_table_used [of w1 w'] by (auto simp: same_table_def)
qed

lemma recv_or_close_step:
  assumes inv: "net_inv w cl et" and fr: "accepts_fit w" and n: "n \<in> set et"
    and r: "recv_or_close dll n max_len True w = Inr w'"
  shows "accepts_fit w' \<and> (net_inv w' cl et \<or> net_inv w' cl (remove1 n et))"
proof -
  obtain c w1 where rc: "net_recv dll n max_len True w = Inr (c, w1)"
    and rest: "(if c = -1 then do_del_conn dll n 1 w1 else Inr w1) = Inr w'"
    using r unfolding recv_or_close_def del_mode_def if_True by auto
  note s = net_recv_table [OF inv n rc]
  have q: "queues_ok w cl et" using inv by (simp add: net_inv_def)
  have nc: "remove1 n cl = cl" using n queues_ok_disjoint(1) [OF q] by (intro remove1_idem) auto
  have l: "n < length (fds w1)" using s n q by (auto simp: queues_ok_def)
  have fr1: "accepts_fit w1" using s fr by (simp add: accepts_fit_def)
  show ?thesis
  proof (cases "c = -1")
    case False
    then show ?thesis using rest s fr1 by simp
  next
    case True
    then have d: "do_del_conn dll n 1 w1 = Inr w'" using rest by simp
    obtain et1 where et1: "net_inv w1 cl et1" "et1 = et \<or> et1 = remove1 n et" using s by blast
    have "remove1 n et1 = remove1 n et"
      using et1(2) queues_ok_disjoint(3) [OF q] by (auto simp: remove1_idem)
    then have "net_inv w' cl (remove1 n et)" "used w' = used w1 - {n}"
      using do_del_conn_spec [OF et1(1) l _ d] nc by auto
    moreover have "accepts_fit w'"
      using fr1 do_del_conn_is_parent [OF d] do_del_conn_length [OF et1(1) l _ d] \<open>used w' = used w1 - {n}\<close>
      by (simp add: accepts_fit_def)
    ultimately show ?thesis by blast
  qed
qed

definition etin_inv :: "'t world \<Rightarrow> bool" where
  "etin_inv w \<longleftrightarrow> (\<exists>cl et. net_inv w cl et) \<and> accepts_fit w"

interpretation etin_loop: safe_loop nodes "etin_body dll max_len True" EtinHead etin_inv for dll max_len
proof unfold_locales
  fix w :: "'a world" and pre p post w'
  assume I: "etin_inv w"
    and c: "circ (nodes w) EtinHead (pre @ p # post)" and b: "etin_body dll max_len True p w = Inr w'"
  then obtain cl et where inv: "net_inv w cl et" and fr: "accepts_fit w" by (auto simp: etin_inv_def)
  then have "circ (nodes w) EtinHead (map FdNode et)" by (simp add: net_inv_def queues_ok_def)
  from circ_unique [OF this c] obtain as n bs where et: "et = as @ n # bs" "p = FdNode n" "post = map FdNode bs"
    by (auto simp: map_eq_append_conv map_eq_Cons_conv)
  have n: "n \<in> set et" "sockfd (fdi w n) = n" using et net_inv_flagged_used [OF inv, of n] by auto
  have "distinct et" using inv queues_ok_disjoint by (auto simp: net_inv_def)
  then have rm: "remove1 n et = as @ bs" using et by (simp add: remove1_append)
  have "accept_all dll n True w = Inr w' \<or> recv_or_close dll n max_len True w = Inr w'"
    using b et n by (auto simp: etin_body_def Let_def split: if_splits)
  then have s: "accepts_fit w' \<and> (net_inv w' cl et \<or> net_inv w' cl (as @ bs))"
    using accept_loop_step [OF inv fr n(1)] recv_or_close_step [OF inv fr n(1)] unfolding accept_all_def rm by blast
  then have "circ (nodes w') EtinHead ((map FdNode as @ [FdNode n]) @ post) \<or> circ (nodes w') EtinHead (map FdNode as @ post)"
    using et by (auto simp: net_inv_def queues_ok_def)
  with s show "etin_inv w' \<and> (\<exists>pre'. circ (nodes w') EtinHead (pre' @ post))"
    unfolding etin_inv_def by blast
qed

lemma iterate_etin_queue_fold:
  assumes "net_inv w cl et" "accepts_fit w"
  shows "iterate_etin_queue dll max_len True w = foldR (etin_body dll max_len True) (map FdNode et) w"
proof -
  have q: "queues_ok w cl et" using assms by (simp add: net_inv_def)
  have "set et \<subseteq> {..<length (fds w)}" using q by (auto simp: queues_ok_def)
  then have "card (set et) \<le> length (fds w)" using card_mono [of "{..<length (fds w)}" "set et"] by simp
  then have "length (map FdNode et) < length (fds w) + 1"
    using queues_ok_disjoint(3) [OF q] by (simp add: distinct_card)
  moreover have "circ (nodes w) EtinHead (map FdNode et)" using q by (simp add: queues_ok_def)
  ultimately show ?thesis
    unfolding iterate_etin_queue_def using assms by (intro etin_loop.loop_is_fold) (auto simp: etin_inv_def)
qed

section \<open>Scans of the table\<close>

lemma reflagged_other: "reflagged fd w w' \<Longrightarrow> x \<noteq> fd \<Longrightarrow> fdi w' x = fdi w x \<and> now_sec w' = now_sec w \<and> socket_timeout w' = socket_timeout w"
  by (auto simp: reflagged_def set_flag_def upd_fd_def)

lemma release_fd_other:
  "x \<noteq> fd \<Longrightarrow> fdi (release_fd fd w) x = fdi w x" "now_sec (release_fd fd w) = now_sec w"
  "socket_timeout (release_fd fd w) = socket_timeout w"
  by (auto simp: release_fd_def Let_def upd_fd_def)

lemma notify_close_other:
  "notify_close dll fd mode w = Inr w' \<Longrightarrow> mode \<noteq> 0 \<Longrightarrow>
   fds w' = fds w \<and> now_sec w' = now_sec w \<and> socket_timeout w' = socket_timeout w"
  by (auto simp: notify_close_def dest!: push_recvq_bindconf split: if_splits)

lemma do_del_conn_other:
  assumes "do_del_conn dll fd mode w = Inr w'" "mode \<noteq> 0" "x \<noteq> fd"
  shows "fdi w' x = fdi w x \<and> now_sec w' = now_sec w \<and> socket_timeout w' = socket_timeout w"
proof (cases "fi_type (fdi w fd) = fd_type_unused")
  case True
  then show ?thesis using assms by (auto simp: do_del_conn_def split: if_splits)
next
  case False
  obtain w1 w2 w3 where w: "notify_close dll fd mode w = Inr w1" "del_from_etin_queue fd w1 = Inr w2"
    "del_from_close_queue fd w2 = Inr w3" "w' = release_fd fd w3"
    using assms(1) False by (auto simp: do_del_conn_def split: if_splits)
  from notify_close_other [OF w(1) assms(2)] reflagged_other [OF del_from_etin_queue_reflagged [OF w(2)] assms(3)]
    reflagged_other [OF del_from_close_queue_reflagged [OF w(3)] assms(3)] w(4) assms(3)
  show ?thesis by (simp add: release_fd_other)
qed

text \<open>A condition on an entry that reads nothing but the entry, the clock and the configured timeout.\<close>

definition local_cond :: "('t world \<Rightarrow> nat \<Rightarrow> bool) \<Rightarrow> bool" where
  "local_cond c \<longleftrightarrow> (\<forall>w w' x. fdi w' x = fdi w x \<and> now_sec w' = now_sec w \<and> socket_timeout w' = socket_timeout w \<longrightarrow>
     c w' x = c w x)"

lemma local_condD:
  "local_cond c \<Longrightarrow> fdi w' x = fdi w x \<and> now_sec w' = now_sec w \<and> socket_timeout w' = socket_timeout w \<Longrightarrow> c w' x = c w x"
  unfolding local_cond_def by blast

lemma scan_del:
  assumes "local_cond c" "net_inv w cl et" "length (fds w) \<le> i + fuel"
    "scan_fds fuel c (\<lambda>i. do_del_conn dll i 1) i w = Inr w'"
  shows "(\<exists>cl' et'. net_inv w' cl' et') \<and> used w' = {x \<in> used w. x < i \<or> \<not> c w x}"
  using assms(2-4)
proof (induction fuel arbitrary: i w cl et)
  case 0
  have "maxfd w < int (length (fds w))" using 0 by (simp add: net_inv_def table_ok_def)
  moreover have "\<forall>x\<in>used w. x < length (fds w)" by (simp add: used_def)
  ultimately show ?case using 0 by (auto simp: used_def split: if_splits)
next
  case (Suc fuel)
  show ?case
  proof (cases "int i \<le> maxfd w")
    case False
    then have "w' = w" using Suc.prems(3) by simp
    moreover have "\<forall>x\<in>used w. x < i" using Suc.prems(1) False by (auto simp: net_inv_def table_ok_def)
    ultimately show ?thesis using Suc.prems(1) by auto
  next
    case le: True
    then have l: "i < length (fds w)" using Suc.prems(1) by (auto simp: net_inv_def table_ok_def)
    obtain w1 where w1: "(if c w i then do_del_conn dll i 1 w else Inr w) = Inr w1"
      "scan_fds fuel c (\<lambda>i. do_del_conn dll i 1) (i + 1) w1 = Inr w'"
      using Suc.prems(3) le l by (auto simp: fd_ok_def split: if_splits)
    have s: "\<exists>cl1 et1. net_inv w1 cl1 et1" "used w1 = {x \<in> used w. x \<noteq> i \<or> \<not> c w i}"
      "length (fds w1) = length (fds w)" "\<forall>x. x \<noteq> i \<longrightarrow> c w1 x = c w x"
    proof -
      have "(\<exists>cl1 et1. net_inv w1 cl1 et1) \<and> used w1 = {x \<in> used w. x \<noteq> i \<or> \<not> c w i} \<and>
        length (fds w1) = length (fds w) \<and> (\<forall>x. x \<noteq> i \<longrightarrow> c w1 x = c w x)"
      proof (cases "c w i")
        case True
        then have d: "do_del_conn dll i 1 w = Inr w1" using w1(1) by simp
        show ?thesis
          using do_del_conn_spec [OF Suc.prems(1) l _ d] do_del_conn_length [OF Suc.prems(1) l _ d]
            local_condD [OF assms(1) do_del_conn_other [OF d]] True by auto
      next
        case False
        then show ?thesis using w1(1) Suc.prems(1) by auto
      qed
      then show "\<exists>cl1 et1. net_inv w1 cl1 et1" "used w1 = {x \<in> used w. x \<noteq> i \<or> \<not> c w i}"
        "length (fds w1) = length (fds w)" "\<forall>x. x \<noteq> i \<longrightarrow> c w1 x = c w x" by auto
    qed
    obtain cl1 et1 where "net_inv w1 cl1 et1" using s(1) by blast
    from Suc.IH [OF this _ w1(2)] Suc.prems(2) s have
      ih: "\<exists>cl' et'. net_inv w' cl' et'" "used w' = {x \<in> used w1. x < i + 1 \<or> \<not> c w1 x}" by auto
    have "used w' = {x \<in> used w. x < i \<or> \<not> c w x}"
    proof (rule set_eqI)
      fix x
      show "x \<in> used w' \<longleftrightarrow> x \<in> {x \<in> used w. x < i \<or> \<not> c w x}"
        unfolding ih(2) s(2) using s(4) by (cases "x = i") auto
    qed
    with ih(1) show ?thesis by blast
  qed
qed

lemma local_cond_idle: "local_cond idle_conn"
  by (auto simp: local_cond_def idle_conn_def)

lemma local_cond_bind: "local_cond (of_bind bc)"
  by (auto simp: local_cond_def of_bind_def)

section \<open>Delivery to the client\<close>

definition keeps :: "'t world \<Rightarrow> 't world \<Rightarrow> bool" where
  "keeps w w' \<longleftrightarrow> same_table w w' \<and> bindconf w' = bindconf w \<and> page_size w' = page_size w \<and>
     send_buf_limit_size w' = send_buf_limit_size w \<and> is_parent w' = is_parent w"

lemma keeps_refl [simp]: "keeps w w"
  by (simp add: keeps_def)

lemma keeps_trans: "keeps w1 w2 \<Longrightarrow> keeps w2 w3 \<Longrightarrow> keeps w1 w3"
  using same_table_trans by (auto simp: keeps_def)

lemma keeps_simps [simp]:
  "keeps w (upd_cb fd f w)" "keeps w (touch fd w)" "keeps w (w\<lparr>send_as := sa, tx := t\<rparr>)"
  by (auto simp: keeps_def)

lemma keeps_mod_events [simp]: "keeps w (snd (mod_events fd b w))"
  by (auto simp: keeps_def same_table_def mod_events_def split: option.splits)

lemma keeps_arm_events [simp]: "keeps w (arm_events fd p w)"
  by (auto simp: arm_events_def Let_def)


text \<open>The kernel takes bytes or would block; it reports no other error.\<close>

definition no_send_error :: "send_ans list \<Rightarrow> bool" where
  "no_send_error as \<longleftrightarrow> list_all (\<lambda>a. case a of SendOk k \<Rightarrow> True | SendErr e \<Rightarrow> e = EINTR \<or> e = EAGAIN) as"

lemma send_n_loop_no_error:
  "send_n_loop tot sent as = Inr (r, k, as') \<Longrightarrow> no_send_error as \<Longrightarrow> r \<noteq> -1 \<and> no_send_error as'"
proof (induction tot sent as rule: send_n_loop.induct)
  case (2 tot sent a as)
  then show ?case by (cases a) (auto simp: no_send_error_def split: if_splits)
qed (auto split: if_splits)

lemma safe_tcp_send_n_no_error:
  "safe_tcp_send_n tot as = Inr (r, k, as') \<Longrightarrow> no_send_error as \<Longrightarrow> r \<noteq> -1 \<and> no_send_error as'"
  using send_n_loop_no_error by (auto simp: safe_tcp_send_n_def split: if_splits)

lemma do_write_conn_ok:
  assumes "do_write_conn fd w = Inr (r, w')" "no_send_error (send_as w)"
  shows "r \<noteq> -1 \<and> keeps w w' \<and> no_send_error (send_as w')"
proof -
  obtain buf where buf: "sendptr (cb (fdi w fd)) = Some buf" "\<not> length buf < unat (sendlen (cb (fdi w fd)))" "fd_ok w fd"
    using assms(1) unfolding do_write_conn_def Let_def by (cases "sendptr (cb (fdi w fd))") (auto split: if_splits)
  obtain r1 k as where s: "safe_tcp_send_n (sint (sendlen (cb (fdi w fd)))) (send_as w) = Inr (r1, k, as)"
    using assms(1) buf unfolding do_write_conn_def Let_def
    by (cases "safe_tcp_send_n (sint (sendlen (cb (fdi w fd)))) (send_as w)") auto
  let ?w1 = "w\<lparr>send_as := as, tx := (tx w)(fd := tx w fd @ take k buf)\<rparr>"
  note ne = safe_tcp_send_n_no_error [OF s assms(2)] safe_tcp_send_n_bounds [OF s]
  then have "r1 = 0 \<or> r1 > 0" by auto
  then have "r = r1 \<and> (w' = ?w1 \<or> (\<exists>f. w' = touch fd (upd_cb fd f ?w1)))"
  proof
    assume "r1 = 0"
    then show ?thesis using assms(1) buf s unfolding do_write_conn_def Let_def by simp
  next
    assume "r1 > 0"
    then show ?thesis using assms(1) buf s unfolding do_write_conn_def Let_def by simp blast
  qed
  moreover have "keeps w (touch fd (upd_cb fd f ?w1))" for f
    using keeps_trans [OF keeps_trans [OF keeps_simps(3) keeps_simps(1)] keeps_simps(2)] .
  ultimately show ?thesis using ne by auto
qed

lemma net_send_ok:
  assumes r: "net_send dll ok fd data w = Inr (c, w')" and ne: "no_send_error (send_as w)"
    and lim: "send_buf_limit_size w = 0"
  shows "c = 0 \<and> keeps w w' \<and> no_send_error (send_as w')"
proof -
  have flush: "\<exists>p. st = Some p \<and> keeps w w1 \<and> no_send_error (send_as w1)"
    if "flush_pending dll fd w = Inr (st, w1)" for st w1
    using that ne do_write_conn_ok [of fd w] by (auto simp: flush_pending_def split: if_splits)
  obtain st w1 where f: "flush_pending dll fd w = Inr (st, w1)"
    using r by (auto simp: net_send_def split: if_splits)
  then obtain p where p: "st = Some p" "keeps w w1" "no_send_error (send_as w1)" using flush by blast
  have fresh: "\<exists>k. sb = Some k \<and> keeps w1 w2 \<and> no_send_error (send_as w2)"
    if sf: "send_fresh dll fd data w1 = Inr (sb, w2)" for sb w2
  proof (cases "sendlen (cb (fdi w1 fd)) = 0")
    case False
    then show ?thesis using sf p by (auto simp: send_fresh_def)
  next
    case True
    then obtain r1 k as where s: "safe_tcp_send_n (sint (of_nat (length data) :: u32)) (send_as w1) = Inr (r1, k, as)"
      using sf by (auto simp: send_fresh_def)
    from safe_tcp_send_n_no_error [OF s p(3)] sf True s show ?thesis by (auto simp: send_fresh_def)
  qed
  obtain sb w2 where g: "send_fresh dll fd data w1 = Inr (sb, w2)"
    using r f p by (auto simp: net_send_def split: if_splits)
  then obtain k where k: "sb = Some k" "keeps w1 w2" "no_send_error (send_as w2)" using fresh by blast
  have k02: "keeps w w2" using keeps_trans [OF p(2) k(2)] .
  have arm: "no_send_error (send_as (arm_events fd q v)) = no_send_error (send_as v)" for q and v :: "'a world"
    by (auto simp: arm_events_def Let_def mod_events_def split: option.splits)
  show ?thesis
  proof (cases "length data > k")
    case False
    then have "c = 0" "w' = arm_events fd p w2" using r f p g k by (auto simp: net_send_def split: if_splits)
    then show ?thesis using keeps_trans [OF k02 keeps_arm_events] k arm by simp
  next
    case True
    then obtain w3 where m: "merge_buffer ok fd (drop k data) w2 = Inr w3"
      and e: "(if over_limit fd w3 then Inr (-1, w3) else Inr (0, arm_events fd p w3)) = Inr (c, w')"
      using r f p g k by (auto simp: net_send_def split: if_splits)
    have m3: "keeps w2 w3" "send_as w3 = send_as w2"
      using m by (auto simp: merge_buffer_def split: option.splits)
    have "send_buf_limit_size w3 = 0" using k02 m3 lim by (simp add: keeps_def)
    then have "\<not> over_limit fd w3" by (simp add: over_limit_def)
    then show ?thesis
      using e keeps_trans [OF keeps_trans [OF k02 m3(1)] keeps_arm_events] k m3 arm by auto
  qed
qed

text \<open>
  A send queue that holds fragments for one open connection is drained into the stream of that
  connection.
\<close>

definition sendq_rep :: "nat \<Rightarrow> 't world \<Rightarrow> message list \<Rightarrow> bool" where
  "sendq_rep i w xs \<longleftrightarrow> i < length (configs (bindconf w)) \<and> q_rep (page_size w) (sendq (configs (bindconf w) ! i)) xs"

definition out_ready :: "nat \<Rightarrow> 't world \<Rightarrow> bool" where
  "out_ready fd w \<longleftrightarrow> send_rep fd w \<and> armed fd w \<and> send_buf_limit_size w = 0 \<and> no_send_error (send_as w)"

lemma schedule_output_data:
  assumes a: "addressed (fst x) fd w" "int fd \<le> maxfd w" "mb_type (fst x) = DATA_BLOCK"
  shows "schedule_output dll ok x w = net_send dll ok fd (snd x) w"
  using a by (simp add: schedule_output_def addressed_def fd_ok_def Let_def)

lemma keeps_addressed: "keeps w w' \<Longrightarrow> addressed mb fd w' = addressed mb fd w"
  by (auto simp: keeps_def same_table_def addressed_def)

lemma bindconf_frame [simp]:
  "send_rep fd (w\<lparr>bindconf := b\<rparr>) = send_rep fd w" "pending fd (w\<lparr>bindconf := b\<rparr>) = pending fd w"
  "armed fd (w\<lparr>bindconf := b\<rparr>) = armed fd w" "addressed mb fd (w\<lparr>bindconf := b\<rparr>) = addressed mb fd w"
  "stream fd (w\<lparr>bindconf := b\<rparr>) = stream fd w" "out_ready fd (w\<lparr>bindconf := b\<rparr>) = out_ready fd w"
proof -
  have p: "pending fd (w\<lparr>bindconf := b\<rparr>) = pending fd w" "send_rep fd (w\<lparr>bindconf := b\<rparr>) = send_rep fd w"
    using frame_fds [of "w\<lparr>bindconf := b\<rparr>" w fd] by auto
  then show "send_rep fd (w\<lparr>bindconf := b\<rparr>) = send_rep fd w" "pending fd (w\<lparr>bindconf := b\<rparr>) = pending fd w"
    "armed fd (w\<lparr>bindconf := b\<rparr>) = armed fd w" "addressed mb fd (w\<lparr>bindconf := b\<rparr>) = addressed mb fd w"
    "stream fd (w\<lparr>bindconf := b\<rparr>) = stream fd w" "out_ready fd (w\<lparr>bindconf := b\<rparr>) = out_ready fd w"
    by (auto simp: armed_def addressed_def stream_def out_ready_def)
qed

lemma drain_sendq_delivers:
  assumes "sendq_rep i w xs" "length xs < fuel" "out_ready fd w" "int fd \<le> maxfd w"
    "\<forall>x\<in>set xs. addressed (fst x) fd w \<and> mb_type (fst x) = DATA_BLOCK"
    "length (pending fd w) + length (concat (map snd xs)) < 2 ^ 31"
    "drain_sendq fuel dll ok i w = Inr w'"
  shows "sendq_rep i w' [] \<and> stream fd w' = stream fd w @ concat (map snd xs) \<and> out_ready fd w'"
  using assms
proof (induction xs arbitrary: fuel w)
  case Nil
  then obtain f where f: "fuel = Suc f" by (cases fuel) auto
  have i: "i < length (configs (bindconf w))" and q: "q_rep (page_size w) (sendq (configs (bindconf w) ! i)) []"
    using Nil.prems(1) by (auto simp: sendq_rep_def)
  obtain q' where "shmq_pop (sendq (configs (bindconf w) ! i)) = Inr (None, q')" "q_rep (page_size w) q' []"
    using shmq_pop_rep [OF q] by auto
  then show ?case using Nil.prems(3,7) f i by (auto simp: Let_def sendq_rep_def)
next
  case (Cons x xs)
  then obtain f where f: "fuel = Suc f" by (cases fuel) auto
  let ?e = "configs (bindconf w) ! i"
  have i: "i < length (configs (bindconf w))" and q: "q_rep (page_size w) (sendq ?e) (x # xs)"
    using Cons.prems(1) by (auto simp: sendq_rep_def)
  have ok: "msg_ok (unat (page_size w)) x" using q_repD(7) [OF q] by simp
  obtain off q' where p: "shmq_pop (sendq ?e) = Inr (Some (int off), q')" "q_rep (page_size w) q' xs"
      "bytes_at (mem (sendq ?e)) off (msg_len x) = enc_msg x" "tpos q' = off + msg_len x" "8 \<le> off"
      "mem q' = mem (sendq ?e)"
    using shmq_pop_rep [OF q] by auto
  have rd: "read_msg q' (int off) = Inr x"
    using p q_repD [OF p(2)] ok by (intro read_msg_enc) (auto simp: msg_ok_def)
  define b where "b = (bindconf w)\<lparr>configs := (configs (bindconf w))[i := ?e\<lparr>sendq := q'\<rparr>]\<rparr>"
  let ?w1 = "w\<lparr>bindconf := b\<rparr>"
  have o1: "out_ready fd ?w1" "addressed (fst x) fd ?w1" "int fd \<le> maxfd ?w1" "mb_type (fst x) = DATA_BLOCK"
    using Cons.prems(3-5) by auto
  obtain c w2 where so: "schedule_output dll ok x ?w1 = Inr (c, w2)" "drain_sendq f dll ok i w2 = Inr w'"
    using Cons.prems(7) f i p(1) rd by (auto simp: Let_def b_def)
  have ns: "net_send dll ok fd (snd x) ?w1 = Inr (c, w2)"
    using so(1) schedule_output_data [OF o1(2,3,4)] by simp
  note k = net_send_ok [OF ns] o1(1)
  then have c0: "c = 0" and kp: "keeps ?w1 w2" and ne: "no_send_error (send_as w2)" by (auto simp: out_ready_def)
  have sm: "small (sendlen (cb (fdi ?w1 fd)))"
    using length_pending [of fd ?w1] o1(1) Cons.prems(6) by (auto simp: out_ready_def small_def)
  have "length (snd x) < 2 ^ 31" using Cons.prems(6) by simp
  then have sr: "send_rep fd w2 \<and> stream fd w2 = stream fd ?w1 @ snd x \<and> armed fd w2 \<and>
      length (pending fd w2) \<le> length (pending fd ?w1) + length (snd x)"
    using net_send_rep [of fd ?w1 "snd x" dll ok w2] sm o1(1) ns c0 by (auto simp: out_ready_def)
  have "sendq_rep i w2 xs" using kp p(2) i by (auto simp: sendq_rep_def keeps_def b_def)
  moreover have "out_ready fd w2" using sr ne kp o1(1) by (simp add: out_ready_def keeps_def)
  moreover have "int fd \<le> maxfd w2" using kp o1(3) by (simp add: keeps_def same_table_def)
  moreover have "\<forall>x\<in>set xs. addressed (fst x) fd w2 \<and> mb_type (fst x) = DATA_BLOCK"
    using Cons.prems(5) keeps_addressed [OF kp] by auto
  moreover have "length (pending fd w2) + length (concat (map snd xs)) < 2 ^ 31" using sr Cons.prems(6) by auto
  ultimately show ?case
    using Cons.IH [of w2 f] so(2) Cons.prems(2) f sr by auto
qed


section \<open>Properties\<close>

text \<open>
  \<open>iterate_close_queue\<close> empties the close queue: every descriptor on it is closed exactly once,
  in queue order, its entry is freed, no other entry is, and the invariant holds afterwards,
  although the loop unlinks the nodes it walks over.
\<close>

theorem iterate_close_queue_closes:
  assumes "net_inv w cl et" "is_parent w \<or> quiet_hook dll" "iterate_close_queue dll w = Inr w'"
  shows "net_inv w' [] et \<and> used w' = used w - set cl \<and> closed w' = closed w @ cl"
  using close_fold [OF assms(1,2)] assms(3) iterate_close_queue_fold [OF assms(1,2)] by simp

lemma demo_closing:
  obtains w where "add_to_close_queue 5 demo_world1 = Inr w" "net_inv w [5] []" "is_parent w" "closed w = []"
proof -
  have l: "5 < length (fds demo_world1)" by (simp add: demo_world1_def demo_world_def)
  have u: "5 \<in> used demo_world1" unfolding demo_world1_def by (subst used_added) (simp_all add: demo_world_def)
  have q: "queues_ok demo_world1 [] []" "table_ok demo_world1" using demo_world1_inv by (auto simp: net_inv_def)
  obtain w where w: "add_to_close_queue 5 demo_world1 = Inr w" "reflagged 5 demo_world1 w" "queues_ok w [5] []"
    using add_to_close_queue_spec [OF q(1) l] by auto
  have "is_parent demo_world1" "closed demo_world1 = []" by (simp_all add: demo_world1_def added_def demo_world_def)
  then have "is_parent w" "closed w = []" using w(2) by (auto simp: reflagged_def set_flag_def upd_fd_def)
  then show thesis using that w reflagged_table_ok [OF w(2) l u q(2)] by (simp add: net_inv_def)
qed

theorem iterate_close_queue_closes_witness:
  "\<exists>w w'. add_to_close_queue 5 demo_world1 = Inr w \<and> iterate_close_queue demo_dll w = Inr w' \<and>
     net_inv w' [] [] \<and> closed w' = [5]"
proof -
  obtain w where w: "add_to_close_queue 5 demo_world1 = Inr w" "net_inv w [5] []" "is_parent w" "closed w = []"
    by (rule demo_closing)
  have "(case bindR (add_to_close_queue 5 demo_world1) (iterate_close_queue demo_dll) of Inr w' \<Rightarrow> True | _ \<Rightarrow> False)"
    by code_simp
  then obtain w' where "iterate_close_queue demo_dll w = Inr w'" using w(1) by (auto split: sum.splits)
  with iterate_close_queue_closes [OF w(2) _ this] w show ?thesis by auto
qed

text \<open>
  C24: In the parent, \<open>iterate_etin_queue\<close> serves each descriptor that was waiting when it started
  exactly once, in order, and ends, although serving one may unlink it, close it, or add new
  connections to the table.
\<close>

theorem iterate_etin_queue_once:
  assumes "net_inv w cl et" "accepts_fit w"
  shows "iterate_etin_queue dll max_len True w = foldR (etin_body dll max_len True) (map FdNode et) w"
  using assms by (rule iterate_etin_queue_fold)

theorem iterate_etin_queue_once_witness:
  "\<exists>w. add_to_etin_queue 5 demo_world1 = Inr w \<and>
     iterate_etin_queue demo_dll 64 True w = foldR (etin_body demo_dll 64 True) [FdNode 5] w"
proof -
  have l: "5 < length (fds demo_world1)" by (simp add: demo_world1_def demo_world_def)
  have u: "5 \<in> used demo_world1" unfolding demo_world1_def by (subst used_added) (simp_all add: demo_world_def)
  have q: "queues_ok demo_world1 [] []" "table_ok demo_world1" using demo_world1_inv by (auto simp: net_inv_def)
  obtain w where w: "add_to_etin_queue 5 demo_world1 = Inr w" "reflagged 5 demo_world1 w" "queues_ok w [] [5]"
    using add_to_etin_queue_spec [OF q(1) l] by auto
  have i: "net_inv w [] [5]" using w reflagged_table_ok [OF w(2) l u q(2)] by (simp add: net_inv_def)
  have "accept_as w = []" using reflagged_process [OF w(2)] by (simp add: demo_world1_def added_def demo_world_def)
  then have "accepts_fit w" by (simp add: accepts_fit_def)
  from iterate_etin_queue_once [OF i this, of demo_dll 64] w(1) show ?thesis by auto
qed

text \<open>
  C20: The timeout pass of \<open>net_loop\<close> closes exactly the client connections that have been idle for
  at least \<open>socket_timeout\<close> seconds, although each removal may lower \<open>maxfd\<close> under the loop.
\<close>

theorem close_idle_exact:
  assumes "net_inv w cl et" "close_idle dll w = Inr w'"
  shows "(\<exists>cl' et'. net_inv w' cl' et') \<and> 
    used w' = {x \<in> used w. fi_type (fdi w x) = fd_type_remote \<longrightarrow>
      now_sec w - int (unat (last_tm (sk (fdi w x)))) < socket_timeout w}"
proof -
  have "{x \<in> used w. fi_type (fdi w x) = fd_type_remote \<longrightarrow>
      now_sec w - int (unat (last_tm (sk (fdi w x)))) < socket_timeout w} = {x \<in> used w. \<not> idle_conn w x}"
    by (auto simp: idle_conn_def)
  then show ?thesis
    using scan_del [OF local_cond_idle assms(1), of 0 "length (fds w)" dll w'] assms(2) by (simp add: close_idle_def)
qed

theorem close_idle_exact_witness:
  "\<exists>w'. close_idle demo_dll (demo_world1\<lparr>socket_timeout := 5, now_sec := 9\<rparr>) = Inr w' \<and> used w' = {}"
proof -
  let ?w = "demo_world1\<lparr>socket_timeout := 5, now_sec := 9\<rparr>"
  have inv: "net_inv ?w [] []" and u: "used ?w = used demo_world1"
    using demo_world1_inv by (auto simp: net_inv_def queues_ok_def table_ok_def used_def)
  have "used demo_world1 = {5}"
    unfolding demo_world1_def by (subst used_added) (auto simp: demo_world_def used_def)
  moreover have "idle_conn ?w 5"
    by (simp add: idle_conn_def demo_world1_def) (simp add: demo_world_def new_entry_def zero_fdinfo_def)
  moreover have "(case close_idle demo_dll ?w of Inr w' \<Rightarrow> True | _ \<Rightarrow> False)" by code_simp
  then obtain w' where "close_idle demo_dll ?w = Inr w'" by (auto split: sum.splits)
  ultimately show ?thesis using close_idle_exact [OF inv] u by (auto simp: idle_conn_def)
qed

text \<open>
  When a worker has crashed, the parent closes exactly the descriptors of its bind element other
  than the listening socket: no connection of a dead worker survives and no other is lost.
\<close>

theorem close_bind_exact:
  assumes "net_inv w cl et" "close_bind dll bc w = Inr w'"
  shows "(\<exists>cl' et'. net_inv w' cl' et') \<and> 
    used w' = {x \<in> used w. bc_elem (fdi w x) = bc \<longrightarrow> fi_type (fdi w x) = fd_type_listen}"
proof -
  have "{x \<in> used w. bc_elem (fdi w x) = bc \<longrightarrow> fi_type (fdi w x) = fd_type_listen} =
      {x \<in> used w. \<not> of_bind bc w x}"
    by (auto simp: of_bind_def)
  then show ?thesis
    using scan_del [OF local_cond_bind assms(1), of 0 "length (fds w)" bc dll w'] assms(2) by (simp add: close_bind_def)
qed

theorem close_bind_exact_witness:
  "\<exists>w'. close_bind demo_dll (Some 0) demo_world1 = Inr w' \<and> used w' = {}"
proof -
  have "used demo_world1 = {5}"
    unfolding demo_world1_def by (subst used_added) (auto simp: demo_world_def used_def)
  moreover have "of_bind (Some 0) demo_world1 5"
    by (simp add: of_bind_def demo_world1_def) (simp add: demo_world_def)
  moreover have "(case close_bind demo_dll (Some 0) demo_world1 of Inr w' \<Rightarrow> True | _ \<Rightarrow> False)" by code_simp
  then obtain w' where "close_bind demo_dll (Some 0) demo_world1 = Inr w'" by (auto split: sum.splits)
  ultimately show ?thesis using close_bind_exact [OF demo_world1_inv] by (auto simp: of_bind_def)
qed

end
