(* ===== verification/Mp_Safety.thy ===== *)
theory Mp_Safety
  imports Mp_Loop
begin

unbundle bit_operations_syntax

text \<open>
  Safety of the parent process as a whole.  \<open>srv_inv\<close> is the invariant of its state between two
  iterations of \<open>net_loop\<close>: the table and its pointer queues, the buffers of every connection, the
  shared queues of every worker and the answers the kernel will give.  Every function that
  \<open>net_loop\<close> calls keeps it and neither leaves an object nor fails an assertion; the proofs follow
  the code with the rules for \<open>safe_res\<close>.
\<close>

section \<open>The invariant\<close>

text \<open>The receive half of a connection buffer: the unread bytes fit it, whatever length the plugin announced.\<close>

definition recv_ok :: "u32 \<Rightarrow> conn_buf \<Rightarrow> bool" where
  "recv_ok ps c \<longleftrightarrow>
     (case recvptr c of None \<Rightarrow> True
      | Some buf \<Rightarrow> length buf = unat ps \<and> unat (recvlen c) \<le> length buf)"

text \<open>
  A plugin that announces a fixed length.  The length remembered in a buffer is always the answer of
  such a plugin, so that the predicates on single operations apply to any state of the buffer.
\<close>

definition fixed_len :: "i32 \<Rightarrow> 't serv_if" where
  "fixed_len n = \<lparr>get_pkg_len = (\<lambda>_ _ _. n), proc_pkg_from_client = (\<lambda>_ _ w. Inr (0, w)),
     proc_pkg_from_serv = (\<lambda>_ _ w. Inr w), on_client_conn_closed = (\<lambda>_ w. Inr w), on_fd_closed = (\<lambda>_ w. Inr w),
     init_service = None, fini_service = None, proc_udp_pkg = None, proc_mcast_pkg = None,
     connect_cb = (\<lambda>_ _ w. Inr w)\<rparr>"

lemma fixed_len_stable: "stable_len (pkg_len (fixed_len n) fd)"
  by (simp add: stable_len_def pkg_len_def fixed_len_def)

definition send_ok :: "nat \<Rightarrow> conn_buf \<Rightarrow> bool" where
  "send_ok b c \<longleftrightarrow> unat (sendlen c) \<le> b \<and>
     (case sendptr c of None \<Rightarrow> sendlen c = 0
      | Some buf \<Rightarrow> length buf = unat (sndbufsz c) \<and> unat (sendlen c) \<le> length buf)"

text \<open>A used entry of the parent's table: \<open>n\<close> bind elements, at most \<open>b\<close> bytes buffered.\<close>

definition entry_ok :: "u32 \<Rightarrow> nat \<Rightarrow> nat \<Rightarrow> fdinfo \<Rightarrow> bool" where
  "entry_ok ps n b i \<longleftrightarrow>
     (\<exists>k<n. bc_elem i = Some k) \<and> fi_type i \<in> {fd_type_listen, fd_type_pipe, fd_type_remote} \<and>
     (fi_type i = fd_type_pipe \<longrightarrow> recvptr (cb i) = None) \<and>
     recv_ok ps (cb i) \<and> send_ok b (cb i)"

text \<open>
  What a worker may put into its send queue: a request to close a connection or a package that is
  not empty (an empty one would fail the assertion of \<open>safe_tcp_send_n\<close>).
\<close>

definition out_msg :: "message \<Rightarrow> bool" where
  "out_msg x \<longleftrightarrow> mb_type (fst x) = FIN_BLOCK \<or> snd x \<noteq> []"

definition chan_ok :: "u32 \<Rightarrow> nat \<Rightarrow> nat \<Rightarrow> bind_config_info \<Rightarrow> bool" where
  "chan_ok ps M n e \<longleftrightarrow> (\<exists>xs. q_rep ps (recvq e) xs) \<and>
     (\<exists>xs. q_rep ps (sendq e) xs \<and> list_all out_msg xs) \<and>
     unat (q_length (recvq e)) = M \<and> unat (q_length (sendq e)) = M \<and> nat (fst (pipe_handles (sendq e))) < n"

text \<open>The part of the state outside the table: \<open>N\<close> workers, queues of \<open>M\<close> bytes.\<close>

definition env_ok :: "nat \<Rightarrow> nat \<Rightarrow> 't world \<Rightarrow> bool" where
  "env_ok N M w \<longleftrightarrow> is_parent w \<and> small (page_size w) \<and> peer_ok (page_size w) (peer w) \<and>
     bind_num (bindconf w) = N \<and> N \<le> length (configs (bindconf w)) \<and>
     length (configs (bindconf w)) \<le> length (child_pids w) \<and>
     (\<forall>e\<in>set (configs (bindconf w)). chan_ok (page_size w) M (length (fds w)) e)"

definition ents_ok :: "nat \<Rightarrow> 't world \<Rightarrow> bool" where
  "ents_ok b w \<longleftrightarrow> (\<forall>fd<length (fds w).
     if fd \<in> used w then entry_ok (page_size w) (length (configs (bindconf w))) b (fdi w fd)
     else sendlen (cb (fdi w fd)) = 0)"

definition srv_inv :: "nat \<Rightarrow> nat \<Rightarrow> nat \<Rightarrow> 't world \<Rightarrow> bool" where
  "srv_inv N M b w \<longleftrightarrow> (\<exists>cl et. net_inv w cl et) \<and> accepts_fit w \<and> env_ok N M w \<and> ents_ok b w"

lemma entry_ok_mono: "entry_ok ps n b i \<Longrightarrow> b \<le> b' \<Longrightarrow> entry_ok ps n b' i"
  by (auto simp: entry_ok_def send_ok_def)

lemma srv_inv_mono: "srv_inv N M b w \<Longrightarrow> b \<le> b' \<Longrightarrow> srv_inv N M b' w"
  using entry_ok_mono [of "page_size w" "length (configs (bindconf w))" b _ b']
  unfolding srv_inv_def ents_ok_def by (metis (full_types))

text \<open>The connection to the representation predicates of the single operations.\<close>

lemma recv_ok_rep:
  assumes "fd < length (fds w)" "small (page_size w)" "recv_ok (page_size w) (cb (fdi w fd))"
  shows "\<exists>B. conn_rep (fixed_len (rcvprotlen (cb (fdi w fd)))) fd w B"
proof (cases "recvptr (cb (fdi w fd))")
  case None
  then show ?thesis using assms by (auto simp: conn_rep_def)
next
  case (Some buf)
  then show ?thesis
    using assms by (intro exI [of _ "take (unat (recvlen (cb (fdi w fd)))) buf"]) (auto simp: conn_rep_def recv_ok_def fixed_len_def of_nat_unat ucast_id)
qed

lemma send_rep_iff:
  "send_ok b (cb (fdi w fd)) \<and> fd < length (fds w) \<longleftrightarrow> send_rep fd w \<and> unat (sendlen (cb (fdi w fd))) \<le> b"
  by (auto simp: send_rep_def send_ok_def)

lemma env_ok_cong: "env w' = env w \<Longrightarrow> bindconf w' = bindconf w \<Longrightarrow> env_ok N M w' = env_ok N M w"
  by (simp add: env_ok_def env_def)

text \<open>What it reads of an entry.\<close>

definition core :: "fdinfo \<Rightarrow> fd_type \<times> nat option \<times> conn_buf" where
  "core i = (fi_type i, bc_elem i, cb i)"

lemma core_eqD: "core i' = core i \<Longrightarrow> fi_type i' = fi_type i \<and> bc_elem i' = bc_elem i \<and> cb i' = cb i"
  by (simp add: core_def)

lemma entry_ok_core: "core i' = core i \<Longrightarrow> entry_ok ps n b i' = entry_ok ps n b i"
  by (simp add: core_def entry_ok_def)

text \<open>
  The invariant but for the buffers of \<open>fd\<close>, and the steps that touch nothing else of it but
  shared queues.
\<close>

definition inv_but :: "nat \<Rightarrow> nat \<Rightarrow> nat \<Rightarrow> nat \<Rightarrow> 't world \<Rightarrow> bool" where
  "inv_but N M b fd w \<longleftrightarrow> (\<exists>cl et. net_inv w cl et) \<and> accepts_fit w \<and> env_ok N M w \<and>
     fd < length (fds w) \<and>
     (fd \<in> used w \<longrightarrow> (\<exists>k<length (configs (bindconf w)). bc_elem (fdi w fd) = Some k)) \<and>
     (\<forall>x<length (fds w). if x \<in> used w
       then x \<noteq> fd \<longrightarrow> entry_ok (page_size w) (length (configs (bindconf w))) b (fdi w x)
       else sendlen (cb (fdi w x)) = 0)"

lemma srv_inv_but: "srv_inv N M b w \<Longrightarrow> fd < length (fds w) \<Longrightarrow> inv_but N M b fd w"
  by (auto simp: srv_inv_def inv_but_def ents_ok_def entry_ok_def)

lemma inv_but_srv:
  "inv_but N M b fd w \<Longrightarrow>
   (fd \<in> used w \<Longrightarrow> entry_ok (page_size w) (length (configs (bindconf w))) b (fdi w fd)) \<Longrightarrow> srv_inv N M b w"
  unfolding srv_inv_def inv_but_def ents_ok_def by (metis (full_types))

lemma inv_but_step:
  assumes i: "inv_but N M b fd w" and e: "env w' = env w" and "net_inv w' cl et" "env_ok N M w'"
    and n: "length (configs (bindconf w')) = length (configs (bindconf w))"
    and u: "used w' \<subseteq> used w" and c: "\<And>x. x \<noteq> fd \<Longrightarrow> x < length (fds w) \<Longrightarrow> core (fdi w' x) = core (fdi w x)"
    and b: "b \<le> b'" and f: "fd \<in> used w' \<Longrightarrow> bc_elem (fdi w' fd) = bc_elem (fdi w fd)"
    and s: "fd \<notin> used w' \<Longrightarrow> sendlen (cb (fdi w' fd)) = 0"
  shows "inv_but N M b' fd w'"
proof -
  note e' = env_eqD [OF e]
  have ent: "if x \<in> used w' then x \<noteq> fd \<longrightarrow>
      entry_ok (page_size w') (length (configs (bindconf w'))) b' (fdi w' x)
    else sendlen (cb (fdi w' x)) = 0" if x: "x < length (fds w')" for x
  proof (cases "x = fd")
    case True
    then show ?thesis using s by simp
  next
    case False
    then have cx: "core (fdi w' x) = core (fdi w x)" using c x e' by simp
    then have "x \<in> used w' \<longleftrightarrow> x \<in> used w" using e' by (auto simp: used_def core_def)
    moreover have "if x \<in> used w then entry_ok (page_size w) (length (configs (bindconf w))) b (fdi w x)
        else sendlen (cb (fdi w x)) = 0"
      using i x e' False by (simp add: inv_but_def)
    ultimately show ?thesis
      unfolding n e'(1) using entry_ok_core [OF cx] core_eqD [OF cx] entry_ok_mono [OF _ b] by auto
  qed
  have "accepts_fit w'" using i u e' by (auto simp: inv_but_def accepts_fit_def)
  moreover have "fd \<in> used w' \<longrightarrow> (\<exists>k<length (configs (bindconf w')). bc_elem (fdi w' fd) = Some k)"
    using i u f n by (auto simp: inv_but_def)
  moreover have "fd < length (fds w')" using i e' by (simp add: inv_but_def)
  ultimately show ?thesis using assms(3,4) ent unfolding inv_but_def by blast
qed

lemma srv_invD:
  assumes "srv_inv N M b w"
  shows "env_ok N M w" "accepts_fit w" "ents_ok b w" "\<exists>cl et. net_inv w cl et"
    "is_parent w" "small (page_size w)" "peer_ok (page_size w) (peer w)"
  using assms by (auto simp: srv_inv_def env_ok_def)

lemma srv_inv_entry:
  assumes "srv_inv N M b w" "fd \<in> used w"
  shows "entry_ok (page_size w) (length (configs (bindconf w))) b (fdi w fd)" "fd < length (fds w)"
    "sockfd (fdi w fd) = fd" "int fd \<le> maxfd w"
  using assms by (auto simp: srv_inv_def ents_ok_def net_inv_def table_ok_def used_def)

lemma srv_inv_maxfd: "srv_inv N M b w \<Longrightarrow> int fd \<le> maxfd w \<Longrightarrow> fd < length (fds w)"
  by (auto simp: srv_inv_def net_inv_def table_ok_def)

section \<open>The receive queue\<close>

lemma env_bindconf [simp]: "env (w\<lparr>bindconf := b\<rparr>) = env w"
  by (simp add: env_def)

text \<open>Replacing the queues of one bind element by others in good order.\<close>

lemma env_ok_set_conf:
  assumes "env_ok N M w" "chan_ok (page_size w) M (length (fds w)) e"
  shows "env_ok N M (w\<lparr>bindconf := (bindconf w)\<lparr>configs := (configs (bindconf w))[i := e]\<rparr>\<rparr>)"
  using assms set_update_subset_insert [of "configs (bindconf w)" i e] by (auto simp: env_ok_def)

definition sendqs :: "'t world \<Rightarrow> shm_queue list" where
  "sendqs w = map sendq (configs (bindconf w))"

lemma sendqs_length: "sendqs w' = sendqs w \<Longrightarrow> length (configs (bindconf w')) = length (configs (bindconf w))"
  unfolding sendqs_def by (metis length_map)

lemma sendqs_nth:
  "sendqs w' = sendqs w \<Longrightarrow> i < length (configs (bindconf w)) \<Longrightarrow>
   i < length (configs (bindconf w')) \<and> sendq (configs (bindconf w') ! i) = sendq (configs (bindconf w) ! i)"
  unfolding sendqs_def by (metis length_map nth_map)

lemma sendqs_cong: "bindconf w' = bindconf w \<Longrightarrow> sendqs w' = sendqs w"
  by (simp add: sendqs_def)

definition pushed :: "nat \<Rightarrow> nat \<Rightarrow> 't world \<Rightarrow> 't world \<Rightarrow> bool" where
  "pushed N M w w' \<longleftrightarrow> (\<exists>b. w' = w\<lparr>bindconf := b\<rparr>) \<and> sendqs w' = sendqs w \<and> env_ok N M w'"

lemma pushed_refl: "env_ok N M w \<Longrightarrow> pushed N M w w"
  by (auto simp: pushed_def intro: exI [of _ "bindconf w"])

lemma push_recvq_safe:
  assumes "env_ok N M w" "i < length (configs (bindconf w))" "msg_fits (mb, d)"
  shows "safe_res (\<lambda>(r, w'). pushed N M w w') (push_recvq (Some i) mb d w)"
proof -
  let ?e = "configs (bindconf w) ! i"
  have ch: "chan_ok (page_size w) M (length (fds w)) ?e" using assms by (simp add: env_ok_def)
  then obtain xs where q: "q_rep (page_size w) (recvq ?e) xs" by (auto simp: chan_ok_def)
  have c: "chan_ok (page_size w) M (length (fds w)) (?e\<lparr>recvq := q'\<rparr>)"
    if "q_rep (page_size w) q' ys" "q_length q' = q_length (recvq ?e)" for q' ys
    using ch that by (auto simp: chan_ok_def)
  have pe: "peer_ok (page_size w) (peer w)" using assms(1) by (simp add: env_ok_def)
  have r: "case shmq_push (peer w) (page_size w) (recvq ?e) mb d of Inl e \<Rightarrow> e = Exit (-1) 
      | Inr (r, q') \<Rightarrow> \<exists>ys. q_rep (page_size w) q' ys \<and> q_length q' = q_length (recvq ?e)"
    using shmq_push_rep [OF q pe, of mb d] assms(3)
    by (auto simp: msg_fits_def msg_len_def split: sum.splits if_splits)
  show ?thesis
  proof (cases "shmq_push (peer w) (page_size w) (recvq ?e) mb d")
    case (Inl e)
    then show ?thesis using r assms(2) by (simp add: push_recvq_def Let_def)
  next
    case (Inr p)
    then obtain c q' ys where p: "p = (c, q')" "q_rep (page_size w) q' ys" "q_length q' = q_length (recvq ?e)"
      using r by (cases p) auto
    show ?thesis
      using Inr p(1) assms(2) env_ok_set_conf [OF assms(1) c [OF p(2,3)], of i]
      by (auto simp: push_recvq_def Let_def pushed_def sendqs_def map_update list_update_same_conv)
  qed
qed

lemma pushed_srv_inv:
  assumes "srv_inv N M b w" "pushed N M w w'"
  shows "srv_inv N M b w'"
proof -
  obtain bc where w': "w' = w\<lparr>bindconf := bc\<rparr>" "length (configs bc) = length (configs (bindconf w))" "env_ok N M w'"
    using assms(2) sendqs_length [of w' w] by (auto simp: pushed_def)
  have "net_inv w' cl et = net_inv w cl et" "used w' = used w" for cl et
    using same_net_inv [of w w'] by (auto simp: w'(1))
  moreover have "fds w' = fds w" "accept_as w' = accept_as w" "page_size w' = page_size w" by (simp_all add: w'(1))
  ultimately show ?thesis
    using assms(1) w' by (simp add: srv_inv_def ents_ok_def accepts_fit_def)
qed

section \<open>Removing a connection\<close>

lemma reflagged_frame:
  assumes "reflagged fd w w'"
  shows "env w' = env w" "bindconf w' = bindconf w" "core (fdi w' x) = core (fdi w x)"
proof -
  show "env w' = env w" "bindconf w' = bindconf w"
    using assms by (auto simp: reflagged_def set_flag_def upd_fd_def env_def)
  show "core (fdi w' x) = core (fdi w x)"
    using assms by (cases "x = fd"; cases "fd < length (fds w)")
      (auto simp: reflagged_def set_flag_def upd_fd_def core_def nth_list_update_neq list_update_beyond)
qed

lemma reflagged_inv_but:
  assumes i: "inv_but N M b fd w" and u: "fd \<in> used w" and r: "reflagged fd w w'" and q: "queues_ok w' cl et"
  shows "inv_but N M b fd w' \<and> env w' = env w \<and> sendqs w' = sendqs w \<and> used w' = used w"
proof -
  note f = reflagged_frame [OF r]
  have l: "fd < length (fds w)" and t: "table_ok w" and e: "env_ok N M w" using i by (auto simp: inv_but_def net_inv_def)
  have n: "net_inv w' cl et" using q reflagged_table_ok [OF r l u t] by (simp add: net_inv_def)
  have us: "used w' = used w" using r l by (auto simp: reflagged_def)
  have "inv_but N M b fd w'"
    by (rule inv_but_step [OF i f(1) n]) (use f us u env_ok_cong [OF f(1,2)] e in \<open>auto dest: core_eqD\<close>)
  then show ?thesis using f us sendqs_cong [OF f(2)] by simp
qed

lemma reflagged_srv_inv:
  assumes i: "srv_inv N M b w" and u: "fd \<in> used w" and r: "reflagged fd w w'" and q: "queues_ok w' cl et"
  shows "srv_inv N M b w' \<and> env w' = env w \<and> sendqs w' = sendqs w \<and> used w' = used w"
proof -
  note f = reflagged_frame [OF r]
  have "inv_but N M b fd w'" and r: "env w' = env w \<and> sendqs w' = sendqs w \<and> used w' = used w"
    using reflagged_inv_but [OF srv_inv_but [OF i srv_inv_entry(2) [OF i u]] u r q] by auto
  then have "srv_inv N M b w'"
    using srv_inv_entry(1) [OF i u] entry_ok_core [OF f(3)] f(2) env_eqD(1) [OF f(1)]
    by (intro inv_but_srv) auto
  with r show ?thesis by simp
qed

lemma etin_ops_reflagged:
  assumes "queues_ok w cl et" "fd < length (fds w)"
    "w' = w \<or> add_to_etin_queue fd w = Inr w' \<or> del_from_etin_queue fd w = Inr w'"
  shows "reflagged fd w w' \<and> (\<exists>et'. queues_ok w' cl et')"
proof
  have "reflagged fd w w" by (simp add: reflagged_def)
  then show "reflagged fd w w'" using assms(3) add_to_etin_queue_reflagged del_from_etin_queue_reflagged by blast
  show "\<exists>et'. queues_ok w' cl et'"
    using assms(1,3) add_to_etin_queue_spec [OF assms(1,2)] del_from_etin_queue_spec [OF assms(1,2)] by auto
qed

lemma release_fd_frame:
  "env (release_fd fd w) = env w" "bindconf (release_fd fd w) = bindconf w"
  by (simp_all add: release_fd_def Let_def upd_fd_def env_def)

lemma close_block_fits: "msg_fits (\<lparr>mb_id = a, mb_fd = f, mb_length = 13, mb_type = CLOSE_BLOCK\<rparr>, [])"
  by (simp add: msg_fits_def msg_len_def)

lemma notify_close_safe:
  assumes "inv_but N M b fd w" "fd \<in> used w" "mode = 1 \<or> mode = 2"
  shows "safe_res (pushed N M w) (notify_close dll fd mode w)"
proof -
  obtain k where k: "bc_elem (fdi w fd) = Some k" "k < length (configs (bindconf w))" and e: "env_ok N M w"
    using assms(1,2) by (auto simp: inv_but_def)
  from assms(3) show ?thesis
  proof
    assume "mode = 1"
    then show ?thesis
      unfolding notify_close_def k(1)
      using push_recvq_safe [OF e k(2) close_block_fits] by (auto intro!: safe_bind)
  next
    assume "mode = 2"
    then show ?thesis using pushed_refl [OF e] by (simp add: notify_close_def)
  qed
qed


lemma do_del_conn_frame:
  assumes "do_del_conn dll fd mode w = Inr w'" "fd < length (fds w)" "fd \<in> used w" "mode \<noteq> 0"
    "notify_close dll fd mode w = Inr w1"
  shows "env w' = env w1 \<and> bindconf w' = bindconf w1 \<and> sendlen (cb (fdi w' fd)) = 0"
proof -
  obtain w2 w3 where w: "del_from_etin_queue fd w1 = Inr w2" "del_from_close_queue fd w2 = Inr w3" "w' = release_fd fd w3"
    using assms by (auto simp: do_del_conn_def used_def split: if_splits)
  note f2 = reflagged_frame [OF del_from_etin_queue_reflagged [OF w(1)]]
  note f3 = reflagged_frame [OF del_from_close_queue_reflagged [OF w(2)]]
  have e: "env w3 = env w1" using f2(1) f3(1) by simp
  have "fds w1 = fds w" using notify_close_other [OF assms(5,4)] by simp
  then have "fd < length (fds w3)" using env_eqD(6) [OF e] assms(2) by simp
  then have "sendlen (cb (fdi w' fd)) = 0" by (simp add: w(3) free_cb_def)
  then show ?thesis using e f2(2) f3(2) release_fd_frame [of fd w3] w(3) by simp
qed

lemma do_del_conn_safe:
  assumes i: "inv_but N M b fd w" and m: "mode = 1 \<or> mode = 2"
  shows "safe_res (\<lambda>w'. srv_inv N M b w' \<and> used w' = used w - {fd} \<and> env w' = env w \<and> sendqs w' = sendqs w)
    (do_del_conn dll fd mode w)"
proof (cases "fd \<in> used w")
  case False
  moreover have "fd < length (fds w)" using i by (simp add: inv_but_def)
  moreover have "srv_inv N M b w" using i False by (auto simp: inv_but_def srv_inv_def ents_ok_def)
  ultimately show ?thesis by (simp add: do_del_conn_unused)
next
  case True
  have l: "fd < length (fds w)" using i by (simp add: inv_but_def)
  obtain cl et where inv: "net_inv w cl et" using i by (auto simp: inv_but_def)
  note n = notify_close_safe [OF i True m, of dll]
  show ?thesis
  proof (cases "notify_close dll fd mode w")
    case (Inl e)
    then show ?thesis using n True l by (simp add: do_del_conn_def fd_ok_def used_def)
  next
    case (Inr w1)
    then obtain bc where w1: "w1 = w\<lparr>bindconf := bc\<rparr>" "sendqs w1 = sendqs w" "env_ok N M w1"
      using n by (auto simp: pushed_def)
    obtain w' where d: "do_del_conn dll fd mode w = Inr w'" "net_inv w' (remove1 fd cl) (remove1 fd et)" "used w' = used w - {fd}"
      using do_del_conn_from_notify [OF inv True Inr] by (auto simp: w1(1))
    have m0: "mode \<noteq> 0" using m by auto
    note f = do_del_conn_frame [OF d(1) l True m0 Inr]
    have e: "env w' = env w" using f by (simp add: w1(1))
    have "inv_but N M b fd w'"
    proof (rule inv_but_step [OF i e d(2)])
      show "env_ok N M w'" using env_ok_cong [of w' w1] f w1(3) by auto
      show "length (configs (bindconf w')) = length (configs (bindconf w))"
        using f sendqs_length [OF w1(2)] by simp
      show "core (fdi w' x) = core (fdi w x)" if "x \<noteq> fd" for x
        using do_del_conn_other [OF d(1) m0 that] by simp
    qed (use d(3) f in auto)
    then have "srv_inv N M b w'" by (rule inv_but_srv) (simp add: d(3))
    then show ?thesis using d e f w1(2) sendqs_cong [of w' w1] by simp
  qed
qed


section \<open>Steps on the buffers of one connection\<close>

lemma inv_but_only_cb:
  assumes i: "inv_but N M b fd w" and o: "only_cb fd w w'" and u: "fd \<in> used w" and "b \<le> b'"
    and e: "env_ok N M w'" "length (configs (bindconf w')) = length (configs (bindconf w))"
  shows "inv_but N M b' fd w'"
proof -
  obtain cl et where inv: "net_inv w cl et" using i by (auto simp: inv_but_def)
  then have "net_inv w' cl et" using same_table_inv [of w w'] o by (simp add: only_cb_def)
  from i _ this e show ?thesis
    by (rule inv_but_step)
      (use o u only_cb_used [OF o] assms(4) in \<open>auto simp: only_cb_def same_table_def core_def used_def\<close>)
qed

text \<open>The fields of a connection buffer that the write path leaves alone.\<close>

lemma recv_ok_half: "recv_half c' = recv_half c \<Longrightarrow> recv_ok ps c' = recv_ok ps c"
  by (simp add: recv_half_def recv_ok_def split: option.split)

lemma send_step_srv_inv:
  assumes i: "srv_inv N M b w" and u: "fd \<in> used w" and s: "send_step fd w w'" and "b \<le> b'"
    and ok: "send_rep fd w'" "unat (sendlen (cb (fdi w' fd))) \<le> b'"
  shows "srv_inv N M b' w'"
proof -
  have l: "fd < length (fds w)" using u by (simp add: used_def)
  have o: "only_cb fd w w'" "bindconf w' = bindconf w" using s by (auto simp: send_step_def)
  have e: "env_ok N M w'" using env_ok_cong [OF _ o(2)] o(1) srv_invD(1) [OF i] by (auto simp: only_cb_def)
  have ib: "inv_but N M b' fd w'"
    using inv_but_only_cb [OF srv_inv_but [OF i l] o(1) u assms(4) e] o(2) by simp
  have sd: "send_ok b' (cb (fdi w' fd))" using ok send_rep_iff [of b' w' fd] by simp
  show ?thesis
  proof (rule inv_but_srv [OF ib])
    show "entry_ok (page_size w') (length (configs (bindconf w'))) b' (fdi w' fd)"
      using srv_inv_entry(1) [OF i u] sd s l recv_ok_half [of "cb (fdi w' fd)" "cb (fdi w fd)"]
        env_eqD(1) [of w' w]
      by (auto simp: entry_ok_def send_step_def only_cb_def same_table_def recv_half_def)
  qed
qed

lemma srv_inv_send_rep:
  assumes "srv_inv N M b w" "fd \<in> used w"
  shows "send_rep fd w" "unat (sendlen (cb (fdi w fd))) \<le> b"
  using srv_inv_entry [OF assms] send_rep_iff [of b w fd] by (auto simp: entry_ok_def)


section \<open>Writing\<close>

lemma send_n_loop_fault: "send_n_loop tot sent as = Inl e \<Longrightarrow> e = Blocked"
  by (induction tot sent as rule: send_n_loop.induct) (auto split: if_splits send_ans.splits)

lemma safe_tcp_send_n_safe: "0 < tot \<Longrightarrow> safe_res (\<lambda>_. True) (safe_tcp_send_n tot as)"
  by (cases "send_n_loop (nat tot) 0 as") (auto simp: safe_tcp_send_n_def dest: send_n_loop_fault)

text \<open>Writing and buffering on the send half of one entry, whatever process it belongs to.\<close>

lemma do_write_conn_half:
  assumes rep: "send_rep fd w" and n: "sendlen (cb (fdi w fd)) \<noteq> 0" and b: "unat (sendlen (cb (fdi w fd))) < 2 ^ 31"
  shows "safe_res (\<lambda>(r, w'). send_step fd w w' \<and> send_rep fd w' \<and>
    unat (sendlen (cb (fdi w' fd))) \<le> unat (sendlen (cb (fdi w fd)))) (do_write_conn fd w)"
proof -
  have sm: "small (sendlen (cb (fdi w fd)))" using b by (simp add: small_def)
  have l: "fd < length (fds w)" using rep by (simp add: send_rep_def)
  obtain buf where buf: "sendptr (cb (fdi w fd)) = Some buf" "unat (sendlen (cb (fdi w fd))) \<le> length buf"
    using rep n by (auto simp: send_rep_def split: option.splits)
  have "0 < sint (sendlen (cb (fdi w fd)))" using sint_small [OF sm] n by (simp add: unat_gt_0)
  note sn = safe_tcp_send_n_safe [OF this, of "send_as w"]
  have "safe_res (\<lambda>_. True) (do_write_conn fd w)"
    unfolding do_write_conn_def Let_def using l buf
    by (auto simp: fd_ok_def intro!: safe_bind [OF sn])
  then show ?thesis
  proof (rule safe_mono [OF safe_also], safe)
    fix r w' assume d: "do_write_conn fd w = Inr (r, w')"
    note st = do_write_conn_step [OF d]
    show "send_step fd w w'" using st by simp
    have "send_rep fd w' \<and> unat (sendlen (cb (fdi w' fd))) \<le> unat (sendlen (cb (fdi w fd)))"
    proof (cases "r = -1")
      case True
      then show ?thesis using st rep frame_fds [of w' w fd] by simp
    next
      case False
      from do_write_conn_rep [OF rep sm d False] rep length_pending [of fd w] length_pending [of fd w']
      show ?thesis by simp
    qed
    then show "send_rep fd w'" "unat (sendlen (cb (fdi w' fd))) \<le> unat (sendlen (cb (fdi w fd)))" by auto
  qed
qed

lemma grow_sendbuf_half: "grow_sendbuf ok rest c = Inr c' \<Longrightarrow> recv_half c' = recv_half c"
  by (auto simp: grow_sendbuf_def recv_half_def split: option.splits if_splits)

lemma merge_buffer_half:
  assumes rep: "send_rep fd w" and lt: "unat (sendlen (cb (fdi w fd))) + length rest < 2 ^ 32"
  shows "safe_res (\<lambda>w'. send_step fd w w' \<and> send_rep fd w' \<and>
    unat (sendlen (cb (fdi w' fd))) = unat (sendlen (cb (fdi w fd))) + length rest) (merge_buffer ok fd rest w)"
proof -
  have l: "fd < length (fds w)" using rep by (simp add: send_rep_def)
  have ur: "unat (of_nat (length rest) :: u32) = length rest" using lt by (intro unat_of_nat_small) simp
  let ?c = "cb (fdi w fd)"
  have "safe_res (\<lambda>_. True) (merge_buffer ok fd rest w)"
  proof (cases "grow_sendbuf ok (of_nat (length rest)) ?c")
    case (Inl e)
    then have "e = Exit 1" by (auto simp: grow_sendbuf_def split: option.splits if_splits)
    then show ?thesis using Inl by (simp add: merge_buffer_def)
  next
    case (Inr c)
    then obtain buf where "sendptr c = Some buf" "sendlen c = sendlen ?c" "unat (sendlen ?c) + length rest \<le> length buf"
      using grow_sendbuf_rep [OF Inr] rep lt ur by (auto simp: send_rep_def)
    then show ?thesis using Inr by (simp add: merge_buffer_def)
  qed
  moreover have "send_step fd w w' \<and> send_rep fd w' \<and>
      unat (sendlen (cb (fdi w' fd))) = unat (sendlen (cb (fdi w fd))) + length rest"
    if m: "merge_buffer ok fd rest w = Inr w'" for w'
  proof -
    obtain c c' where c: "grow_sendbuf ok (of_nat (length rest)) ?c = Inr c"
      "w' = upd_cb fd (\<lambda>_. c') w" "recv_half c' = recv_half c"
      using m by (auto simp: merge_buffer_def recv_half_def split: option.splits)
    have "send_step fd w w'" using c grow_sendbuf_half [OF c(1)] l by (simp add: send_step_def)
    then show ?thesis
      using merge_buffer_rep [OF rep m lt] rep length_pending [of fd w] length_pending [of fd w'] by simp
  qed
  ultimately show ?thesis by (auto simp: safe_res_def split: sum.splits)
qed

lemma do_write_conn_safe:
  assumes i: "srv_inv N M b w" and u: "fd \<in> used w" and n: "sendlen (cb (fdi w fd)) \<noteq> 0" and b: "b < 2 ^ 31"
  shows "safe_res (\<lambda>(r, w'). srv_inv N M b w' \<and> send_step fd w w') (do_write_conn fd w)"
proof -
  note rep = srv_inv_send_rep [OF i u]
  have "unat (sendlen (cb (fdi w fd))) < 2 ^ 31" using rep(2) b by simp
  from do_write_conn_half [OF rep(1) n this] rep(2) show ?thesis
    by (auto elim!: safe_mono intro: send_step_srv_inv [OF i u _ order.refl])
qed

lemma merge_buffer_safe:
  assumes i: "srv_inv N M b w" and u: "fd \<in> used w" and len: "b + length rest < 2 ^ 31"
  shows "safe_res (\<lambda>w'. srv_inv N M (b + length rest) w' \<and> send_step fd w w') (merge_buffer ok fd rest w)"
proof -
  note rep = srv_inv_send_rep [OF i u]
  have "unat (sendlen (cb (fdi w fd))) + length rest < 2 ^ 32" using rep len by simp
  from merge_buffer_half [OF rep(1) this, where ok = ok] rep(2) show ?thesis
    by (auto elim!: safe_mono intro: send_step_srv_inv [OF i u _ le_add1])
qed

lemma net_inv_cong:
  "fds w' = fds w \<Longrightarrow> nodes w' = nodes w \<Longrightarrow> maxfd w' = maxfd w \<Longrightarrow> ev_count w' = ev_count w \<Longrightarrow>
   net_inv w' cl et = net_inv w cl et"
  by (simp add: net_inv_def queues_ok_def table_ok_def used_def)

lemma ents_ok_cong:
  "fds w' = fds w \<Longrightarrow> page_size w' = page_size w \<Longrightarrow>
   length (configs (bindconf w')) = length (configs (bindconf w)) \<Longrightarrow> ents_ok b w' = ents_ok b w"
  by (simp add: ents_ok_def used_def)

lemma srv_inv_fds:
  assumes "srv_inv N M b w" "fds w' = fds w" "nodes w' = nodes w" "maxfd w' = maxfd w" "ev_count w' = ev_count w"
    "page_size w' = page_size w" "peer w' = peer w" "is_parent w' = is_parent w" "child_pids w' = child_pids w"
    "bindconf w' = bindconf w" "accepts_fit w'"
  shows "srv_inv N M b w'"
  using assms net_inv_cong [of w' w] ents_ok_cong [of w' w b] by (simp add: srv_inv_def env_ok_def)

lemma srv_inv_interest: "srv_inv N M b w \<Longrightarrow> srv_inv N M b (w\<lparr>interest := x\<rparr>)"
  by (rule srv_inv_fds) (auto simp: srv_inv_def accepts_fit_def used_def)

lemma mod_events_safe: "srv_inv N M b w \<Longrightarrow> srv_inv N M b (snd (mod_events fd o' w))"
  by (auto simp: mod_events_def srv_inv_interest split: option.split)

lemma arm_events_safe: "srv_inv N M b w \<Longrightarrow> srv_inv N M b (arm_events fd p w)"
  by (auto simp: arm_events_def Let_def mod_events_safe)

lemma mod_events_env [simp]:
  "env (snd (mod_events fd o' w)) = env w" "used (snd (mod_events fd o' w)) = used w"
  "sendqs (snd (mod_events fd o' w)) = sendqs w"
  by (auto simp: mod_events_def env_def used_def sendqs_def split: option.split)

lemma arm_events_env [simp]:
  "env (arm_events fd p w) = env w" "used (arm_events fd p w) = used w" "sendqs (arm_events fd p w) = sendqs w"
  by (auto simp: arm_events_def Let_def)

text \<open>What an operation leaves: the invariant, the rest of the state, no new descriptors.\<close>

definition shrunk :: "nat \<Rightarrow> nat \<Rightarrow> nat \<Rightarrow> 't world \<Rightarrow> 't world \<Rightarrow> bool" where
  "shrunk N M b w w' \<longleftrightarrow> srv_inv N M b w' \<and> env w' = env w \<and> sendqs w' = sendqs w \<and> used w' \<subseteq> used w"

lemma shrunk_send_step:
  "srv_inv N M b w' \<Longrightarrow> send_step fd w w' \<Longrightarrow> shrunk N M b w w' \<and> used w' = used w"
  using only_cb_used [of fd w w'] sendqs_cong [of w' w] by (auto simp: shrunk_def send_step_def only_cb_def)

lemma shrunk_trans: "shrunk N M b w1 w2 \<Longrightarrow> shrunk N M b' w2 w3 \<Longrightarrow> shrunk N M b' w1 w3"
  by (auto simp: shrunk_def)

lemma shrunk_mono: "shrunk N M b w w' \<Longrightarrow> b \<le> b' \<Longrightarrow> shrunk N M b' w w'"
  by (auto simp: shrunk_def intro: srv_inv_mono)

lemma drop_conn_safe:
  assumes i: "srv_inv N M b w" and l: "fd < length (fds w)" and m: "mode = 1 \<or> mode = 2"
  shows "safe_res (\<lambda>w'. shrunk N M b w w' \<and> fd \<notin> used w') (do_del_conn dll fd mode w)"
  using do_del_conn_safe [OF srv_inv_but [OF i l] m] by (rule safe_mono) (auto simp: shrunk_def)

lemma flush_pending_safe:
  assumes i: "srv_inv N M b w" and u: "fd \<in> used w" and b: "b < 2 ^ 31"
  shows "safe_res (\<lambda>(st, w'). shrunk N M b w w' \<and> (st \<noteq> None \<longrightarrow> fd \<in> used w')) (flush_pending dll fd w)"
proof (cases "sendlen (cb (fdi w fd)) = 0")
  case True
  then show ?thesis using i u by (simp add: flush_pending_def shrunk_def)
next
  case False
  then have g: "(sendlen (cb (fdi w fd)) > 0) = True" by (simp add: word_gt_0)
  show ?thesis
    unfolding flush_pending_def g if_True
  proof (rule safe_bind [OF do_write_conn_safe [OF i u False b]], safe)
    fix r w1 assume w1: "srv_inv N M b w1" "send_step fd w w1"
    note s = shrunk_send_step [OF w1]
    have l1: "fd < length (fds w1)" using s u by (auto simp: used_def)
    have p1: "is_parent w1" using srv_invD(5) [OF w1(1)] .
    show "safe_res (\<lambda>(st, w'). shrunk N M b w w' \<and> (st \<noteq> None \<longrightarrow> fd \<in> used w'))
      (if r = -1 then bindR (do_del_conn dll fd (if is_parent w1 then 1 else 0) w1) (\<lambda>w2. Inr (None, w2))
          else Inr (Some True, w1))"
      using s u p1 shrunk_trans [OF conjunct1 [OF s]]
      by (auto intro!: safe_bind [OF drop_conn_safe [OF w1(1) l1]])
  qed
qed


lemma send_fresh_safe:
  assumes i: "srv_inv N M b w" and u: "fd \<in> used w" and d: "data \<noteq> []" "length data < 2 ^ 31"
  shows "safe_res (\<lambda>(sb, w'). shrunk N M b w w' \<and> (sb \<noteq> None \<longrightarrow> fd \<in> used w')) (send_fresh dll fd data w)"
proof (cases "sendlen (cb (fdi w fd)) = 0")
  case False
  then show ?thesis using i u by (simp add: send_fresh_def shrunk_def)
next
  case True
  have sm: "small (of_nat (length data))" using d by (simp add: small_def unat_of_nat_small)
  have "0 < sint (of_nat (length data) :: u32)" using sint_small [OF sm] d by (simp add: unat_of_nat_small)
  note sn = safe_tcp_send_n_safe [OF this, of "send_as w"]
  have l: "fd < length (fds w)" using u by (simp add: used_def)
  have p: "is_parent w" using srv_invD(5) [OF i] .
  have i1: "srv_inv N M b (w\<lparr>send_as := as, tx := t\<rparr>)" for as t
    using i by (rule srv_inv_fds) (use srv_invD(2) [OF i] in \<open>auto simp: accepts_fit_def used_def\<close>)
  have s1: "env (w\<lparr>send_as := as, tx := t\<rparr>) = env w" "used (w\<lparr>send_as := as, tx := t\<rparr>) = used w"
    "sendqs (w\<lparr>send_as := as, tx := t\<rparr>) = sendqs w" for as t
    by (simp_all add: env_def used_def sendqs_def)
  show ?thesis
    unfolding send_fresh_def Let_def
    using True i1 s1 p l u
    by (auto intro!: safe_bind [OF sn] safe_bind [OF drop_conn_safe [OF i1]] simp: shrunk_def)
qed

lemma net_send_safe:
  assumes i: "srv_inv N M b w" and u: "fd \<in> used w" and d: "data \<noteq> []" "b + length data < 2 ^ 31"
  shows "safe_res (\<lambda>(r, w'). shrunk N M (b + length data) w w') (net_send dll ok fd data w)"
proof -
  have l: "fd_ok w fd" using u by (simp add: used_def fd_ok_def)
  have b: "b < 2 ^ 31" using d by simp
  have fin: "safe_res (\<lambda>(r, w'). shrunk N M (b + length data) w w')
      (if length data > k then bindR (merge_buffer ok fd (drop k data) w2) (\<lambda>w3.
         if over_limit fd w3 then Inr (-1, w3) else Inr (0, arm_events fd p w3))
       else Inr (0 :: int, arm_events fd p w2))"
    if s: "shrunk N M b w w2" "fd \<in> used w2" for k p w2
  proof -
    have i2: "srv_inv N M b w2" using s(1) by (simp add: shrunk_def)
    have arm: "shrunk N M c w (arm_events fd p v)" if "shrunk N M c w v" for c v
      using that arm_events_safe by (auto simp: shrunk_def)
    have le: "b + length (drop k data) < 2 ^ 31" using d by simp
    have post: "shrunk N M (b + length data) w w3"
      if "srv_inv N M (b + length (drop k data)) w3" "send_step fd w2 w3" for w3
      using shrunk_trans [OF s(1) conjunct1 [OF shrunk_send_step [OF that]]] by (rule shrunk_mono) simp
    show ?thesis
      using s arm post shrunk_mono [OF s(1)]
      by (auto intro!: safe_bind [OF merge_buffer_safe [OF i2 s(2) le]])
  qed
  have f: "safe_res (\<lambda>(r, w'). shrunk N M (b + length data) w w')
      (bindR (send_fresh dll fd data w1) (\<lambda>(sb, w2). case sb of None \<Rightarrow> Inr (-1 :: int, w2)
        | Some k \<Rightarrow> if length data > k then bindR (merge_buffer ok fd (drop k data) w2) (\<lambda>w3.
             if over_limit fd w3 then Inr (-1, w3) else Inr (0, arm_events fd p w3))
           else Inr (0, arm_events fd p w2)))"
    if w1: "shrunk N M b w w1" "fd \<in> used w1" for p w1
  proof -
    have i1: "srv_inv N M b w1" using w1(1) by (simp add: shrunk_def)
    have ld: "length data < 2 ^ 31" using d by simp
    show ?thesis
      using shrunk_trans [OF w1(1)] shrunk_mono [of N M b w _ "b + length data"]
      by (auto intro!: safe_bind [OF send_fresh_safe [OF i1 w1(2) d(1) ld]] safe_option fin split del: if_split)
  qed
  show ?thesis
    unfolding net_send_def
    using l shrunk_mono [of N M b w _ "b + length data"]
    by (auto intro!: safe_bind [OF flush_pending_safe [OF i u b]] safe_option f)
qed


section \<open>Output of the workers\<close>

text \<open>The relation between any two states of the loop: the page and table size never change.\<close>

definition follows :: "nat \<Rightarrow> nat \<Rightarrow> nat \<Rightarrow> 't world \<Rightarrow> 't world \<Rightarrow> bool" where
  "follows N M b w w' \<longleftrightarrow> srv_inv N M b w' \<and> page_size w' = page_size w \<and> length (fds w') = length (fds w)"

lemma follows_refl: "srv_inv N M b w \<Longrightarrow> follows N M b w w"
  by (simp add: follows_def)

lemma follows_trans: "follows N M b w1 w2 \<Longrightarrow> follows N M b' w2 w3 \<Longrightarrow> follows N M b' w1 w3"
  by (simp add: follows_def)

lemma follows_shrunk: "shrunk N M b w w' \<Longrightarrow> follows N M b w w'"
  using env_eqD [of w' w] by (simp add: shrunk_def follows_def)

lemma safe_follows:
  "safe_res (follows N M b w) m \<Longrightarrow> (\<And>w1. follows N M b w w1 \<Longrightarrow> safe_res (follows N M b' w1) (f w1)) \<Longrightarrow>
   safe_res (follows N M b' w) (bindR m f)"
  by (rule safe_bind) (auto intro: safe_mono follows_trans)

lemma safe_from:
  assumes f: "follows N M b w v"
    and "srv_inv N M b v \<Longrightarrow> page_size v = page_size w \<Longrightarrow> safe_res (follows N M b' v) m"
  shows "safe_res (follows N M b' w) m"
  by (rule safe_mono [of "follows N M b' v"]) (use assms in \<open>auto simp: follows_def\<close>)

lemma safe_from2:
  assumes f: "follows N M b w v"
    and "srv_inv N M b v \<Longrightarrow> page_size v = page_size w \<Longrightarrow> safe_res (\<lambda>(c, w'). follows N M b' v w') m"
  shows "safe_res (\<lambda>(c, w'). follows N M b' w w') m"
  by (rule safe_mono [of "\<lambda>(c, w'). follows N M b' v w'"]) (use assms in \<open>auto simp: follows_def\<close>)

lemma add_to_close_queue_safe:
  assumes i: "srv_inv N M b w" and u: "fd \<in> used w"
  shows "safe_res (shrunk N M b w) (add_to_close_queue fd w)"
proof -
  have l: "fd < length (fds w)" using u by (simp add: used_def)
  obtain cl et where "queues_ok w cl et" using i by (auto simp: srv_inv_def net_inv_def)
  then obtain w' cl' et' where w': "add_to_close_queue fd w = Inr w'" "reflagged fd w w'" "queues_ok w' cl' et'"
    using add_to_close_queue_spec [OF _ l] by blast
  show ?thesis using w'(1) reflagged_srv_inv [OF i u w'(2,3)] by (simp add: shrunk_def)
qed

lemma schedule_output_safe:
  assumes i: "srv_inv N M b w" and x: "out_msg x" "b + length (snd x) < 2 ^ 31"
  shows "safe_res (\<lambda>(r, w'). shrunk N M (b + length (snd x)) w w') (schedule_output dll ok x w)"
proof -
  let ?fd = "nat (sint (mb_fd (fst x)))"
  have 0: "shrunk N M (b + length (snd x)) w w" using srv_inv_mono [OF i] by (simp add: shrunk_def)
  show ?thesis
  proof (cases "sint (mb_fd (fst x)) > maxfd w \<or> sint (mb_fd (fst x)) < 0")
    case True
    then show ?thesis using 0 by (simp add: schedule_output_def Let_def)
  next
    case False
    then have l: "?fd < length (fds w)" by (intro srv_inv_maxfd [OF i]) simp
    consider "fi_type (fdi w ?fd) \<noteq> fd_type_remote \<or> mb_id (fst x) \<noteq> fi_id (fdi w ?fd)"
      | "fi_type (fdi w ?fd) = fd_type_remote" "mb_id (fst x) = fi_id (fdi w ?fd)" "mb_type (fst x) = FIN_BLOCK"
      | "fi_type (fdi w ?fd) = fd_type_remote" "mb_id (fst x) = fi_id (fdi w ?fd)" "mb_type (fst x) \<noteq> FIN_BLOCK"
      by blast
    then show ?thesis
    proof cases
      case 1
      then show ?thesis using False l 0 by (auto simp: schedule_output_def Let_def fd_ok_def)
    next
      case 2
      then have "?fd \<in> used w" using l by (simp add: used_def)
      then show ?thesis
        using False l 2 shrunk_mono [of N M b w _ "b + length (snd x)"]
        by (auto simp: schedule_output_def Let_def fd_ok_def intro!: safe_bind [OF add_to_close_queue_safe [OF i]])
    next
      case 3
      then have "?fd \<in> used w" "snd x \<noteq> []" using l x(1) by (auto simp: used_def out_msg_def)
      from net_send_safe [OF i this x(2)] show ?thesis
        using False l 3 by (simp add: schedule_output_def Let_def fd_ok_def)
    qed
  qed
qed

text \<open>A queue holds no more payload than its mapping has bytes.\<close>

lemma seg_total: "seg m a xs z \<Longrightarrow> a + length (concat (map snd xs)) \<le> z"
  by (induction xs arbitrary: a) (fastforce simp: msg_len_def)+

lemma q_rep_total: "q_rep ps q xs \<Longrightarrow> length (concat (map snd xs)) \<le> unat (q_length q)"
proof -
  assume q: "q_rep ps q xs"
  from q have sz: "qsz q = unat (q_length q)" by (simp add: q_rep_def shmq_cfg_def)
  from q consider "linear q xs" | "wrapped ps q xs" by (auto simp: q_rep_def)
  then show ?thesis
  proof cases
    case 1
    then show ?thesis using seg_total [of "mem q" "tpos q" xs "hpos q"] q sz by (simp add: linear_def q_rep_def)
  next
    case 2
    then obtain e ys zs where "xs = ys @ zs" "seg (mem q) (tpos q) ys e" "e \<le> qsz q" "seg (mem q) 8 zs (hpos q)"
      "hpos q < tpos q"
      by (auto simp: wrapped_def)
    then show ?thesis
      using seg_total [of "mem q" "tpos q" ys e] seg_total [of "mem q" 8 zs "hpos q"] sz by simp
  qed
qed


lemma shmq_pop_pipe: "shmq_pop q = Inr (r, q') \<Longrightarrow> pipe_handles q' = pipe_handles q"
  by (auto simp: shmq_pop_def align_queue_tail_def split: if_splits)

lemma srv_inv_set_conf:
  assumes "srv_inv N M b w" "chan_ok (page_size w) M (length (fds w)) e"
  shows "srv_inv N M b (w\<lparr>bindconf := (bindconf w)\<lparr>configs := (configs (bindconf w))[i := e]\<rparr>\<rparr>)"
proof -
  let ?w = "w\<lparr>bindconf := (bindconf w)\<lparr>configs := (configs (bindconf w))[i := e]\<rparr>\<rparr>"
  have "used ?w = used w" by (simp add: used_def)
  then show ?thesis
    using assms env_ok_set_conf [OF _ assms(2), of N i]
    by (simp add: srv_inv_def ents_ok_def accepts_fit_def net_inv_def queues_ok_def table_ok_def)
qed

lemma drain_sendq_safe:
  assumes "srv_inv N M b w" "sendq_rep i w xs" "list_all out_msg xs" "b + length (concat (map snd xs)) < 2 ^ 31"
  shows "safe_res (follows N M (b + length (concat (map snd xs))) w) (drain_sendq fuel dll ok i w)"
  using assms
proof (induction fuel arbitrary: w xs b)
  case (Suc fuel)
  note inv = Suc.prems(1)
  let ?e = "configs (bindconf w) ! i"
  have i: "i < length (configs (bindconf w))" and q: "q_rep (page_size w) (sendq ?e) xs"
    using Suc.prems(2) by (auto simp: sendq_rep_def)
  have ch: "chan_ok (page_size w) M (length (fds w)) ?e"
    using srv_invD(1) [OF inv] i by (simp add: env_ok_def)
  define W where "W q' = w\<lparr>bindconf := (bindconf w)\<lparr>configs := (configs (bindconf w))[i := ?e\<lparr>sendq := q'\<rparr>]\<rparr>\<rparr>" for q'
  have W: "srv_inv N M b (W q') \<and> sendq_rep i (W q') ys \<and> follows N M b w (W q')"
    if "shmq_pop (sendq ?e) = Inr (p, q')" "q_rep (page_size w) q' ys" "list_all out_msg ys" for p q' ys
  proof -
    have "srv_inv N M b (W q')"
      unfolding W_def using ch that i shmq_pop_length [OF that(1)] shmq_pop_pipe [OF that(1)]
      by (intro srv_inv_set_conf [OF inv]) (auto simp: chan_ok_def)
    with that i show ?thesis by (simp add: W_def sendq_rep_def follows_def)
  qed
  show ?case
  proof (cases xs)
    case Nil
    then obtain q' where p: "shmq_pop (sendq ?e) = Inr (None, q')" "q_rep (page_size w) q' []"
      using shmq_pop_rep [OF q] by auto
    then have "drain_sendq (Suc fuel) dll ok i w = Inr (W q')" using i by (simp add: W_def Let_def)
    then show ?thesis using W [OF p] Nil by simp
  next
    case (Cons x ys)
    obtain off q' where p: "shmq_pop (sendq ?e) = Inr (Some (int off), q')" "q_rep (page_size w) q' ys"
        "bytes_at (mem (sendq ?e)) off (msg_len x) = enc_msg x" "tpos q' = off + msg_len x" "8 \<le> off"
        "mem q' = mem (sendq ?e)"
      using shmq_pop_rep [OF q] Cons by auto
    have "msg_ok (unat (page_size w)) x" using q_repD(7) [OF q] Cons by simp
    then have rd: "read_msg q' (int off) = Inr x"
      using p q_repD [OF p(2)] by (intro read_msg_enc) (auto simp: msg_ok_def)
    have oys: "list_all out_msg ys" "out_msg x" using Suc.prems(3) Cons by auto
    note W1 = W [OF p(1,2) oys(1)]
    have le: "b + length (snd x) < 2 ^ 31" using Suc.prems(4) Cons by simp
    have eq: "drain_sendq (Suc fuel) dll ok i w =
        bindR (schedule_output dll ok x (W q')) (\<lambda>(r, w2). drain_sendq fuel dll ok i w2)"
      using i p(1) rd by (simp add: W_def Let_def)
    show ?thesis
      unfolding eq
    proof (rule safe_bind [OF schedule_output_safe [OF conjunct1 [OF W1] oys(2) le]], clarify)
      fix r w2 assume s: "shrunk N M (b + length (snd x)) (W q') w2"
      have "sendq_rep i w2 ys"
        using W1 s sendqs_nth [of w2 "W q'" i] env_eqD(1) [of w2 "W q'"] by (auto simp: sendq_rep_def shrunk_def)
      then have "safe_res (follows N M (b + length (concat (map snd xs))) w2) (drain_sendq fuel dll ok i w2)"
        using Suc.IH [of "b + length (snd x)" w2 ys] s oys Suc.prems(4) Cons by (simp add: shrunk_def add.assoc)
      moreover have "follows N M (b + length (snd x)) w w2"
        using follows_trans [OF conjunct2 [OF conjunct2 [OF W1]] follows_shrunk [OF s]] .
      ultimately show "safe_res (follows N M (b + length (concat (map snd xs))) w) (drain_sendq fuel dll ok i w2)"
        by (metis safe_from)
    qed
  qed
qed simp

lemma handle_send_queue_safe:
  assumes "srv_inv N M b w" "b + N * M < 2 ^ 31"
  shows "safe_res (follows N M (b + N * M) w) (handle_send_queue fuel dll ok w)"
proof -
  have "safe_res (follows N M (b + length ks * M) w) (foldR (drain_sendq fuel dll ok) ks w)"
    if "srv_inv N M b w" "\<forall>k\<in>set ks. k < N" "b + length ks * M < 2 ^ 31" for ks b w
    using that
  proof (induction ks arbitrary: b w)
    case Nil
    then show ?case by (simp add: follows_refl)
  next
    case (Cons k ks)
    have k: "k < length (configs (bindconf w))" using Cons.prems srv_invD(1) [of N M b w] by (auto simp: env_ok_def)
    then have ch: "chan_ok (page_size w) M (length (fds w)) (configs (bindconf w) ! k)"
      using srv_invD(1) [OF Cons.prems(1)] by (simp add: env_ok_def)
    then obtain xs where q: "q_rep (page_size w) (sendq (configs (bindconf w) ! k)) xs" "list_all out_msg xs"
      by (auto simp: chan_ok_def)
    then have xs: "sendq_rep k w xs" "list_all out_msg xs" "length (concat (map snd xs)) \<le> M"
      using k ch q_rep_total [OF q(1)] by (simp_all add: sendq_rep_def chan_ok_def)
    have "b + length (concat (map snd xs)) < 2 ^ 31" using xs(3) Cons.prems(3) by simp
    note d = drain_sendq_safe [OF Cons.prems(1) xs(1,2) this, of fuel dll ok]
    have "safe_res (follows N M (b + M) w) (drain_sendq fuel dll ok k w)"
      using d by (rule safe_mono) (use xs(3) in \<open>auto simp: follows_def elim: srv_inv_mono\<close>)
    moreover have "safe_res (follows N M (b + length (k # ks) * M) w1) (foldR (drain_sendq fuel dll ok) ks w1)"
      if "follows N M (b + M) w w1" for w1
    proof -
      have "srv_inv N M (b + M) w1" using that by (simp add: follows_def)
      from Cons.IH [OF this] Cons.prems(2,3) show ?thesis by (simp add: add.assoc)
    qed
    ultimately show ?case unfolding foldR.simps by (rule safe_follows)
  qed
  from this [of b w "[0..<N]"] assms show ?thesis
    using srv_invD(1) [OF assms(1)] by (simp add: handle_send_queue_def env_ok_def)
qed


section \<open>Reading\<close>

lemma send_ok_half: "send_half c' = send_half c \<Longrightarrow> send_ok b c' = send_ok b c"
  by (simp add: send_half_def send_ok_def split: option.split)

definition recv_step :: "nat \<Rightarrow> nat \<Rightarrow> nat \<Rightarrow> 't world \<Rightarrow> 't world \<Rightarrow> bool" where
  "recv_step N M fd w w' \<longleftrightarrow> only_cb fd w w' \<and> sendqs w' = sendqs w \<and> env_ok N M w' \<and>
     send_half (cb (fdi w' fd)) = send_half (cb (fdi w fd))"

lemma recv_step_trans: "recv_step N M fd w1 w2 \<Longrightarrow> recv_step N M fd w2 w3 \<Longrightarrow> recv_step N M fd w1 w3"
  using only_cb_trans by (auto simp: recv_step_def)

lemma recv_step_upd:
  assumes "env_ok N M w" "fd < length (fds w)" "\<And>c. send_half (f c) = send_half c"
  shows "recv_step N M fd w (upd_cb fd f w)"
proof -
  have "env (upd_cb fd f w) = env w" by (simp add: env_def upd_cb_def upd_fd_def)
  then show ?thesis
    using assms env_ok_cong [of "upd_cb fd f w" w] sendqs_cong [of "upd_cb fd f w" w] by (simp add: recv_step_def)
qed

lemma recv_step_pushed: "pushed N M w w' \<Longrightarrow> recv_step N M fd w w'"
  by (auto simp: pushed_def recv_step_def)

lemma hand_over_safe:
  assumes "env_ok N M w" "bc_elem (fdi w fd) = Some i" "i < length (configs (bindconf w))" "length pkg < 2 ^ 31"
  shows "safe_res (\<lambda>(r, w'). pushed N M w w') (hand_over dll fd True pkg w)"
  using push_recvq_safe [OF assms(1,3)] mk_block_fits [OF assms(4), of w fd] assms(2)
  by (simp add: hand_over_def mk_block_def)

text \<open>The window of \<open>net_recv\<close> with no condition on the remembered length.\<close>

definition held :: "nat \<Rightarrow> 't world \<Rightarrow> byte list \<Rightarrow> nat \<Rightarrow> byte list \<Rightarrow> bool" where
  "held fd w buf pos B \<longleftrightarrow> window (fixed_len (rcvprotlen (cb (fdi w fd)))) fd w buf pos B"

lemma window_held: "window dll fd w buf pos B \<Longrightarrow> held fd w buf pos B"
  by (simp add: held_def window_def fixed_len_def)

lemma held_fresh: "held fd w buf pos B \<Longrightarrow> rcvprotlen (cb (fdi w fd)) = 0 \<Longrightarrow> window dll fd w buf pos B"
  by (simp add: held_def window_def)

lemma held_recv_ok: "held fd w buf 0 B \<Longrightarrow> recv_ok (page_size w) (cb (fdi w fd))"
  using window_len(2) [of "fixed_len (rcvprotlen (cb (fdi w fd)))" fd w buf 0 B]
  by (simp add: held_def recv_ok_def) (simp add: window_def)

lemma learn_pkg_len_held:
  fixes dll :: "'t serv_if"
  assumes h: "held fd w buf pos B"
  defines "n \<equiv> (if rcvprotlen (cb (fdi w fd)) = 0 then get_pkg_len dll fd B True else rcvprotlen (cb (fdi w fd)))"
  defines "w1 \<equiv> upd_cb fd (\<lambda>c. c\<lparr>rcvprotlen := n\<rparr>) w"
  shows "learn_pkg_len dll fd True pos w = Inr w1" "held fd w1 buf pos B"
    "rcvprotlen (cb (fdi w1 fd)) = n" "recvlen (cb (fdi w1 fd)) = of_nat (length B)"
proof -
  have l: "fd < length (fds w)" using h by (simp add: held_def window_def)
  show "rcvprotlen (cb (fdi w1 fd)) = n" using l by (simp add: w1_def)
  show "recvlen (cb (fdi w1 fd)) = of_nat (length B)" "held fd w1 buf pos B"
    using h l by (simp_all add: w1_def held_def window_def fixed_len_def)
  show "learn_pkg_len dll fd True pos w = Inr w1"
  proof (cases "rcvprotlen (cb (fdi w fd)) = 0")
    case True
    then show ?thesis using learn_pkg_len_window(1) [OF held_fresh [OF h True]] by (simp add: w1_def n_def)
  next
    case False
    then have "w1 = w" by (simp add: w1_def n_def upd_cb_def upd_fd_def)
    with False show ?thesis by (simp add: learn_pkg_len_def)
  qed
qed

definition parse_post :: "nat \<Rightarrow> nat \<Rightarrow> nat \<Rightarrow> byte list \<Rightarrow> 't world \<Rightarrow> int \<times> nat option \<times> 't world \<Rightarrow> bool" where
  "parse_post N M fd buf w = (\<lambda>(r, p, w'). recv_step N M fd w w' \<and>
     (case p of None \<Rightarrow> r = -1 | Some q \<Rightarrow> \<exists>R. held fd w' buf q R))"

lemma parse_loop_inv:
  assumes "held fd w buf pos B" "length B < fuel" "bc_elem (fdi w fd) = Some i"
    "i < length (configs (bindconf w))" "env_ok N M w"
  shows "safe_res (parse_post N M fd buf w) (parse_loop fuel dll fd (page_size w) True pos cnt w)"
  using assms
proof (induction fuel arbitrary: pos cnt w B)
  case (Suc fuel)
  note win = Suc.prems(1)
  define n where "n = (if rcvprotlen (cb (fdi w fd)) = 0 then get_pkg_len dll fd B True else rcvprotlen (cb (fdi w fd)))"
  define w1 where "w1 = upd_cb fd (\<lambda>c. c\<lparr>rcvprotlen := n\<rparr>) w"
  note lp = learn_pkg_len_held [OF win, of dll, folded n_def, folded w1_def]
  have l: "fd < length (fds w)" using win by (simp add: held_def window_def)
  have B: "length B < 2 ^ 31" using window_len [OF win [unfolded held_def]] by simp
  have ge: "(of_nat (length B) :: u32) \<ge> n \<longleftrightarrow> unat n \<le> length B"
    using B by (simp add: word_le_nat_alt unat_of_nat_small)
  have s1: "recv_step N M fd w w1"
    unfolding w1_def by (rule recv_step_upd [OF Suc.prems(5) l]) (simp add: send_half_def)
  show ?case
  proof (cases "n = 0 \<or> length B < unat n \<or> n > page_size w")
    case True
    then show ?thesis unfolding parse_loop_Suc using lp ge s1 by (auto simp: parse_post_def Let_def)
  next
    case False
    then have k: "0 < unat n" "unat n \<le> length B" by (auto simp: unat_eq_0 intro: gr0I)
    have id1: "bc_elem (fdi w1 fd) = Some i" "i < length (configs (bindconf w1))" "env_ok N M w1"
      using l Suc.prems(3,4) s1 by (auto simp: w1_def recv_step_def)
    have lt: "length (take (unat n) B) < 2 ^ 31" using B by simp
    have "parse_loop (Suc fuel) dll fd (page_size w) True pos cnt w =
        bindR (hand_over dll fd True (take (unat n) B) w1) (after_pkg fuel dll fd (page_size w) True pos cnt)"
      unfolding parse_loop_Suc using lp ge False window_recv_bytes [OF lp(2) [unfolded held_def] k(2)] by (simp add: Let_def)
    also have "safe_res (parse_post N M fd buf w) \<dots>"
    proof (rule safe_bind [OF hand_over_safe [OF id1(3,1,2) lt]], clarify)
      fix r w2 assume p: "pushed N M w1 w2"
      then obtain b where b: "w2 = w1\<lparr>bindconf := b\<rparr>" by (auto simp: pushed_def)
      let ?w3 = "take_pkg fd n w2"
      have n2: "window (fixed_len n) fd w2 buf pos B" "rcvprotlen (cb (fdi w2 fd)) = n"
        using lp(2,3) b by (auto simp: held_def window_bindconf)
      note adv = window_held [OF take_window(1) [OF n2(1) k n2(2)]]
      have s2: "recv_step N M fd w w2" using recv_step_trans [OF s1 recv_step_pushed [OF p]] .
      have "env_ok N M w2" "fd < length (fds w2)" using p l by (auto simp: pushed_def b w1_def)
      then have "recv_step N M fd w2 ?w3" unfolding take_pkg_def by (rule recv_step_upd) (simp add: send_half_def)
      from recv_step_trans [OF s2 this] have s3: "recv_step N M fd w ?w3" .
      have id3: "page_size ?w3 = page_size w" "bc_elem (fdi ?w3 fd) = Some i" "i < length (configs (bindconf ?w3))"
        using l id1 b sendqs_length [of ?w3 w] s3 Suc.prems(4) by (simp_all add: take_pkg_def w1_def recv_step_def)
      have "length (drop (unat n) B) < fuel" using Suc.prems(2) k by simp
      then have "safe_res (parse_post N M fd buf ?w3) (parse_loop fuel dll fd (page_size w) True (skip_pkg fd n pos w2) (cnt + 1) ?w3)"
        using Suc.IH [OF adv _ id3(2,3)] s3 id3(1) by (simp add: recv_step_def)
      then have "safe_res (parse_post N M fd buf w) (parse_loop fuel dll fd (page_size w) True (skip_pkg fd n pos w2) (cnt + 1) ?w3)"
        by (rule safe_mono) (auto simp: parse_post_def intro: recv_step_trans [OF s3])
      then show "safe_res (parse_post N M fd buf w) (after_pkg fuel dll fd (page_size w) True pos cnt (r, w2))"
        using adv s2 s3 n2(2) by (auto simp: parse_post_def after_pkg_def Let_def)
    qed
    finally show ?thesis .
  qed
qed simp

definition read_post :: "nat \<Rightarrow> nat \<Rightarrow> nat \<Rightarrow> nat \<Rightarrow> 't world \<Rightarrow> 't world \<Rightarrow> bool" where
  "read_post N M b fd w w' \<longleftrightarrow> inv_but N M b fd w' \<and> env w' = env w \<and> sendqs w' = sendqs w \<and> used w' = used w \<and>
     core (fdi w' fd) = (fi_type (fdi w fd), bc_elem (fdi w fd), cb (fdi w' fd)) \<and>
     send_half (cb (fdi w' fd)) = send_half (cb (fdi w fd))"

lemma read_post_srv:
  assumes i: "srv_inv N M b w" and u: "fd \<in> used w" "fi_type (fdi w fd) \<noteq> fd_type_pipe"
    and r: "read_post N M b fd w w'" and win: "held fd w' buf 0 B"
  shows "srv_inv N M b w'"
proof (rule inv_but_srv)
  show "inv_but N M b fd w'" using r by (simp add: read_post_def)
  have "recv_ok (page_size w') (cb (fdi w' fd))" by (rule held_recv_ok [OF win])
  then show "entry_ok (page_size w') (length (configs (bindconf w'))) b (fdi w' fd)"
    using srv_inv_entry(1) [OF i u(1)] r u send_ok_half [of "cb (fdi w' fd)" "cb (fdi w fd)" b] sendqs_length [of w' w]
      env_eqD(1) [of w' w]
    by (auto simp: entry_ok_def read_post_def core_def)
qed

lemma recv_only_inv_but:
  assumes i: "inv_but N M b fd w" and u: "fd \<in> used w" and r: "recv_only fd w w'"
  shows "inv_but N M b fd w' \<and> env w' = env w \<and> sendqs w' = sendqs w \<and> used w' = used w"
proof -
  have o: "only_cb fd w w'" "bindconf w' = bindconf w" "env w' = env w" using r by (auto simp: recv_only_def only_cb_def)
  have "env_ok N M w'" using env_ok_cong [OF o(3,2)] i by (simp add: inv_but_def)
  from inv_but_only_cb [OF i o(1) u order.refl this] show ?thesis
    using o sendqs_cong [OF o(2)] only_cb_used [OF o(1)] by simp
qed

lemma do_read_conn_safe:
  assumes i: "srv_inv N M b w" and u: "fd \<in> used w"
  shows "safe_res (\<lambda>(r, w'). read_post N M b fd w w' \<and> (r \<noteq> -1 \<longrightarrow> (\<exists>buf B. held fd w' buf 0 B)))
    (do_read_conn fd (page_size w) w)"
proof -
  have l: "fd < length (fds w)" using u by (simp add: used_def)
  obtain cl et where q: "queues_ok w cl et" using i by (auto simp: srv_inv_def net_inv_def)
  obtain B where rep: "conn_rep (fixed_len (rcvprotlen (cb (fdi w fd)))) fd w B"
    using srv_inv_entry(1) [OF i u] recv_ok_rep [OF l srv_invD(6) [OF i]] by (auto simp: entry_ok_def)
  have "safe_res (\<lambda>_. True) (do_read_conn fd (page_size w) w)"
    using do_read_conn_fault [OF rep q] by (auto simp: safe_res_def exit_fault_def split: sum.split)
  then show ?thesis
  proof (rule safe_mono [OF safe_also], safe)
    fix r w' assume d: "do_read_conn fd (page_size w) w = Inr (r, w')"
    obtain w3 where w3: "recv_only fd w w3"
      "w' = w3 \<or> add_to_etin_queue fd w3 = Inr w' \<or> del_from_etin_queue fd w3 = Inr w'"
      using do_read_conn_steps [OF d] by blast
    have i3: "inv_but N M b fd w3" "env w3 = env w" "sendqs w3 = sendqs w" "used w3 = used w"
      using recv_only_inv_but [OF srv_inv_but [OF i l] u w3(1)] by auto
    obtain cl' et' where q3: "queues_ok w3 cl' et'" using i3(1) by (auto simp: inv_but_def net_inv_def)
    obtain et2 where r3: "reflagged fd w3 w'" "queues_ok w' cl' et2"
      using etin_ops_reflagged [OF q3 _ w3(2)] i3(1) by (auto simp: inv_but_def)
    have i': "inv_but N M b fd w'" "env w' = env w3" "sendqs w' = sendqs w3" "used w' = used w3"
      using reflagged_inv_but [OF i3(1) _ r3] u i3(4) by auto
    have "core (fdi w' fd) = core (fdi w3 fd)" using reflagged_frame(3) [OF r3(1)] .
    then show "read_post N M b fd w w'"
      using i' i3 w3(1) l by (auto simp: read_post_def recv_only_def only_cb_def same_table_def core_def)
    assume "r \<noteq> -1"
    from do_read_conn_rep [OF rep fixed_len_stable d this] show "\<exists>buf B. held fd w' buf 0 B" using window_held by blast
  qed
qed


lemma compact_halves:
  "compact fd pos w = Inr w' \<Longrightarrow> fd < length (fds w) \<Longrightarrow> recvptr (cb (fdi w fd)) \<noteq> None \<Longrightarrow>
   send_half (cb (fdi w' fd)) = send_half (cb (fdi w fd)) \<and> recvptr (cb (fdi w' fd)) \<noteq> None"
  by (auto simp: compact_def Let_def send_half_def split: if_splits option.splits)

lemma compact_step:
  assumes win: "held fd w buf pos B" and e: "env_ok N M w"
  shows "safe_res (\<lambda>w'. recv_step N M fd w w' \<and> (\<exists>B buf. held fd w' buf 0 B)) (compact fd pos w)"
proof -
  obtain c ov where c: "compact fd pos w = Inr ((upd_cb fd (\<lambda>_. c) w)\<lparr>overlap := ov\<rparr>)"
    "conn_rep (fixed_len (rcvprotlen (cb (fdi w fd)))) fd ((upd_cb fd (\<lambda>_. c) w)\<lparr>overlap := ov\<rparr>) B"
    using compact_window [OF win [unfolded held_def]] by blast
  define w' where "w' = (upd_cb fd (\<lambda>_. c) w)\<lparr>overlap := ov\<rparr>"
  have e': "env w' = env w" "bindconf w' = bindconf w" by (simp_all add: w'_def env_def upd_cb_def upd_fd_def)
  have o: "only_cb fd w w'" unfolding w'_def using only_cb_trans [OF only_cb_simps(2,8)] .
  have h: "send_half (cb (fdi w' fd)) = send_half (cb (fdi w fd))" "recvptr (cb (fdi w' fd)) \<noteq> None"
    using compact_halves [OF c(1)] win by (auto simp: held_def window_def w'_def)
  then have "recv_step N M fd w w'"
    using o env_ok_cong [OF e'] e sendqs_cong [OF e'(2)] by (simp add: recv_step_def)
  moreover obtain buf' where "recvptr (cb (fdi w' fd)) = Some buf'" using h(2) by blast
  then have "held fd w' buf' 0 B" using c(2) by (intro window_held conn_rep_window) (simp_all add: w'_def)
  ultimately show ?thesis using c(1) by (auto simp: w'_def [symmetric])
qed

text \<open>After \<open>net_recv\<close>: if it failed, the caller may only close the connection.\<close>

definition recv_post :: "nat \<Rightarrow> nat \<Rightarrow> nat \<Rightarrow> nat \<Rightarrow> 't world \<Rightarrow> int \<times> 't world \<Rightarrow> bool" where
  "recv_post N M b fd w = (\<lambda>(r, w'). inv_but N M b fd w' \<and> env w' = env w \<and> sendqs w' = sendqs w \<and>
     used w' = used w \<and> (r \<noteq> -1 \<longrightarrow> srv_inv N M b w'))"

lemma recv_step_post:
  assumes i: "srv_inv N M b w" and u: "fd \<in> used w" and s: "recv_step N M fd w w'"
  shows "read_post N M b fd w w'"
proof -
  have "fd < length (fds w)" using u by (simp add: used_def)
  from inv_but_only_cb [OF srv_inv_but [OF i this] _ u order.refl] s have "inv_but N M b fd w'"
    using sendqs_length [of w' w] by (auto simp: recv_step_def)
  then show ?thesis
    using s only_cb_used [of fd w w'] u
    by (auto simp: recv_step_def read_post_def only_cb_def core_def same_table_def used_def)
qed

lemma parse_compact_safe:
  assumes i: "srv_inv N M b w" and u: "fd \<in> used w" "fi_type (fdi w fd) \<noteq> fd_type_pipe"
    and win: "held fd w buf 0 B"
  shows "safe_res (recv_post N M b fd w)
    (bindR (parse_loop (unat (recvlen (cb (fdi w fd))) + 1) dll fd (page_size w) True 0 0 w) (\<lambda>(cnt, pos, w2).
      case pos of None \<Rightarrow> Inr (cnt, w2) | Some p \<Rightarrow> bindR (compact fd p w2) (\<lambda>w3. Inr (cnt, w3))))"
proof -
  obtain k where k: "bc_elem (fdi w fd) = Some k" "k < length (configs (bindconf w))"
    using srv_inv_entry(1) [OF i u(1)] by (auto simp: entry_ok_def)
  have fu: "length B < unat (recvlen (cb (fdi w fd))) + 1" using window_len(2) [OF win [unfolded held_def]] by simp
  note rp = recv_step_post [OF i u(1)]
  have ok: "recv_post N M b fd w (c, w')" if "recv_step N M fd w w'" "held fd w' buf' 0 B'" for w' c buf' B'
    using rp [OF that(1)] read_post_srv [OF i u rp [OF that(1)] that(2)] by (simp add: recv_post_def read_post_def)
  show ?thesis
  proof (rule safe_bind [OF parse_loop_inv [OF win fu k srv_invD(1) [OF i]]], clarify)
    fix cnt pos w2 assume p2: "parse_post N M fd buf w (cnt, pos, w2)"
    then have s2: "recv_step N M fd w w2" "env_ok N M w2" by (auto simp: parse_post_def recv_step_def)
    show "safe_res (recv_post N M b fd w)
      (case pos of None \<Rightarrow> Inr (cnt, w2) | Some p \<Rightarrow> bindR (compact fd p w2) (\<lambda>w3. Inr (cnt, w3)))"
    proof (rule safe_option)
      assume "pos = None"
      then show "safe_res (recv_post N M b fd w) (Inr (cnt, w2))"
        using p2 rp [OF s2(1)] by (simp add: parse_post_def recv_post_def read_post_def)
    next
      fix q assume "pos = Some q"
      then obtain R where R: "held fd w2 buf q R" using p2 by (auto simp: parse_post_def)
      show "safe_res (recv_post N M b fd w) (bindR (compact fd q w2) (\<lambda>w3. Inr (cnt, w3)))"
        using ok recv_step_trans [OF s2(1)] by (auto intro!: safe_bind [OF compact_step [OF R s2(2)]])
    qed
  qed
qed

lemma net_recv_pipe_safe:
  assumes i: "srv_inv N M b w" and u: "fd \<in> used w" and ty: "fi_type (fdi w fd) = fd_type_pipe"
  shows "safe_res (recv_post N M b fd w) (net_recv dll fd (page_size w) True w)"
proof (cases "read_as w")
  case Nil
  then show ?thesis using ty u by (simp add: net_recv_def fd_ok_def used_def)
next
  case (Cons a as)
  have l: "fd < length (fds w)" using u by (simp add: used_def)
  have np: "recvptr (cb (fdi w fd)) = None" using srv_inv_entry(1) [OF i u] ty by (simp add: entry_ok_def)
  have i': "srv_inv N M b (w\<lparr>read_as := as\<rparr>)"
    using i by (rule srv_inv_fds) (use srv_invD(2) [OF i] in \<open>auto simp: accepts_fit_def used_def\<close>)
  then have "inv_but N M b fd (w\<lparr>read_as := as\<rparr>)" by (rule srv_inv_but) (simp add: l)
  with i' show ?thesis
    using Cons ty l np by (simp add: net_recv_def fd_ok_def recv_post_def env_def sendqs_def used_def)
qed

lemma net_recv_safe:
  assumes i: "srv_inv N M b w" and u: "fd \<in> used w"
  shows "safe_res (recv_post N M b fd w) (net_recv dll fd (page_size w) True w)"
proof (cases "fi_type (fdi w fd) = fd_type_pipe")
  case True
  then show ?thesis by (rule net_recv_pipe_safe [OF i u])
next
  case False
  have l: "fd < length (fds w)" using u by (simp add: used_def)
  show ?thesis
    unfolding net_recv_def
  proof (simp only: order.refl fd_ok_def l False not_True_eq_False if_False simp_thms,
      rule safe_bind [OF do_read_conn_safe [OF i u]], clarify)
    fix r w1 assume p1: "read_post N M b fd w w1" "r \<noteq> -1 \<longrightarrow> (\<exists>buf B. held fd w1 buf 0 B)"
    have e1: "env w1 = env w" "sendqs w1 = sendqs w" "used w1 = used w" "page_size w1 = page_size w"
      "fi_type (fdi w1 fd) \<noteq> fd_type_pipe"
      using p1(1) env_eqD(1) [of w1 w] False by (auto simp: read_post_def core_def)
    have "safe_res (recv_post N M b fd w)
      (bindR (parse_loop (unat (recvlen (cb (fdi w1 fd))) + 1) dll fd (page_size w1) True 0 0 w1) (\<lambda>(cnt, pos, w2).
          case pos of None \<Rightarrow> Inr (cnt, w2) | Some p \<Rightarrow> bindR (compact fd p w2) (\<lambda>w3. Inr (cnt, w3))))" if rn: "r \<noteq> -1"
    proof -
      obtain buf B where win: "held fd w1 buf 0 B" using p1(2) rn by blast
      have i1: "srv_inv N M b w1" by (rule read_post_srv [OF i u False p1(1) win])
      have "fd \<in> used w1" using u e1 by simp
      from parse_compact_safe [OF i1 this e1(5) win] show ?thesis
        by (rule safe_mono) (use e1 in \<open>auto simp: recv_post_def\<close>)
    qed
    then show "safe_res (recv_post N M b fd w) (if r = -1 then Inr (-1, w1)
        else bindR (parse_loop (unat (recvlen (cb (fdi w1 fd))) + 1) dll fd (page_size w) True 0 0 w1) (\<lambda>(cnt, pos, w2).
          case pos of None \<Rightarrow> Inr (cnt, w2) | Some p \<Rightarrow> bindR (compact fd p w2) (\<lambda>w3. Inr (cnt, w3))))"
      using p1(1) e1 by (auto simp: recv_post_def read_post_def simp del: parse_loop.simps)
  qed
qed

lemma recv_or_close_safe:
  assumes i: "srv_inv N M b w" and u: "fd \<in> used w"
  shows "safe_res (shrunk N M b w) (recv_or_close dll fd (page_size w) True w)"
  unfolding recv_or_close_def del_mode_def if_True
proof (rule safe_bind [OF net_recv_safe [OF i u]], clarify)
  fix r w1 assume p: "recv_post N M b fd w (r, w1)"
  then have ib: "inv_but N M b fd w1" by (simp add: recv_post_def)
  show "safe_res (shrunk N M b w) (if r = -1 then do_del_conn dll fd 1 w1 else Inr w1)"
    using p safe_mono [OF do_del_conn_safe [OF ib, of 1], of "shrunk N M b w"]
    by (auto simp: recv_post_def shrunk_def)
qed


section \<open>Accepting\<close>

lemma safe_tcp_accept_safe: "safe_res (\<lambda>_. True) (safe_tcp_accept nb fe as)"
  by (induction nb fe as rule: safe_tcp_accept.induct) (auto split: bool.splits option.splits)

lemma entry_ok_new:
  "k < n \<Longrightarrow> ty \<in> {fd_type_listen, fd_type_pipe, fd_type_remote} \<Longrightarrow>
   entry_ok ps n b (new_entry fd ty s pr (Some k))"
  by (auto simp: entry_ok_def recv_ok_def send_ok_def)

lemma added_env:
  "page_size (added fd ty pr bc w) = page_size w" "bindconf (added fd ty pr bc w) = bindconf w"
  "env (added fd ty pr bc w) = env w"
  by (simp_all add: added_def env_def)

lemma ents_ok_added:
  assumes e: "ents_ok b w" and fd: "fd < length (fds w)" and k: "k < length (configs (bindconf w))"
    and ty: "ty \<in> {fd_type_listen, fd_type_pipe, fd_type_remote}"
  shows "ents_ok b (added fd ty pr (Some k) w)"
proof -
  have "ty \<noteq> fd_type_unused" using ty by auto
  then have u: "used (added fd ty pr (Some k) w) = insert fd (used w)" using used_added [OF fd] by simp
  show ?thesis
    unfolding ents_ok_def u added_env
  proof (intro allI impI)
    fix x assume "x < length (fds (added fd ty pr (Some k) w))"
    then show "if x \<in> insert fd (used w)
      then entry_ok (page_size w) (length (configs (bindconf w))) b (fdi (added fd ty pr (Some k) w) x)
      else sendlen (cb (fdi (added fd ty pr (Some k) w) x)) = 0"
      using e fd entry_ok_new [OF k ty] by (cases "x = fd") (auto simp: ents_ok_def)
  qed
qed

lemma srv_inv_added:
  assumes i: "srv_inv N M b w" and fd: "fd < length (fds w)" "fd \<notin> used w"
    and k: "k < length (configs (bindconf w))" and ty: "ty \<in> {fd_type_listen, fd_type_pipe, fd_type_remote}"
  shows "srv_inv N M b (added fd ty pr (Some k) w)"
proof -
  let ?w = "added fd ty pr (Some k) w"
  have t0: "ty \<noteq> fd_type_unused" using ty by auto
  obtain cl et where "net_inv w cl et" using i by (auto simp: srv_inv_def)
  then have "net_inv ?w cl et" using added_inv fd(1,2) t0 by blast
  moreover have "env_ok N M ?w" using env_ok_cong [of ?w w] added_env srv_invD(1) [OF i] by metis
  moreover have "accepts_fit ?w"
    using srv_invD(2) [OF i] by (simp add: accepts_fit_def added_def)
  ultimately show ?thesis using ents_ok_added [OF srv_invD(3) [OF i] fd(1) k ty] by (auto simp: srv_inv_def)
qed

lemma srv_inv_touch: "srv_inv N M b w \<Longrightarrow> fd \<in> used w \<Longrightarrow> srv_inv N M b (touch fd w)"
  using send_step_srv_inv [of N M b w fd "touch fd w" b] srv_inv_send_rep [of N M b w fd]
  by (simp add: send_step_def used_def send_rep_def split: option.splits)

lemma pushed_frame:
  "pushed N M w w' \<Longrightarrow> used w' = used w \<and> env w' = env w \<and> length (fds w') = length (fds w)"
  by (auto simp: pushed_def used_def)

text \<open>What accepting leaves: the invariant, and every descriptor that was open.\<close>

definition grown :: "nat \<Rightarrow> nat \<Rightarrow> nat \<Rightarrow> 't world \<Rightarrow> 't world \<Rightarrow> bool" where
  "grown N M b w w' \<longleftrightarrow> srv_inv N M b w' \<and> page_size w' = page_size w \<and>
     length (fds w') = length (fds w) \<and> used w \<subseteq> used w'"

lemma open_block_fits:
  "msg_fits (\<lparr>mb_id = a, mb_fd = f, mb_length = 23, mb_type = OPEN_BLOCK\<rparr>, enc_remote r)"
  by (simp add: msg_fits_def msg_len_def enc_remote_def)

lemma open_new_safe:
  assumes i: "srv_inv N M b w" and n: "n < length (fds w)" "n \<notin> used w"
    and k: "k < length (configs (bindconf w))"
  shows "safe_res (\<lambda>(r, w'). grown N M b w w')
    (bindR (do_add_conn n fd_type_remote (Some pr) (Some k) w) (\<lambda>w1.
            let w2 = touch n w1; i = fdi w2 n in
            if True then
              bindR (push_recvq (bc_elem i)
                \<lparr>mb_id = fi_id i, mb_fd = of_nat n, mb_length = 23, mb_type = OPEN_BLOCK\<rparr>
                (enc_remote (sk i)) w2) (\<lambda>(p, w3).
                if p = -1 then bindR (do_del_conn dll n 2 w3) (\<lambda>w4. Inr (newfd :: int, w4))
                else Inr (newfd, w3))
            else Inr (newfd, w2)))"
proof (cases "epoll_add_ok w")
  case False
  then show ?thesis by (simp add: do_add_conn_def add_events_def)
next
  case True
  define w2 where "w2 = touch n (added n fd_type_remote (Some pr) (Some k) w)"
  have ty: "fd_type_remote \<in> {fd_type_listen, fd_type_pipe, fd_type_remote}" by simp
  have a: "srv_inv N M b (added n fd_type_remote (Some pr) (Some k) w)" by (rule srv_inv_added [OF i n k ty])
  have u1: "used (added n fd_type_remote (Some pr) (Some k) w) = insert n (used w)"
    using used_added [OF n(1)] by simp
  have i2: "srv_inv N M b w2" unfolding w2_def using srv_inv_touch [OF a] u1 by simp
  have u2: "used w2 = insert n (used w)" unfolding w2_def using same_table_used [OF same_table_touch] u1 by metis
  have f2: "bc_elem (fdi w2 n) = Some k" "k < length (configs (bindconf w2))" "page_size w2 = page_size w"
    "n < length (fds w2)"
    "length (fds w2) = length (fds w)"
    using n k by (simp_all add: w2_def added_env)
  note ps = push_recvq_safe [OF srv_invD(1) [OF i2] f2(2) open_block_fits]
  have post: "grown N M b w w3 \<and> safe_res (grown N M b w) (do_del_conn dll n 2 w3)"
    if "pushed N M w2 w3" for w3
  proof -
    have i3: "srv_inv N M b w3" using pushed_srv_inv [OF i2 that] .
    have e3: "used w3 = insert n (used w)" "page_size w3 = page_size w" "n < length (fds w3)" "length (fds w3) = length (fds w)"
      using pushed_frame [OF that] env_eqD(1) [of w3 w2] u2 f2 by auto
    have "safe_res (grown N M b w) (do_del_conn dll n 2 w3)"
      using do_del_conn_safe [OF srv_inv_but [OF i3 e3(3)], of 2]
      by (rule safe_mono [OF _]) (use e3 n(2) env_eqD(1,6) [of _ w3] in \<open>auto simp: grown_def\<close>)
    then show ?thesis using i3 e3 by (auto simp: grown_def)
  qed
  have "do_add_conn n fd_type_remote (Some pr) (Some k) w = Inr (added n fd_type_remote (Some pr) (Some k) w)"
    by (rule do_add_conn_eq [OF True n(1)])
  then show ?thesis
    unfolding w2_def [symmetric] Let_def
    using post f2(1) by (auto simp: w2_def [symmetric] intro!: safe_bind [OF ps] safe_bind [OF conjunct2 [OF post]])
qed


lemma do_open_conn_safe:
  assumes i: "srv_inv N M b w" and u: "fd \<in> used w"
  shows "safe_res (\<lambda>(r, w'). grown N M b w w') (do_open_conn dll fd True w)"
proof -
  have l: "fd < length (fds w)" using u by (simp add: used_def)
  obtain k where k: "bc_elem (fdi w fd) = Some k" "k < length (configs (bindconf w))"
    using srv_inv_entry(1) [OF i u] by (auto simp: entry_ok_def)
  show ?thesis
    unfolding do_open_conn_def
  proof (simp only: fd_ok_def l not_True_eq_False if_False, rule safe_bind [OF safe_tcp_accept_safe], clarify)
    fix a cs as assume acc: "safe_tcp_accept True (fcntl_err w) (accept_as w) = Inr (a, cs, as)"
    define w0 where "w0 = w\<lparr>accept_as := as, closed := closed w @ map nat cs\<rparr>"
    note af = safe_tcp_accept_fds [OF acc] and fr = srv_invD(2) [OF i]
    have u0: "used w0 = used w" "fds w0 = fds w" "bindconf w0 = bindconf w" "page_size w0 = page_size w" "accept_as w0 = as"
      by (simp_all add: w0_def used_def)
    have i0: "srv_inv N M b w0"
      using i by (rule srv_inv_fds) (use af fr u0 in \<open>auto simp: w0_def accepts_fit_def split: accept_ret.splits\<close>)
    have g0: "grown N M b w v" if "srv_inv N M b v" "env v = env w0" "used v = used w0" for v
      using that u0 env_eqD(1,6) [of v w0] by (simp add: grown_def)
    obtain cl et where q0: "queues_ok w0 cl et" "fd < length (fds w0)" "fd \<in> used w0"
      using i0 l u u0 by (auto simp: srv_inv_def net_inv_def)
    have et: "safe_res (grown N M b w) (add_to_etin_queue fd w0)" "safe_res (grown N M b w) (del_from_etin_queue fd w0)"
      using add_to_etin_queue_spec [OF q0(1,2)] del_from_etin_queue_spec [OF q0(1,2)]
        reflagged_srv_inv [OF i0 q0(3)] del_from_etin_queue_reflagged [of fd w0] g0 by fastforce+
    have nf: "safe_res (\<lambda>(r, w'). grown N M b w w')
        (bindR (do_add_conn (nat newfd) fd_type_remote (Some pr) (Some k) w0) (\<lambda>w1.
            let w2 = touch (nat newfd) w1; i = fdi w2 (nat newfd) in
            if True then
              bindR (push_recvq (bc_elem i)
                \<lparr>mb_id = fi_id i, mb_fd = of_nat (nat newfd), mb_length = 23, mb_type = OPEN_BLOCK\<rparr>
                (enc_remote (sk i)) w2) (\<lambda>(pr, w3).
                if pr = -1 then bindR (do_del_conn dll (nat newfd) 2 w3) (\<lambda>w4. Inr (newfd, w4))
                else Inr (newfd, w3))
            else Inr (newfd, w2)))" if "a = Accepted newfd pr"
        "\<not> (nat newfd < length (fds w) \<and> fi_type (fdi w (nat newfd)) \<noteq> fd_type_unused)" for newfd pr
    proof -
      have n: "nat newfd < length (fds w0)" "nat newfd \<notin> used w0"
        using that af fr u0 by (auto simp: accepts_fit_def used_def)
      show ?thesis
        using open_new_safe [OF i0 n, of k pr dll newfd] k(2) u0
        by (rule_tac safe_mono) (auto simp: grown_def)
    qed
    show "safe_res (\<lambda>(r, w'). grown N M b w w')
      (let w0 = w\<lparr>accept_as := as, closed := closed w @ map nat cs\<rparr> in
        case a of
          Accepted newfd pr \<Rightarrow>
            if nat newfd < length (fds w0) \<and> fi_type (fdi w0 (nat newfd)) \<noteq> fd_type_unused then Inl Blocked
            else bindR (do_add_conn (nat newfd) fd_type_remote (Some pr) (bc_elem (fdi w0 fd)) w0) (\<lambda>w1.
            let w2 = touch (nat newfd) w1; i = fdi w2 (nat newfd) in
            if True then
              bindR (push_recvq (bc_elem i)
                \<lparr>mb_id = fi_id i, mb_fd = of_nat (nat newfd), mb_length = 23, mb_type = OPEN_BLOCK\<rparr>
                (enc_remote (sk i)) w2) (\<lambda>(pr, w3).
                if pr = -1 then bindR (do_del_conn dll (nat newfd) 2 w3) (\<lambda>w4. Inr (newfd, w4))
                else Inr (newfd, w3))
            else Inr (newfd, w2))
        | NotAccepted e \<Rightarrow>
            if e = EMFILE \<or> e = ENFILE then bindR (add_to_etin_queue fd w0) (\<lambda>w1. Inr (-1, w1))
            else if e = EAGAIN then bindR (del_from_etin_queue fd w0) (\<lambda>w1. Inr (-1, w1))
            else Inr (-1, w0))"
      unfolding w0_def [symmetric] Let_def u0(2) k(1)
      using g0 [OF i0] nf by (cases a) (auto simp: Let_def intro!: safe_bind [OF et(1)] safe_bind [OF et(2)])
  qed
qed

lemma accept_loop_safe:
  assumes "srv_inv N M b w" "fd \<in> used w"
  shows "safe_res (grown N M b w) (accept_loop fuel dll fd True w)"
  using assms
proof (induction fuel arbitrary: w)
  case (Suc fuel)
  show ?case
    unfolding accept_loop.simps
  proof (rule safe_bind [OF do_open_conn_safe [OF Suc.prems]], clarify)
    fix r w1 assume g: "grown N M b w w1"
    then have "srv_inv N M b w1" "fd \<in> used w1" using Suc.prems(2) by (auto simp: grown_def)
    from Suc.IH [OF this] have "safe_res (grown N M b w) (accept_loop fuel dll fd True w1)"
      by (rule safe_mono) (use g in \<open>auto simp: grown_def\<close>)
    with g show "safe_res (grown N M b w) (if r > 0 then accept_loop fuel dll fd True w1 else Inr w1)" by simp
  qed
qed simp

end
