(* ===== verification/Mp_Echo.thy ===== *)
theory Mp_Echo
  imports Mp_Loop
begin

text \<open>
  The whole way of a request: the client's bytes through \<open>net_recv\<close> into the receive queue, the
  worker, the plugin, the send queue and back to the client's socket.  The plugin is the echo server
  of \<open>src/samples/echo.cpp\<close> (\<open>echo_plugin\<close>), so that what comes out can be compared with what went in.
\<close>

section \<open>The echo plugin\<close>

text \<open>
  The length function is not stable, so the packages of this plugin depend on how the stream was
  segmented.
\<close>

lemma echo_len_not_stable: "\<not> stable_len (pkg_len (echo_plugin :: 't serv_if) fd)"
proof
  assume s: "stable_len (pkg_len (echo_plugin :: 't serv_if) fd)"
  have "pkg_len (echo_plugin :: 't serv_if) fd bs = unat (of_nat (length bs) :: i32)" for bs
    by (simp add: pkg_len_def echo_plugin_def echo_get_pkg_len_def)
  then show False using s [unfolded stable_len_def, rule_format, of "[0]" "[0]"] by simp
qed

lemma send_frags_peer: "send_frags fuel s pkg w = Inr (r, w') \<Longrightarrow> peer w' = peer w"
proof (induction fuel arbitrary: pkg w)
  case (Suc fuel)
  show ?case
  proof (cases "pkg = []")
    case False
    then obtain mb n r1 w1 where "push_sendq mb pkg w = Inr (r1, w1)"
      and "(if r1 = -1 then Inr (-1, w1) else send_frags fuel s (drop n pkg) w1) = Inr (r, w')"
      using Suc.prems by (auto simp: Let_def)
    then show ?thesis using Suc.IH [of "drop n pkg" w1] by (auto simp: push_sendq_def split: if_splits)
  qed (use Suc.prems in simp)
qed simp

lemma frag_count: "list_all (frag_of s) frs \<Longrightarrow> length frs \<le> length (concat (map snd frs))"
proof (induction frs)
  case (Cons x frs)
  then have "snd x \<noteq> []" by (simp add: frag_of_def)
  then have "1 \<le> length (snd x)" by (simp add: Suc_le_eq)
  with Cons show ?case by simp
qed simp

section \<open>The worker\<close>

text \<open>One round of \<open>handle_recv_queue\<close> takes the oldest message and hands it to \<open>handle_block\<close>.\<close>

lemma recv_queue_step:
  assumes rep: "rq_rep w (x # xs)" and r: "handle_recv_queue (Suc f) dll g w = Inr w'"
  obtains off q' w2 where "handle_block dll g (int off) x (set_bc ((configs (bindconf w) ! cur_bc w)\<lparr>recvq := q'\<rparr>) w) = Inr w2"
    "handle_recv_queue f dll g w2 = Inr w'" "q_rep (page_size w) q' xs" "msg_fits x"
    "cur_bc w < length (configs (bindconf w))"
proof -
  let ?e = "configs (bindconf w) ! cur_bc w"
  have i: "cur_bc w < length (configs (bindconf w))" and q: "q_rep (page_size w) (recvq ?e) (x # xs)"
    using rep by (auto simp: rq_rep_def)
  have ok: "msg_ok (unat (page_size w)) x" using q_repD(7) [OF q] by simp
  obtain off q' where p: "shmq_pop (recvq ?e) = Inr (Some (int off), q')" "q_rep (page_size w) q' xs"
      "bytes_at (mem (recvq ?e)) off (msg_len x) = enc_msg x" "tpos q' = off + msg_len x" "8 \<le> off"
      "mem q' = mem (recvq ?e)"
    using shmq_pop_rep [OF q] by auto
  have "read_msg q' (int off) = Inr x"
    using p q_repD [OF p(2)] ok by (intro read_msg_enc) (auto simp: msg_ok_def)
  then obtain w2 where "handle_block dll g (int off) x (set_bc (?e\<lparr>recvq := q'\<rparr>) w) = Inr w2"
      "handle_recv_queue f dll g w2 = Inr w'"
    using r i p(1) by (auto simp: my_bc_def Let_def)
  then show thesis using that p(2) ok i by (auto simp: msg_ok_def msg_fits_def)
qed

definition data_for :: "u32 \<Rightarrow> message \<Rightarrow> bool" where
  "data_for fd x \<longleftrightarrow> mb_type (fst x) = DATA_BLOCK \<and> mb_fd (fst x) = fd \<and> snd x \<noteq> []"

lemma handle_block_data:
  "data_for fd x \<Longrightarrow> msg_fits x \<Longrightarrow> handle_block dll g off x w = handle_process dll g (snd x) fd w"
  by (auto simp: handle_block_def data_for_def msg_fits_def msg_len_def Let_def)

text \<open>A session that was closed stays closed while only data arrives.\<close>

lemma closed_stays_closed:
  assumes "list_all (data_for fd) xs" "rq_rep w xs" "get_fdsess g fd w = None" "length xs < fuel"
    "handle_recv_queue fuel dll g w = Inr w'"
  shows "get_fdsess g fd w' = None"
  using assms
proof (induction xs arbitrary: w fuel)
  case Nil
  then obtain f where f: "fuel = Suc f" by (cases fuel) auto
  have i: "cur_bc w < length (configs (bindconf w))" "q_rep (page_size w) (recvq (configs (bindconf w) ! cur_bc w)) []"
    using Nil.prems(2) by (auto simp: rq_rep_def)
  then obtain q' where "shmq_pop (recvq (configs (bindconf w) ! cur_bc w)) = Inr (None, q')"
    using shmq_pop_rep by fastforce
  then show ?case using Nil.prems(3,5) f i by (auto simp: my_bc_def get_fdsess_def)
next
  case (Cons x xs)
  then obtain f where f: "fuel = Suc f" by (cases fuel) auto
  obtain off q' w2 where s: "handle_block dll g (int off) x (set_bc ((configs (bindconf w) ! cur_bc w)\<lparr>recvq := q'\<rparr>) w) = Inr w2"
    "handle_recv_queue f dll g w2 = Inr w'" "q_rep (page_size w) q' xs" "msg_fits x" "cur_bc w < length (configs (bindconf w))"
    using recv_queue_step [OF Cons.prems(2), of f dll g w'] Cons.prems(5) f by auto
  then have "w2 = set_bc ((configs (bindconf w) ! cur_bc w)\<lparr>recvq := q'\<rparr>) w"
    using Cons.prems(1,3) by (simp add: handle_block_data [of fd] handle_process_def get_fdsess_def)
  then have "rq_rep w2 xs" "get_fdsess g fd w2 = None"
    using s Cons.prems(3) by (auto simp: rq_rep_def get_fdsess_def)
  then show ?case using Cons.IH [of w2 f] Cons.prems s(2) f by simp
qed

lemma close_client_conn_echo:
  assumes "ght_laws g" "close_client_conn echo_plugin g fd w = Inr w'" "rq_rep w xs"
  shows "get_fdsess g fd w' = None \<and> rq_rep w' xs"
proof (cases "get_fdsess g fd w")
  case None
  then show ?thesis using assms by (simp add: close_client_conn_def)
next
  case (Some s)
  then obtain r where p: "push_sendq \<lparr>mb_id = s_id s, mb_fd = fd, mb_length = 13, mb_type = FIN_BLOCK\<rparr> []
      (remove_fdsess g fd w) = Inr (r, w')"
    using assms(2) by (auto simp: close_client_conn_def handle_close_def)
  have "rq_rep (remove_fdsess g fd w) xs" using assms(3) by (simp add: rq_rep_def remove_fdsess_def)
  then show ?thesis
    using push_sendq_frame [OF p] rq_frame_rep assms(1) by (auto simp: get_fdsess_def remove_fdsess_def ght_laws_def)
qed

text \<open>
  As long as the session survives, the worker answers every package: what it put into the send
  queue, joined, is what it took out of the receive queue.
\<close>

lemma echo_worker:
  assumes "ght_laws g" "list_all (data_for fd) xs" "rq_rep w xs" "sq_rep w ys" "peer w = idle"
    "13 < unat (page_size w)" "small (page_size w)" "get_fdsess g fd w = Some s" "length xs < fuel"
    "handle_recv_queue fuel echo_plugin g w = Inr w'" "get_fdsess g fd w' \<noteq> None"
  shows "\<exists>frs. sq_rep w' (ys @ frs) \<and> list_all (frag_of s) frs \<and> concat (map snd frs) = concat (map snd xs)"
  using assms(2-)
proof (induction xs arbitrary: w ys fuel)
  case Nil
  then obtain f where f: "fuel = Suc f" by (cases fuel) auto
  have i: "cur_bc w < length (configs (bindconf w))" "q_rep (page_size w) (recvq (configs (bindconf w) ! cur_bc w)) []"
    using Nil.prems(2) by (auto simp: rq_rep_def)
  then obtain q' where "shmq_pop (recvq (configs (bindconf w) ! cur_bc w)) = Inr (None, q')"
    using shmq_pop_rep by fastforce
  then have "sq_rep w' (ys @ [])" using Nil.prems(3,9) f i by (auto simp: my_bc_def sq_rep_def)
  then show ?case by (intro exI [of _ "[]"]) simp
next
  case (Cons x xs)
  then obtain f where f: "fuel = Suc f" by (cases fuel) auto
  let ?e = "configs (bindconf w) ! cur_bc w"
  obtain off q' w2 where s: "handle_block echo_plugin g (int off) x (set_bc (?e\<lparr>recvq := q'\<rparr>) w) = Inr w2"
    "handle_recv_queue f echo_plugin g w2 = Inr w'" "q_rep (page_size w) q' xs" "msg_fits x"
    "cur_bc w < length (configs (bindconf w))"
    using recv_queue_step [OF Cons.prems(2), of f echo_plugin g w'] Cons.prems(9) f by auto
  let ?w = "set_bc (?e\<lparr>recvq := q'\<rparr>) w"
  have w: "rq_rep ?w xs" "sq_rep ?w ys" "get_fdsess g fd ?w = Some s" "peer ?w = idle"
    using s Cons.prems(3,4,7) by (auto simp: rq_rep_def sq_rep_def get_fdsess_def)
  obtain r w1 where sd: "send_frags (length (snd x) + 1) s (snd x) ?w = Inr (r, w1)"
    and rest: "(if r \<noteq> 0 then close_client_conn echo_plugin g fd w1 else Inr w1) = Inr w2"
    using s(1,4) Cons.prems(1) w(3)
    by (auto simp: handle_block_data [of fd] handle_process_def simp del: send_frags.simps)
  have fr: "rq_frame ?w w1" "cn w1 = cn ?w" using send_frags_frame [OF sd] by auto
  have rep1: "rq_rep w1 xs" "get_fdsess g fd w1 = Some s"
    using rq_frame_rep [OF fr(1)] fr(2) w by (auto simp: get_fdsess_def)
  have r0: "r = 0"
  proof (rule ccontr)
    assume "r \<noteq> 0"
    then have "close_client_conn echo_plugin g fd w1 = Inr w2" using rest by simp
    from close_client_conn_echo [OF assms(1) this rep1(1)]
    have "get_fdsess g fd w' = None"
      using closed_stays_closed [of fd xs w2 g f echo_plugin w'] Cons.prems(1,8) s(2) f by simp
    then show False using Cons.prems(10) by simp
  qed
  have "\<exists>frs. sq_rep w1 (ys @ frs) \<and> list_all (frag_of s) frs \<and> concat (map snd frs) = snd x"
    using send_frags_spec [OF w(2) w(4), of "snd x" "length (snd x) + 1" s] Cons.prems(5,6) sd r0
    by (auto simp del: send_frags.simps)
  then obtain frs where frs: "sq_rep w1 (ys @ frs)" "list_all (frag_of s) frs" "concat (map snd frs) = snd x" by blast
  have "peer w1 = idle" "page_size w1 = page_size w"
    using send_frags_peer [OF sd] fr(1) w(4) by (auto simp: rq_frame_def)
  then obtain gs where "sq_rep w' ((ys @ frs) @ gs)" "list_all (frag_of s) gs" "concat (map snd gs) = concat (map snd xs)"
    using Cons.IH [of w1 "ys @ frs" f] Cons.prems rep1 frs(1) s(2) r0 rest f by auto
  then show ?case using frs by (intro exI [of _ "frs @ gs"]) simp
qed

section \<open>The parent\<close>

text \<open>Draining the fragments of one session lengthens the byte stream of its connection by what they carry.\<close>

lemma drain_frags:
  assumes "sendq_rep i w frs" "list_all (frag_of s) frs" "net_inv w cl et" "fd < length (fds w)" "sint (s_fd s) = int fd"
    "fi_type (fdi w fd) = fd_type_remote" "fi_id (fdi w fd) = s_id s" "out_ready fd w"
    "length (pending fd w) + length (concat (map snd frs)) < 2 ^ 31" "length (concat (map snd frs)) < fuel"
    "drain_sendq fuel dll ok i w = Inr w'"
  shows "tx w' fd @ pending fd w' = tx w fd @ pending fd w @ concat (map snd frs) \<and> armed fd w'"
proof -
  have mx: "int fd \<le> maxfd w" using assms(3,4,6) by (auto simp: net_inv_def table_ok_def used_def)
  have ad: "\<forall>x\<in>set frs. addressed (fst x) fd w \<and> mb_type (fst x) = DATA_BLOCK"
    using assms(2,4-7) by (auto simp: list_all_iff frag_of_def addressed_def)
  have n: "length frs < fuel" using frag_count [OF assms(2)] assms(10) by simp
  from drain_sendq_delivers [OF assms(1) n assms(8) mx ad assms(9,11)] show ?thesis
    by (simp add: stream_def out_ready_def)
qed

text \<open>Every package the parent cuts out of the stream is a data block with a payload.\<close>

lemma cut_nonempty: "cut gl bs = (ps, r) \<Longrightarrow> [] \<notin> set ps"
proof (induction gl bs arbitrary: ps r rule: cut.induct)
  case (1 gl bs)
  show ?case
  proof (cases "gl bs = 0 \<or> length bs < gl bs")
    case True
    then show ?thesis using 1(2) by (simp add: cut_stop)
  next
    case False
    obtain qs r' where c: "cut gl (drop (gl bs) bs) = (qs, r')" by fastforce
    have "[] \<notin> set qs" using 1(1) [OF False c] by simp
    then show ?thesis using 1(2) cut_step [of gl bs, OF _ _ c] False by auto
  qed
qed

lemma packages_are_data:
  assumes ne: "[] \<notin> set ps"
  shows "list_all (data_for (of_nat fd)) (map (mk_block w fd) ps)" "map snd (map (mk_block w fd) ps) = ps"
    "length ps \<le> length (concat ps)"
proof -
  show "list_all (data_for (of_nat fd)) (map (mk_block w fd) ps)"
    using ne by (auto simp: list_all_iff data_for_def mk_block_def)
  show "map snd (map (mk_block w fd) ps) = ps" by (simp add: mk_block_def o_def)
  show "length ps \<le> length (concat ps)" using ne
  proof (induction ps)
    case (Cons p ps)
    then have "1 \<le> length p" by (cases p) auto
    then show ?case using Cons by simp
  qed simp
qed

lemma sint_of_nat_small: "n < 2 ^ 31 \<Longrightarrow> sint (of_nat n :: u32) = int n"
  using sint_small [of "of_nat n"] unat_of_nat_small [of n] by (simp add: small_def)

end
