(* ===== verification/Mp_Framing.thy ===== *)
theory Mp_Framing
  imports Mp_Safety Mp_Echo
begin

text \<open>
  What \<open>net_recv\<close> does to the byte stream of a connection for every plugin, stable or not: a length
  that was asked for is remembered until its package is complete, whatever \<open>get_pkg_len\<close> would answer
  later, and no byte is lost, repeated or moved.  The sample's own length function is treated on its own.
\<close>

section \<open>The parse loop with a remembered length\<close>

text \<open>The blocks \<open>qs\<close> were taken off the front of the window, \<open>R\<close> is left.\<close>

definition taken ::
  "'t serv_if \<Rightarrow> nat \<Rightarrow> byte list \<Rightarrow> nat \<Rightarrow> byte list \<Rightarrow> message list \<Rightarrow> 't world \<Rightarrow> byte list list \<Rightarrow> byte list \<Rightarrow> 't world \<Rightarrow> nat \<Rightarrow> bool"
where
  "taken dll fd buf i B xs w qs R w' pos' \<longleftrightarrow> concat qs @ R = B \<and> [] \<notin> set qs \<and>
     (\<exists>c b. w' = (upd_cb fd (\<lambda>_. c) w)\<lparr>bindconf := b\<rparr> \<and> conf_rep (page_size w) b i (xs @ map (mk_block w fd) qs)) \<and>
     held fd w' buf pos' R \<and>
     (rcvprotlen (cb (fdi w fd)) = 0 \<longrightarrow> cut (pkg_len dll fd) B = (qs, R) \<and> window dll fd w' buf pos' R)"

lemma parsed_taken:
  assumes "parsed dll fd buf i B xs w qs w' pos'"
  shows "\<exists>R. taken dll fd buf i B xs w qs R w' pos'"
proof -
  obtain R c b where R: "cut (pkg_len dll fd) B = (qs, R)" "w' = (upd_cb fd (\<lambda>_. c) w)\<lparr>bindconf := b\<rparr>"
    "window dll fd w' buf pos' R" "conf_rep (page_size w) b i (xs @ map (mk_block w fd) qs)"
    using assms by (auto simp: parsed_def)
  then have "taken dll fd buf i B xs w qs R w' pos'"
    using cut_concat [OF R(1)] cut_nonempty [OF R(1)] window_held [OF R(3)] unfolding taken_def by blast
  then show ?thesis ..
qed

text \<open>The first round, when the length of its package is already known.\<close>

lemma parse_known:
  assumes h: "held fd w buf pos B" and bc: "bc_elem (fdi w fd) = Some i" and n: "rcvprotlen (cb (fdi w fd)) = n" "n \<noteq> 0"
    and r: "parse_loop (Suc fuel) dll fd (page_size w) True pos cnt w = Inr (r, p, w')" "r \<noteq> -1"
  shows "r = cnt \<and> p = Some pos \<and> w' = w \<or> 0 < unat n \<and> unat n \<le> length B \<and>
    bindR (push_recvq (Some i) (fst (mk_block w fd (take (unat n) B))) (take (unat n) B) w)
      (after_pkg fuel dll fd (page_size w) True pos cnt) = Inr (r, p, w')"
proof -
  have win: "window (fixed_len n) fd w buf pos B" using h n(1) by (simp add: held_def)
  have lp: "learn_pkg_len dll fd True pos w = Inr w" using n by (simp add: learn_pkg_len_def)
  have len: "recvlen (cb (fdi w fd)) = of_nat (length B)" "length B < 2 ^ 31"
    using win window_len [OF win] by (simp_all add: window_def)
  have ge: "(of_nat (length B) :: u32) \<ge> n \<longleftrightarrow> unat n \<le> length B"
    using len(2) by (simp add: word_le_nat_alt unat_of_nat_small)
  show ?thesis
  proof (cases "unat n \<le> length B")
    case False
    then show ?thesis using r n lp len(1) ge unfolding parse_loop_Suc by (auto simp: Let_def split: if_splits)
  next
    case True
    have "recv_bytes fd pos (unat n) w = Inr (take (unat n) B)" by (rule window_recv_bytes [OF win True])
    moreover have "hand_over dll fd True pkg w = push_recvq (Some i) (fst (mk_block w fd pkg)) pkg w" for pkg
      using bc by (simp add: hand_over_def mk_block_def)
    moreover have "0 < unat n" using n(2) by (simp add: unat_gt_0)
    ultimately show ?thesis
      using r n lp len(1) ge True unfolding parse_loop_Suc by (auto simp: Let_def split: if_splits)
  qed
qed

lemma parse_loop_taken:
  assumes h: "held fd w buf pos B" and fuel: "length B < fuel" and bc: "bc_elem (fdi w fd) = Some i" and pe: "peer w = idle"
    and q: "conf_rep (page_size w) (bindconf w) i xs" and cnt: "0 \<le> cnt" and r: "r \<noteq> -1"
      "parse_loop fuel dll fd (page_size w) True pos cnt w = Inr (r, p, w')"
  shows "\<exists>qs R pos'. p = Some pos' \<and> taken dll fd buf i B xs w qs R w' pos'"
proof (cases "rcvprotlen (cb (fdi w fd)) = 0")
  case True
  from parse_loop_parent [OF held_fresh [OF h True] fuel bc pe q cnt r]
  obtain ps pos' where "p = Some pos'" "parsed dll fd buf i B xs w ps w' pos'" by blast
  then show ?thesis using parsed_taken [of dll fd buf i B xs w ps w' pos'] by blast
next
  case False
  define n where "n = rcvprotlen (cb (fdi w fd))"
  obtain f where f: "fuel = Suc f" using fuel by (cases fuel) auto
  have l: "fd < length (fds w)" and win: "window (fixed_len n) fd w buf pos B"
    using h by (auto simp: held_def window_def n_def)
  consider "p = Some pos" "w' = w"
    | "0 < unat n" "unat n \<le> length B" "bindR (push_recvq (Some i) (fst (mk_block w fd (take (unat n) B))) (take (unat n) B) w)
        (after_pkg f dll fd (page_size w) True pos cnt) = Inr (r, p, w')"
    using parse_known [OF h bc n_def [symmetric] _ r(2) [unfolded f] r(1)] False by (auto simp: n_def)
  then show ?thesis
  proof cases
    case 1
    have "w = (upd_cb fd (\<lambda>_. cb (fdi w fd)) w)\<lparr>bindconf := bindconf w\<rparr>" by (simp add: upd_cb_def upd_fd_def)
    with q have "\<exists>c b. w = (upd_cb fd (\<lambda>_. c) w)\<lparr>bindconf := b\<rparr> \<and> conf_rep (page_size w) b i xs" by blast
    then have "taken dll fd buf i B xs w [] B w pos" using h False by (simp add: taken_def)
    then show ?thesis using 1 by blast
  next
    case 2
    let ?k = "unat n" and ?x = "mk_block w fd (take (unat n) B)"
    obtain r2 w2 where push: "push_recvq (Some i) (fst ?x) (snd ?x) w = Inr (r2, w2)"
      and rest: "after_pkg f dll fd (page_size w) True pos cnt (r2, w2) = Inr (r, p, w')"
      using 2(3) by (auto simp: mk_block_def)
    have r2: "r2 = 0" using rest r(1) by (auto simp: after_pkg_def split: if_splits)
    have "msg_fits (fst ?x, snd ?x)" using mk_block_fits [of "take ?k B" w fd] window_len(1) [OF win] by simp
    then obtain b where b: "w2 = w\<lparr>bindconf := b\<rparr>" "conf_rep (page_size w) b i (xs @ [?x])"
      using push_recvq_rep [OF q pe _ push] r2 by auto
    have n2: "window (fixed_len n) fd w2 buf pos B" "rcvprotlen (cb (fdi w2 fd)) = n" "fd < length (fds w2)"
      using win b(1) l by (auto simp: window_bindconf n_def)
    let ?w3 = "take_pkg fd n w2" and ?pos3 = "skip_pkg fd n pos w2"
    note adv = take_window [OF n2(1) 2(1,2) n2(2)]
    have win3: "window dll fd ?w3 buf ?pos3 (drop ?k B)" "rcvprotlen (cb (fdi ?w3 fd)) = 0"
      using held_fresh [OF window_held [OF adv(1)]] n2(3) by (simp_all add: take_pkg_def)
    have "\<exists>g. ?w3 = (upd_cb fd g w)\<lparr>bindconf := b\<rparr>" unfolding take_pkg_def b(1) using l by auto
    then obtain c3 where w3: "?w3 = (upd_cb fd (\<lambda>_. c3) w)\<lparr>bindconf := b\<rparr>" using upd_cb_const [OF l] by metis
    have next3: "(if ?k < length B then parse_loop f dll fd (page_size w) True ?pos3 (cnt + 1) ?w3
         else Inr (cnt + 1, Some ?pos3, ?w3)) = Inr (r, p, w')"
      using rest r2 adv(2) by (simp add: after_pkg_def n2(2) Let_def cong: if_cong)
    have "\<exists>ps R pos'. p = Some pos' \<and> taken dll fd buf i (drop ?k B) (xs @ [?x]) ?w3 ps R w' pos'"
    proof (cases "?k < length B")
      case True
      have "length (drop ?k B) < f" using fuel f 2(1,2) by simp
      then obtain ps pos' where "p = Some pos'" "parsed dll fd buf i (drop ?k B) (xs @ [?x]) ?w3 ps w' pos'"
        using parse_loop_parent [OF win3(1), of f i "xs @ [?x]" "cnt + 1" r p w'] True next3 bc pe cnt r(1) l b(2) by (auto simp: w3)
      then show ?thesis using parsed_taken [of dll fd buf i "drop ?k B" "xs @ [?x]" ?w3 ps w' pos'] by blast
    next
      case False
      then have e: "drop ?k B = []" "p = Some ?pos3" "w' = ?w3" using next3 by auto
      have ps3: "page_size ?w3 = page_size w" by (simp add: w3)
      have "?w3 = (upd_cb fd (\<lambda>_. cb (fdi ?w3 fd)) ?w3)\<lparr>bindconf := b\<rparr>" by (simp add: w3 upd_cb_def upd_fd_def)
      then have "\<exists>c b. ?w3 = (upd_cb fd (\<lambda>_. c) ?w3)\<lparr>bindconf := b\<rparr> \<and> conf_rep (page_size ?w3) b i (xs @ [?x])"
        using b(2) ps3 by metis
      moreover note win3(1) [unfolded e(1)] window_held [OF win3(1), unfolded e(1)]
      ultimately have "taken dll fd buf i (drop ?k B) (xs @ [?x]) ?w3 [] [] ?w3 ?pos3"
        unfolding taken_def e(1) by (simp add: cut_Nil)
      then show ?thesis using e(2,3) by blast
    qed
    then obtain ps R pos' where t: "p = Some pos'" "taken dll fd buf i (drop ?k B) (xs @ [?x]) ?w3 ps R w' pos'" by blast
    have mk: "mk_block ?w3 fd = mk_block w fd" using l by (intro ext) (simp add: mk_block_def w3)
    obtain c b' where c: "w' = (upd_cb fd (\<lambda>_. c) ?w3)\<lparr>bindconf := b'\<rparr>"
      "conf_rep (page_size ?w3) b' i ((xs @ [?x]) @ map (mk_block w fd) ps)"
      using t(2) unfolding taken_def mk by blast
    have "w' = (upd_cb fd (\<lambda>_. c) w)\<lparr>bindconf := b'\<rparr>" "page_size ?w3 = page_size w" using c(1) l by (simp_all add: w3)
    with c(2) have "\<exists>c b. w' = (upd_cb fd (\<lambda>_. c) w)\<lparr>bindconf := b\<rparr> \<and>
        conf_rep (page_size w) b i (xs @ map (mk_block w fd) (take ?k B # ps))" by auto
    moreover have "take ?k B \<noteq> []" "concat (take ?k B # ps) @ R = B" using 2(1,2) t(2) by (auto simp: taken_def)
    ultimately have "taken dll fd buf i B xs w (take ?k B # ps) R w' pos'"
      using t(2) False unfolding taken_def by simp
    then show ?thesis using t(1) by blast
  qed
qed

section \<open>Successive calls\<close>

text \<open>What a call leaves alone, and the blocks \<open>ys\<close> in the queue afterwards.\<close>

definition recv_next :: "nat \<Rightarrow> nat \<Rightarrow> message list \<Rightarrow> 't world \<Rightarrow> 't world \<Rightarrow> bool" where
  "recv_next fd i ys w w' \<longleftrightarrow> peer w' = peer w \<and> page_size w' = page_size w \<and>
     fi_type (fdi w' fd) = fi_type (fdi w fd) \<and> bc_elem (fdi w' fd) = bc_elem (fdi w fd) \<and>
     mk_block w' fd = mk_block w fd \<and> conf_rep (page_size w) (bindconf w') i ys"

lemma compact_rcvprotlen:
  assumes "compact fd p w = Inr w'" "fd < length (fds w)"
  shows "rcvprotlen (cb (fdi w' fd)) = rcvprotlen (cb (fdi w fd))"
  using assms by (auto simp: compact_def Let_def split: if_splits option.splits)

text \<open>
  One call: \<open>bs\<close> arrived behind the buffered \<open>B\<close>.  The length \<open>m\<close> is the remembered one, or 0 when none
  is remembered.
\<close>

lemma net_recv_taken:
  fixes w :: "'t world"
  assumes rep: "conn_rep (fixed_len m :: 't serv_if) fd w B"
    and ty: "fi_type (fdi w fd) \<noteq> fd_type_pipe" and bc: "bc_elem (fdi w fd) = Some i" and pe: "peer w = idle"
    and q: "conf_rep (page_size w) (bindconf w) i xs"
    and r: "net_recv dll fd (page_size w) True w = Inr (r, w')" "r \<noteq> -1"
  obtains qs R bs where "concat qs @ R = B @ bs" "length (B @ bs) < 2 ^ 31" "[] \<notin> set qs" "rx w' fd = rx w fd @ bs"
    "conn_rep (fixed_len (rcvprotlen (cb (fdi w' fd)))) fd w' R" "recv_next fd i (xs @ map (mk_block w fd) qs) w w'"
    "m = 0 \<longrightarrow> cut (pkg_len dll fd) (B @ bs) = (qs, R) \<and>
      (rcvprotlen (cb (fdi w' fd)) = 0 \<or> rcvprotlen (cb (fdi w' fd)) = get_pkg_len dll fd R True)"
proof -
  obtain r1 w1 cnt pos w2 where rd: "do_read_conn fd (page_size w) w = Inr (r1, w1)" "r1 \<noteq> -1"
    and pl: "parse_loop (unat (recvlen (cb (fdi w1 fd))) + 1) dll fd (page_size w) True 0 0 w1 = Inr (r, pos, w2)"
    and fin: "(case pos of None \<Rightarrow> Inr (r, w2) | Some p \<Rightarrow> bindR (compact fd p w2) (\<lambda>w3. Inr (r, w3))) = Inr (r, w')"
    using r ty by (auto simp: net_recv_def split: if_splits option.splits)
  obtain bs buf where win: "window (fixed_len m :: 't serv_if) fd w1 buf 0 (B @ bs)"
    and sc: "same_conn fd w w1" and rx1: "rx w1 fd = rx w fd @ bs"
    using do_read_conn_rep [OF rep fixed_len_stable rd] by auto
  have l: "fd < length (fds w1)" using win by (simp add: window_def)
  have m: "m = 0 \<longrightarrow> rcvprotlen (cb (fdi w1 fd)) = 0" using win by (auto simp: window_def fixed_len_def)
  have fuel: "length (B @ bs) < unat (recvlen (cb (fdi w1 fd))) + 1" using window_len [OF win] by simp
  have sc': "bc_elem (fdi w1 fd) = Some i" "peer w1 = idle" "conf_rep (page_size w1) (bindconf w1) i xs" "page_size w1 = page_size w"
    using bc pe q sc by (simp_all add: same_conn_def)
  obtain qs R p where p: "pos = Some p" and t: "taken dll fd buf i (B @ bs) xs w1 qs R w2 p"
    using parse_loop_taken [OF window_held [OF win] fuel sc'(1-3) order.refl r(2) pl [folded sc'(4)]] by blast
  then obtain c b where w2: "w2 = (upd_cb fd (\<lambda>_. c) w1)\<lparr>bindconf := b\<rparr>"
    and b: "conf_rep (page_size w1) b i (xs @ map (mk_block w1 fd) qs)" and h: "held fd w2 buf p R"
    and e: "concat qs @ R = B @ bs" "[] \<notin> set qs"
    and k: "rcvprotlen (cb (fdi w1 fd)) = 0 \<longrightarrow> cut (pkg_len dll fd) (B @ bs) = (qs, R) \<and> window dll fd w2 buf p R"
    unfolding taken_def by blast
  obtain c' ov where c': "w' = (upd_cb fd (\<lambda>_. c') w2)\<lparr>overlap := ov\<rparr>"
    "conn_rep (fixed_len (rcvprotlen (cb (fdi w2 fd)))) fd w' R" and cp: "compact fd p w2 = Inr w'"
    using compact_window [OF h [unfolded held_def]] fin p by auto
  have n: "rcvprotlen (cb (fdi w' fd)) = rcvprotlen (cb (fdi w2 fd))" using compact_rcvprotlen [OF cp] w2 l by simp
  have "mk_block w1 fd = mk_block w fd" "mk_block w' fd = mk_block w1 fd"
    using sc l c'(1) w2 by (auto simp: mk_block_def same_conn_def)
  then have s: "recv_next fd i (xs @ map (mk_block w fd) qs) w w'"
    using b c'(1) w2 sc l sc'(4) by (auto simp: recv_next_def same_conn_def)
  have "rx w' fd = rx w fd @ bs" using c'(1) w2 rx1 by simp
  moreover have "m = 0 \<longrightarrow> cut (pkg_len dll fd) (B @ bs) = (qs, R) \<and>
      (rcvprotlen (cb (fdi w' fd)) = 0 \<or> rcvprotlen (cb (fdi w' fd)) = get_pkg_len dll fd R True)"
    unfolding n using m k by (auto simp: window_def)
  ultimately show thesis using that [OF e(1) window_len(1) [OF win] e(2)] c'(2) s by (simp add: n)
qed

text \<open>The bytes received so far are the packages \<open>ps\<close> and what the buffer holds.\<close>

definition kept :: "nat \<Rightarrow> 't world \<Rightarrow> byte list list \<Rightarrow> byte list \<Rightarrow> bool" where
  "kept fd w ps B \<longleftrightarrow> concat ps @ B = rx w fd \<and> [] \<notin> set ps \<and> conn_rep (fixed_len (rcvprotlen (cb (fdi w fd)))) fd w B"

lemma net_recv_kept:
  assumes k: "kept fd w ps B" and w: "fi_type (fdi w fd) \<noteq> fd_type_pipe" "bc_elem (fdi w fd) = Some i" "peer w = idle"
      "conf_rep (page_size w) (bindconf w) i xs"
    and r: "net_recv dll fd (page_size w) True w = Inr (r, w')" "r \<noteq> -1"
  shows "\<exists>qs R. kept fd w' (ps @ qs) R \<and> recv_next fd i (xs @ map (mk_block w fd) qs) w w'"
proof -
  have rep: "conn_rep (fixed_len (rcvprotlen (cb (fdi w fd)))) fd w B" and rx: "concat ps @ B = rx w fd" "[] \<notin> set ps"
    using k by (simp_all add: kept_def)
  obtain qs R bs where n: "concat qs @ R = B @ bs" "length (B @ bs) < 2 ^ 31" "[] \<notin> set qs" "rx w' fd = rx w fd @ bs"
    "conn_rep (fixed_len (rcvprotlen (cb (fdi w' fd)))) fd w' R" "recv_next fd i (xs @ map (mk_block w fd) qs) w w'"
    by (rule net_recv_taken [OF rep w r])
  have "concat (ps @ qs) @ R = rx w fd @ bs" using n(1) rx(1) by (metis append.assoc concat_append)
  then have "kept fd w' (ps @ qs) R" using n(3-5) rx(2) by (simp add: kept_def)
  then show ?thesis using n(6) by blast
qed

text \<open>With the sample's length function a call takes all that has arrived as one package.\<close>

lemma echo_pkg_len: "length bs < 2 ^ 31 \<Longrightarrow> pkg_len echo_plugin fd bs = length bs"
  by (simp add: pkg_len_def echo_get_pkg_len_def unat_of_nat_small)

lemma echo_cut: "length bs < 2 ^ 31 \<Longrightarrow> cut (pkg_len echo_plugin fd) bs = (if bs = [] then [] else [bs], [])"
  using cut_step [of "pkg_len echo_plugin fd" bs "[]" "[]"]
  by (auto simp: echo_pkg_len cut_Nil)

definition emptied :: "nat \<Rightarrow> 't world \<Rightarrow> byte list list \<Rightarrow> bool" where
  "emptied fd w ps \<longleftrightarrow> concat ps = rx w fd \<and> [] \<notin> set ps \<and> conn_rep (fixed_len 0) fd w []"

lemma net_recv_emptied:
  fixes w :: "'t world"
  assumes k: "emptied fd w ps" and w: "fi_type (fdi w fd) \<noteq> fd_type_pipe" "bc_elem (fdi w fd) = Some i" "peer w = idle"
      "conf_rep (page_size w) (bindconf w) i xs"
    and r: "net_recv echo_plugin fd (page_size w) True w = Inr (r, w')" "r \<noteq> -1"
  shows "\<exists>qs. emptied fd w' (ps @ qs) \<and> recv_next fd i (xs @ map (mk_block w fd) qs) w w'"
proof -
  have rep: "conn_rep (fixed_len 0) fd w []" and rx: "concat ps = rx w fd" "[] \<notin> set ps" using k by (simp_all add: emptied_def)
  let ?dll = "echo_plugin :: 't serv_if"
  obtain qs R bs where n: "length ([] @ bs) < 2 ^ 31" "[] \<notin> set qs" "rx w' fd = rx w fd @ bs" "concat qs @ R = [] @ bs"
    "conn_rep (fixed_len (rcvprotlen (cb (fdi w' fd)))) fd w' R" "recv_next fd i (xs @ map (mk_block w fd) qs) w w'"
    and c: "0 = (0 :: i32) \<longrightarrow> cut (pkg_len ?dll fd) ([] @ bs) = (qs, R) \<and> (rcvprotlen (cb (fdi w' fd)) = 0 \<or>
       rcvprotlen (cb (fdi w' fd)) = get_pkg_len ?dll fd R True)"
    by (rule net_recv_taken [OF rep w r])
  have R: "R = []" using c echo_cut [OF n(1), where 'a = 't and fd = fd] by (simp split: if_splits)
  then have "rcvprotlen (cb (fdi w' fd)) = 0" using c by (simp add: echo_get_pkg_len_def)
  then have "emptied fd w' (ps @ qs)" using n rx R by (simp add: emptied_def)
  then show ?thesis using n(6) by blast
qed

text \<open>Any such invariant \<open>K\<close> of the calls is kept by a row of them.\<close>

lemma recv_calls_next:
  assumes step: "\<And>w ps i xs r w'. K w ps \<Longrightarrow> fi_type (fdi w fd) \<noteq> fd_type_pipe \<Longrightarrow> bc_elem (fdi w fd) = Some i \<Longrightarrow>
      peer w = idle \<Longrightarrow> conf_rep (page_size w) (bindconf w) i xs \<Longrightarrow> net_recv dll fd (page_size w) True w = Inr (r, w') \<Longrightarrow> r \<noteq> -1 \<Longrightarrow>
      \<exists>qs. K w' (ps @ qs) \<and> recv_next fd i (xs @ map (mk_block w fd) qs) w w'"
    and "K w ps" "fi_type (fdi w fd) \<noteq> fd_type_pipe" "bc_elem (fdi w fd) = Some i" "peer w = idle"
    "conf_rep (page_size w) (bindconf w) i xs" "recv_calls k dll fd w = Inr (True, w')"
  shows "\<exists>qs. K w' (ps @ qs) \<and> conf_rep (page_size w) (bindconf w') i (xs @ map (mk_block w fd) qs)"
  using assms(2-)
proof (induction k arbitrary: w ps xs)
  case 0
  then show ?case by (intro exI [of _ "[]"]) simp
next
  case (Suc k)
  obtain r w1 where 1: "net_recv dll fd (page_size w) True w = Inr (r, w1)" "r \<noteq> -1"
    "recv_calls k dll fd w1 = Inr (True, w')"
    using Suc.prems(6) by (auto split: if_splits)
  obtain qs where q: "K w1 (ps @ qs)" "recv_next fd i (xs @ map (mk_block w fd) qs) w w1"
    using step [OF Suc.prems(1-5) 1(1,2)] by blast
  obtain qs' where "K w' ((ps @ qs) @ qs')"
    "conf_rep (page_size w) (bindconf w') i ((xs @ map (mk_block w fd) qs) @ map (mk_block w fd) qs')"
    using Suc.IH [OF q(1)] Suc.prems(2-4) q(2) 1(3) unfolding recv_next_def by (metis (full_types))
  then show ?case by (intro exI [of _ "qs @ qs'"]) simp
qed

lemma recv_calls_kept:
  assumes "kept fd w ps B" "fi_type (fdi w fd) \<noteq> fd_type_pipe" "bc_elem (fdi w fd) = Some i" "peer w = idle"
    "conf_rep (page_size w) (bindconf w) i xs" "recv_calls k dll fd w = Inr (True, w')"
  shows "\<exists>qs R. kept fd w' (ps @ qs) R \<and> conf_rep (page_size w) (bindconf w') i (xs @ map (mk_block w fd) qs)"
  using recv_calls_next [of "\<lambda>w ps. \<exists>B. kept fd w ps B" fd dll w ps, OF _ _ assms(2-6)] assms(1) net_recv_kept by blast

lemma recv_calls_emptied:
  assumes "emptied fd w ps" "fi_type (fdi w fd) \<noteq> fd_type_pipe" "bc_elem (fdi w fd) = Some i" "peer w = idle"
    "conf_rep (page_size w) (bindconf w) i xs" "recv_calls k echo_plugin fd w = Inr (True, w')"
  shows "\<exists>qs. emptied fd w' (ps @ qs) \<and> conf_rep (page_size w) (bindconf w') i (xs @ map (mk_block w fd) qs)"
  using recv_calls_next [of "emptied fd" fd, OF net_recv_emptied assms] .

section \<open>Properties\<close>

text \<open>The bytes in the receive buffer of a connection.\<close>

definition unparsed :: "nat \<Rightarrow> 't world \<Rightarrow> byte list" where
  "unparsed fd w = (case recvptr (cb (fdi w fd)) of None \<Rightarrow> []
     | Some buf \<Rightarrow> take (unat (recvlen (cb (fdi w fd)))) buf)"

lemma conn_rep_unparsed: "conn_rep dll fd w B \<Longrightarrow> unparsed fd w = B"
  by (auto simp: conn_rep_def unparsed_def small_def unat_of_nat_small split: option.splits)


text \<open>Six bytes in two segments, for a stable plugin, whose first byte is the length, and for the sample.\<close>

definition demo_segments :: "unit world" where
  "demo_segments = demo_conn [RecvData [3, 9], RecvData [7, 2, 1, 4]]"

lemma demo_segments_received:
  "case recv_calls 2 demo_dll 5 demo_segments of Inr (b, w') \<Rightarrow> b \<and> rx w' 5 = [3, 9, 7, 2, 1, 4] | _ \<Rightarrow> False"
  "case recv_calls 2 echo_plugin 5 demo_segments of
     Inr (b, w') \<Rightarrow> b \<and> rx w' 5 = [3, 9, 7, 2, 1, 4] \<and> unparsed 5 w' = [] | _ \<Rightarrow> False"
  by code_simp+


end
