(* ===== verification/Mp_Worker.thy ===== *)
theory Mp_Worker
  imports Mp_Safety
begin

unbundle bit_operations_syntax

text \<open>
  Safety of a worker process.  \<open>wk\<close> is the invariant of its state between any two steps: its table
  holds the pipe to the parent and the connections the plugin opened to other servers, its close queue
  is empty, and its send queue holds only blocks the parent can handle.  What the worker needs of a
  plugin is the locale \<open>worker_plugin\<close>; under that contract the iterations of \<open>net_loop\<close> in the
  worker keep the invariant and are memory safe.
\<close>

section \<open>The invariant\<close>

definition wk_entry :: "u32 \<Rightarrow> fdinfo \<Rightarrow> bool" where
  "wk_entry ps i \<longleftrightarrow> fi_type i \<in> {fd_type_pipe, fd_type_remote} \<and> recv_ok ps (cb i) \<and> send_ok (2 ^ 31 - 1) (cb i)"

definition wk_chan :: "u32 \<Rightarrow> bind_config_info \<Rightarrow> bool" where
  "wk_chan ps e \<longleftrightarrow> (\<exists>xs. q_rep ps (recvq e) xs) \<and> (\<exists>xs. q_rep ps (sendq e) xs \<and> list_all out_msg xs)"

definition wk_env :: "'t world \<Rightarrow> bool" where
  "wk_env w \<longleftrightarrow> \<not> is_parent w \<and> small (page_size w) \<and> 13 < unat (page_size w) \<and>
     peer_ok (page_size w) (peer w) \<and> cur_bc w < length (configs (bindconf w)) \<and>
     wk_chan (page_size w) (configs (bindconf w) ! cur_bc w)"

definition wk_ents :: "'t world \<Rightarrow> bool" where
  "wk_ents w \<longleftrightarrow> (\<forall>fd<length (fds w).
     if fd \<in> used w then wk_entry (page_size w) (fdi w fd) else sendlen (cb (fdi w fd)) = 0)"

text \<open>\<open>et\<close> is the poll-again queue; nothing enters the close queue of a worker.\<close>

definition wk :: "nat list \<Rightarrow> 't world \<Rightarrow> bool" where
  "wk et w \<longleftrightarrow> net_inv w [] et \<and> wk_env w \<and> wk_ents w"

definition wk_inv :: "'t world \<Rightarrow> bool" where
  "wk_inv w \<longleftrightarrow> (\<exists>et. wk et w)"

text \<open>What no step of a worker changes: the page and table size, its bind element, the size of its queues.\<close>

definition qlens :: "'t world \<Rightarrow> u32 \<times> u32" where
  "qlens w = (let e = configs (bindconf w) ! cur_bc w in (q_length (recvq e), q_length (sendq e)))"

definition wk_next :: "'t world \<Rightarrow> 't world \<Rightarrow> bool" where
  "wk_next w w' \<longleftrightarrow> page_size w' = page_size w \<and> length (fds w') = length (fds w) \<and> cur_bc w' = cur_bc w \<and>
     qlens w' = qlens w"

lemma wk_next_refl [simp]: "wk_next w w"
  by (simp add: wk_next_def)

lemma wk_next_trans: "wk_next w1 w2 \<Longrightarrow> wk_next w2 w3 \<Longrightarrow> wk_next w1 w3"
  by (simp add: wk_next_def)

lemma wk_next_env: "env w' = env w \<Longrightarrow> bindconf w' = bindconf w \<Longrightarrow> wk_next w w'"
  using env_eqD [of w' w] by (simp add: wk_next_def qlens_def)

lemma wkD:
  assumes "wk et w"
  shows "net_inv w [] et" "\<not> is_parent w" "small (page_size w)" "13 < unat (page_size w)"
    "peer_ok (page_size w) (peer w)" "cur_bc w < length (configs (bindconf w))"
    "wk_chan (page_size w) (configs (bindconf w) ! cur_bc w)" "distinct et"
  using assms queues_ok_disjoint(3) [of w "[]" et] by (auto simp: wk_def wk_env_def net_inv_def)

lemma wk_used:
  assumes "wk et w" "fd \<in> used w"
  shows "wk_entry (page_size w) (fdi w fd)" "fd < length (fds w)" "sockfd (fdi w fd) = fd" "int fd \<le> maxfd w"
  using assms by (auto simp: wk_def wk_ents_def net_inv_def table_ok_def used_def)

lemma wk_unused: "wk et w \<Longrightarrow> fd < length (fds w) \<Longrightarrow> fd \<notin> used w \<Longrightarrow> sendlen (cb (fdi w fd)) = 0"
  by (auto simp: wk_def wk_ents_def)

lemma wk_maxfd: "wk et w \<Longrightarrow> int fd \<le> maxfd w \<Longrightarrow> fd < length (fds w)"
  by (auto simp: wk_def net_inv_def table_ok_def)

lemma wk_env_cong: "env w' = env w \<Longrightarrow> bindconf w' = bindconf w \<Longrightarrow> wk_env w' = wk_env w"
  by (simp add: wk_env_def env_def)

lemma wk_entry_core: "core i' = core i \<Longrightarrow> wk_entry ps i' = wk_entry ps i"
  by (simp add: core_def wk_entry_def)

text \<open>A step that touches at most the entry of \<open>fd\<close>.\<close>

lemma wk_step:
  assumes i: "wk et w" and e: "env w' = env w" "bindconf w' = bindconf w" and n: "net_inv w' [] et'"
    and c: "\<And>x. x \<noteq> fd \<Longrightarrow> x < length (fds w) \<Longrightarrow> core (fdi w' x) = core (fdi w x)"
    and f: "fd < length (fds w) \<Longrightarrow> if fd \<in> used w' then wk_entry (page_size w) (fdi w' fd) else sendlen (cb (fdi w' fd)) = 0"
  shows "wk et' w' \<and> wk_next w w'"
proof -
  note e' = env_eqD [OF e(1)]
  have w: "wk_env w'" using wk_env_cong [OF e] i by (simp add: wk_def)
  have "if x \<in> used w' then wk_entry (page_size w') (fdi w' x) else sendlen (cb (fdi w' x)) = 0" if x: "x < length (fds w')" for x
  proof (cases "x = fd")
    case True
    then show ?thesis using f x e' by simp
  next
    case False
    then have cx: "core (fdi w' x) = core (fdi w x)" using c x e' by simp
    then have "x \<in> used w' \<longleftrightarrow> x \<in> used w" using e' by (auto simp: used_def core_def)
    then show ?thesis
      using i x e' wk_entry_core [OF cx] core_eqD [OF cx] by (auto simp: wk_def wk_ents_def)
  qed
  then show ?thesis using n w wk_next_env [OF e] by (simp add: wk_def wk_ents_def)
qed

lemma wk_fds:
  assumes "wk et w" "fds w' = fds w" "nodes w' = nodes w" "maxfd w' = maxfd w" "ev_count w' = ev_count w"
    "page_size w' = page_size w" "peer w' = peer w" "is_parent w' = is_parent w" "cur_bc w' = cur_bc w"
    "bindconf w' = bindconf w"
  shows "wk et w' \<and> wk_next w w' \<and> used w' = used w"
  using assms net_inv_cong [of w' w] by (auto simp: wk_def wk_env_def wk_ents_def wk_next_def used_def qlens_def)

lemma wk_reflagged:
  assumes i: "wk et w" and u: "fd \<in> used w" and r: "reflagged fd w w'" and q: "queues_ok w' [] et'"
  shows "wk et' w' \<and> wk_next w w' \<and> used w' = used w"
proof -
  note f = reflagged_frame [OF r]
  have l: "fd < length (fds w)" using u by (simp add: used_def)
  have "net_inv w' [] et'"
    using q reflagged_table_ok [OF r l u] wkD(1) [OF i] by (simp add: net_inv_def)
  moreover have us: "used w' = used w" using r l by (auto simp: reflagged_def)
  ultimately show ?thesis
    using wk_step [OF i f(1,2), of et' fd] i f(3) wk_used(1) [OF i u] u wk_entry_core [OF f(3)]
    by (auto simp: wk_def)
qed

lemma wk_only_cb:
  assumes i: "wk et w" and u: "fd \<in> used w" and o: "only_cb fd w w'" "bindconf w' = bindconf w"
    and c: "recv_ok (page_size w) (cb (fdi w' fd))" "send_ok (2 ^ 31 - 1) (cb (fdi w' fd))"
  shows "wk et w' \<and> wk_next w w' \<and> used w' = used w"
proof -
  have e: "env w' = env w" and t: "same_table w w'" using o by (auto simp: only_cb_def)
  have l: "fd < length (fds w)" using u by (simp add: used_def)
  have us: "used w' = used w" by (rule only_cb_used [OF o(1)])
  have "wk et w' \<and> wk_next w w'"
  proof (rule wk_step [OF i e o(2)])
    show "net_inv w' [] et" using same_table_inv [OF t] wkD(1) [OF i] by simp
    show "core (fdi w' x) = core (fdi w x)" if "x \<noteq> fd" "x < length (fds w)" for x
      using that o(1) by (simp add: only_cb_def same_table_def core_def)
    show "if fd \<in> used w' then wk_entry (page_size w) (fdi w' fd) else sendlen (cb (fdi w' fd)) = 0"
      using us u c wk_used(1) [OF i u] t l by (simp add: wk_entry_def same_table_def)
  qed
  then show ?thesis using us by simp
qed

lemma wk_send_step:
  assumes "wk et w" "fd \<in> used w" "send_step fd w w'" "send_rep fd w'" "unat (sendlen (cb (fdi w' fd))) < 2 ^ 31"
  shows "wk et w' \<and> wk_next w w' \<and> used w' = used w"
proof (rule wk_only_cb [OF assms(1,2)])
  show "recv_ok (page_size w) (cb (fdi w' fd))"
    using assms(3) wk_used(1) [OF assms(1,2)] recv_ok_half [of "cb (fdi w' fd)" "cb (fdi w fd)"]
    by (simp add: send_step_def wk_entry_def)
  show "send_ok (2 ^ 31 - 1) (cb (fdi w' fd))"
    using assms(4,5) send_rep_iff [of "2 ^ 31 - 1" w' fd] by simp
qed (use assms(3) in \<open>auto simp: send_step_def\<close>)

lemma wk_recv_only:
  assumes "wk et w" "fd \<in> used w" "recv_only fd w w'" "recv_ok (page_size w) (cb (fdi w' fd))"
  shows "wk et w' \<and> wk_next w w' \<and> used w' = used w"
  using assms(3,4) wk_used(1) [OF assms(1,2)] send_ok_half [of "cb (fdi w' fd)" "cb (fdi w fd)"]
  by (intro wk_only_cb [OF assms(1,2)]) (auto simp: recv_only_def wk_entry_def)

lemma wk_send_rep:
  assumes "wk et w" "fd \<in> used w"
  shows "send_rep fd w" "unat (sendlen (cb (fdi w fd))) < 2 ^ 31"
  using wk_used(1,2) [OF assms] send_rep_iff [of "2 ^ 31 - 1" w fd] by (auto simp: wk_entry_def)

lemma safe_pairI:
  "safe_res (\<lambda>_. True) m \<Longrightarrow> (\<And>r w'. m = Inr (r, w') \<Longrightarrow> Q r w') \<Longrightarrow> safe_res (\<lambda>(r, w'). Q r w') m"
  by (auto simp: safe_res_def split: sum.splits)

section \<open>Writing and removing\<close>

lemma do_write_conn_wk:
  assumes i: "wk et w" and u: "fd \<in> used w" and n: "sendlen (cb (fdi w fd)) \<noteq> 0"
  shows "safe_res (\<lambda>(r, w'). wk et w' \<and> wk_next w w' \<and> used w' = used w) (do_write_conn fd w)"
  using do_write_conn_half [OF wk_send_rep(1) [OF i u] n wk_send_rep(2) [OF i u]]
proof (rule safe_mono, clarify)
  fix r w' assume "send_step fd w w'" "send_rep fd w'" "unat (sendlen (cb (fdi w' fd))) \<le> unat (sendlen (cb (fdi w fd)))"
  then show "wk et w' \<and> wk_next w w' \<and> used w' = used w"
    using wk_send_step [OF i u] wk_send_rep(2) [OF i u] by simp
qed

lemma merge_buffer_wk:
  assumes i: "wk et w" and u: "fd \<in> used w" and n: "unat (sendlen (cb (fdi w fd))) + length rest < 2 ^ 31"
  shows "safe_res (\<lambda>w'. wk et w' \<and> wk_next w w' \<and> used w' = used w) (merge_buffer ok fd rest w)"
proof -
  have "unat (sendlen (cb (fdi w fd))) + length rest < 2 ^ 32" using n by simp
  from merge_buffer_half [OF wk_send_rep(1) [OF i u] this, where ok = ok] n show ?thesis
    by (elim safe_mono) (intro wk_send_step [OF i u], auto)
qed

lemma mod_events_wk: "wk et w \<Longrightarrow> wk et (snd (mod_events fd o' w)) \<and> wk_next w (snd (mod_events fd o' w)) \<and> used (snd (mod_events fd o' w)) = used w"
  by (rule wk_fds) (auto simp: mod_events_def split: option.split)

lemma arm_events_wk: "wk et w \<Longrightarrow> wk et (arm_events fd p w) \<and> wk_next w (arm_events fd p w)"
  using mod_events_wk [of et w fd] by (auto simp: arm_events_def Let_def)

lemma quiet_del_wk:
  assumes i: "wk et w" and l: "fd < length (fds w)"
  shows "safe_res (\<lambda>w'. wk (remove1 fd et) w' \<and> wk_next w w' \<and> used w' = used w - {fd}) (do_del_conn dll fd 2 w)"
proof (cases "fd \<in> used w")
  case False
  then show ?thesis
    using i net_inv_notin_used [OF wkD(1) [OF i] False l] by (simp add: do_del_conn_unused [OF l] remove1_idem)
next
  case True
  have n: "notify_close dll fd 2 w = Inr w" by (simp add: notify_close_def)
  obtain w' where d: "do_del_conn dll fd 2 w = Inr w'" "net_inv w' [] (remove1 fd et)" "used w' = used w - {fd}"
    using do_del_conn_from_notify [OF wkD(1) [OF i] True n same_net_refl] by auto
  note f = do_del_conn_frame [OF d(1) l True _ n]
  have "wk (remove1 fd et) w' \<and> wk_next w w'"
    by (rule wk_step [OF i _ _ d(2), of fd])
      (use f i d(3) do_del_conn_other [OF d(1)] in \<open>auto simp: wk_def\<close>)
  then show ?thesis using d by simp
qed

section \<open>Reading\<close>

text \<open>\<open>pos\<close> bytes of the buffer are consumed and the unread ones lie behind them.\<close>

definition recv_at :: "nat \<Rightarrow> nat \<Rightarrow> 't world \<Rightarrow> bool" where
  "recv_at fd pos w \<longleftrightarrow> (case recvptr (cb (fdi w fd)) of None \<Rightarrow> recvlen (cb (fdi w fd)) = 0 \<and> rcvprotlen (cb (fdi w fd)) = 0
     | Some buf \<Rightarrow> pos + unat (recvlen (cb (fdi w fd))) \<le> length buf)"

text \<open>What reading does to the poll-again queue: \<open>fd\<close> stays, leaves or is appended.\<close>

definition moved :: "nat \<Rightarrow> nat list \<Rightarrow> nat list \<Rightarrow> bool" where
  "moved fd et et' \<longleftrightarrow> et' = et \<or> et' = remove1 fd et \<or> fd \<notin> set et \<and> et' = et @ [fd]"

definition left :: "nat \<Rightarrow> nat list \<Rightarrow> nat list \<Rightarrow> bool" where
  "left fd et et' \<longleftrightarrow> et' = et \<or> et' = remove1 fd et"

lemma left_refl [simp]: "left fd et et" "left fd et (remove1 fd et)"
  by (simp_all add: left_def)

lemma left_trans: "left fd et et1 \<Longrightarrow> left fd et1 et2 \<Longrightarrow> distinct et \<Longrightarrow> left fd et et2"
  by (auto simp: left_def distinct_remove1_removeAll removeAll_filter_not_eq)

text \<open>The invariant after an operation on \<open>fd\<close> that may have removed it from the poll-again queue.\<close>

definition wk_left :: "nat \<Rightarrow> nat list \<Rightarrow> 't world \<Rightarrow> 't world \<Rightarrow> bool" where
  "wk_left fd et w w' \<longleftrightarrow> (\<exists>et'. left fd et et' \<and> wk et' w') \<and> wk_next w w'"

lemma wk_leftI: "wk et w' \<Longrightarrow> wk_next w w' \<Longrightarrow> wk_left fd et w w'" "wk (remove1 fd et) w' \<Longrightarrow> wk_next w w' \<Longrightarrow> wk_left fd et w w'"
  unfolding wk_left_def using left_refl by blast+

lemma wk_left_trans: "wk_left fd et w w1 \<Longrightarrow> distinct et \<Longrightarrow> (\<And>et1. wk et1 w1 \<Longrightarrow> wk_left fd et1 w1 w2) \<Longrightarrow> wk_left fd et w w2"
  unfolding wk_left_def using left_trans wk_next_trans by blast

lemma left_moved: "left fd et et' \<Longrightarrow> moved fd et et'"
  by (auto simp: left_def moved_def)

lemma moved_left: "moved fd et et1 \<Longrightarrow> left fd et1 et2 \<Longrightarrow> distinct et \<Longrightarrow> moved fd et et2"
  by (auto simp: left_def moved_def distinct_remove1_removeAll removeAll_filter_not_eq remove1_append)

lemma moved_member: "moved fd et et' \<Longrightarrow> fd \<in> set et \<Longrightarrow> left fd et et'"
  by (auto simp: left_def moved_def)

lemma etin_ops_wk:
  assumes i: "wk et w" and u: "fd \<in> used w"
    and r: "w' = w \<or> add_to_etin_queue fd w = Inr w' \<or> del_from_etin_queue fd w = Inr w'"
  shows "\<exists>et'. moved fd et et' \<and> wk et' w' \<and> wk_next w w' \<and> used w' = used w"
proof -
  have q: "queues_ok w [] et" and l: "fd < length (fds w)" using wkD(1) [OF i] u by (auto simp: net_inv_def used_def)
  from r consider "w' = w" | "add_to_etin_queue fd w = Inr w'" | "del_from_etin_queue fd w = Inr w'" by blast
  then show ?thesis
  proof cases
    case 1
    then show ?thesis using i by (auto simp: moved_def)
  next
    case 2
    then have "reflagged fd w w'" "queues_ok w' [] (if fd \<in> set [] \<union> set et then et else et @ [fd])"
      using add_to_etin_queue_spec [OF q l] by auto
    note w = wk_reflagged [OF i u this]
    then show ?thesis by (intro exI [of _ "if fd \<in> set [] \<union> set et then et else et @ [fd]"]) (auto simp: moved_def)
  next
    case 3
    then have "reflagged fd w w'" "queues_ok w' [] (remove1 fd et)"
      using del_from_etin_queue_spec [OF q l] by (auto simp: unflagged_def reflagged_def)
    note w = wk_reflagged [OF i u this]
    then show ?thesis by (intro exI [of _ "remove1 fd et"]) (auto simp: moved_def)
  qed
qed

lemma map_recvbuf_ok:
  "map_recvbuf fd w = Inr w1 \<Longrightarrow> fd < length (fds w) \<Longrightarrow> recv_ok (page_size w) (cb (fdi w fd)) \<Longrightarrow>
   recv_ok (page_size w) (cb (fdi w1 fd))"
  by (auto simp: map_recvbuf_def recv_ok_def split: option.splits if_splits)

lemma do_read_conn_refused:
  assumes r: "do_read_conn fd max_len w = Inr (-1, w')" and ok: "recv_ok (page_size w) (cb (fdi w fd))"
  shows "recv_ok (page_size w) (cb (fdi w' fd))"
proof -
  obtain w1 where w1: "map_recvbuf fd w = Inr w1" "fd < length (fds w)"
    using r by (auto simp: do_read_conn_def fd_ok_def split: if_splits)
  have "fds w' = fds w1"
    using r w1 by (auto simp: do_read_conn_def Let_def split: if_splits io_ret.splits) (metis io_ret.exhaust)
  then show ?thesis using map_recvbuf_ok [OF w1 ok] by simp
qed

lemma do_read_conn_wk:
  assumes i: "wk et w" and u: "fd \<in> used w"
  shows "safe_res (\<lambda>(r, w'). (\<exists>et'. moved fd et et' \<and> wk et' w') \<and> wk_next w w' \<and> used w' = used w \<and>
    (r \<noteq> -1 \<longrightarrow> recv_at fd 0 w' \<and> recvptr (cb (fdi w' fd)) \<noteq> None)) (do_read_conn fd (page_size w) w)"
proof -
  note en = wk_used(1,2) [OF i u, unfolded wk_entry_def]
  have q: "queues_ok w [] et" using wkD(1) [OF i] by (simp add: net_inv_def)
  obtain B where rep: "conn_rep (fixed_len (rcvprotlen (cb (fdi w fd)))) fd w B"
    using en recv_ok_rep [OF en(2) wkD(3) [OF i]] by auto
  have "safe_res (\<lambda>_. True) (do_read_conn fd (page_size w) w)"
    using do_read_conn_fault [OF rep q] by (auto simp: safe_res_def exit_fault_def split: sum.split)
  then show ?thesis
  proof (rule safe_pairI)
    fix r w' assume d: "do_read_conn fd (page_size w) w = Inr (r, w')"
    obtain w3 where w3: "recv_only fd w w3" "w' = w3 \<or> add_to_etin_queue fd w3 = Inr w' \<or> del_from_etin_queue fd w3 = Inr w'"
      using do_read_conn_steps [OF d] by blast
    have at: "recv_at fd 0 w' \<and> recvptr (cb (fdi w' fd)) \<noteq> None \<and> recv_ok (page_size w) (cb (fdi w' fd))" if r: "r \<noteq> -1"
    proof -
      obtain buf B' where win: "window (fixed_len (rcvprotlen (cb (fdi w fd)))) fd w' buf 0 B'" "same_conn fd w w'"
        using do_read_conn_rep [OF rep fixed_len_stable d r] by blast
      then have "recv_ok (page_size w') (cb (fdi w' fd))" "page_size w' = page_size w" "recvptr (cb (fdi w' fd)) = Some buf"
        using held_recv_ok [OF window_held [OF win(1)]] by (auto simp: same_conn_def window_def)
      then show ?thesis by (simp add: recv_at_def recv_ok_def)
    qed
    then have "recv_ok (page_size w) (cb (fdi w' fd))"
      using do_read_conn_refused [of fd "page_size w" w w'] d en(1) by (cases "r = -1") auto
    moreover have "core (fdi w' fd) = core (fdi w3 fd)"
      using w3(2) reflagged_frame(3) [OF add_to_etin_queue_reflagged] reflagged_frame(3) [OF del_from_etin_queue_reflagged] by metis
    ultimately have "recv_ok (page_size w) (cb (fdi w3 fd))" using core_eqD by metis
    from wk_recv_only [OF i u w3(1) this] have w3': "wk et w3" "wk_next w w3" "used w3 = used w" by auto
    obtain et' where "moved fd et et'" "wk et' w'" "wk_next w3 w'" "used w' = used w3"
      using etin_ops_wk [OF w3'(1) _ w3(2)] u w3'(3) by auto
    then show "(\<exists>et'. moved fd et et' \<and> wk et' w') \<and> wk_next w w' \<and> used w' = used w \<and>
        (r \<noteq> -1 \<longrightarrow> recv_at fd 0 w' \<and> recvptr (cb (fdi w' fd)) \<noteq> None)"
      using w3' at wk_next_trans by auto
  qed
qed

lemma recv_bytes_at:
  "recv_at fd pos w \<Longrightarrow> recvptr (cb (fdi w fd)) = Some buf \<Longrightarrow> n \<le> unat (recvlen (cb (fdi w fd))) \<Longrightarrow>
   recv_bytes fd pos n w = Inr (bytes_at buf pos n)"
  by (simp add: recv_at_def recv_bytes_def)

lemma compact_wk:
  assumes i: "wk et w" and u: "fd \<in> used w" and a: "recv_at fd pos w"
  shows "safe_res (\<lambda>w'. wk et w' \<and> wk_next w w') (compact fd pos w)"
proof (cases "pos \<noteq> 0 \<and> recvlen (cb (fdi w fd)) \<noteq> 0")
  case False
  then show ?thesis using i by (auto simp: compact_def Let_def unat_eq_0)
next
  case True
  then obtain buf where b: "recvptr (cb (fdi w fd)) = Some buf" using a by (auto simp: recv_at_def split: option.splits)
  let ?n = "unat (recvlen (cb (fdi w fd)))" and ?buf = "put_bytes buf 0 (bytes_at buf pos (unat (recvlen (cb (fdi w fd)))))"
  let ?w = "(upd_cb fd (\<lambda>c. c\<lparr>recvptr := Some ?buf\<rparr>) w)\<lparr>overlap := overlap w \<or> pos < ?n\<rparr>"
  have l: "fd < length (fds w)" using u by (simp add: used_def)
  have "recv_only fd w (upd_cb fd (\<lambda>c. c\<lparr>recvptr := Some ?buf\<rparr>) w)" using l by (simp add: send_half_def)
  then have o: "recv_only fd w ?w"
    using only_cb_trans [OF only_cb_simps(2) only_cb_simps(8)] by (simp add: recv_only_def)
  have "length (bytes_at buf pos ?n) = ?n" "pos + ?n \<le> length buf"
    using a b by (auto simp: recv_at_def bytes_at_def)
  then have "recv_ok (page_size w) (cb (fdi ?w fd))"
    using wk_used(1) [OF i u] b l by (simp add: wk_entry_def recv_ok_def length_put_bytes)
  from wk_recv_only [OF i u o this] show ?thesis
    using True b recv_bytes_at [OF a b order.refl] by (simp add: compact_def Let_def unat_eq_0)
qed

section \<open>The queues of the worker\<close>

lemma set_bc_wk:
  assumes i: "wk et w" and c: "wk_chan (page_size w) e" and n: "(q_length (recvq e), q_length (sendq e)) = qlens w"
  shows "wk et (set_bc e w) \<and> wk_next w (set_bc e w)"
proof -
  let ?w = "set_bc e w"
  have f: "fds ?w = fds w" "nodes ?w = nodes w" "maxfd ?w = maxfd w" "ev_count ?w = ev_count w" "is_parent ?w = is_parent w"
    by (simp_all add: set_bc_def)
  then have "net_inv ?w [] et" "used ?w = used w" using net_inv_cong [of ?w w] wkD(1) [OF i] by (auto simp: used_def)
  then show ?thesis using i c f n by (simp add: wk_def wk_env_def wk_ents_def wk_next_def qlens_def)
qed

lemma push_sendq_wk:
  assumes i: "wk et w" and f: "msg_fits (mb, take (unat (mb_length mb) - 13) d)"
    and o: "out_msg (mb, take (unat (mb_length mb) - 13) d)"
  shows "safe_res (\<lambda>(r, w'). wk et w' \<and> wk_next w w') (push_sendq mb d w)"
proof -
  let ?e = "configs (bindconf w) ! cur_bc w" and ?x = "(mb, take (unat (mb_length mb) - 13) d)"
  obtain xs ys where q: "q_rep (page_size w) (recvq ?e) xs" "q_rep (page_size w) (sendq ?e) ys" "list_all out_msg ys"
    using wkD(7) [OF i] by (auto simp: wk_chan_def)
  have f': "13 \<le> unat (mb_length mb)" "unat (mb_length mb) - 13 \<le> length d" "mb_type mb \<noteq> PAD_BLOCK"
    using f by (auto simp: msg_fits_def msg_len_def)
  have post: "case shmq_push (peer w) (page_size w) (sendq ?e) mb d of Inl e \<Rightarrow> e = Exit (-1)
    | Inr (r, q') \<Rightarrow> q_length q' = q_length (sendq ?e) \<and> (\<exists>zs. q_rep (page_size w) q' zs \<and> list_all out_msg zs)"
  proof (cases "shmq_push (peer w) (page_size w) (sendq ?e) mb d")
    case (Inl e)
    then show ?thesis using shmq_push_rep [OF q(2) wkD(5) [OF i] f'] by simp
  next
    case (Inr p)
    obtain r q' where p: "p = (r, q')" by (cases p)
    obtain zs where zs: "suffix zs ys" "q_length q' = q_length (sendq ?e)" "if r = 0 then q_rep (page_size w) q' (zs @ [?x]) else q_rep (page_size w) q' zs"
      using shmq_push_rep [OF q(2) wkD(5) [OF i] f'] Inr p by (auto split: if_splits)
    have "list_all out_msg zs" using zs(1) q(3) by (auto simp: suffix_def)
    then show ?thesis using zs(2,3) o Inr p by (cases "r = 0") auto
  qed
  show ?thesis
  proof (cases "shmq_push (peer w) (page_size w) (sendq ?e) mb d")
    case (Inl e)
    then show ?thesis using post wkD(6) [OF i] by (simp add: push_sendq_def my_bc_def)
  next
    case (Inr p)
    obtain r q' where p: "p = (r, q')" by (cases p)
    have "wk_chan (page_size w) (?e\<lparr>sendq := q'\<rparr>)" using post Inr p q(1) by (auto simp: wk_chan_def)
    from set_bc_wk [OF i this] show ?thesis using post Inr p wkD(6) [OF i] by (simp add: push_sendq_def my_bc_def qlens_def Let_def)
  qed
qed

lemma push_fin_wk:
  assumes "wk et w" "mb_type mb = FIN_BLOCK" "mb_length mb = 13"
  shows "safe_res (\<lambda>(r, w'). wk et w' \<and> wk_next w w') (push_sendq mb [] w)"
  by (rule push_sendq_wk [OF assms(1)]) (use assms(2,3) in \<open>auto simp: msg_fits_def msg_len_def out_msg_def\<close>)

lemma reject_open_wk:
  assumes i: "wk et w" and q: "q_rep (page_size w) (recvq (configs (bindconf w) ! cur_bc w)) xs"
    and off: "8 \<le> off" "off + n = tpos (recvq (configs (bindconf w) ! cur_bc w))" "13 \<le> n" "n \<le> unat (page_size w)"
  shows "safe_res (\<lambda>w'. wk et w' \<and> wk_next w w') (reject_open (int off) mb w)"
proof -
  have "rq_rep w xs" using q wkD(6) [OF i] by (simp add: rq_rep_def)
  then obtain q' where q': "q_rep (page_size w) q' xs" "q_length q' = q_length (recvq (configs (bindconf w) ! cur_bc w))"
    "reject_open (int off) mb w = bindR (push_sendq (mb\<lparr>mb_type := FIN_BLOCK, mb_length := 13\<rparr>) []
       (set_bc ((configs (bindconf w) ! cur_bc w)\<lparr>recvq := q'\<rparr>) w)) (\<lambda>(r, w1). Inr w1)"
    by (rule reject_open_eq [OF _ off])
  have "wk_chan (page_size w) ((configs (bindconf w) ! cur_bc w)\<lparr>recvq := q'\<rparr>)"
    using wkD(7) [OF i] q'(1) by (auto simp: wk_chan_def)
  from set_bc_wk [OF i this] have "wk et (set_bc ((configs (bindconf w) ! cur_bc w)\<lparr>recvq := q'\<rparr>) w) \<and>
      wk_next w (set_bc ((configs (bindconf w) ! cur_bc w)\<lparr>recvq := q'\<rparr>) w)" using q'(2) by (simp add: qlens_def Let_def)
  then show ?thesis
    unfolding q'(3) using wk_next_trans by (auto intro!: safe_bind [OF push_fin_wk])
qed

text \<open>The fragments of a package are blocks the parent can handle: none is empty.\<close>

lemma send_frags_wk:
  "wk et w \<Longrightarrow> safe_res (\<lambda>(r, w'). wk et w' \<and> wk_next w w') (send_frags fuel s pkg w)"
proof (induction fuel arbitrary: pkg w)
  case (Suc fuel)
  show ?case
  proof (cases "pkg = []")
    case True
    then show ?thesis using Suc.prems by simp
  next
    case False
    let ?b = "frag_block (page_size w) s (length pkg)" and ?n = "frag_len (page_size w) (length pkg)"
    note f = frag_block_fits [OF wkD(4,3) [OF Suc.prems] False, of s]
    have e: "send_frags (Suc fuel) s pkg w = bindR (push_sendq ?b pkg w) (\<lambda>(r, w1).
          if r = -1 then Inr (-1, w1) else send_frags fuel s (drop ?n pkg) w1)"
      using False by (simp add: frag_block_def Let_def)
    have p: "safe_res (\<lambda>(r, w'). wk et w' \<and> wk_next w w') (push_sendq ?b pkg w)"
      by (rule push_sendq_wk [OF Suc.prems]) (use f in \<open>auto simp: out_msg_def frag_of_def\<close>)
    show ?thesis
      unfolding e
    proof (rule safe_bind [OF p], clarify)
      fix r w1 assume w1: "wk et w1" "wk_next w w1"
      have "safe_res (\<lambda>(r, w'). wk et w' \<and> wk_next w w') (send_frags fuel s (drop ?n pkg) w1)"
        by (rule safe_mono [OF Suc.IH [OF w1(1)]]) (use wk_next_trans [OF w1(2)] in auto)
      then show "safe_res (\<lambda>(r, w'). wk et w' \<and> wk_next w w')
          (if r = -1 then Inr (-1, w1) else send_frags fuel s (drop ?n pkg) w1)"
        using w1 by simp
    qed
  qed
qed simp

section \<open>The contract of the plugin\<close>

text \<open>
  \<open>on_fd_closed\<close> runs inside \<open>do_del_conn\<close>, before the entry is released: it must leave that entry in use
  and the poll-again queue as it is.
\<close>

locale fd_hook =
  fixes dll :: "'t serv_if"
  assumes on_fd_closed_law:
    "wk et w \<Longrightarrow> fd \<in> used w \<Longrightarrow> safe_res (\<lambda>w'. wk et w' \<and> wk_next w w' \<and> fd \<in> used w') (on_fd_closed dll fd w)"
begin

lemma del_conn_wk:
  assumes i: "wk et w" and l: "fd < length (fds w)"
  shows "safe_res (\<lambda>w'. wk (remove1 fd et) w' \<and> wk_next w w' \<and> fd \<notin> used w') (do_del_conn dll fd 0 w)"
proof (cases "fd \<in> used w")
  case False
  then show ?thesis
    using i net_inv_notin_used [OF wkD(1) [OF i] False l] by (simp add: do_del_conn_unused [OF l] remove1_idem)
next
  case True
  have "do_del_conn dll fd 0 w = bindR (on_fd_closed dll fd w) (\<lambda>w1.
      bindR (del_from_etin_queue fd w1) (\<lambda>w2. bindR (del_from_close_queue fd w2) (\<lambda>w3. Inr (release_fd fd w3))))"
    using True l by (simp add: do_del_conn_def notify_close_def fd_ok_def used_def)
  also have "safe_res (\<lambda>w'. wk (remove1 fd et) w' \<and> wk_next w w' \<and> fd \<notin> used w') \<dots>"
  proof (rule safe_bind [OF on_fd_closed_law [OF i True]])
    fix w1 assume w1: "wk et w1 \<and> wk_next w w1 \<and> fd \<in> used w1"
    then have l1: "fd < length (fds w1)" by (simp add: used_def)
    have "do_del_conn dll fd 2 w1 =
        bindR (del_from_etin_queue fd w1) (\<lambda>w2. bindR (del_from_close_queue fd w2) (\<lambda>w3. Inr (release_fd fd w3)))"
      using w1 by (simp add: do_del_conn_def notify_close_def fd_ok_def used_def)
    moreover have "safe_res (\<lambda>w'. wk (remove1 fd et) w' \<and> wk_next w1 w' \<and> used w' = used w1 - {fd}) (do_del_conn dll fd 2 w1)"
      using w1 by (intro quiet_del_wk [OF _ l1]) simp
    ultimately show "safe_res (\<lambda>w'. wk (remove1 fd et) w' \<and> wk_next w w' \<and> fd \<notin> used w')
        (bindR (del_from_etin_queue fd w1) (\<lambda>w2. bindR (del_from_close_queue fd w2) (\<lambda>w3. Inr (release_fd fd w3))))"
      using w1 wk_next_trans [of w w1] by (auto elim!: safe_mono)
  qed
  finally show ?thesis .
qed

lemma flush_pending_wk:
  assumes i: "wk et w" and u: "fd \<in> used w"
  shows "safe_res (\<lambda>(st, w'). wk_next w w' \<and> (case st of None \<Rightarrow> wk (remove1 fd et) w'
      | Some _ \<Rightarrow> wk et w' \<and> fd \<in> used w' \<and> unat (sendlen (cb (fdi w' fd))) \<le> unat (sendlen (cb (fdi w fd)))))
    (flush_pending dll fd w)"
proof (cases "sendlen (cb (fdi w fd)) = 0")
  case True
  then show ?thesis using i u by (simp add: flush_pending_def)
next
  case False
  then have g: "(sendlen (cb (fdi w fd)) > 0) = True" by (simp add: word_gt_0)
  show ?thesis
    unfolding flush_pending_def g if_True
  proof (rule safe_bind [OF do_write_conn_half [OF wk_send_rep(1) [OF i u] False wk_send_rep(2) [OF i u]]], clarify)
    fix r w1 assume a: "send_step fd w w1" "send_rep fd w1" "unat (sendlen (cb (fdi w1 fd))) \<le> unat (sendlen (cb (fdi w fd)))"
    then have w1: "wk et w1 \<and> wk_next w w1 \<and> used w1 = used w" using wk_send_step [OF i u] wk_send_rep(2) [OF i u] by simp
    then have l1: "fd < length (fds w1)" and p: "\<not> is_parent w1" using u wkD(2) [of et w1] by (auto simp: used_def)
    have "safe_res (\<lambda>w'. wk (remove1 fd et) w' \<and> wk_next w w') (do_del_conn dll fd 0 w1)"
      using w1 wk_next_trans [of w w1] by (auto intro: safe_mono [OF del_conn_wk [OF _ l1]])
    then show "safe_res (\<lambda>(st, w'). wk_next w w' \<and> (case st of None \<Rightarrow> wk (remove1 fd et) w'
      | Some _ \<Rightarrow> wk et w' \<and> fd \<in> used w' \<and> unat (sendlen (cb (fdi w' fd))) \<le> unat (sendlen (cb (fdi w fd)))))
      (if r = -1 then bindR (do_del_conn dll fd (if is_parent w1 then 1 else 0) w1) (\<lambda>w2. Inr (None, w2)) else Inr (Some True, w1))"
      using w1 u p a(3) by (auto intro!: safe_bind)
  qed
qed

lemma send_fresh_wk:
  assumes i: "wk et w" and u: "fd \<in> used w" and d: "data \<noteq> []" "length data < 2 ^ 31"
  shows "safe_res (\<lambda>(sb, w'). wk_next w w' \<and> (case sb of None \<Rightarrow> wk (remove1 fd et) w'
      | Some _ \<Rightarrow> wk et w' \<and> fd \<in> used w' \<and> cb (fdi w' fd) = cb (fdi w fd))) (send_fresh dll fd data w)"
proof (cases "sendlen (cb (fdi w fd)) = 0")
  case False
  then show ?thesis using i u by (simp add: send_fresh_def)
next
  case True
  have sm: "small (of_nat (length data))" using d by (simp add: small_def unat_of_nat_small)
  have "0 < sint (of_nat (length data) :: u32)" using sint_small [OF sm] d by (simp add: unat_of_nat_small)
  note sn = safe_tcp_send_n_safe [OF this, of "send_as w"]
  have i1: "wk et (w\<lparr>send_as := as, tx := t\<rparr>) \<and> wk_next w (w\<lparr>send_as := as, tx := t\<rparr>) \<and> used (w\<lparr>send_as := as, tx := t\<rparr>) = used w" for as t
    by (rule wk_fds [OF i]) simp_all
  have l: "fd < length (fds w)" and p: "\<not> is_parent w" using u wkD(2) [OF i] by (auto simp: used_def)
  have dl: "safe_res (\<lambda>w'. wk (remove1 fd et) w' \<and> wk_next w w') (do_del_conn dll fd 0 (w\<lparr>send_as := as, tx := t\<rparr>))" for as t
    using wk_next_trans [OF i1 [THEN conjunct2, THEN conjunct1]] l by (intro safe_mono [OF del_conn_wk [OF i1 [THEN conjunct1]]]) auto
  show ?thesis
    unfolding send_fresh_def Let_def using True i1 p u
    by (auto intro!: safe_bind [OF sn] safe_bind [OF dl])
qed

text \<open>A plugin may send on a connection as long as what waits there fits an \<open>int\<close>.\<close>

lemma net_send_wk:
  assumes i: "wk et w" and u: "fd \<in> used w" and d: "data \<noteq> []" "unat (sendlen (cb (fdi w fd))) + length data < 2 ^ 31"
  shows "safe_res (\<lambda>(r, w'). wk_left fd et w w') (net_send dll ok fd data w)"
proof -
  have l: "fd_ok w fd" using u by (simp add: used_def fd_ok_def)
  have fin: "safe_res (\<lambda>(r :: int, w'). wk_left fd et w w') (if length data > k then bindR (merge_buffer ok fd (drop k data) w2) (\<lambda>w3.
         if over_limit fd w3 then Inr (-1, w3) else Inr (0, arm_events fd p w3)) else Inr (0, arm_events fd p w2))"
    if s: "wk et w2" "wk_next w w2" "fd \<in> used w2" "unat (sendlen (cb (fdi w2 fd))) \<le> unat (sendlen (cb (fdi w fd)))" for k p w2
  proof -
    have n: "unat (sendlen (cb (fdi w2 fd))) + length (drop k data) < 2 ^ 31" using s(4) d(2) by simp
    have arm: "wk_left fd et w (arm_events fd p v)" if "wk et v" "wk_next w v" for v
      using arm_events_wk [OF that(1), of fd p] wk_next_trans [OF that(2)] wk_leftI(1) by blast
    show ?thesis
      using arm [OF s(1,2)] arm wk_next_trans [OF s(2)]
      by (auto intro!: safe_bind [OF merge_buffer_wk [OF s(1,3) n]] wk_leftI(1))
  qed
  have fr: "safe_res (\<lambda>(r :: int, w'). wk_left fd et w w') (bindR (send_fresh dll fd data w1) (\<lambda>(sb, w2). case sb of None \<Rightarrow> Inr (-1, w2)
        | Some k \<Rightarrow> if length data > k then bindR (merge_buffer ok fd (drop k data) w2) (\<lambda>w3.
             if over_limit fd w3 then Inr (-1, w3) else Inr (0, arm_events fd p w3)) else Inr (0, arm_events fd p w2)))"
    if w1: "wk et w1" "wk_next w w1" "fd \<in> used w1" "unat (sendlen (cb (fdi w1 fd))) \<le> unat (sendlen (cb (fdi w fd)))" for p w1
  proof -
    have ld: "length data < 2 ^ 31" using d by simp
    show ?thesis
    proof (rule safe_bind [OF send_fresh_wk [OF w1(1,3) d(1) ld]], clarify)
      fix sb :: "nat option" and w2
      assume a: "wk_next w1 w2" "case sb of None \<Rightarrow> wk (remove1 fd et) w2 | Some _ \<Rightarrow> wk et w2 \<and> fd \<in> used w2 \<and> cb (fdi w2 fd) = cb (fdi w1 fd)"
      have n: "wk_next w w2" by (rule wk_next_trans [OF w1(2) a(1)])
      show "safe_res (\<lambda>(r :: int, w'). wk_left fd et w w') (case sb of None \<Rightarrow> Inr (-1, w2)
        | Some k \<Rightarrow> if length data > k then bindR (merge_buffer ok fd (drop k data) w2) (\<lambda>w3.
             if over_limit fd w3 then Inr (-1, w3) else Inr (0, arm_events fd p w3)) else Inr (0, arm_events fd p w2))"
        using a(2) n wk_leftI(2) [OF _ n] w1(4) by (cases sb) (auto intro!: fin split del: if_split)
    qed
  qed
  show ?thesis
    unfolding net_send_def using l
    by (auto intro!: safe_bind [OF flush_pending_wk [OF i u]] safe_option fr intro: wk_leftI(2) split: option.splits)
qed

end

text \<open>
  The other callbacks.  A package of a server connection is handled while its bytes lie in the receive
  buffer and the poll-again queue may be iterated, so \<open>proc_pkg_from_serv\<close> must leave the receive half of
  its connection alone, unless it closes it, and keep every other connection in its place in the queue.
  The callbacks for clients, the start and the end of the service may do anything that keeps the
  invariant.
\<close>

definition wk_ok :: "'t world \<Rightarrow> 't world \<Rightarrow> bool" where
  "wk_ok w w' \<longleftrightarrow> wk_inv w' \<and> wk_next w w'"

lemma wk_ok_trans: "wk_ok w1 w2 \<Longrightarrow> wk_ok w2 w3 \<Longrightarrow> wk_ok w1 w3"
  using wk_next_trans by (auto simp: wk_ok_def)

lemma wk_ok_refl: "wk_inv w \<Longrightarrow> wk_ok w w"
  by (simp add: wk_ok_def)

lemma wk_okI: "wk et w' \<Longrightarrow> wk_next w w' \<Longrightarrow> wk_ok w w'"
  by (auto simp: wk_ok_def wk_inv_def)

lemma wk_left_ok: "wk_left fd et w w' \<Longrightarrow> wk_ok w w'"
  by (auto simp: wk_left_def wk_ok_def wk_inv_def)

definition recv_kept :: "nat \<Rightarrow> 't world \<Rightarrow> 't world \<Rightarrow> bool" where
  "recv_kept fd w w' \<longleftrightarrow> (fd \<in> used w' \<longrightarrow> recv_half (cb (fdi w' fd)) \<in> {recv_half (cb (fdi w fd)), (0, 0, None)})"

locale worker_plugin = fd_hook dll for dll :: "'t serv_if" +
  assumes serv_law: "wk et w \<Longrightarrow> fd \<in> used w \<Longrightarrow>
      safe_res (\<lambda>w'. wk_left fd et w w' \<and> recv_kept fd w w') (proc_pkg_from_serv dll fd pkg w)"
    and client_law: "wk_inv w \<Longrightarrow> safe_res (\<lambda>(r, w'). wk_ok w w') (proc_pkg_from_client dll pkg s w)"
    and closed_law: "wk_inv w \<Longrightarrow> safe_res (wk_ok w) (on_client_conn_closed dll cfd w)"
    and init_law: "init_service dll = Some f \<Longrightarrow> wk_inv w \<Longrightarrow> safe_res (\<lambda>(r, w'). wk_ok w w') (f False w)"
    and fini_law: "fini_service dll = Some f \<Longrightarrow> wk_inv w \<Longrightarrow> safe_res (\<lambda>(r, w'). wk_ok w w') (f False w)"
begin

text \<open>\<open>handle_recv_queue\<close> and what it calls.\<close>

lemma cn_wk: "wk et w \<Longrightarrow> wk et (w\<lparr>cn := c, cn_count := k\<rparr>) \<and> wk_next w (w\<lparr>cn := c, cn_count := k\<rparr>)"
  using wk_fds [of et w "w\<lparr>cn := c, cn_count := k\<rparr>"] by simp

lemma cn_ok: "wk_ok w w' \<Longrightarrow> wk_ok w (w'\<lparr>cn := c, cn_count := k\<rparr>)"
  using cn_wk wk_next_trans unfolding wk_ok_def wk_inv_def by metis

lemma handle_close_wk: "wk_inv w \<Longrightarrow> safe_res (wk_ok w) (handle_close dll g fd w)"
  unfolding handle_close_def remove_fdsess_def
  by (rule safe_bind [OF closed_law]) (auto intro: cn_ok)

lemma push_fin_ok:
  "wk_inv w \<Longrightarrow> mb_type mb = FIN_BLOCK \<Longrightarrow> mb_length mb = 13 \<Longrightarrow> safe_res (\<lambda>(r, w'). wk_ok w w') (push_sendq mb [] w)"
  unfolding wk_inv_def by (elim exE) (rule safe_mono [OF push_fin_wk], auto intro: wk_okI)

lemma close_client_conn_wk: "wk_inv w \<Longrightarrow> safe_res (wk_ok w) (close_client_conn dll g fd w)"
proof (cases "get_fdsess g fd w")
  case (Some s)
  assume i: "wk_inv w"
  have "safe_res (wk_ok w) (bindR (push_sendq \<lparr>mb_id = s_id s, mb_fd = fd, mb_length = 13, mb_type = FIN_BLOCK\<rparr> [] w1) (\<lambda>(r, w2). Inr w2))"
    if w1: "wk_ok w w1" for w1
  proof -
    have "wk_inv w1" using w1 by (simp add: wk_ok_def)
    then show ?thesis using wk_ok_trans [OF w1] by (auto intro!: safe_bind [OF push_fin_ok])
  qed
  then show ?thesis unfolding close_client_conn_def Some option.case by (rule safe_bind [OF handle_close_wk [OF i]])
qed (simp add: close_client_conn_def wk_ok_refl)

lemma handle_process_wk: "wk_inv w \<Longrightarrow> safe_res (wk_ok w) (handle_process dll g pkg fd w)"
proof (cases "get_fdsess g fd w")
  case (Some s)
  assume i: "wk_inv w"
  show ?thesis
    unfolding handle_process_def Some option.case
  proof (rule safe_bind [OF client_law [OF i]], clarify)
    fix r w1 assume w1: "wk_ok w w1"
    then have "safe_res (wk_ok w1) (close_client_conn dll g fd w1)" by (intro close_client_conn_wk) (simp add: wk_ok_def)
    then show "safe_res (wk_ok w) (if r \<noteq> 0 then close_client_conn dll g fd w1 else Inr w1)"
      using w1 wk_ok_trans [OF w1] by (auto elim: safe_mono)
  qed
qed (simp add: handle_process_def wk_ok_refl)

lemma handle_block_wk:
  assumes i: "wk et w" and q: "q_rep (page_size w) (recvq (configs (bindconf w) ! cur_bc w)) xs"
    and off: "8 \<le> off" "off + n = tpos (recvq (configs (bindconf w) ! cur_bc w))" "13 \<le> n" "n \<le> unat (page_size w)"
  shows "safe_res (wk_ok w) (handle_block dll g (int off) x w)"
proof -
  have inv: "wk_inv w" using i by (auto simp: wk_inv_def)
  have op: "safe_res (wk_ok w) (case handle_open g (fst x) (snd x) w of (r, w1) \<Rightarrow>
      if r = -1 then reject_open (int off) (fst x) w1 else Inr w1)"
  proof (cases "get_fdsess g (mb_fd (fst x)) w \<noteq> None \<or> mb_length (fst x) \<noteq> 13 + 10")
    case True
    then show ?thesis
      using reject_open_wk [OF i q off, of "fst x"] by (auto simp: handle_open_def elim!: safe_mono intro: wk_okI)
  next
    case False
    then show ?thesis using cn_ok [OF wk_ok_refl [OF inv]] by (simp add: handle_open_def add_fdsess_def)
  qed
  show ?thesis
    using op handle_process_wk [OF inv] handle_close_wk [OF inv] wk_ok_refl [OF inv] by (simp add: handle_block_def Let_def)
qed

lemma handle_recv_queue_wk: "wk_inv w \<Longrightarrow> safe_res (wk_ok w) (handle_recv_queue fuel dll g w)"
proof (induction fuel arbitrary: w)
  case (Suc fuel)
  let ?e = "configs (bindconf w) ! cur_bc w"
  obtain et where i: "wk et w" using Suc.prems by (auto simp: wk_inv_def)
  obtain xs where q: "q_rep (page_size w) (recvq ?e) xs" using wkD(7) [OF i] by (auto simp: wk_chan_def)
  have bc: "my_bc w = Inr ?e" using wkD(6) [OF i] by (simp add: my_bc_def)
  have w1: "wk et (set_bc (?e\<lparr>recvq := q'\<rparr>) w) \<and> wk_next w (set_bc (?e\<lparr>recvq := q'\<rparr>) w)" 
    if "q_rep (page_size w) q' ys" "q_length q' = q_length (recvq ?e)" for q' ys
    by (rule set_bc_wk [OF i]) (use wkD(7) [OF i] that in \<open>auto simp: wk_chan_def qlens_def Let_def\<close>)
  show ?case
  proof (cases xs)
    case Nil
    obtain q' where p: "shmq_pop (recvq ?e) = Inr (None, q')" "q_rep (page_size w) q' []"
      using shmq_pop_rep [OF q] Nil by auto
    show ?thesis using w1 [OF p(2) shmq_pop_length [OF p(1)]] p(1) bc by (auto simp: Let_def intro: wk_okI)
  next
    case (Cons x ys)
    have ok: "msg_ok (unat (page_size w)) x" using q_repD(7) [OF q] Cons by simp
    obtain off q' where p: "shmq_pop (recvq ?e) = Inr (Some (int off), q')" "q_rep (page_size w) q' ys"
        "bytes_at (mem (recvq ?e)) off (msg_len x) = enc_msg x" "tpos q' = off + msg_len x" "8 \<le> off" "mem q' = mem (recvq ?e)"
      using shmq_pop_rep [OF q] Cons by auto
    have rd: "read_msg q' (int off) = Inr x"
      using p q_repD [OF p(2)] ok by (intro read_msg_enc) (auto simp: msg_ok_def)
    let ?w1 = "set_bc (?e\<lparr>recvq := q'\<rparr>) w"
    have b: "safe_res (wk_ok ?w1) (handle_block dll g (int off) x ?w1)"
      using p ok wkD(6) [OF i] w1 [OF p(2) shmq_pop_length [OF p(1)]] by (intro handle_block_wk) (auto simp: msg_ok_def msg_len_def)
    have s: "wk_ok w ?w1" using w1 [OF p(2) shmq_pop_length [OF p(1)]] by (auto intro: wk_okI)
    have "safe_res (wk_ok w) (bindR (handle_block dll g (int off) x ?w1) (handle_recv_queue fuel dll g))"
    proof (rule safe_bind [OF b])
      fix w2 assume "wk_ok ?w1 w2"
      then have w2: "wk_ok w w2" by (rule wk_ok_trans [OF s])
      then have "wk_inv w2" by (simp add: wk_ok_def)
      from Suc.IH [OF this] show "safe_res (wk_ok w) (handle_recv_queue fuel dll g w2)"
        by (rule safe_mono) (rule wk_ok_trans [OF w2])
    qed
    then show ?thesis using p(1) rd bc by (simp add: Let_def)
  qed
qed simp

text \<open>\<open>net_recv\<close> on a server connection.\<close>

lemma learn_pkg_len_wk:
  assumes i: "wk et w" and u: "fd \<in> used w" and a: "recv_at fd pos w" "recvptr (cb (fdi w fd)) \<noteq> None"
  shows "safe_res (\<lambda>w'. wk et w' \<and> wk_next w w' \<and> used w' = used w \<and> recv_at fd pos w' \<and>
    recvptr (cb (fdi w' fd)) \<noteq> None) (learn_pkg_len dll fd False pos w)"
proof (cases "rcvprotlen (cb (fdi w fd)) = 0")
  case True
  obtain buf where b: "recvptr (cb (fdi w fd)) = Some buf" using a(2) by blast
  have l: "fd < length (fds w)" using u by (simp add: used_def)
  have "wk et (upd_cb fd (\<lambda>c. c\<lparr>rcvprotlen := n\<rparr>) w) \<and> wk_next w (upd_cb fd (\<lambda>c. c\<lparr>rcvprotlen := n\<rparr>) w) \<and>
      used (upd_cb fd (\<lambda>c. c\<lparr>rcvprotlen := n\<rparr>) w) = used w" for n
    by (rule wk_recv_only [OF i u]) (use l wk_used(1) [OF i u] in \<open>auto simp: send_half_def recv_ok_def wk_entry_def split: option.splits\<close>)
  then show ?thesis
    using True recv_bytes_at [OF a(1) b order.refl] a b l by (simp add: learn_pkg_len_def recv_at_def)
next
  case False
  then show ?thesis using i a by (simp add: learn_pkg_len_def)
qed

text \<open>What the loop leaves: when the position is given, the connection is in use and the rest lies behind it.\<close>

definition parse_left :: "nat \<Rightarrow> nat list \<Rightarrow> 't world \<Rightarrow> int \<times> nat option \<times> 't world \<Rightarrow> bool" where
  "parse_left fd et w = (\<lambda>(r, p, w'). wk_left fd et w w' \<and>
     (case p of None \<Rightarrow> True | Some q \<Rightarrow> fd \<in> used w' \<and> recv_at fd q w'))"

lemma consume_wk:
  assumes i: "wk et w" and u: "fd \<in> used w"
    and k: "recv_at fd pos w" "unat n2 \<le> unat (recvlen (cb (fdi w fd)))"
      "n2 = rcvprotlen (cb (fdi w fd))"
  defines "w3 \<equiv> upd_cb fd (\<lambda>c. c\<lparr>recvlen := recvlen (cb (fdi w fd)) - n2, rcvprotlen := 0\<rparr>) w"
    and "pos2 \<equiv> (if recvlen (cb (fdi w fd)) > n2 then pos + unat n2 else pos)"
  shows "wk et w3" "wk_next w w3" "used w3 = used w" "recv_at fd pos2 w3" "recvptr (cb (fdi w3 fd)) = recvptr (cb (fdi w fd))"
    "recvlen (cb (fdi w3 fd)) = recvlen (cb (fdi w fd)) - n2"
proof -
  have l: "fd < length (fds w)" using u by (simp add: used_def)
  have c: "cb (fdi w3 fd) = (cb (fdi w fd))\<lparr>recvlen := recvlen (cb (fdi w fd)) - n2, rcvprotlen := 0\<rparr>"
    using l by (simp add: w3_def)
  have ge: "n2 \<le> recvlen (cb (fdi w fd))" using k(2) by (simp add: word_le_nat_alt)
  have sub: "unat (recvlen (cb (fdi w fd)) - n2) = unat (recvlen (cb (fdi w fd))) - unat n2"
    using unat_sub [OF ge] .
  have ro: "recv_only fd w w3" using l by (simp add: w3_def send_half_def)
  have ok: "recv_ok (page_size w) (cb (fdi w3 fd))"
    unfolding c using wk_used(1) [OF i u] sub by (auto simp: recv_ok_def wk_entry_def split: option.splits)
  from wk_recv_only [OF i u ro ok] show "wk et w3" "wk_next w w3" "used w3 = used w" by auto
  show "recv_at fd pos2 w3"
    unfolding recv_at_def c pos2_def using k sub ge
    by (auto simp: recv_at_def word_less_nat_alt word_le_nat_alt split: option.splits)
qed (use u in \<open>auto simp: w3_def used_def\<close>)

text \<open>What follows the call of the plugin, for a loop \<open>next\<close> that keeps the contract with one unit of fuel less.\<close>

lemma after_pkg_wk:
  assumes w2: "wk et2 w2" "left fd et et2" "fd \<in> used w2 \<longrightarrow> recv_at fd pos w2 \<and>
      unat (rcvprotlen (cb (fdi w2 fd))) \<le> unat (recvlen (cb (fdi w2 fd))) \<and>
      (recvlen (cb (fdi w2 fd)) \<noteq> rcvprotlen (cb (fdi w2 fd)) \<longrightarrow> recvptr (cb (fdi w2 fd)) \<noteq> None)"
    and w: "wk_next w w2" "fd < length (fds w2)" "wk et w"
    and IH: "\<And>et pos cnt w. wk et w \<Longrightarrow> fd \<in> used w \<Longrightarrow> recv_at fd pos w \<Longrightarrow> recvptr (cb (fdi w fd)) \<noteq> None \<Longrightarrow>
      safe_res (parse_left fd et w) (parse_loop fuel dll fd (page_size w) False pos cnt w)"
  shows "safe_res (parse_left fd et w) (after_pkg fuel dll fd (page_size w) False pos cnt (r, w2))"
proof (cases "fi_type (fdi w2 fd) = fd_type_unused")
  case True
  then show ?thesis using w2 w by (auto simp: after_pkg_def parse_left_def wk_left_def)
next
  case False
  with w(2) have u2: "fd \<in> used w2" by (simp add: used_def)
  let ?n = "rcvprotlen (cb (fdi w2 fd))" and ?len = "recvlen (cb (fdi w2 fd))"
  let ?w3 = "take_pkg fd ?n w2" and ?pos = "skip_pkg fd ?n pos w2"
  note c = consume_wk [OF w2(1) u2, of pos ?n, folded take_pkg_def skip_pkg_def]
  have k: "recv_at fd pos w2" "unat ?n \<le> unat ?len" "?len \<noteq> ?n \<longrightarrow> recvptr (cb (fdi w2 fd)) \<noteq> None" using w2(3) u2 by auto
  note c = c [OF k(1,2) refl]
  have nx: "wk_next w ?w3" using wk_next_trans [OF w(1) c(2)] .
  have ps: "page_size ?w3 = page_size w" using nx by (simp add: wk_next_def)
  have lw: "wk_left fd et w ?w3" using nx c(1) w2(2) by (auto simp: wk_left_def)
  have "safe_res (parse_left fd et w) (parse_loop fuel dll fd (page_size w) False ?pos (cnt + 1) ?w3)" if "?len \<noteq> ?n"
    by (rule safe_mono [OF IH [OF c(1) _ c(4), unfolded ps]])
      (use c(3,5) u2 k(3) that left_trans [OF w2(2) _ wkD(8) [OF w(3)]] wk_next_trans [OF nx] in
        \<open>auto simp: parse_left_def wk_left_def\<close>)
  then show ?thesis using False lw c(3,4) u2 by (auto simp: after_pkg_def Let_def parse_left_def word_gt_0)
qed

lemma parse_loop_wk:
  assumes "wk et w" "fd \<in> used w" "recv_at fd pos w" "recvptr (cb (fdi w fd)) \<noteq> None"
  shows "safe_res (parse_left fd et w) (parse_loop fuel dll fd (page_size w) False pos cnt w)"
  using assms
proof (induction fuel arbitrary: et pos cnt w)
  case (Suc fuel)
  note i = Suc.prems(1) and u = Suc.prems(2)
  show ?case
    unfolding parse_loop_Suc
  proof (rule safe_bind [OF learn_pkg_len_wk [OF Suc.prems(1-4)]])
    fix w1 assume w1: "wk et w1 \<and> wk_next w w1 \<and> used w1 = used w \<and> recv_at fd pos w1 \<and> recvptr (cb (fdi w1 fd)) \<noteq> None"
    let ?n = "rcvprotlen (cb (fdi w1 fd))" and ?len = "recvlen (cb (fdi w1 fd))"
    let ?after = "after_pkg fuel dll fd (page_size w) False pos cnt"
    obtain buf where b: "recvptr (cb (fdi w1 fd)) = Some buf" using w1 by blast
    have stay: "parse_left fd et w (r, None, w1)" "parse_left fd et w (r, Some pos, w1)" for r
      using w1 u wk_leftI(1) [of et w1 w fd] by (auto simp: parse_left_def)
    have body: "safe_res (parse_left fd et w) (bindR (recv_bytes fd pos (unat ?n) w1) (\<lambda>pkg. bindR (hand_over dll fd False pkg w1) ?after))"
      if ge: "?n \<le> ?len"
    proof -
      have rb: "recv_bytes fd pos (unat ?n) w1 = Inr (bytes_at buf pos (unat ?n))"
        using ge by (intro recv_bytes_at [OF _ b]) (use w1 in \<open>auto simp: word_le_nat_alt\<close>)
      have "safe_res (\<lambda>(r, w'). wk_left fd et w1 w' \<and> recv_kept fd w1 w') (hand_over dll fd False pkg w1)" for pkg
        using serv_law [of et w1 fd] w1 u by (auto simp: hand_over_def intro!: safe_bind)
      then have "safe_res (parse_left fd et w) (bindR (hand_over dll fd False (bytes_at buf pos (unat ?n)) w1) ?after)"
      proof (rule safe_bind, clarify)
        fix r w2 assume w2: "wk_left fd et w1 w2" "recv_kept fd w1 w2"
        obtain et2 where et2: "wk et2 w2" "left fd et et2" "wk_next w1 w2" using w2(1) by (auto simp: wk_left_def)
        show "safe_res (parse_left fd et w) (?after (r, w2))"
        proof (rule after_pkg_wk [OF et2(1,2) _ _ _ i Suc.IH])
          show "fd \<in> used w2 \<longrightarrow> recv_at fd pos w2 \<and> unat (rcvprotlen (cb (fdi w2 fd))) \<le> unat (recvlen (cb (fdi w2 fd))) \<and>
              (recvlen (cb (fdi w2 fd)) \<noteq> rcvprotlen (cb (fdi w2 fd)) \<longrightarrow> recvptr (cb (fdi w2 fd)) \<noteq> None)"
            using w2(2) w1 b ge by (auto simp: recv_kept_def recv_half_def recv_at_def word_le_nat_alt)
          show "wk_next w w2" using w1 wk_next_trans et2(3) by blast
          show "fd < length (fds w2)" using u w1 et2(3) by (auto simp: used_def wk_next_def)
        qed
      qed
      then show ?thesis using rb by simp
    qed
    show "safe_res (parse_left fd et w)
        (let n = ?n; len = ?len in if n > page_size w then Inr (-1, None, w1)
         else if n = 0 then (if len = page_size w then Inl (Exit 1) else Inr (cnt, Some pos, w1))
         else if len \<ge> n then bindR (recv_bytes fd pos (unat n) w1) (\<lambda>pkg. bindR (hand_over dll fd False pkg w1) ?after)
         else Inr (cnt, Some pos, w1))"
      using body stay by (simp add: Let_def not_le cong: if_cong)
  qed
qed simp

definition wk_moved :: "nat \<Rightarrow> nat list \<Rightarrow> 't world \<Rightarrow> 't world \<Rightarrow> bool" where
  "wk_moved fd et w w' \<longleftrightarrow> (\<exists>et'. moved fd et et' \<and> wk et' w') \<and> wk_next w w'"

lemma net_recv_pipe_wk:
  assumes i: "wk et w" and u: "fd \<in> used w" and ty: "fi_type (fdi w fd) = fd_type_pipe"
  shows "safe_res (\<lambda>(r, w'). wk_moved fd et w w') (net_recv dll fd (page_size w) False w)"
proof -
  have l: "fd < length (fds w)" using u by (simp add: used_def)
  have "wk et (w\<lparr>read_as := as\<rparr>) \<and> wk_next w (w\<lparr>read_as := as\<rparr>)" for as using wk_fds [OF i, of "w\<lparr>read_as := as\<rparr>"] by simp
  then have nil: "wk_moved fd et w (w\<lparr>read_as := as\<rparr>)" for as by (auto simp: wk_moved_def moved_def)
  have some: "safe_res (\<lambda>(r, w'). wk_moved fd et w w') (bindR (store 0 buf 0 bs) (\<lambda>b.
      Inr (0 :: int, upd_cb fd (\<lambda>c. c\<lparr>recvptr := Some b\<rparr>) (w\<lparr>read_as := as\<rparr>))))"
    if b: "recvptr (cb (fdi w fd)) = Some buf" and n: "length bs \<le> unat (page_size w)" for buf bs as
  proof -
    let ?w = "upd_cb fd (\<lambda>c. c\<lparr>recvptr := Some (put_bytes buf 0 bs)\<rparr>) (w\<lparr>read_as := as\<rparr>)"
    have ok: "length buf = unat (page_size w)" "unat (recvlen (cb (fdi w fd))) \<le> length buf"
      using wk_used(1) [OF i u] b by (auto simp: wk_entry_def recv_ok_def)
    have "only_cb fd w ?w" using only_cb_trans [OF only_cb_simps(9) only_cb_simps(2)] .
    then have "recv_only fd w ?w" using l by (simp add: recv_only_def send_half_def)
    moreover have "recv_ok (page_size w) (cb (fdi ?w fd))" using ok n l by (simp add: recv_ok_def length_put_bytes)
    ultimately have "wk et ?w \<and> wk_next w ?w" using wk_recv_only [OF i u] by blast
    then show ?thesis using store_nat [of 0 0 bs buf] ok n by (auto simp: wk_moved_def moved_def)
  qed
  have "sint (page_size w) = int (unat (page_size w))" using sint_small [OF wkD(3) [OF i]] by simp
  then have "length (take (nat (sint (page_size w))) bs) \<le> unat (page_size w)" for bs :: "byte list" by simp
  then show ?thesis
    using ty l nil some
    by (auto simp: net_recv_def fd_ok_def Let_def split: list.split recv_ans.split option.split)
qed

lemma net_recv_wk:
  assumes i: "wk et w" and u: "fd \<in> used w"
  shows "safe_res (\<lambda>(r, w'). wk_moved fd et w w') (net_recv dll fd (page_size w) False w)"
proof (cases "fi_type (fdi w fd) = fd_type_pipe")
  case True
  then show ?thesis by (rule net_recv_pipe_wk [OF i u])
next
  case False
  have l: "fd_ok w fd" using u by (simp add: used_def fd_ok_def)
  have "safe_res (\<lambda>(r, w'). wk_moved fd et w w') (bindR (do_read_conn fd (page_size w) w) (\<lambda>(r, w1).
        if r = -1 then Inr (-1, w1)
        else bindR (parse_loop (unat (recvlen (cb (fdi w1 fd))) + 1) dll fd (page_size w) False 0 0 w1) (\<lambda>(cnt, pos, w2).
          case pos of None \<Rightarrow> Inr (cnt, w2)
          | Some p \<Rightarrow> bindR (compact fd p w2) (\<lambda>w3. Inr (cnt, w3)))))"
  proof (rule safe_bind [OF do_read_conn_wk [OF i u]], clarify)
    fix r w1 et1
    assume w1: "moved fd et et1" "wk et1 w1" "wk_next w w1" "used w1 = used w"
      "r \<noteq> -1 \<longrightarrow> recv_at fd 0 w1 \<and> recvptr (cb (fdi w1 fd)) \<noteq> None"
    have m1: "wk_moved fd et w w1" using w1 by (auto simp: wk_moved_def)
    have lm: "wk_moved fd et w w2" if "wk_left fd et1 w1 w2" for w2
      using that moved_left [OF w1(1) _ wkD(8) [OF i]] wk_next_trans [OF w1(3)] by (auto simp: wk_left_def wk_moved_def)
    have ps: "page_size w1 = page_size w" using w1(3) by (simp add: wk_next_def)
    show "safe_res (\<lambda>(r, w'). wk_moved fd et w w') (if r = -1 then Inr (-1, w1)
        else bindR (parse_loop (unat (recvlen (cb (fdi w1 fd))) + 1) dll fd (page_size w) False 0 0 w1) (\<lambda>(cnt, pos, w2).
          case pos of None \<Rightarrow> Inr (cnt, w2)
          | Some p \<Rightarrow> bindR (compact fd p w2) (\<lambda>w3. Inr (cnt, w3))))"
    proof (cases "r = -1")
      case True
      then show ?thesis using m1 by simp
    next
      case False
      have pl: "safe_res (parse_left fd et1 w1) (parse_loop (unat (recvlen (cb (fdi w1 fd))) + 1) dll fd (page_size w) False 0 0 w1)"
        using parse_loop_wk [OF w1(2), of fd 0] u w1(4,5) False unfolding ps by (simp del: parse_loop.simps)
      have "safe_res (\<lambda>(r, w'). wk_moved fd et w w')
          (bindR (parse_loop (unat (recvlen (cb (fdi w1 fd))) + 1) dll fd (page_size w) False 0 0 w1) (\<lambda>(cnt, pos, w2).
            case pos of None \<Rightarrow> Inr (cnt, w2) | Some p \<Rightarrow> bindR (compact fd p w2) (\<lambda>w3. Inr (cnt, w3))))"
      proof (rule safe_bind [OF pl], clarify)
        fix cnt pos w2 assume "parse_left fd et1 w1 (cnt, pos, w2)"
        then have w2: "wk_left fd et1 w1 w2" "\<forall>q. pos = Some q \<longrightarrow> fd \<in> used w2 \<and> recv_at fd q w2"
          by (auto simp: parse_left_def)
        obtain et2 where et2: "left fd et1 et2" "wk et2 w2" "wk_next w1 w2" using w2(1) by (auto simp: wk_left_def)
        have "safe_res (\<lambda>w'. wk_left fd et1 w1 w') (compact fd q w2)" if "pos = Some q" for q
          by (rule safe_mono [OF compact_wk [OF et2(2)]]) (use w2(2) that et2 wk_next_trans [OF et2(3)] in \<open>auto simp: wk_left_def\<close>)
        then show "safe_res (\<lambda>(r, w'). wk_moved fd et w w')
            (case pos of None \<Rightarrow> Inr (cnt, w2) | Some p \<Rightarrow> bindR (compact fd p w2) (\<lambda>w3. Inr (cnt, w3)))"
          using lm w2(1) by (auto intro!: safe_option safe_bind)
      qed
      then show ?thesis using False by (simp del: parse_loop.simps)
    qed
  qed
  then show ?thesis using False l by (simp add: net_recv_def del: parse_loop.simps)
qed

lemma recv_or_close_wk:
  assumes i: "wk et w" and u: "fd \<in> used w"
  shows "safe_res (wk_moved fd et w) (recv_or_close dll fd (page_size w) False w)"
  unfolding recv_or_close_def
proof (rule safe_bind [OF net_recv_wk [OF i u]], clarify)
  fix r w1 assume w1: "wk_moved fd et w w1"
  then obtain et1 where et1: "moved fd et et1" "wk et1 w1" "wk_next w w1" by (auto simp: wk_moved_def)
  have "fd < length (fds w1)" using u et1(3) by (simp add: used_def wk_next_def)
  from del_conn_wk [OF et1(2) this] have "safe_res (wk_moved fd et w) (do_del_conn dll fd 0 w1)"
    by (rule safe_mono)
      (use moved_left [OF et1(1) left_refl(2) wkD(8) [OF i]] wk_next_trans [OF et1(3)] in \<open>auto simp: wk_moved_def\<close>)
  then show "safe_res (wk_moved fd et w) (if r = -1 then do_del_conn dll fd (del_mode False) w1 else Inr w1)"
    using w1 by (simp add: del_mode_def)
qed

end

section \<open>Polling again\<close>

text \<open>
  Under the contract the iteration over the poll-again queue is a fold over the descriptors that were
  on it: \<open>etin_body\<close> keeps the law of \<open>safe_loop\<close> in the worker, too.
\<close>

context worker_plugin
begin

lemma etin_body_wk:
  assumes i: "wk et w" and n: "n \<in> set et"
  shows "safe_res (wk_left n et w) (etin_body dll (page_size w) False (FdNode n) w)"
proof -
  have u: "n \<in> used w" and s: "sockfd (fdi w n) = n" using net_inv_flagged_used [OF wkD(1) [OF i], of n] n by auto
  have "fd_ok w n" "fi_type (fdi w n) \<noteq> fd_type_listen"
    using wk_used(1,2) [OF i u] by (auto simp: fd_ok_def wk_entry_def)
  moreover have "safe_res (wk_left n et w) (recv_or_close dll n (page_size w) False w)"
    by (rule safe_mono [OF recv_or_close_wk [OF i u]]) (use moved_member n in \<open>auto simp: wk_moved_def wk_left_def\<close>)
  ultimately show ?thesis using s by (simp add: etin_body_def Let_def)
qed

lemma etin_law:
  assumes i: "wk_inv w" and c: "circ (nodes w) EtinHead (pre @ p # post)"
    and b: "etin_body dll (page_size w) False p w = Inr w'"
  shows "wk_inv w' \<and> page_size w' = page_size w \<and> (\<exists>pre'. circ (nodes w') EtinHead (pre' @ post))"
proof -
  obtain et where et: "wk et w" using i by (auto simp: wk_inv_def)
  then have "circ (nodes w) EtinHead (map FdNode et)" using wkD(1) by (auto simp: net_inv_def queues_ok_def)
  from circ_unique [OF this c] obtain as n bs where e: "et = as @ n # bs" "p = FdNode n" "post = map FdNode bs"
    by (auto simp: map_eq_append_conv map_eq_Cons_conv)
  have "wk_left n et w w'" using etin_body_wk [OF et, of n] b e by simp
  then obtain et' where et': "left n et et'" "wk et' w'" "wk_next w w'" by (auto simp: wk_left_def)
  have "remove1 n et = as @ bs" using e wkD(8) [OF et] by (simp add: remove1_append)
  then have "et' = (as @ [n]) @ bs \<or> et' = as @ bs" using et'(1) e by (auto simp: left_def)
  moreover have "circ (nodes w') EtinHead (map FdNode et')" using wkD(1) [OF et'(2)] by (simp add: net_inv_def queues_ok_def)
  ultimately have "\<exists>pre'. circ (nodes w') EtinHead (pre' @ post)" using e(3) by (metis map_append)
  then show ?thesis using et'(2,3) by (auto simp: wk_inv_def wk_next_def)
qed

end

sublocale worker_plugin \<subseteq> wk_etin: safe_loop nodes "etin_body dll ps False" EtinHead "\<lambda>w. wk_inv w \<and> page_size w = ps" for ps
proof unfold_locales
  fix w pre p post w'
  assume "wk_inv w \<and> page_size w = ps" "circ (nodes w) EtinHead (pre @ p # post)" "etin_body dll ps False p w = Inr w'"
  then show "(wk_inv w' \<and> page_size w' = ps) \<and> (\<exists>pre'. circ (nodes w') EtinHead (pre' @ post))"
    using etin_law [of w pre p post w'] by auto
qed

context worker_plugin
begin

lemma iterate_etin_wk:
  assumes i: "wk et w"
  shows "safe_res (wk_ok w) (iterate_etin_queue dll (page_size w) False w)"
proof -
  have fold: "safe_res (wk_ok w) (foldR (etin_body dll (page_size w) False) (map FdNode ns) w)"
    if "wk et w" "set ns \<subseteq> set et" "distinct ns" for w et ns
    using that
  proof (induction ns arbitrary: w et)
    case Nil
    then show ?case by (auto intro: wk_okI)
  next
    case (Cons n ns)
    have n: "n \<in> set et" using Cons.prems(2) by simp
    show ?case
      unfolding list.map foldR.simps
    proof (rule safe_bind [OF etin_body_wk [OF Cons.prems(1) n]])
      fix w1 assume w1: "wk_left n et w w1"
      then obtain et1 where et1: "left n et et1" "wk et1 w1" "wk_next w w1" by (auto simp: wk_left_def)
      have "set ns \<subseteq> set et1" using et1(1) Cons.prems(2,3) wkD(8) [OF Cons.prems(1)] by (auto simp: left_def)
      then have "safe_res (wk_ok w1) (foldR (etin_body dll (page_size w1) False) (map FdNode ns) w1)"
        using Cons.IH [OF et1(2)] Cons.prems(3) by simp
      moreover have "page_size w1 = page_size w" using et1(3) by (simp add: wk_next_def)
      ultimately show "safe_res (wk_ok w) (foldR (etin_body dll (page_size w) False) (map FdNode ns) w1)"
        using wk_ok_trans [OF wk_left_ok [OF w1]] by (auto elim: safe_mono)
    qed
  qed
  have q: "queues_ok w [] et" using wkD(1) [OF i] by (simp add: net_inv_def)
  have "set et \<subseteq> {..<length (fds w)}" using q by (auto simp: queues_ok_def)
  then have "card (set et) \<le> length (fds w)" using card_mono [of "{..<length (fds w)}" "set et"] by simp
  then have "length (map FdNode et) < length (fds w) + 1" using wkD(8) [OF i] by (simp add: distinct_card)
  moreover have "circ (nodes w) EtinHead (map FdNode et)" using q by (simp add: queues_ok_def)
  ultimately have "iterate_etin_queue dll (page_size w) False w = foldR (etin_body dll (page_size w) False) (map FdNode et) w"
    unfolding iterate_etin_queue_def using i by (intro wk_etin.loop_is_fold) (auto simp: wk_inv_def)
  with fold [OF i order.refl wkD(8) [OF i]] show ?thesis by simp
qed

lemma iterate_close_wk: "wk et w \<Longrightarrow> iterate_close_queue dll w = Inr w"
  using wkD(1) [of et w] by (auto simp: iterate_close_queue_def list_for_each_safe_def net_inv_def queues_ok_def circ_def)

end

section \<open>Events\<close>

context worker_plugin
begin

lemma handle_pipe_wk:
  assumes i: "wk et w"
  shows "safe_res (\<lambda>(r, w'). wk_ok w w') (handle_pipe_event dll restart fd hup False w)"
proof -
  have "wk et (w\<lparr>stopped := True\<rparr>) \<and> wk_next w (w\<lparr>stopped := True\<rparr>)" using wk_fds [OF i, of "w\<lparr>stopped := True\<rparr>"] by simp
  then have st: "wk_ok w (w\<lparr>stopped := True\<rparr>)" by (auto intro: wk_okI)
  have "wk et (w\<lparr>read_as := as\<rparr>) \<and> wk_next w (w\<lparr>read_as := as\<rparr>)" for as using wk_fds [OF i, of "w\<lparr>read_as := as\<rparr>"] by simp
  then have rd: "wk_ok w (w\<lparr>read_as := as\<rparr>)" for as by (auto intro: wk_okI)
  have ep: "safe_res (\<lambda>_. True) (empty_pipe as)" for as by (induction as rule: empty_pipe.induct) auto
  show ?thesis using st rd by (auto simp: handle_pipe_event_def intro!: safe_bind [OF ep])
qed

lemma handle_in_wk:
  assumes i: "wk et w" and u: "fd \<in> used w"
  shows "safe_res (wk_ok w) (handle_in dll fd (page_size w) False w)"
proof -
  have "fi_type (fdi w fd) \<in> {fd_type_pipe, fd_type_remote}" using wk_used(1) [OF i u] by (simp add: wk_entry_def)
  then have "handle_in dll fd (page_size w) False w = recv_or_close dll fd (page_size w) False w"
    by (auto simp: handle_in_def)
  moreover have "safe_res (wk_ok w) (recv_or_close dll fd (page_size w) False w)"
    by (rule safe_mono [OF recv_or_close_wk [OF i u]]) (auto simp: wk_moved_def wk_ok_def wk_inv_def)
  ultimately show ?thesis by simp
qed

lemma del_conn_ok: "wk_inv w \<Longrightarrow> fd < length (fds w) \<Longrightarrow> safe_res (wk_ok w) (do_del_conn dll fd 0 w)"
  unfolding wk_inv_def by (elim exE) (rule safe_mono [OF del_conn_wk], auto intro: wk_okI)

lemma handle_out_wk:
  assumes i: "wk et w" and l: "fd < length (fds w)"
  shows "safe_res (wk_ok w) (handle_out dll fd False w)"
proof -
  have inv: "wk_inv w" using i by (auto simp: wk_inv_def)
  have wr: "safe_res (wk_ok w)
     (if sendlen (cb (fdi w fd)) > 0 then
        bindR (do_write_conn fd w) (\<lambda>(r, w1). if r = -1 then do_del_conn dll fd (del_mode False) w1 else Inr w1)
      else Inr w)"
  proof (cases "sendlen (cb (fdi w fd)) = 0")
    case True
    then show ?thesis using wk_ok_refl [OF inv] by simp
  next
    case False
    have u: "fd \<in> used w" using wk_unused [OF i l] False by blast
    have "safe_res (wk_ok w)
        (bindR (do_write_conn fd w) (\<lambda>(r, w1). if r = -1 then do_del_conn dll fd (del_mode False) w1 else Inr w1))"
    proof (rule safe_bind [OF do_write_conn_wk [OF i u False]], clarify)
      fix r w1 assume "wk et w1" "wk_next w w1" "used w1 = used w"
      then have w1: "wk_ok w w1" "fd < length (fds w1)" using u by (auto intro: wk_okI simp: used_def wk_next_def)
      from w1(1) have "wk_inv w1" by (simp add: wk_ok_def)
      then have "safe_res (wk_ok w) (do_del_conn dll fd 0 w1)"
        by (rule safe_mono [OF del_conn_ok [OF _ w1(2)]]) (rule wk_ok_trans [OF w1(1)])
      then show "safe_res (wk_ok w) (if r = -1 then do_del_conn dll fd (del_mode False) w1 else Inr w1)"
        using w1 by (simp add: del_mode_def)
    qed
    with False show ?thesis by (simp add: word_gt_0)
  qed
  have me: "wk_ok w (snd (mod_events fd False v))" if "wk_ok w v" for v
    using that mod_events_wk [of _ v fd False] wk_ok_trans [OF that] by (auto simp: wk_ok_def wk_inv_def)
  show ?thesis unfolding handle_out_def by (rule safe_bind [OF wr]) (auto intro: me)
qed

lemma handle_event_wk:
  assumes i: "wk_inv w"
  shows "safe_res (\<lambda>(c, w'). wk_ok w w') (handle_event dll restart (page_size w) False e w)"
proof -
  obtain et where et: "wk et w" using i by (auto simp: wk_inv_def)
  let ?fd = "fst e"
  show ?thesis
  proof (cases "int ?fd > maxfd w \<or> ?fd \<notin> used w")
    case True
    have l: "?fd < length (fds w)" if "\<not> int ?fd > maxfd w" using wk_maxfd [OF et] that by simp
    then show ?thesis using True wk_ok_refl [OF i] by (auto simp: handle_event_def Let_def fd_ok_def used_def)
  next
    case False
    then have u: "?fd \<in> used w" and mx: "\<not> int ?fd > maxfd w" by auto
    have en: "?fd < length (fds w)" "sockfd (fdi w ?fd) = ?fd" "fi_type (fdi w ?fd) \<noteq> fd_type_unused"
      "fi_type (fdi w ?fd) \<noteq> fd_type_asyn_connect"
      using wk_used [OF et u] by (auto simp: wk_entry_def)
    show ?thesis
    proof (cases "fi_type (fdi w ?fd) = fd_type_pipe")
      case True
      then show ?thesis
        using mx en by (auto simp: handle_event_def Let_def fd_ok_def intro!: safe_bind [OF handle_pipe_wk [OF et]])
    next
      case np: False
      have step: "safe_res (wk_ok w) m" if "wk_ok w v" "wk_inv v \<Longrightarrow> ?fd < length (fds v) \<Longrightarrow> safe_res (wk_ok v) m" for v m
        by (rule safe_mono [OF that(2)]) (use that(1) en wk_ok_trans [OF that(1)] in \<open>auto simp: wk_ok_def wk_next_def\<close>)
      have 1: "safe_res (wk_ok w) (if ev_in (snd e) then handle_in dll ?fd (page_size w) False w else Inr w)"
        using handle_in_wk [OF et u] wk_ok_refl [OF i] by simp
      have 2: "safe_res (wk_ok w) (if ev_out (snd e) then handle_out dll ?fd False v else Inr v)" if "wk_ok w v" for v
        by (rule step [OF that]) (auto simp: wk_inv_def wk_ok_refl intro: handle_out_wk wk_okI)
      have 3: "safe_res (wk_ok w) (if ev_hup (snd e) then do_del_conn dll ?fd (del_mode False) v else Inr v)" if "wk_ok w v" for v
        by (rule step [OF that]) (auto simp: del_mode_def wk_ok_refl intro: del_conn_ok)
      show ?thesis
        using mx en np 1 2 3
        by (auto simp: handle_event_def Let_def fd_ok_def intro!: safe_bind [OF 1] safe_bind [OF 2] safe_bind [OF 3] split del: if_split)
    qed
  qed
qed

lemma handle_events_wk:
  "wk_inv w \<Longrightarrow> safe_res (\<lambda>(c, w'). wk_ok w w') (handle_events dll restart (page_size w) False es w)"
proof (induction es arbitrary: w)
  case Nil
  then show ?case by (simp add: wk_ok_refl)
next
  case (Cons e es)
  show ?case
    unfolding handle_events.simps
  proof (rule safe_bind [OF handle_event_wk [OF Cons.prems]], clarify)
    fix c w1 assume w1: "wk_ok w w1"
    then have i1: "wk_inv w1" and ps: "page_size w1 = page_size w" by (auto simp: wk_ok_def wk_next_def)
    have "safe_res (\<lambda>(c, w'). wk_ok w w') (handle_events dll restart (page_size w) False es w1)"
      by (rule safe_mono [OF Cons.IH [OF i1, unfolded ps]]) (use wk_ok_trans [OF w1] in auto)
    then show "safe_res (\<lambda>(c, w'). wk_ok w w') (if c then Inr (True, w1) else handle_events dll restart (page_size w) False es w1)"
      using w1 by simp
  qed
qed

text \<open>One iteration of the loop of the worker.\<close>

lemma net_loop_wk:
  assumes i: "wk_inv w"
  shows "safe_res (\<lambda>(c, w'). wk_ok w w') (net_loop fuel dll g ok restart (page_size w) False w)"
proof -
  obtain et where et: "wk et w" using i by (auto simp: wk_inv_def)
  have ev: "safe_res (\<lambda>(c, w'). wk_ok w w')
      (bindR (handle_events dll restart (page_size w) False es v) (\<lambda>(stop, w5).
       if stop then Inr (-1, w5)
       else bindR (Inr w5) (\<lambda>w6. bindR (handle_recv_queue fuel dll g w6) (\<lambda>w7. Inr (0 :: int, w7)))))" if v: "wk_ok w v" for v es
  proof -
    have iv: "wk_inv v" and ps: "page_size v = page_size w" using v by (auto simp: wk_ok_def wk_next_def)
    have "safe_res (\<lambda>(c, w'). wk_ok w w') (handle_events dll restart (page_size w) False es v)"
      by (rule safe_mono [OF handle_events_wk [OF iv, unfolded ps]]) (use wk_ok_trans [OF v] in auto)
    then show ?thesis
    proof (rule safe_bind, clarify)
      fix c w5 assume w5: "wk_ok w w5"
      have "wk_inv w5" using w5 by (simp add: wk_ok_def)
      then have "safe_res (wk_ok w) (handle_recv_queue fuel dll g w5)"
        by (rule safe_mono [OF handle_recv_queue_wk]) (rule wk_ok_trans [OF w5])
      then show "safe_res (\<lambda>(c, w'). wk_ok w w') (if c then Inr (-1, w5)
         else bindR (Inr w5) (\<lambda>w6. bindR (handle_recv_queue fuel dll g w6) (\<lambda>w7. Inr (0 :: int, w7))))"
        using w5 by (auto intro!: safe_bind)
    qed
  qed
  show ?thesis
    unfolding net_loop_def iterate_close_wk [OF et] bindR.simps
  proof (rule safe_bind [OF iterate_etin_wk [OF et]])
    fix w2 assume w2: "wk_ok w w2"
    have rn: "wk_ok w (renew_now (w2\<lparr>epoll_as := as\<rparr>))" for as
    proof -
      obtain et2 where "wk et2 w2" using w2 by (auto simp: wk_ok_def wk_inv_def)
      then have "wk et2 (renew_now (w2\<lparr>epoll_as := as\<rparr>)) \<and> wk_next w2 (renew_now (w2\<lparr>epoll_as := as\<rparr>)) \<and>
          used (renew_now (w2\<lparr>epoll_as := as\<rparr>)) = used w2"
        by (rule wk_fds) (auto simp: renew_now_def split: list.split)
      then show ?thesis using wk_ok_trans [OF w2 wk_okI] by blast
    qed
    show "safe_res (\<lambda>(c, w'). wk_ok w w') (case epoll_as w2 of [] \<Rightarrow> Inl Blocked
     | evs # as \<Rightarrow>
       let w3 = renew_now (w2\<lparr>epoll_as := as\<rparr>) in
       bindR (if False then handle_send_queue fuel dll ok w3 else Inr w3) (\<lambda>w4.
       bindR (handle_events dll restart (page_size w) False (case evs of None \<Rightarrow> [] | Some l \<Rightarrow> l) w4) (\<lambda>(stop, w5).
       if stop then Inr (-1, w5)
       else
         bindR (if False \<and> socket_timeout w5 \<noteq> 0 then close_idle dll w5 else Inr w5) (\<lambda>w6.
         bindR (if \<not> False then handle_recv_queue fuel dll g w6 else Inr w6) (\<lambda>w7.
         Inr (0 :: int, w7))))))"
      using ev [OF rn] by (simp add: Let_def split: list.split cong: if_cong)
  qed
qed

end

end
