(* ===== verification/Mp_SafeLoop.thy ===== *)
theory Mp_SafeLoop
  imports Mp_Safety
begin

text \<open>
  \<open>net_loop\<close> in the parent keeps \<open>srv_inv\<close> and is memory safe, with any plugin, given the
  contract \<open>restart_ok\<close> for the handler of dead children; the last section discharges that contract
  for \<open>restart_child_process\<close> itself.
\<close>

section \<open>The queues of \<open>net_loop\<close>\<close>

lemma close_body_safe:
  assumes i: "srv_inv N M b w" and n: "n \<in> used w" and b: "b < 2 ^ 31"
  shows "safe_res (shrunk N M b w) (close_body dll (FdNode n) w)"
proof -
  have l: "fd_ok w n" and sf: "sockfd (fdi w n) = n" using srv_inv_entry [OF i n] by (auto simp: fd_ok_def)
  have wr: "safe_res (shrunk N M b w)
      (if sendlen (cb (fdi w n)) > 0 then bindR (do_write_conn n w) (\<lambda>(r, w1). Inr w1) else Inr w)"
  proof (cases "sendlen (cb (fdi w n)) = 0")
    case True
    then show ?thesis using i by (simp add: shrunk_def)
  next
    case False
    then show ?thesis
      by (auto simp: word_gt_0 intro!: safe_bind [OF do_write_conn_safe [OF i n False b]]
          intro: conjunct1 [OF shrunk_send_step])
  qed
  show ?thesis
    unfolding close_body_def naddr.case sf Let_def
  proof (simp only: l not_True_eq_False if_False, rule safe_bind [OF wr])
    fix w1 assume s: "shrunk N M b w w1"
    then have i1: "srv_inv N M b w1" and l1: "n < length (fds w1)" and p: "is_parent w1"
      using l env_eqD(6) [of w1 w] srv_invD(5) [of N M b w1] by (auto simp: shrunk_def fd_ok_def)
    from drop_conn_safe [OF i1 l1, of 2] p
    show "safe_res (shrunk N M b w) (do_del_conn dll n (if is_parent w1 then 2 else 0) w1)"
      by (auto intro: safe_mono shrunk_trans [OF s])
  qed
qed

lemma iterate_close_queue_safe:
  assumes i: "srv_inv N M b w" and b: "b < 2 ^ 31"
  shows "safe_res (shrunk N M b w) (iterate_close_queue dll w)"
proof -
  have fold: "safe_res (shrunk N M b w) (foldR (close_body dll) (map FdNode cl) w)"
    if "srv_inv N M b w" "net_inv w cl et" for w cl et
    using that
  proof (induction cl arbitrary: w)
    case Nil
    then show ?case by (simp add: shrunk_def)
  next
    case (Cons n cl)
    have n: "n \<in> used w" using net_inv_flagged_used [OF Cons.prems(2), of n] by simp
    have p: "is_parent w \<or> quiet_hook dll" using srv_invD(5) [OF Cons.prems(1)] by simp
    show ?case
      unfolding list.map foldR.simps
    proof (rule safe_bind [OF close_body_safe [OF Cons.prems(1) n b]])
      fix w1 assume r: "close_body dll (FdNode n) w = Inr w1" and s: "shrunk N M b w w1"
      have "net_inv w1 cl et" using close_body_step [OF Cons.prems(2) _ p r] by simp
      from Cons.IH [OF _ this] s show "safe_res (shrunk N M b w) (foldR (close_body dll) (map FdNode cl) w1)"
        by (auto simp: shrunk_def intro: safe_mono)
    qed
  qed
  obtain cl et where n: "net_inv w cl et" using i by (auto simp: srv_inv_def)
  from fold [OF i n] iterate_close_queue_fold [OF n, of dll] srv_invD(5) [OF i] show ?thesis by simp
qed

lemma follows_grown: "grown N M b w w' \<Longrightarrow> follows N M b w w'"
  by (simp add: grown_def follows_def)

lemma recv_or_close_follows:
  assumes "srv_inv N M b w" "n \<in> used w"
  shows "safe_res (follows N M b w) (recv_or_close dll n (page_size w) True w)"
  using recv_or_close_safe [OF assms] by (rule safe_mono) (rule follows_shrunk)

lemma accept_all_follows:
  assumes "srv_inv N M b w" "n \<in> used w"
  shows "safe_res (follows N M b w) (accept_all dll n True w)"
  unfolding accept_all_def using accept_loop_safe [OF assms] by (rule safe_mono) (rule follows_grown)

lemma etin_body_safe:
  assumes i: "srv_inv N M b w" and n: "n \<in> used w"
  shows "safe_res (follows N M b w) (etin_body dll (page_size w) True (FdNode n) w)"
proof -
  have l: "fd_ok w n" and sf: "sockfd (fdi w n) = n" using srv_inv_entry [OF i n] by (auto simp: fd_ok_def)
  then show ?thesis
    using recv_or_close_follows [OF i n] accept_all_follows [OF i n] by (simp add: etin_body_def Let_def)
qed

lemma iterate_etin_queue_safe:
  assumes i: "srv_inv N M b w"
  shows "safe_res (follows N M b w) (iterate_etin_queue dll (page_size w) True w)"
proof -
  have fold: "safe_res (follows N M b w) (foldR (etin_body dll (page_size w) True) (map FdNode ns) w)"
    if "srv_inv N M b w" "net_inv w cl et" "set ns \<subseteq> set et" "distinct ns" for w cl et ns
    using that
  proof (induction ns arbitrary: w cl et)
    case Nil
    then show ?case by (simp add: follows_refl)
  next
    case (Cons n ns)
    note i = Cons.prems(1)
    have n: "n \<in> set et" and u: "n \<in> used w" "sockfd (fdi w n) = n"
      using Cons.prems(3) net_inv_flagged_used [OF Cons.prems(2), of n] by auto
    show ?case
      unfolding list.map foldR.simps
    proof (rule safe_bind [OF etin_body_safe [OF i u(1)]])
      fix w1 assume r: "etin_body dll (page_size w) True (FdNode n) w = Inr w1" and w1: "follows N M b w w1"
      have "accept_all dll n True w = Inr w1 \<or> recv_or_close dll n (page_size w) True w = Inr w1"
        using r u by (auto simp: etin_body_def Let_def split: if_splits)
      then have "net_inv w1 cl et \<or> net_inv w1 cl (remove1 n et)"
        using accept_loop_step [OF Cons.prems(2) srv_invD(2) [OF i] n]
          recv_or_close_step [OF Cons.prems(2) srv_invD(2) [OF i] n] unfolding accept_all_def by blast
      moreover have "distinct et" using queues_ok_disjoint(3) [of w cl et] Cons.prems(2) by (simp add: net_inv_def)
      then have "set ns \<subseteq> set et" "set ns \<subseteq> set (remove1 n et)" using Cons.prems(3,4) by auto
      moreover have i1: "srv_inv N M b w1" and ps: "page_size w1 = page_size w" using w1 by (auto simp: follows_def)
      moreover have "distinct ns" using Cons.prems(4) by simp
      ultimately have "safe_res (follows N M b w1) (foldR (etin_body dll (page_size w1) True) (map FdNode ns) w1)"
        using Cons.IH by blast
      then show "safe_res (follows N M b w) (foldR (etin_body dll (page_size w) True) (map FdNode ns) w1)"
        unfolding ps by (rule safe_mono) (rule follows_trans [OF w1])
    qed
  qed
  obtain cl et where n: "net_inv w cl et" using i by (auto simp: srv_inv_def)
  have "distinct et" using queues_ok_disjoint(3) [of w cl et] n by (simp add: net_inv_def)
  with fold [OF i n] iterate_etin_queue_fold [OF n srv_invD(2) [OF i], of dll] show ?thesis by simp
qed

lemma scan_del_safe:
  assumes "srv_inv N M b w"
  shows "safe_res (shrunk N M b w) (scan_fds fuel c (\<lambda>i. do_del_conn dll i 1) i w)"
  using assms
proof (induction fuel arbitrary: i w)
  case 0
  then show ?case by (simp add: shrunk_def)
next
  case (Suc fuel)
  show ?case
  proof (cases "int i \<le> maxfd w")
    case False
    then show ?thesis using Suc.prems by (simp add: shrunk_def)
  next
    case True
    then have l: "i < length (fds w)" using srv_inv_maxfd [OF Suc.prems] by simp
    have "safe_res (shrunk N M b w) (if c w i then do_del_conn dll i 1 w else Inr w)"
      using safe_mono [OF drop_conn_safe [OF Suc.prems l, of 1]] Suc.prems by (auto simp: shrunk_def)
    moreover have "safe_res (shrunk N M b w) (scan_fds fuel c (\<lambda>i. do_del_conn dll i 1) (i + 1) w1)"
      if s: "shrunk N M b w w1" for w1
    proof -
      have "srv_inv N M b w1" using s by (simp add: shrunk_def)
      from Suc.IH [OF this] show ?thesis by (rule safe_mono) (rule shrunk_trans [OF s])
    qed
    ultimately have "safe_res (shrunk N M b w) (bindR (if c w i then do_del_conn dll i 1 w else Inr w)
        (scan_fds fuel c (\<lambda>i. do_del_conn dll i 1) (i + 1)))"
      by (rule safe_bind)
    then show ?thesis using True l by (simp add: fd_ok_def del: One_nat_def split del: if_split)
  qed
qed


section \<open>Events\<close>

text \<open>What the loop expects of \<open>restart_child_process\<close> in the parent.\<close>

definition restart_ok :: "nat \<Rightarrow> nat \<Rightarrow> u32 \<Rightarrow> (nat \<Rightarrow> 't world \<Rightarrow> 't world res) \<Rightarrow> bool" where
  "restart_ok N M ps restart \<longleftrightarrow> (\<forall>b i w. srv_inv N M b w \<longrightarrow> page_size w = ps \<longrightarrow> i < length (configs (bindconf w)) \<longrightarrow>
     safe_res (follows N M b w) (restart i w))"

lemma restart_okD:
  "restart_ok N M ps restart \<Longrightarrow> srv_inv N M b w \<Longrightarrow> page_size w = ps \<Longrightarrow> i < length (configs (bindconf w)) \<Longrightarrow>
   safe_res (follows N M b w) (restart i w)"
  unfolding restart_ok_def by blast

lemma empty_pipe_safe: "safe_res (\<lambda>_. True) (empty_pipe as)"
  by (induction as rule: empty_pipe.induct) auto

lemma bump_restart_safe:
  assumes i: "srv_inv N M b w" and k: "k < length (configs (bindconf w))"
  shows "follows N M b w (bump_restart k w)" "length (configs (bindconf (bump_restart k w))) = length (configs (bindconf w))"
proof -
  have "chan_ok (page_size w) M (length (fds w)) (configs (bindconf w) ! k)"
    using srv_invD(1) [OF i] k by (simp add: env_ok_def)
  then have c: "chan_ok (page_size w) M (length (fds w))
      ((configs (bindconf w) ! k)\<lparr>restart_cnt := restart_cnt (configs (bindconf w) ! k) + 1\<rparr>)"
    by (simp add: chan_ok_def)
  from srv_inv_set_conf [OF i c, of k] show "follows N M b w (bump_restart k w)"
    by (simp add: follows_def bump_restart_def)
qed (simp add: bump_restart_def)

lemma handle_pipe_event_safe:
  assumes i: "srv_inv N M b w" and u: "fd \<in> used w" and r: "restart_ok N M (page_size w) restart"
  shows "safe_res (\<lambda>(c, w'). follows N M b w w') (handle_pipe_event dll restart fd hup True w)"
proof (cases hup)
  case False
  have "srv_inv N M b (w\<lparr>read_as := as\<rparr>)" for as
    using i by (rule srv_inv_fds) (use srv_invD(2) [OF i] in \<open>auto simp: accepts_fit_def used_def\<close>)
  then show ?thesis using False
    by (auto simp: handle_pipe_event_def follows_def intro!: safe_bind [OF empty_pipe_safe])
next
  case True
  obtain k where k: "bc_elem (fdi w fd) = Some k" "k < length (configs (bindconf w))"
    using srv_inv_entry(1) [OF i u] by (auto simp: entry_ok_def)
  have cb: "safe_res (shrunk N M b w) (close_bind dll (Some k) w)"
    unfolding close_bind_def by (rule scan_del_safe [OF i])
  have nk: "(length (configs (bindconf w)) \<le> k) = False" using k(2) by simp
  show ?thesis
    unfolding handle_pipe_event_def k(1) option.case Let_def eqTrueI [OF True] nk if_True if_False
  proof (rule safe_bind [OF cb])
    fix w1 assume s: "shrunk N M b w w1"
    then have i1: "srv_inv N M b w1" and k1: "k < length (configs (bindconf w1))"
      using k(2) sendqs_length [of w1 w] by (auto simp: shrunk_def)
    note br = bump_restart_safe [OF i1 k1]
    have f2: "follows N M b w (bump_restart k w1)" using follows_trans [OF follows_shrunk [OF s] br(1)] .
    then have "safe_res (follows N M b (bump_restart k w1)) (restart k (bump_restart k w1))"
      using br(2) k1 by (intro restart_okD [OF r]) (auto simp: follows_def)
    then show "safe_res (\<lambda>(c, w'). follows N M b w w')
      (if restart_cnt (configs (bindconf w1) ! k) < 20
       then bindR (restart k (bump_restart k w1)) (\<lambda>w3. Inr (0 :: int, w3)) else Inr (0, bump_restart k w1))"
      using f2 by (auto intro!: safe_bind intro: follows_trans)
  qed
qed


lemma handle_in_safe:
  assumes i: "srv_inv N M b w" and u: "fd \<in> used w"
  shows "safe_res (follows N M b w) (handle_in dll fd (page_size w) True w)"
proof -
  have "fi_type (fdi w fd) \<in> {fd_type_listen, fd_type_pipe, fd_type_remote}"
    using srv_inv_entry(1) [OF i u] by (simp add: entry_ok_def)
  then show ?thesis
    using recv_or_close_follows [OF i u] accept_all_follows [OF i u] by (auto simp: handle_in_def)
qed

lemma srv_inv_unsent: "srv_inv N M b w \<Longrightarrow> fd < length (fds w) \<Longrightarrow> sendlen (cb (fdi w fd)) \<noteq> 0 \<Longrightarrow> fd \<in> used w"
  unfolding srv_inv_def ents_ok_def by metis

lemma follows_mod_events: "follows N M b w w1 \<Longrightarrow> follows N M b w (snd (mod_events fd o' w1))"
  using mod_events_safe [of N M b w1 fd o'] env_eqD(1,6) [OF mod_events_env(1), of fd o' w1] by (simp add: follows_def)

lemma handle_out_safe:
  assumes i: "srv_inv N M b w" and l: "fd < length (fds w)" and b: "b < 2 ^ 31"
  shows "safe_res (follows N M b w) (handle_out dll fd True w)"
proof -
  have wr: "safe_res (follows N M b w)
     (if sendlen (cb (fdi w fd)) > 0 then
        bindR (do_write_conn fd w) (\<lambda>(r, w1). if r = -1 then do_del_conn dll fd (del_mode True) w1 else Inr w1)
      else Inr w)"
  proof (cases "sendlen (cb (fdi w fd)) = 0")
    case True
    then show ?thesis using follows_refl [OF i] by simp
  next
    case False
    have "safe_res (follows N M b w)
        (bindR (do_write_conn fd w) (\<lambda>(r, w1). if r = -1 then do_del_conn dll fd (del_mode True) w1 else Inr w1))"
    proof (rule safe_bind [OF do_write_conn_safe [OF i srv_inv_unsent [OF i l False] False b]], clarify)
      fix r w1 assume i1: "srv_inv N M b w1" and s: "send_step fd w w1"
      have s1: "shrunk N M b w w1" using shrunk_send_step [OF i1 s] by simp
      then have "fd < length (fds w1)" using l follows_shrunk [OF s1] by (simp add: follows_def)
      from drop_conn_safe [OF i1 this, of 1]
      have "safe_res (follows N M b w) (do_del_conn dll fd 1 w1)"
        by (auto intro: safe_mono follows_shrunk shrunk_trans [OF s1])
      then show "safe_res (follows N M b w) (if r = -1 then do_del_conn dll fd (del_mode True) w1 else Inr w1)"
        using follows_shrunk [OF s1] by (simp add: del_mode_def)
    qed
    with False show ?thesis by (simp add: word_gt_0)
  qed
  show ?thesis
    unfolding handle_out_def by (rule safe_bind [OF wr]) (auto intro: follows_mod_events)
qed

lemma handle_event_safe:
  assumes i: "srv_inv N M b w" and b: "b < 2 ^ 31"
    and r: "restart_ok N M (page_size w) restart"
  shows "safe_res (\<lambda>(c, w'). follows N M b w w') (handle_event dll restart (page_size w) True e w)"
proof (cases "int (fst e) > maxfd w \<or> fst e \<notin> used w")
  case True
  have l: "fst e < length (fds w)" if "\<not> int (fst e) > maxfd w" using srv_inv_maxfd [OF i] that by simp
  then show ?thesis
    using True follows_refl [OF i] by (auto simp: handle_event_def Let_def fd_ok_def used_def)
next
  case False
  let ?fd = "fst e"
  have u: "?fd \<in> used w" and mx: "\<not> int ?fd > maxfd w" using False by auto
  have en: "?fd < length (fds w)" "sockfd (fdi w ?fd) = ?fd" "fi_type (fdi w ?fd) \<noteq> fd_type_unused"
    "fi_type (fdi w ?fd) \<noteq> fd_type_asyn_connect"
    using srv_inv_entry [OF i u] by (auto simp: entry_ok_def)
  show ?thesis
  proof (cases "fi_type (fdi w ?fd) = fd_type_pipe")
    case True
    then show ?thesis
      using mx en by (auto simp: handle_event_def Let_def fd_ok_def intro!: safe_bind [OF handle_pipe_event_safe [OF i u r]])
  next
    case np: False
    have 1: "safe_res (follows N M b w) (if ev_in (snd e) then handle_in dll ?fd (page_size w) True w else Inr w)"
      using handle_in_safe [OF i u] follows_refl [OF i] by simp
    have 2: "safe_res (follows N M b v) (if ev_out (snd e) then handle_out dll ?fd True v else Inr v)"
      "safe_res (follows N M b v) (if ev_hup (snd e) then do_del_conn dll ?fd (del_mode True) v else Inr v)"
      if "follows N M b w v" for v
    proof -
      have iv: "srv_inv N M b v" and lv: "?fd < length (fds v)" using that en by (auto simp: follows_def)
      have "safe_res (follows N M b v) (do_del_conn dll ?fd 1 v)"
        using drop_conn_safe [OF iv lv, of 1] by (auto intro: safe_mono follows_shrunk)
      then show "safe_res (follows N M b v) (if ev_out (snd e) then handle_out dll ?fd True v else Inr v)"
        "safe_res (follows N M b v) (if ev_hup (snd e) then do_del_conn dll ?fd (del_mode True) v else Inr v)"
        using handle_out_safe [OF iv lv b] follows_refl [OF iv] by (simp_all add: del_mode_def)
    qed
    let ?body = "bindR (if ev_in (snd e) then handle_in dll ?fd (page_size w) True w else Inr w) (\<lambda>w2.
       bindR (if ev_out (snd e) then handle_out dll ?fd True w2 else Inr w2) (\<lambda>w3.
       if ev_hup (snd e) then do_del_conn dll ?fd (del_mode True) w3 else Inr w3))"
    have bd: "safe_res (follows N M b w) ?body"
      using 2 follows_trans by (blast intro: safe_follows [OF 1] safe_follows)
    have eq: "handle_event dll restart (page_size w) True e w = bindR ?body (\<lambda>w4. Inr (False, w4))"
      using mx en np by (simp add: handle_event_def Let_def fd_ok_def bindR_assoc split del: if_split)
    show ?thesis unfolding eq by (rule safe_bind [OF bd]) simp
  qed
qed


lemma handle_events_safe:
  assumes "srv_inv N M b w" "b < 2 ^ 31" "restart_ok N M (page_size w) restart"
  shows "safe_res (\<lambda>(c, w'). follows N M b w w') (handle_events dll restart (page_size w) True es w)"
  using assms(1,3)
proof (induction es arbitrary: w)
  case Nil
  then show ?case by (simp add: follows_refl)
next
  case (Cons e es)
  show ?case
    unfolding handle_events.simps
  proof (rule safe_bind [OF handle_event_safe [OF Cons.prems(1) assms(2) Cons.prems(2)]], clarify)
    fix c w1 assume f: "follows N M b w w1"
    then have i1: "srv_inv N M b w1" and ps: "page_size w1 = page_size w" by (auto simp: follows_def)
    from Cons.IH [OF i1] Cons.prems(2) have "safe_res (\<lambda>(c, w'). follows N M b w w') (handle_events dll restart (page_size w) True es w1)"
      unfolding ps by (auto intro: safe_mono follows_trans [OF f])
    then show "safe_res (\<lambda>(c, w'). follows N M b w w')
        (if c then Inr (True, w1) else handle_events dll restart (page_size w) True es w1)"
      using f by simp
  qed
qed

section \<open>One iteration of the loop\<close>

lemma renew_now_fds:
  assumes "srv_inv N M b w"
  shows "follows N M b w (renew_now (w\<lparr>epoll_as := as\<rparr>))"
proof -
  have "srv_inv N M b (renew_now (w\<lparr>epoll_as := as\<rparr>))"
    using assms by (rule srv_inv_fds)
      (use srv_invD(2) [OF assms] in \<open>auto simp: renew_now_def accepts_fit_def used_def split: list.split\<close>)
  then show ?thesis by (simp add: follows_def renew_now_def split: list.split)
qed

lemma after_queues_safe:
  assumes i: "srv_inv N M b w" and b: "b + N * M < 2 ^ 31"
    and r: "restart_ok N M (page_size w) restart"
  shows "safe_res (\<lambda>(c, w'). follows N M (b + N * M) w w')
      (bindR (handle_send_queue fuel dll ok w) (\<lambda>w4.
       bindR (handle_events dll restart (page_size w) True es w4) (\<lambda>(stop, w5).
       if stop then Inr (-1, w5)
       else bindR (if True \<and> socket_timeout w5 \<noteq> 0 then close_idle dll w5 else Inr w5) (\<lambda>w6. Inr (0 :: int, w6)))))"
proof -
  have ev: "safe_res (\<lambda>(c, w'). follows N M (b + N * M) w w') (handle_events dll restart (page_size w) True es v)"
    if f: "follows N M (b + N * M) w v" for v
    using handle_events_safe [OF _ b, where w = v and restart = restart and es = es] r by (intro safe_from2 [OF f]) auto
  have cl: "safe_res (follows N M (b + N * M) w) (if True \<and> socket_timeout v \<noteq> 0 then close_idle dll v else Inr v)"
    if f: "follows N M (b + N * M) w v" for v
  proof (rule safe_from [OF f])
    assume "srv_inv N M (b + N * M) v"
    then show "safe_res (follows N M (b + N * M) v) (if True \<and> socket_timeout v \<noteq> 0 then close_idle dll v else Inr v)"
      unfolding close_idle_def
      using safe_mono [OF scan_del_safe follows_shrunk, of N M "b + N * M" v] follows_refl by auto
  qed
  show ?thesis
  proof (rule safe_bind [OF handle_send_queue_safe [OF i b]], rule safe_bind [OF ev], assumption, clarify)
    fix c w5 assume f: "follows N M (b + N * M) w w5"
    show "safe_res (\<lambda>(c, w'). follows N M (b + N * M) w w') (if c then Inr (-1, w5)
       else bindR (if True \<and> socket_timeout w5 \<noteq> 0 then close_idle dll w5 else Inr w5) (\<lambda>w6. Inr (0, w6)))"
      using f by (cases c) (simp, simp only: if_False, rule safe_bind [OF cl [OF f]], simp)
  qed
qed

lemma net_loop_inv:
  assumes i: "srv_inv N M b w" and b: "b + N * M < 2 ^ 31"
    and r: "restart_ok N M (page_size w) restart"
  shows "safe_res (\<lambda>(c, w'). follows N M (b + N * M) w w') (net_loop fuel dll g ok restart (page_size w) True w)"
proof -
  have b0: "b < 2 ^ 31" using b by simp
  have 1: "safe_res (follows N M b w) (iterate_close_queue dll w)"
    using iterate_close_queue_safe [OF i b0] by (rule safe_mono) (rule follows_shrunk)
  have 2: "safe_res (follows N M b w) (iterate_etin_queue dll (page_size w) True w1)" if f: "follows N M b w w1" for w1
    using iterate_etin_queue_safe [OF _, of N M b w1] by (intro safe_from [OF f]) auto
  show ?thesis
    unfolding net_loop_def
  proof (rule safe_bind [OF 1], rule safe_bind [OF 2], assumption)
    fix w1 w2 assume f: "follows N M b w w2"
    have f3: "follows N M b w (renew_now (w2\<lparr>epoll_as := as\<rparr>))" for as
      using renew_now_fds [of N M b w2 as] f by (auto simp: follows_def)
    have "safe_res (\<lambda>(c, w'). follows N M (b + N * M) w w')
      (bindR (handle_send_queue fuel dll ok v) (\<lambda>w4.
       bindR (handle_events dll restart (page_size w) True es w4) (\<lambda>(stop, w5).
       if stop then Inr (-1, w5)
       else bindR (if True \<and> socket_timeout w5 \<noteq> 0 then close_idle dll w5 else Inr w5) (\<lambda>w6. Inr (0 :: int, w6)))))"
      if v: "follows N M b w v" for v es
      using after_queues_safe [OF _ b, where w = v and restart = restart and es = es] r by (intro safe_from2 [OF v]) auto
    from this [OF f3]
    show "safe_res (\<lambda>(c, w'). follows N M (b + N * M) w w') (case epoll_as w2 of [] \<Rightarrow> Inl Blocked
     | evs # as \<Rightarrow>
       let w3 = renew_now (w2\<lparr>epoll_as := as\<rparr>) in
       bindR (if True then handle_send_queue fuel dll ok w3 else Inr w3) (\<lambda>w4.
       bindR (handle_events dll restart (page_size w) True (case evs of None \<Rightarrow> [] | Some l \<Rightarrow> l) w4) (\<lambda>(stop, w5).
       if stop then Inr (-1, w5)
       else
         bindR (if True \<and> socket_timeout w5 \<noteq> 0 then close_idle dll w5 else Inr w5) (\<lambda>w6.
         bindR (if \<not> True then handle_recv_queue fuel dll g w6 else Inr w6) (\<lambda>w7.
         Inr (0 :: int, w7))))))"
      by (simp add: Let_def split: list.split cong: if_cong)
  qed
qed


section \<open>Restarting a worker\<close>

text \<open>
  The kernel's answers when the parent starts worker \<open>i\<close> again: \<open>fork\<close> returns in the parent or
  fails, and a new pipe gets a descriptor that fits the table and is not open, which the old pipe's
  is no longer.  Mappings and pipes may fail.
\<close>

definition fork_ok :: "nat \<Rightarrow> 't world \<Rightarrow> fork_env \<Rightarrow> bool" where
  "fork_ok i w k \<longleftrightarrow> fk_pid k \<noteq> 0 \<and>
     (case fst (fk_pipes k) of None \<Rightarrow> True
      | Some p \<Rightarrow> nat (fst p) < length (fds w) \<and>
          nat (fst p) \<notin> used w - {nat (fst (pipe_handles (sendq (configs (bindconf w) ! i))))})"

text \<open>A configured \<open>shmq_length\<close> for which the queues work with the page size.\<close>

definition shm_len_ok :: "u32 \<Rightarrow> nat \<Rightarrow> int \<Rightarrow> bool" where
  "shm_len_ok ps M len \<longleftrightarrow> 13 \<le> unat ps \<and> 8 + int (unat ps) \<le> len \<and> len < 2 ^ 31 \<and>
     len + 2 * int (unat ps) < 2 ^ 32 \<and> len = int M"

lemma unat_word_of_int: "0 \<le> i \<Longrightarrow> i < 2 ^ 32 \<Longrightarrow> unat (word_of_int i :: u32) = nat i"
  by (simp add: unsigned_of_int take_bit_int_eq_self flip: nat_take_bit_eq)

lemma shmq_create_chan:
  assumes "shm_len_ok ps M len" "fk_mmap k = (True, True)" "nat (fst (pipe_handles (sendq e))) < n"
    "\<And>p. fst (fk_pipes k) = Some p \<Longrightarrow> nat (fst p) < n"
  shows "\<exists>c e1. shmq_create len (fk_mmap k) (fk_pipes k) e = Inr (c, e1) \<and> chan_ok ps M n e1 \<and>
    pipe_handles (sendq e1) = (case fst (fk_pipes k) of None \<Rightarrow> pipe_handles (sendq e) | Some p \<Rightarrow> p)"
proof -
  define n' where "n' = (word_of_int len :: u32)"
  have l: "0 \<le> len" "len < 2 ^ 32" using assms(1) unfolding shm_len_ok_def by linarith+
  have n: "unat n' = nat len" unfolding n'_def by (rule unat_word_of_int [OF l])
  have ln: "13 \<le> unat ps" "8 + unat ps \<le> unat n'" "unat n' < 2 ^ 31" "unat n' + 2 * unat ps < 2 ^ 32" "unat n' = M"
  proof -
    obtain m where m: "len = int m" using l(1) nonneg_int_cases by blast
    show "13 \<le> unat ps" "8 + unat ps \<le> unat n'" "unat n' < 2 ^ 31" "unat n' + 2 * unat ps < 2 ^ 32" "unat n' = M"
      using assms(1) by (simp_all add: n m shm_len_ok_def)
  qed
  have c: "\<exists>q'. do_shmq_create True pa (q\<lparr>q_length := n'\<rparr>) = Inr (0, q') \<and> q_rep ps q' [] \<and> q_length q' = n' \<and>
      pipe_handles q' = snd (pipe_create pa (pipe_handles q))" for pa q
  proof -
    obtain q' where q': "do_shmq_create True pa (q\<lparr>q_length := n'\<rparr>) = Inr (0, q')" "q_rep ps q' []"
      using do_shmq_create_rep [of ps "q\<lparr>q_length := n'\<rparr>" pa] ln by auto
    moreover have "q_length q' = n'" "pipe_handles q' = snd (pipe_create pa (pipe_handles q))"
      using q'(1) unfolding do_shmq_create_def by auto
    ultimately show ?thesis by blast
  qed
  obtain s where s: "do_shmq_create True (fst (fk_pipes k)) ((sendq e)\<lparr>q_length := n'\<rparr>) = Inr (0, s)"
    "q_rep ps s []" "q_length s = n'" "pipe_handles s = snd (pipe_create (fst (fk_pipes k)) (pipe_handles (sendq e)))"
    using c by blast
  obtain r where r: "do_shmq_create True (snd (fk_pipes k)) ((recvq e)\<lparr>q_length := n'\<rparr>) = Inr (0, r)" "q_rep ps r []" "q_length r = n'"
    using c by blast
  have ph: "pipe_handles s = (case fst (fk_pipes k) of None \<Rightarrow> pipe_handles (sendq e) | Some p \<Rightarrow> p)"
    using s(4) by (simp add: pipe_create_def split: option.split)
  have "nat (fst (pipe_handles s)) < n"
    using ph assms(3,4) by (cases "fst (fk_pipes k)") simp_all
  moreover have "\<exists>xs. q_rep ps s xs \<and> list_all out_msg xs" using s(2) by (intro exI [of _ "[]"]) simp
  ultimately have "chan_ok ps M n (e\<lparr>sendq := s, recvq := r\<rparr>)"
    using s(3) r(2,3) ln(5) by (auto simp: chan_ok_def)
  then show ?thesis
    using s(1) r(1) assms(2) ph by (simp add: shmq_create_def n'_def)
qed

text \<open>Both mappings are used unchecked, so a failed one ends the process.\<close>

lemma shmq_create_unmapped: "fk_mmap k \<noteq> (True, True) \<Longrightarrow> shmq_create len (fk_mmap k) ps e = Inl MapFault"
  by (cases "fk_mmap k") (auto simp: shmq_create_def do_shmq_create_def Let_def)

text \<open>The new queues are installed and the pipe is registered.\<close>

lemma adopt_child_safe:
  assumes inv: "srv_inv N M b w" and i: "i < length (configs (bindconf w))"
    and e: "chan_ok (page_size w) M (length (fds w)) e"
    and p: "nat p < length (fds w)" "nat p \<notin> used w"
  shows "safe_res (follows N M b w)
    (bindR (do_add_conn (nat p) fd_type_pipe None (Some i) ((set_conf i e w)\<lparr>closed := cs\<rparr>)) (\<lambda>w3.
      if length (child_pids w3) \<le> i then Inl Segv else Inr (w3\<lparr>child_pids := atomic_set (child_pids w3) i pid\<rparr>)))"
proof -
  define w2 where "w2 = (set_conf i e w)\<lparr>closed := cs\<rparr>"
  have "srv_inv N M b (set_conf i e w)" unfolding set_conf_def by (rule srv_inv_set_conf [OF inv e])
  then have i2: "srv_inv N M b w2"
    unfolding w2_def by (rule srv_inv_fds) (use srv_invD(2) [OF inv] in \<open>auto simp: set_conf_def accepts_fit_def used_def\<close>)
  have f2: "fds w2 = fds w" "used w2 = used w" "accept_as w2 = accept_as w" "page_size w2 = page_size w"
    "length (configs (bindconf w2)) = length (configs (bindconf w))"
    by (simp_all add: w2_def set_conf_def used_def)
  show ?thesis
  proof (cases "epoll_add_ok w2")
    case False
    then show ?thesis by (simp add: do_add_conn_def add_events_def w2_def)
  next
    case True
    let ?w3 = "added (nat p) fd_type_pipe None (Some i) w2"
    have a: "do_add_conn (nat p) fd_type_pipe None (Some i) w2 = Inr ?w3"
      using do_add_conn_eq [OF True] p(1) f2 by simp
    have i3: "srv_inv N M b ?w3"
      using p i f2 by (intro srv_inv_added [OF i2]) auto
    have "i < length (child_pids ?w3)"
      using srv_invD(1) [OF i3] i f2 by (simp add: env_ok_def added_env)
    moreover have "srv_inv N M b (?w3\<lparr>child_pids := (child_pids ?w3)[i := pid]\<rparr>)"
      using i3 by (simp add: srv_inv_def env_ok_def ents_ok_def accepts_fit_def used_def net_inv_def queues_ok_def table_ok_def)
    ultimately show ?thesis
      unfolding w2_def [symmetric] a using f2 by (simp add: follows_def added_env)
  qed
qed

text \<open>\<open>restart_child_process\<close> once the queues of bind element \<open>i\<close> have been created anew as \<open>e1\<close>.\<close>

abbreviation restart_closed :: "nat \<Rightarrow> 't world \<Rightarrow> 't world" where
  "restart_closed i w \<equiv> w\<lparr>closed := closed w @ [nat (snd (pipe_handles (recvq (configs (bindconf w) ! i))))]\<rparr>"

lemma restart_child_eq:
  assumes "i < length (configs (bindconf w))"
    "shmq_create len (fk_mmap K) (fk_pipes K) (do_destroy_shmq (configs (bindconf w) ! i)) = Inr (c, e1)"
  shows "restart_child_process dll len K rw i w =
      bindR (do_del_conn dll (nat (fst (pipe_handles (sendq (configs (bindconf w) ! i))))) 2 (restart_closed i w)) (\<lambda>w1.
        if fk_pid K < 0 then Inr (set_conf i e1 w1)
        else if fk_pid K > 0 then
          bindR (do_add_conn (nat (fst (pipe_handles (sendq e1)))) fd_type_pipe None (Some i)
                   ((set_conf i e1 w1)\<lparr>closed := closed (set_conf i e1 w1) @
                       map nat (close_shmq_pipe (bindconf (set_conf i e1 w1)) i False)\<rparr>)) (\<lambda>w3.
          if length (child_pids w3) \<le> i then Inl Segv
          else Inr (w3\<lparr>child_pids := atomic_set (child_pids w3) i (fk_pid K)\<rparr>))
        else rw i (bind_num (bindconf (set_conf i e1 w1))) (set_conf i e1 w1))"
  using assms by (simp add: restart_child_process_def Let_def get_bind_conf_idx_def split del: if_split)

text \<open>The state in which the process forks satisfies the invariant.\<close>

definition at_fork :: "nat \<Rightarrow> nat \<Rightarrow> nat \<Rightarrow> nat \<Rightarrow> bind_config_info \<Rightarrow> 't world \<Rightarrow> 't world \<Rightarrow> bool" where
  "at_fork N M b i e1 w w1 \<longleftrightarrow> follows N M b w w1 \<and> follows N M b w (set_conf i e1 w1) \<and>
     used w1 \<subseteq> used w - {nat (fst (pipe_handles (sendq (configs (bindconf w) ! i))))} \<and>
     accept_as w1 = accept_as w \<and> length (configs (bindconf w1)) = length (configs (bindconf w))"

lemma restart_drop_pipe:
  assumes inv: "srv_inv N M b w" and i: "i < length (configs (bindconf w))"
    and e1: "chan_ok (page_size w) M (length (fds w)) e1"
  shows "safe_res (at_fork N M b i e1 w)
    (do_del_conn dll (nat (fst (pipe_handles (sendq (configs (bindconf w) ! i))))) 2 (restart_closed i w))"
proof -
  let ?e = "configs (bindconf w) ! i" and ?w0 = "restart_closed i w"
  have i0: "srv_inv N M b ?w0"
    using inv by (rule srv_inv_fds) (use srv_invD(2) [OF inv] in \<open>auto simp: accepts_fit_def used_def\<close>)
  have f0: "used ?w0 = used w" "env ?w0 = env w" by (simp_all add: used_def env_def)
  have ch: "chan_ok (page_size w) M (length (fds w)) ?e" using srv_invD(1) [OF inv] i by (simp add: env_ok_def)
  have pl: "nat (fst (pipe_handles (sendq ?e))) < length (fds ?w0)" using ch by (simp add: chan_ok_def)
  show ?thesis
  proof (rule safe_mono [OF drop_conn_safe [OF i0 pl]], simp)
    fix w1 assume s: "shrunk N M b ?w0 w1 \<and> nat (fst (pipe_handles (sendq ?e))) \<notin> used w1"
    then have i1: "srv_inv N M b w1" "length (fds w1) = length (fds w)" "used w1 \<subseteq> used w" "page_size w1 = page_size w"
      "accept_as w1 = accept_as w" "length (configs (bindconf w1)) = length (configs (bindconf w))"
      using f0 env_eqD [of w1 ?w0] sendqs_length [of w1 ?w0] by (auto simp: shrunk_def)
    then have "follows N M b w w1" by (simp add: follows_def)
    moreover have "follows N M b w (set_conf i e1 w1)"
      using srv_inv_set_conf [OF i1(1), of e1 i] e1 i1 by (simp add: follows_def set_conf_def)
    ultimately show "at_fork N M b i e1 w w1" using i1 s by (auto simp: at_fork_def)
  qed
qed

lemma restart_prefix:
  assumes inv: "srv_inv N M b w" and i: "i < length (configs (bindconf w))" and len: "shm_len_ok (page_size w) M len"
    and mm: "fk_mmap K = (True, True)" "\<And>p. fst (fk_pipes K) = Some p \<Longrightarrow> nat (fst p) < length (fds w)"
  obtains c e1 where
    "shmq_create len (fk_mmap K) (fk_pipes K) (do_destroy_shmq (configs (bindconf w) ! i)) = Inr (c, e1)"
    "chan_ok (page_size w) M (length (fds w)) e1"
    "pipe_handles (sendq e1) = (case fst (fk_pipes K) of None \<Rightarrow> pipe_handles (sendq (configs (bindconf w) ! i)) | Some p \<Rightarrow> p)"
    "safe_res (at_fork N M b i e1 w)
       (do_del_conn dll (nat (fst (pipe_handles (sendq (configs (bindconf w) ! i))))) 2 (restart_closed i w))"
proof -
  let ?e = "configs (bindconf w) ! i"
  have ch: "chan_ok (page_size w) M (length (fds w)) ?e" using srv_invD(1) [OF inv] i by (simp add: env_ok_def)
  have dh: "pipe_handles (sendq (do_destroy_shmq ?e)) = pipe_handles (sendq ?e)" by (simp add: do_destroy_shmq_def unmap_def)
  have dp: "nat (fst (pipe_handles (sendq (do_destroy_shmq ?e)))) < length (fds w)" unfolding dh using ch by (simp add: chan_ok_def)
  obtain c e1 where e1: "shmq_create len (fk_mmap K) (fk_pipes K) (do_destroy_shmq ?e) = Inr (c, e1)"
    "chan_ok (page_size w) M (length (fds w)) e1"
    "pipe_handles (sendq e1) = (case fst (fk_pipes K) of None \<Rightarrow> pipe_handles (sendq ?e) | Some p \<Rightarrow> p)"
    using shmq_create_chan [OF len mm(1) dp mm(2)] unfolding dh by blast
  with restart_drop_pipe [OF inv i e1(2)] show thesis by (intro that)
qed

lemma restart_child_unmapped:
  assumes inv: "srv_inv N M b w" and i: "i < length (configs (bindconf w))" and K: "fk_mmap K \<noteq> (True, True)"
  shows "safe_res Q (restart_child_process dll len K rw i w)"
proof -
  have ch: "chan_ok (page_size w) M (length (fds w)) (configs (bindconf w) ! i)"
    using srv_invD(1) [OF inv] i by (simp add: env_ok_def)
  show ?thesis
    unfolding restart_child_process_def Let_def shmq_create_unmapped [OF K]
    using i safe_bind [OF restart_drop_pipe [OF inv i ch, of dll], of Q "\<lambda>w1. Inl MapFault"] by simp
qed

lemma restart_child_safe:
  fixes dll :: "'t serv_if"
  assumes len: "shm_len_ok ps M len" and k: "\<And>i w. fork_ok i w (k i w)"
  shows "restart_ok N M ps (\<lambda>i w. restart_child_process dll len (k i w) rw i w)"
  unfolding restart_ok_def
proof (intro allI impI)
  fix b i and w :: "'t world" assume inv: "srv_inv N M b w" and ps: "page_size w = ps" and i: "i < length (configs (bindconf w))"
  define K where "K = k i w"
  have fk: "fork_ok i w K" using k by (simp add: K_def)
  have mm: "\<And>p. fst (fk_pipes K) = Some p \<Longrightarrow> nat (fst p) < length (fds w)"
    "fk_pid K \<noteq> 0" using fk by (auto simp: fork_ok_def split: option.splits)
  have pl: "nat (fst (pipe_handles (sendq (configs (bindconf w) ! i)))) < length (fds w)"
    using srv_invD(1) [OF inv] i by (simp add: env_ok_def chan_ok_def)
  show "safe_res (follows N M b w) (restart_child_process dll len (k i w) rw i w)"
  proof (cases "fk_mmap K = (True, True)")
    case False
    then show ?thesis unfolding K_def [symmetric] by (rule restart_child_unmapped [OF inv i])
  next
    case mapped: True
    obtain c e1 where e1: "shmq_create len (fk_mmap K) (fk_pipes K) (do_destroy_shmq (configs (bindconf w) ! i)) = Inr (c, e1)"
      "chan_ok (page_size w) M (length (fds w)) e1"
      "pipe_handles (sendq e1) = (case fst (fk_pipes K) of None \<Rightarrow> pipe_handles (sendq (configs (bindconf w) ! i)) | Some p \<Rightarrow> p)"
      and del: "safe_res (at_fork N M b i e1 w)
         (do_del_conn dll (nat (fst (pipe_handles (sendq (configs (bindconf w) ! i))))) 2 (restart_closed i w))"
      using restart_prefix [OF inv i len [folded ps] mapped mm(1), where dll = dll] by metis
    show ?thesis
      unfolding K_def [symmetric] restart_child_eq [OF i e1(1)]
    proof (rule safe_bind [OF del])
      fix w1 assume a: "at_fork N M b i e1 w w1"
      then have i1: "srv_inv N M b w1" "length (fds w1) = length (fds w)" "page_size w1 = page_size w"
        "used w1 \<subseteq> used w - {nat (fst (pipe_handles (sendq (configs (bindconf w) ! i))))}" "i < length (configs (bindconf w1))" "follows N M b w w1" "follows N M b w (set_conf i e1 w1)"
        using i by (auto simp: at_fork_def follows_def)
      let ?p = "fst (pipe_handles (sendq e1))"
      have "nat ?p < length (fds w1) \<and> nat ?p \<notin> used w1"
        using fk e1(3) i1(2,4) pl by (auto simp: fork_ok_def split: option.splits)
      then have "safe_res (follows N M b w)
        (bindR (do_add_conn (nat ?p) fd_type_pipe None (Some i) ((set_conf i e1 w1)\<lparr>closed := cs\<rparr>)) (\<lambda>w3.
          if length (child_pids w3) \<le> i then Inl Segv else Inr (w3\<lparr>child_pids := atomic_set (child_pids w3) i (fk_pid K)\<rparr>)))"
        if "fk_pid K > 0" for cs
        using adopt_child_safe [of N M b w1 i e1 ?p cs "fk_pid K"] that i1 e1(2)
        by (intro safe_from [OF i1(6)]) auto
      then show "safe_res (follows N M b w) (if fk_pid K < 0 then Inr (set_conf i e1 w1)
          else if fk_pid K > 0 then
            bindR (do_add_conn (nat ?p) fd_type_pipe None (Some i)
                     ((set_conf i e1 w1)\<lparr>closed := closed (set_conf i e1 w1) @
                         map nat (close_shmq_pipe (bindconf (set_conf i e1 w1)) i False)\<rparr>)) (\<lambda>w3.
            if length (child_pids w3) \<le> i then Inl Segv
            else Inr (w3\<lparr>child_pids := atomic_set (child_pids w3) i (fk_pid K)\<rparr>))
          else rw i (bind_num (bindconf (set_conf i e1 w1))) (set_conf i e1 w1))"
        using mm(2) i1(7) by (cases "fk_pid K < 0") simp_all
    qed
  qed
qed

end
