(* ===== verification/Mp_Dictionary.thy ===== *)
theory Mp_Dictionary
  imports Mp_Prelude
begin

unbundle bit_operations_syntax

text \<open>
  The dictionary that holds the configuration (\<open>src/iniparser/src/dictionary.c\<close>): three parallel
  arrays that double when they are full, searched linearly with the hash as a filter.  A C string
  is a \<^typ>\<open>string\<close> without its terminator; an array pointer is an option, \<open>None\<close> being the null
  pointer, since a failed growth leaves null pointers behind.  The answers of the allocator are
  arguments.  The abstraction \<open>dict_abs\<close> is a finite map from keys to optional values.
\<close>

section \<open>Data and operations\<close>

datatype cptr = NULLP | Str string | INVALID_KEY

record dictionary =
  d_n :: nat
  d_size :: nat
  d_val :: "string option list option"
  d_key :: "string option list option"
  d_hash :: "u32 list option"

text \<open>Allocator answers: the three arrays, then the copies of the key and of the value.\<close>

record allocs =
  al_val :: bool
  al_key :: bool
  al_hash :: bool
  al_kdup :: bool
  al_vdup :: bool

definition alloc_ok :: allocs where
  "alloc_ok = \<lparr>al_val = True, al_key = True, al_hash = True, al_kdup = True, al_vdup = True\<rparr>"

definition arr_get :: "'a list option \<Rightarrow> nat \<Rightarrow> 'a res" where
  "arr_get p i = (case p of None \<Rightarrow> Inl Segv | Some xs \<Rightarrow> if i < length xs then Inr (xs ! i) else Inl Segv)"

definition arr_set :: "'a list option \<Rightarrow> nat \<Rightarrow> 'a \<Rightarrow> 'a list option res" where
  "arr_set p i x = (case p of None \<Rightarrow> Inl Segv
     | Some xs \<Rightarrow> if i < length xs then Inr (Some (xs[i := x])) else Inl Segv)"

text \<open>
  \<open>mem_double\<close>: the byte count is an \<open>int\<close>, so twice the size must stay below \<open>2 ^ 31\<close>; \<open>z\<close> is
  the element \<open>calloc\<close> makes and \<open>esz\<close> its size.  A null array is read by \<open>memcpy\<close>.
\<close>

definition mem_double :: "bool \<Rightarrow> nat \<Rightarrow> 'a \<Rightarrow> 'a list option \<Rightarrow> nat \<Rightarrow> 'a list option res" where
  "mem_double ok esz z p n =
     (if 2 * (n * esz) \<ge> 2 ^ 31 then Inl Segv
      else if \<not> ok then Inr None
      else case p of None \<Rightarrow> if n = 0 then Inr (Some []) else Inl Segv
      | Some xs \<Rightarrow> if length xs < n then Inl Segv else Inr (Some (take n xs @ replicate n z)))"

definition xstrdup :: "bool \<Rightarrow> string option \<Rightarrow> string option" where
  "xstrdup ok s = (if ok then s else None)"

definition hash_step :: "u32 \<Rightarrow> char \<Rightarrow> u32" where
  "hash_step h c =
     (let h1 = h + scast (of_char c :: 8 word); h2 = h1 + push_bit 10 h1 in h2 XOR drop_bit 6 h2)"

definition dictionary_hash :: "string \<Rightarrow> u32" where
  "dictionary_hash key =
     (let h = foldl hash_step 0 key; h1 = h + push_bit 3 h; h2 = h1 XOR drop_bit 11 h1
      in h2 + push_bit 15 h2)"

definition dictionary_new :: "bool \<Rightarrow> allocs \<Rightarrow> int \<Rightarrow> dictionary option" where
  "dictionary_new ok al sz =
     (let n = nat (if sz < 128 then 128 else sz) in
      if \<not> ok then None
      else Some \<lparr>d_n = 0, d_size = n,
        d_val = (if al_val al then Some (replicate n None) else None),
        d_key = (if al_key al then Some (replicate n None) else None),
        d_hash = (if al_hash al then Some (replicate n 0) else None)\<rparr>)"

text \<open>The search loop that \<open>dictionary_get\<close>, \<open>dictionary_set\<close> and \<open>dictionary_unset\<close> share.\<close>

function find_slot :: "dictionary \<Rightarrow> u32 \<Rightarrow> string \<Rightarrow> nat \<Rightarrow> nat option res" where
  "find_slot d h key i =
     (if i \<ge> d_size d then Inr None
      else bindR (arr_get (d_key d) i) (\<lambda>k.
        case k of None \<Rightarrow> find_slot d h key (Suc i)
        | Some k' \<Rightarrow> bindR (arr_get (d_hash d) i) (\<lambda>h'.
            if h = h' \<and> key = k' then Inr (Some i) else find_slot d h key (Suc i))))"
  by auto
termination
  by (relation "measure (\<lambda>(d, h, key, i). d_size d - i)") auto

definition ptr_of :: "string option \<Rightarrow> cptr" where
  "ptr_of v = (case v of None \<Rightarrow> NULLP | Some x \<Rightarrow> Str x)"

definition dictionary_get :: "dictionary \<Rightarrow> string \<Rightarrow> cptr \<Rightarrow> cptr res" where
  "dictionary_get d key dflt =
     bindR (find_slot d (dictionary_hash key) key 0) (\<lambda>s.
       case s of None \<Rightarrow> Inr dflt
       | Some i \<Rightarrow> bindR (arr_get (d_val d) i) (\<lambda>v. Inr (ptr_of v)))"

text \<open>
  The free slot is searched cyclically from \<open>d->n\<close>.  After \<open>d->size\<close> steps every slot has been
  seen, so a search that runs out of this fuel is one that never ends.
\<close>

fun free_slot :: "nat \<Rightarrow> dictionary \<Rightarrow> nat \<Rightarrow> nat res" where
  "free_slot 0 d i = Inl Blocked"
| "free_slot (Suc m) d i =
     bindR (arr_get (d_key d) i) (\<lambda>k.
       case k of None \<Rightarrow> Inr i
       | Some _ \<Rightarrow> free_slot m d (if Suc i = d_size d then 0 else Suc i))"

definition dict_grow :: "allocs \<Rightarrow> dictionary \<Rightarrow> (bool \<times> dictionary) res" where
  "dict_grow al d =
     bindR (mem_double (al_val al) 8 None (d_val d) (d_size d)) (\<lambda>v.
     bindR (mem_double (al_key al) 8 None (d_key d) (d_size d)) (\<lambda>k.
     bindR (mem_double (al_hash al) 4 0 (d_hash d) (d_size d)) (\<lambda>h.
       let d1 = d\<lparr>d_val := v, d_key := k, d_hash := h\<rparr> in
       if v = None \<or> k = None \<or> h = None then Inr (False, d1)
       else Inr (True, d1\<lparr>d_size := 2 * d_size d\<rparr>))))"

definition dict_add :: "allocs \<Rightarrow> dictionary \<Rightarrow> string \<Rightarrow> string option \<Rightarrow> (int \<times> dictionary) res" where
  "dict_add al d key v =
     bindR (free_slot (d_size d) d (d_n d)) (\<lambda>i.
     bindR (arr_set (d_key d) i (xstrdup (al_kdup al) (Some key))) (\<lambda>ks.
     bindR (arr_set (d_val d) i (xstrdup (al_vdup al) v)) (\<lambda>vs.
     bindR (arr_set (d_hash d) i (dictionary_hash key)) (\<lambda>hs.
       Inr (0, d\<lparr>d_key := ks, d_val := vs, d_hash := hs, d_n := Suc (d_n d)\<rparr>)))))"

definition dict_replace :: "allocs \<Rightarrow> dictionary \<Rightarrow> nat \<Rightarrow> string option \<Rightarrow> (int \<times> dictionary) res" where
  "dict_replace al d i v =
     bindR (arr_set (d_val d) i (xstrdup (al_vdup al) v)) (\<lambda>vs. Inr (0, d\<lparr>d_val := vs\<rparr>))"

definition dict_set_in :: "allocs \<Rightarrow> dictionary \<Rightarrow> string \<Rightarrow> string option \<Rightarrow> (int \<times> dictionary) res" where
  "dict_set_in al d k v =
     bindR (if d_n d > 0 then find_slot d (dictionary_hash k) k 0 else Inr None) (\<lambda>s.
       case s of Some i \<Rightarrow> dict_replace al d i v
       | None \<Rightarrow>
         bindR (if d_n d = d_size d then dict_grow al d else Inr (True, d)) (\<lambda>(ok, d1).
           if ok then dict_add al d1 k v else Inr (-1, d1)))"

definition dictionary_set ::
  "allocs \<Rightarrow> dictionary option \<Rightarrow> string option \<Rightarrow> string option \<Rightarrow> (int \<times> dictionary option) res" where
  "dictionary_set al dp key v =
     (case dp of None \<Rightarrow> Inr (-1, dp)
      | Some d \<Rightarrow>
        (case key of None \<Rightarrow> Inr (-1, dp)
         | Some k \<Rightarrow> bindR (dict_set_in al d k v) (\<lambda>(r, d'). Inr (r, Some d'))))"

definition dictionary_unset :: "dictionary \<Rightarrow> string option \<Rightarrow> dictionary res" where
  "dictionary_unset d key =
     (case key of None \<Rightarrow> Inr d
      | Some k \<Rightarrow> bindR (find_slot d (dictionary_hash k) k 0) (\<lambda>s.
          case s of None \<Rightarrow> Inr d
          | Some i \<Rightarrow>
            bindR (arr_set (d_key d) i None) (\<lambda>ks.
            bindR (arr_set (d_val d) i None) (\<lambda>vs.
            bindR (arr_set (d_hash d) i 0) (\<lambda>hs.
              Inr (d\<lparr>d_key := ks, d_val := vs, d_hash := hs, d_n := d_n d - 1\<rparr>))))))"

text \<open>\<open>dictionary_del\<close> returns the strings it frees, in the order of the calls.\<close>

function del_loop :: "dictionary \<Rightarrow> nat \<Rightarrow> string list res" where
  "del_loop d i =
     (if i \<ge> d_size d then Inr []
      else bindR (arr_get (d_key d) i) (\<lambda>k.
        bindR (arr_get (d_val d) i) (\<lambda>v.
        bindR (del_loop d (Suc i)) (\<lambda>r.
          Inr ((case k of None \<Rightarrow> [] | Some s \<Rightarrow> [s]) @ (case v of None \<Rightarrow> [] | Some s \<Rightarrow> [s]) @ r)))))"
  by auto
termination
  by (relation "measure (\<lambda>(d, i). d_size d - i)") auto

definition dictionary_del :: "dictionary option \<Rightarrow> string list res" where
  "dictionary_del d = (case d of None \<Rightarrow> Inr [] | Some x \<Rightarrow> del_loop x 0)"

declare find_slot.simps [simp del] del_loop.simps [simp del]

section \<open>Abstraction and invariant\<close>

definition slot_of :: "string option list \<Rightarrow> string \<Rightarrow> nat option" where
  "slot_of ks k = List.find (\<lambda>i. ks ! i = Some k) [0..<length ks]"

fun used_slots :: "string option list \<Rightarrow> nat" where
  "used_slots [] = 0"
| "used_slots (k # ks) = (if k = None then 0 else 1) + used_slots ks"

definition uniq_keys :: "string option list \<Rightarrow> bool" where
  "uniq_keys ks \<longleftrightarrow> (\<forall>i\<in>{..<length ks}. \<forall>j\<in>{..<length ks}. ks ! i \<noteq> None \<longrightarrow> ks ! i = ks ! j \<longrightarrow> i = j)"

definition hashed :: "string option list \<Rightarrow> u32 list \<Rightarrow> bool" where
  "hashed ks hs \<longleftrightarrow> list_all2 (\<lambda>k h. case k of None \<Rightarrow> True | Some s \<Rightarrow> h = dictionary_hash s) ks hs"

definition dict_ok :: "dictionary \<Rightarrow> bool" where
  "dict_ok d \<longleftrightarrow> (case (d_key d, d_val d, d_hash d) of
     (Some ks, Some vs, Some hs) \<Rightarrow>
       length ks = d_size d \<and> length vs = d_size d \<and> hashed ks hs \<and> 0 < d_size d \<and>
       uniq_keys ks \<and> d_n d = used_slots ks
   | _ \<Rightarrow> False)"

definition dict_abs :: "dictionary \<Rightarrow> string \<Rightarrow> string option option" where
  "dict_abs d k = map_option (\<lambda>i. the (d_val d) ! i) (slot_of (the (d_key d)) k)"

lemma dict_okE:
  assumes "dict_ok d"
  obtains ks vs hs where "d_key d = Some ks" "d_val d = Some vs" "d_hash d = Some hs"
    "length ks = d_size d" "length vs = d_size d" "length hs = d_size d" "hashed ks hs" "0 < d_size d"
    "uniq_keys ks" "d_n d = used_slots ks"
  using assms by (auto simp: dict_ok_def hashed_def list_all2_lengthD split: option.splits)

lemma dict_okI:
  assumes "d_key d = Some ks" "d_val d = Some vs" "d_hash d = Some hs"
    "length ks = d_size d" "length vs = d_size d" "hashed ks hs" "0 < d_size d"
    "uniq_keys ks" "d_n d = used_slots ks"
  shows "dict_ok d"
  using assms by (simp add: dict_ok_def)

lemma slot_of_None: "slot_of ks k = None \<longleftrightarrow> Some k \<notin> set ks"
  by (force simp: slot_of_def find_None_iff in_set_conv_nth)

lemma slot_of_SomeD: "slot_of ks k = Some i \<Longrightarrow> i < length ks \<and> ks ! i = Some k"
  by (auto simp: slot_of_def find_Some_iff)

lemma slot_of_eq: "uniq_keys ks \<Longrightarrow> i < length ks \<Longrightarrow> ks ! i = Some k \<Longrightarrow> slot_of ks k = Some i"
proof -
  assume u: "uniq_keys ks" and i: "i < length ks" "ks ! i = Some k"
  then have "slot_of ks k \<noteq> None" by (auto simp: slot_of_None in_set_conv_nth)
  then obtain j where j: "slot_of ks k = Some j" by auto
  with slot_of_SomeD [OF j] u i show ?thesis by (auto simp: uniq_keys_def)
qed

lemma used_slots_update:
  assumes "i < length ks"
  shows "used_slots (ks[i := x]) + (if ks ! i = None then 0 else 1) = used_slots ks + (if x = None then 0 else 1)"
  using assms
proof (induction ks arbitrary: i)
  case (Cons y ks)
  show ?case
  proof (cases i)
    case (Suc j)
    with Cons.IH [of j] Cons.prems show ?thesis by simp
  qed simp
qed simp

lemma used_slots_le: "used_slots ks \<le> length ks"
  by (induction ks) auto

lemma used_slots_full: "used_slots ks = length ks \<longleftrightarrow> None \<notin> set ks"
proof (induction ks)
  case (Cons k ks)
  with used_slots_le [of ks] show ?case by (cases k) auto
qed simp

lemma hashed_update: "hashed ks hs \<Longrightarrow> k = None \<or> h = dictionary_hash (the k) \<Longrightarrow> hashed (ks[i := k]) (hs[i := h])"
  unfolding hashed_def by (rule list_all2_update_cong) (auto split: option.splits)

lemma uniq_keysD:
  "uniq_keys ks \<Longrightarrow> a < length ks \<Longrightarrow> b < length ks \<Longrightarrow> ks ! a = Some k \<Longrightarrow> ks ! b = Some k \<Longrightarrow> a = b"
  by (simp add: uniq_keys_def)

lemma uniq_keysI:
  assumes "\<And>a b k. a < length ks \<Longrightarrow> b < length ks \<Longrightarrow> ks ! a = Some k \<Longrightarrow> ks ! b = Some k \<Longrightarrow> a = b"
  shows "uniq_keys ks"
  using assms by (auto simp: uniq_keys_def)

lemma uniq_keys_clear: "uniq_keys ks \<Longrightarrow> uniq_keys (ks[i := None])"
proof (rule uniq_keysI)
  fix a b k assume u: "uniq_keys ks" and ab: "a < length (ks[i := None])" "b < length (ks[i := None])"
    "ks[i := None] ! a = Some k" "ks[i := None] ! b = Some k"
  then have "a \<noteq> i" "b \<noteq> i" by auto
  with u ab show "a = b" by (auto intro: uniq_keysD)
qed

lemma uniq_keys_add: "uniq_keys ks \<Longrightarrow> Some k \<notin> set ks \<Longrightarrow> uniq_keys (ks[i := Some k])"
proof (rule uniq_keysI)
  fix a b k' assume u: "uniq_keys ks" "Some k \<notin> set ks"
    and ab: "a < length (ks[i := Some k])" "b < length (ks[i := Some k])"
    "ks[i := Some k] ! a = Some k'" "ks[i := Some k] ! b = Some k'"
  have "ks ! x \<noteq> Some k" if "x < length ks" for x using u(2) nth_mem [OF that] by auto
  with u(1) ab show "a = b"
    by (cases "a = i"; cases "b = i") (auto intro: uniq_keysD)
qed

section \<open>The search loops\<close>

lemma find_upt_Cons: "i < n \<Longrightarrow> List.find P [i..<n] = (if P i then Some i else List.find P [Suc i..<n])"
  by (simp add: upt_conv_Cons)

lemma find_slot_eq:
  assumes "d_key d = Some ks" "d_hash d = Some hs" "length ks = d_size d" "hashed ks hs"
  shows "find_slot d (dictionary_hash k) k i = Inr (List.find (\<lambda>j. ks ! j = Some k) [i..<d_size d])"
proof (induction "d_size d - i" arbitrary: i)
  case 0
  then show ?case by (simp add: find_slot.simps)
next
  case (Suc m)
  then have i: "i < d_size d" and ih: "find_slot d (dictionary_hash k) k (Suc i) =
      Inr (List.find (\<lambda>j. ks ! j = Some k) [Suc i..<d_size d])" by (simp_all)
  from assms i have ga: "arr_get (d_key d) i = Inr (ks ! i)" by (simp add: arr_get_def)
  have gh: "arr_get (d_hash d) i = Inr (hs ! i)" "ks ! i = Some s \<Longrightarrow> hs ! i = dictionary_hash s" for s
    using assms i by (auto simp: arr_get_def hashed_def list_all2_conv_all_nth)
  show ?case
    using i ih gh
    by (subst find_slot.simps, subst find_upt_Cons [OF i]) (auto simp: ga split: option.splits)
qed

lemma dict_find: "dict_ok d \<Longrightarrow> find_slot d (dictionary_hash k) k 0 = Inr (slot_of (the (d_key d)) k)"
  by (erule dict_okE) (simp add: find_slot_eq slot_of_def)

lemma free_slot_found:
  assumes "d_key d = Some ks" "length ks = d_size d" "i < d_size d" "t < m" "ks ! ((i + t) mod d_size d) = None"
  shows "\<exists>j. free_slot m d i = Inr j \<and> j < d_size d \<and> ks ! j = None"
  using assms(3-)
proof (induction m arbitrary: i t)
  case (Suc m)
  from assms Suc.prems have g: "arr_get (d_key d) i = Inr (ks ! i)" by (simp add: arr_get_def)
  show ?case
  proof (cases "ks ! i")
    case None with g Suc.prems show ?thesis by simp
  next
    case (Some x)
    then have t: "t \<noteq> 0" using Suc.prems by (intro notI) simp
    define i' where "i' = (if Suc i = d_size d then 0 else Suc i)"
    have i': "i' < d_size d" "(i' + (t - 1)) mod d_size d = (i + t) mod d_size d"
    proof -
      show "i' < d_size d" using Suc.prems by (auto simp: i'_def)
      have "i' mod d_size d = Suc i mod d_size d" using Suc.prems by (auto simp: i'_def)
      then have "(i' + (t - 1)) mod d_size d = (Suc i + (t - 1)) mod d_size d" by (metis mod_add_left_eq)
      then show "(i' + (t - 1)) mod d_size d = (i + t) mod d_size d" using t by simp
    qed
    with Suc.IH [of i' "t - 1"] Suc.prems t have "\<exists>j. free_slot m d i' = Inr j \<and> j < d_size d \<and> ks ! j = None" by auto
    then show ?thesis by (simp add: g Some i'_def)
  qed
qed simp

lemma free_slot_ok:
  assumes "dict_ok d" "d_n d < d_size d"
  shows "\<exists>j. free_slot (d_size d) d (d_n d) = Inr j \<and> j < d_size d \<and> the (d_key d) ! j = None"
proof -
  from assms(1) obtain ks where k: "d_key d = Some ks" "length ks = d_size d" "d_n d = used_slots ks"
    by (rule dict_okE)
  then have "None \<in> set ks" using assms(2) used_slots_full [of ks] by auto
  then obtain j where j: "j < d_size d" "ks ! j = None" using k by (auto simp: in_set_conv_nth)
  let ?t = "(j + d_size d - d_n d) mod d_size d"
  have "(d_n d + ?t) mod d_size d = (d_n d + (j + d_size d - d_n d)) mod d_size d" by (simp add: mod_add_right_eq)
  also have "\<dots> = j" using j assms(2) by simp
  finally have "ks ! ((d_n d + ?t) mod d_size d) = None" using j by simp
  moreover have "?t < d_size d" using j by simp
  ultimately show ?thesis using free_slot_found [OF k(1,2) assms(2)] k(1) by simp
qed

section \<open>Effect of the operations on the abstraction\<close>

lemma slot_of_update_other:
  assumes "i < length ks" "ks ! i \<noteq> Some k'" "x \<noteq> Some k'"
  shows "slot_of (ks[i := x]) k' = slot_of ks k'"
proof -
  have "(ks[i := x] ! j = Some k') = (ks ! j = Some k')" for j using assms by (cases "j = i") auto
  then show ?thesis by (simp add: slot_of_def)
qed

lemma find_append_case: "List.find P (xs @ ys) = (case List.find P xs of None \<Rightarrow> List.find P ys | Some x \<Rightarrow> Some x)"
  by (induction xs) auto

lemma slot_of_append_None: "slot_of (ks @ replicate m None) k = slot_of ks k"
proof -
  have "List.find (\<lambda>i. (ks @ replicate m None) ! i = Some k) [length ks..<length ks + m] = None"
    by (auto simp: find_None_iff nth_append)
  moreover have "List.find (\<lambda>i. (ks @ replicate m None) ! i = Some k) [0..<length ks] = slot_of ks k"
    unfolding slot_of_def by (rule find_cong) (auto simp: nth_append)
  moreover have "[0..<length ks + m] = [0..<length ks] @ [length ks..<length ks + m]"
    by (metis le_add1 upt_add_eq_append zero_le)
  ultimately show ?thesis by (simp add: slot_of_def find_append_case split: option.splits)
qed

lemma used_slots_append: "used_slots (ks @ ls) = used_slots ks + used_slots ls"
  by (induction ks) auto

lemma used_slots_replicate [simp]: "used_slots (replicate m None) = 0"
  by (induction m) auto

lemma dict_abs_None: "dict_ok d \<Longrightarrow> dict_abs d k = None \<longleftrightarrow> Some k \<notin> set (the (d_key d))"
  by (simp add: dict_abs_def slot_of_None)

lemma dict_abs_slot:
  "d_key d = Some ks \<Longrightarrow> d_val d = Some vs \<Longrightarrow> slot_of ks k = Some i \<Longrightarrow> dict_abs d k = Some (vs ! i)"
  by (simp add: dict_abs_def)

lemma dict_n_le: "dict_ok d \<Longrightarrow> d_n d \<le> d_size d"
  by (erule dict_okE) (metis used_slots_le)

lemma dict_n_pos: "dict_ok d \<Longrightarrow> dict_abs d k \<noteq> None \<Longrightarrow> 0 < d_n d"
proof -
  assume d: "dict_ok d" "dict_abs d k \<noteq> None"
  from d(1) obtain ks where "d_key d = Some ks" "d_n d = used_slots ks" by (rule dict_okE)
  moreover have "0 < used_slots ks" if "Some k \<in> set ks" using that by (induction ks) auto
  ultimately show ?thesis using d dict_abs_None [OF d(1), of k] by auto
qed

text \<open>Storing at a slot that is free or already carries the key.\<close>

lemma dict_abs_store:
  assumes "d_key d = Some ks" "d_val d = Some vs" "i < length ks" "length vs = length ks"
    "ks ! i = None \<or> ks ! i = Some k" "uniq_keys (ks[i := Some k])"
    "d_key d' = Some (ks[i := Some k])" "d_val d' = Some (vs[i := v])"
    "ks ! i = None \<longrightarrow> Some k \<notin> set ks"
  shows "dict_abs d' = (dict_abs d)(k \<mapsto> v)"
proof
  fix k'
  show "dict_abs d' k' = ((dict_abs d)(k \<mapsto> v)) k'"
  proof (cases "k' = k")
    case True
    with assms slot_of_eq [OF assms(6), of i k] show ?thesis by (simp add: dict_abs_def)
  next
    case False
    then have s: "slot_of (ks[i := Some k]) k' = slot_of ks k'"
      using assms by (intro slot_of_update_other) auto
    have "vs[i := v] ! j = vs ! j" if "slot_of ks k' = Some j" for j
      using slot_of_SomeD [OF that] assms False by (cases "j = i") auto
    with s assms False show ?thesis by (auto simp: dict_abs_def intro: option.map_cong)
  qed
qed

lemma dict_abs_clear:
  assumes "d_key d = Some ks" "d_val d = Some vs" "i < length ks" "length vs = length ks"
    "ks ! i = Some k" "uniq_keys ks" "d_key d' = Some (ks[i := None])" "d_val d' = Some (vs[i := None])"
  shows "dict_abs d' = (dict_abs d)(k := None)"
proof
  fix k'
  show "dict_abs d' k' = ((dict_abs d)(k := None)) k'"
  proof (cases "k' = k")
    case True
    have "Some k \<notin> set (ks[i := None])"
    proof
      assume "Some k \<in> set (ks[i := None])"
      then obtain j where j: "j < length ks" "ks[i := None] ! j = Some k" by (auto simp: in_set_conv_nth)
      then have "j \<noteq> i" using assms(3) by auto
      with j uniq_keysD [OF assms(6) j(1) assms(3), of k] assms(5) show False by simp
    qed
    with True assms show ?thesis by (simp add: dict_abs_def slot_of_None)
  next
    case False
    then have s: "slot_of (ks[i := None]) k' = slot_of ks k'"
      using assms by (intro slot_of_update_other) auto
    have "vs[i := None] ! j = vs ! j" if "slot_of ks k' = Some j" for j
      using slot_of_SomeD [OF that] assms False by (cases "j = i") auto
    with s assms False show ?thesis by (auto simp: dict_abs_def intro: option.map_cong)
  qed
qed

lemma dict_replace_ok:
  assumes "dict_ok d" "slot_of (the (d_key d)) k = Some i" "al_vdup al"
  shows "\<exists>d'. dict_replace al d i v = Inr (0, d') \<and> dict_ok d' \<and> dict_abs d' = (dict_abs d)(k \<mapsto> v) \<and>
           d_n d' = d_n d \<and> d_size d' = d_size d"
  using assms(1)
proof (rule dict_okE)
  fix ks vs hs
  assume d: "d_key d = Some ks" "d_val d = Some vs" "d_hash d = Some hs"
    "length ks = d_size d" "length vs = d_size d" "length hs = d_size d" "hashed ks hs" "0 < d_size d"
    "uniq_keys ks" "d_n d = used_slots ks"
  from slot_of_SomeD [OF assms(2)] d have i: "i < d_size d" "ks ! i = Some k" by auto
  let ?d = "d\<lparr>d_val := Some (vs[i := v])\<rparr>"
  have "ks[i := Some k] = ks" using i by (metis list_update_id)
  then have "dict_abs ?d = (dict_abs d)(k \<mapsto> v)"
    using d i by (intro dict_abs_store [of d ks vs i]) simp_all
  moreover have "dict_ok ?d" using d by (intro dict_okI [of _ ks "vs[i := v]" hs]) simp_all
  ultimately show ?thesis using d i assms(3) by (simp add: dict_replace_def arr_set_def xstrdup_def)
qed

lemma dict_add_ok:
  assumes "dict_ok d" "d_n d < d_size d" "dict_abs d k = None" "al_kdup al" "al_vdup al"
  shows "\<exists>d'. dict_add al d k v = Inr (0, d') \<and> dict_ok d' \<and> dict_abs d' = (dict_abs d)(k \<mapsto> v) \<and>
           d_n d' = Suc (d_n d) \<and> d_size d' = d_size d"
  using assms(1)
proof (rule dict_okE)
  fix ks vs hs
  assume d: "d_key d = Some ks" "d_val d = Some vs" "d_hash d = Some hs"
    "length ks = d_size d" "length vs = d_size d" "length hs = d_size d" "hashed ks hs" "0 < d_size d"
    "uniq_keys ks" "d_n d = used_slots ks"
  obtain i where i: "free_slot (d_size d) d (d_n d) = Inr i" "i < d_size d" "ks ! i = None"
    using free_slot_ok [OF assms(1,2)] d by auto
  have new: "Some k \<notin> set ks" using assms(1,3) d by (simp add: dict_abs_None)
  let ?d = "d\<lparr>d_key := Some (ks[i := Some k]), d_val := Some (vs[i := v]),
      d_hash := Some (hs[i := dictionary_hash k]), d_n := Suc (d_n d)\<rparr>"
  have "dict_abs ?d = (dict_abs d)(k \<mapsto> v)"
    using d i new by (intro dict_abs_store [of d ks vs i]) (simp_all add: uniq_keys_add)
  moreover have "dict_ok ?d"
    using d i new used_slots_update [of i ks "Some k"]
    by (intro dict_okI [of _ "ks[i := Some k]" "vs[i := v]" "hs[i := dictionary_hash k]"])
      (simp_all add: uniq_keys_add hashed_update)
  ultimately show ?thesis using d i assms(4,5)
    by (simp add: dict_add_def arr_set_def xstrdup_def)
qed

lemma dict_grow_ok:
  assumes "dict_ok d" "al_val al" "al_key al" "al_hash al" "d_size d < 2 ^ 27"
  shows "\<exists>d'. dict_grow al d = Inr (True, d') \<and> dict_ok d' \<and> dict_abs d' = dict_abs d \<and>
           d_n d' = d_n d \<and> d_size d' = 2 * d_size d"
  using assms(1)
proof (rule dict_okE)
  fix ks vs hs
  assume d: "d_key d = Some ks" "d_val d = Some vs" "d_hash d = Some hs"
    "length ks = d_size d" "length vs = d_size d" "length hs = d_size d" "hashed ks hs" "0 < d_size d"
    "uniq_keys ks" "d_n d = used_slots ks"
  let ?n = "d_size d"
  let ?ks = "ks @ replicate ?n None" and ?vs = "vs @ replicate ?n None" and ?hs = "hs @ replicate ?n 0"
  let ?d = "d\<lparr>d_val := Some ?vs, d_key := Some ?ks, d_hash := Some ?hs, d_size := 2 * ?n\<rparr>"
  have h: "hashed ?ks ?hs"
    using d(7) unfolding hashed_def by (rule list_all2_appendI) (simp add: list_all2_conv_all_nth)
  have u: "uniq_keys ?ks"
    using uniq_keysD [OF d(9)] by (intro uniq_keysI) (auto simp: nth_append split: if_splits)
  have "dict_ok ?d" using d u h by (intro dict_okI [of _ ?ks ?vs ?hs]) (simp_all add: used_slots_append)
  moreover have "dict_abs ?d = dict_abs d"
  proof
    fix k
    have "?vs ! i = vs ! i" if "slot_of ks k = Some i" for i
      using slot_of_SomeD [OF that] d by (simp add: nth_append)
    then show "dict_abs ?d k = dict_abs d k"
      using d by (auto simp: dict_abs_def slot_of_append_None intro: option.map_cong)
  qed
  ultimately show ?thesis using d assms by (simp add: dict_grow_def mem_double_def)
qed

lemma dict_set_in_ok:
  assumes "dict_ok d" "d_n d < 2 ^ 27" "al = alloc_ok"
  shows "\<exists>d'. dict_set_in al d k v = Inr (0, d') \<and> dict_ok d' \<and> dict_abs d' = (dict_abs d)(k \<mapsto> v) \<and>
           d_n d' = (if dict_abs d k = None then Suc (d_n d) else d_n d)"
proof (cases "slot_of (the (d_key d)) k")
  case (Some i)
  have mem: "Some k \<in> set (the (d_key d))" using slot_of_SomeD [OF Some] by (metis nth_mem)
  then have "d_n d > 0" using dict_n_pos [OF assms(1), of k] assms(1) by (simp add: dict_abs_None)
  with dict_replace_ok [OF assms(1) Some, of al v] assms(3) mem assms(1) show ?thesis
    by (auto simp: dict_set_in_def dict_find Some dict_abs_None alloc_ok_def)
next
  case None
  then have new: "dict_abs d k = None" by (simp add: dict_abs_def)
  have f: "(if d_n d > 0 then find_slot d (dictionary_hash k) k 0 else Inr None) = Inr None"
    using dict_find [OF assms(1), of k] None by simp
  obtain d1 where d1: "(if d_n d = d_size d then dict_grow al d else Inr (True, d)) = Inr (True, d1)"
    "dict_ok d1" "dict_abs d1 = dict_abs d" "d_n d1 = d_n d" "d_n d1 < d_size d1"
  proof (cases "d_n d = d_size d")
    case True
    have "0 < d_size d" using assms(1) by (rule dict_okE)
    with dict_grow_ok [of d al] True assms that show ?thesis by (auto simp: alloc_ok_def)
  next
    case False
    with dict_n_le [OF assms(1)] assms that [of d] show ?thesis by simp
  qed
  with dict_add_ok [OF d1(2,5), of k al v] new assms(3) show ?thesis
    unfolding dict_set_in_def f by (auto simp: alloc_ok_def)
qed

lemma dictionary_get_abs:
  assumes "dict_ok d"
  shows "dictionary_get d k dflt = Inr (case dict_abs d k of None \<Rightarrow> dflt | Some v \<Rightarrow> ptr_of v)"
  using assms
proof (rule dict_okE)
  fix ks vs hs
  assume d: "d_key d = Some ks" "d_val d = Some vs" "length ks = d_size d" "length vs = d_size d"
  show ?thesis
  proof (cases "slot_of ks k")
    case None
    with d dict_find [OF assms, of k] show ?thesis by (simp add: dictionary_get_def dict_abs_def)
  next
    case (Some i)
    with slot_of_SomeD [OF Some] d dict_find [OF assms, of k] show ?thesis
      by (simp add: dictionary_get_def dict_abs_def arr_get_def)
  qed
qed

lemma dictionary_new_ok:
  obtains d where "dictionary_new True alloc_ok sz = Some d" "dict_ok d" "dict_abs d = Map.empty" "d_n d = 0"
proof
  let ?n = "nat (if sz < 128 then 128 else sz)"
  let ?d = "\<lparr>d_n = 0, d_size = ?n, d_val = Some (replicate ?n None), d_key = Some (replicate ?n None),
      d_hash = Some (replicate ?n 0)\<rparr>"
  show "dictionary_new True alloc_ok sz = Some ?d" by (simp add: dictionary_new_def alloc_ok_def Let_def)
  show "dict_ok ?d"
    by (rule dict_okI [of _ "replicate ?n None" "replicate ?n None" "replicate ?n 0"])
      (auto simp: hashed_def list_all2_conv_all_nth intro: uniq_keysI)
  show "dict_abs ?d = Map.empty" by (auto simp: dict_abs_def slot_of_None fun_eq_iff)
  show "d_n ?d = 0" by simp
qed

lemma dict_unset_ok:
  assumes "dict_ok d"
  shows "\<exists>d'. dictionary_unset d (Some k) = Inr d' \<and> dict_ok d' \<and> dict_abs d' = (dict_abs d)(k := None) \<and>
           d_n d' = d_n d - (if dict_abs d k = None then 0 else 1)"
  using assms
proof (rule dict_okE)
  fix ks vs hs
  assume d: "d_key d = Some ks" "d_val d = Some vs" "d_hash d = Some hs"
    "length ks = d_size d" "length vs = d_size d" "length hs = d_size d" "hashed ks hs" "0 < d_size d"
    "uniq_keys ks" "d_n d = used_slots ks"
  show ?thesis
  proof (cases "slot_of ks k")
    case None
    then have "dict_abs d k = None" using d by (simp add: dict_abs_def)
    then show ?thesis using None d dict_find [OF assms, of k] assms
      by (simp add: dictionary_unset_def fun_upd_idem)
  next
    case (Some i)
    with slot_of_SomeD [OF Some] d have i: "i < d_size d" "ks ! i = Some k" by auto
    let ?d = "d\<lparr>d_key := Some (ks[i := None]), d_val := Some (vs[i := None]), d_hash := Some (hs[i := 0]),
        d_n := d_n d - 1\<rparr>"
    have "dict_abs ?d = (dict_abs d)(k := None)" using d i by (intro dict_abs_clear [of d ks vs i]) simp_all
    moreover have "dict_ok ?d" using d i used_slots_update [of i ks None]
      by (intro dict_okI [of _ "ks[i := None]" "vs[i := None]" "hs[i := 0]"])
        (simp_all add: uniq_keys_clear hashed_update)
    ultimately show ?thesis using d i Some dict_find [OF assms, of k]
      by (simp add: dictionary_unset_def arr_set_def dict_abs_def)
  qed
qed

section \<open>The interface of the configuration store\<close>

text \<open>
  What the ini parser relies on: storing under a key always succeeds while there is room and
  changes the mapping at that key only, so stores under different keys do not disturb each
  other; with deletion, a stored key can be taken back.
\<close>

locale config_store =
  fixes inv :: "'d \<Rightarrow> bool" and look :: "'d \<Rightarrow> 'k \<Rightarrow> 'v option"
    and put :: "'d \<Rightarrow> 'k \<Rightarrow> 'v \<Rightarrow> (int \<times> 'd) res" and used :: "'d \<Rightarrow> nat" and cap :: nat
  assumes put_ok: "inv d \<Longrightarrow> used d < cap \<Longrightarrow>
    \<exists>d'. put d k v = Inr (0, d') \<and> inv d' \<and> look d' = (look d)(k \<mapsto> v) \<and> used d' \<le> Suc (used d)"
begin

lemma put_twice:
  assumes "inv d" "Suc (used d) < cap" "k \<noteq> k'"
  shows "\<exists>d1 d2. put d k v = Inr (0, d1) \<and> put d1 k' v' = Inr (0, d2) \<and> inv d2 \<and>
           look d2 k = Some v \<and> look d2 k' = Some v'"
proof -
  from put_ok [OF assms(1), of k v] assms(2) obtain d1 where
    d1: "put d k v = Inr (0, d1)" "inv d1" "look d1 = (look d)(k \<mapsto> v)" "used d1 \<le> Suc (used d)" by auto
  from put_ok [OF d1(2), of k' v'] d1(4) assms(2) obtain d2 where
    "put d1 k' v' = Inr (0, d2)" "inv d2" "look d2 = (look d1)(k' \<mapsto> v')" by auto
  with d1 assms(3) show ?thesis by auto
qed

end

locale config_store_del = config_store +
  fixes del :: "'d \<Rightarrow> 'k \<Rightarrow> 'd res"
  assumes del_ok: "inv d \<Longrightarrow> \<exists>d'. del d k = Inr d' \<and> inv d' \<and> look d' = (look d)(k := None) \<and> used d' \<le> used d"
begin

lemma put_del:
  assumes "inv d" "used d < cap" "look d k = None"
  shows "\<exists>d1 d2. put d k v = Inr (0, d1) \<and> del d1 k = Inr d2 \<and> inv d2 \<and> look d2 = look d"
proof -
  from put_ok [OF assms(1,2), of k v] obtain d1
    where d1: "put d k v = Inr (0, d1)" "inv d1" "look d1 = (look d)(k \<mapsto> v)" by auto
  from del_ok [OF d1(2), of k] obtain d2 where "del d1 k = Inr d2" "inv d2" "look d2 = (look d1)(k := None)" by auto
  with d1 assms(3) show ?thesis by (auto simp: fun_upd_idem_iff)
qed

end

interpretation cfg: config_store_del dict_ok dict_abs "dict_set_in alloc_ok" d_n "2 ^ 27"
    "\<lambda>d k. dictionary_unset d (Some k)"
proof unfold_locales
  show "\<exists>d'. dict_set_in alloc_ok d k v = Inr (0, d') \<and> dict_ok d' \<and> dict_abs d' = (dict_abs d)(k \<mapsto> v) \<and>
      d_n d' \<le> Suc (d_n d)" if "dict_ok d" "d_n d < 2 ^ 27" for d k v
    using dict_set_in_ok [OF that refl, of k v] by auto
  show "\<exists>d'. dictionary_unset d (Some k) = Inr d' \<and> dict_ok d' \<and> dict_abs d' = (dict_abs d)(k := None) \<and>
      d_n d' \<le> d_n d" if "dict_ok d" for d k
    using dict_unset_ok [OF that, of k] by auto
qed

section \<open>Deletion\<close>

lemma del_loop_eq:
  assumes "d_key d = Some ks" "d_val d = Some vs" "length ks = d_size d" "length vs = d_size d"
  shows "del_loop d i = Inr (concat (map (\<lambda>(k, v). case_option [] (\<lambda>s. [s]) k @ case_option [] (\<lambda>s. [s]) v)
           (drop i (zip ks vs))))"
proof (induction "d_size d - i" arbitrary: i)
  case 0
  then show ?case using assms by (simp add: del_loop.simps)
next
  case (Suc m)
  then have i: "i < d_size d" by simp
  then have "drop i (zip ks vs) = (ks ! i, vs ! i) # drop (Suc i) (zip ks vs)"
    using assms by (subst Cons_nth_drop_Suc [symmetric]) simp_all
  then show ?case using i assms Suc.hyps(1) [of "Suc i"] Suc.hyps(2)
    by (subst del_loop.simps) (simp add: arr_get_def)
qed

section \<open>Properties\<close>

text \<open>
  C17: \<open>dictionary_set\<close> refines a map update.  On a well-formed dictionary below the size limit
  of the growth arithmetic, with memory available, it returns 0 and a well-formed dictionary in
  which \<open>dictionary_get\<close> finds the new value under the key and every other key unchanged, whether
  the key was present, a slot was free, or the arrays had to grow.
\<close>

theorem dictionary_set_refines:
  assumes "dict_ok d" "d_n d < 2 ^ 27"
  shows "\<exists>d'. dictionary_set alloc_ok (Some d) (Some k) v = Inr (0, Some d') \<and> dict_ok d' \<and>
           dict_abs d' = (dict_abs d)(k \<mapsto> v) \<and>
           (\<forall>k' dflt. dictionary_get d' k' dflt = (if k' = k then Inr (ptr_of v) else dictionary_get d k' dflt))"
proof -
  from dict_set_in_ok [OF assms refl, of k v] obtain d' where
    "dict_set_in alloc_ok d k v = Inr (0, d')" "dict_ok d'" "dict_abs d' = (dict_abs d)(k \<mapsto> v)" by auto
  then show ?thesis using assms(1) by (auto simp: dictionary_set_def dictionary_get_abs)
qed

definition demo_dict :: dictionary where
  "demo_dict = \<lparr>d_n = 1, d_size = 1, d_val = Some [Some ''8080''], d_key = Some [Some ''server:port''],
     d_hash = Some [dictionary_hash ''server:port'']\<rparr>"

lemma demo_dict_ok: "dict_ok demo_dict"
  by (simp add: demo_dict_def dict_ok_def uniq_keys_def hashed_def)

theorem dictionary_set_refines_witness:
  "\<exists>d'. dictionary_set alloc_ok (Some demo_dict) (Some ''server:name'') (Some ''mp'') = Inr (0, Some d') \<and>
     dictionary_get d' ''server:name'' INVALID_KEY = Inr (Str ''mp'') \<and>
     dictionary_get d' ''server:port'' INVALID_KEY = Inr (Str ''8080'')"
proof -
  have g: "dictionary_get demo_dict ''server:port'' INVALID_KEY = Inr (Str ''8080'')" by code_simp
  show ?thesis
    using dictionary_set_refines [OF demo_dict_ok, of "''server:name''" "Some ''mp''"] g
    by (auto simp: demo_dict_def ptr_of_def)
qed

text \<open>
  C36: \<open>dictionary_unset\<close> removes exactly its key: the dictionary stays well formed, the count drops
  by one if the key was there, a lookup of the key gives the default, and every other key keeps
  its value; a key that was stored into a dictionary without it can be taken back this way.
\<close>

theorem dictionary_unset_removes:
  assumes "dict_ok d" "d_n d < 2 ^ 27"
  shows "(\<exists>d'. dictionary_unset d (Some k) = Inr d' \<and> dict_ok d' \<and>
            d_n d' + (if dict_abs d k = None then 0 else 1) = d_n d \<and>
            (\<forall>k' dflt. dictionary_get d' k' dflt = (if k' = k then Inr dflt else dictionary_get d k' dflt))) \<and>
         (dict_abs d k = None \<longrightarrow> (\<exists>d1 d2. dict_set_in alloc_ok d k v = Inr (0, d1) \<and>
            dictionary_unset d1 (Some k) = Inr d2 \<and> dict_ok d2 \<and> dict_abs d2 = dict_abs d))"
proof -
  from dict_unset_ok [OF assms(1), of k] obtain d' where
    d': "dictionary_unset d (Some k) = Inr d'" "dict_ok d'" "dict_abs d' = (dict_abs d)(k := None)"
      "d_n d' = d_n d - (if dict_abs d k = None then 0 else 1)" by auto
  have "d_n d' + (if dict_abs d k = None then 0 else 1) = d_n d"
    using d'(4) dict_n_pos [OF assms(1), of k] by simp
  with d' assms(1) cfg.put_del [OF assms, of k v] show ?thesis by (simp add: dictionary_get_abs)
qed

theorem dictionary_unset_removes_witness:
  "\<exists>d'. dictionary_unset demo_dict (Some ''server:port'') = Inr d' \<and> d_n d' = 0 \<and>
     dictionary_get d' ''server:port'' INVALID_KEY = Inr INVALID_KEY"
proof -
  have a: "dict_abs demo_dict ''server:port'' \<noteq> None" by (simp add: demo_dict_def dict_abs_def slot_of_def)
  show ?thesis using dictionary_unset_removes [OF demo_dict_ok, of "''server:port''"] a
    by (auto simp: demo_dict_def)
qed

text \<open>
  A failed growth leaves a dictionary that cannot be deleted.  If a new key is stored into a
  full dictionary and one of the key and value arrays cannot be doubled, \<open>dictionary_set\<close> returns
  -1 and the array pointer it leaves is null; \<open>dictionary_del\<close>, which the ini loader calls next,
  reads through it.
\<close>

theorem dictionary_set_growth_failure:
  assumes "dict_ok d" "d_n d = d_size d" "d_size d < 2 ^ 27" "dict_abs d k = None" "\<not> al_key al \<or> \<not> al_val al"
  shows "\<exists>d'. dictionary_set al (Some d) (Some k) v = Inr (-1, Some d') \<and> dictionary_del (Some d') = Inl Segv"
  using assms(1)
proof (rule dict_okE)
  fix ks vs hs
  assume d: "d_key d = Some ks" "d_val d = Some vs" "d_hash d = Some hs" "length ks = d_size d"
    "length vs = d_size d" "length hs = d_size d" "0 < d_size d"
  let ?n = "d_size d"
  let ?d = "d\<lparr>d_val := (if al_val al then Some (vs @ replicate ?n None) else None),
      d_key := (if al_key al then Some (ks @ replicate ?n None) else None),
      d_hash := (if al_hash al then Some (hs @ replicate ?n 0) else None)\<rparr>"
  have "slot_of ks k = None" using assms(4) d by (simp add: dict_abs_def)
  then have f: "find_slot d (dictionary_hash k) k 0 = Inr None" using dict_find [OF assms(1), of k] d by simp
  have g: "dict_grow al d = Inr (False, ?d)"
    using d assms(3,5) by (auto simp: dict_grow_def mem_double_def)
  have "dictionary_set al (Some d) (Some k) v = Inr (-1, Some ?d)"
    using f g assms(2) d by (simp add: dictionary_set_def dict_set_in_def)
  moreover have "dictionary_del (Some ?d) = Inl Segv"
    using d assms(5) by (auto simp: dictionary_del_def del_loop.simps [of _ 0] arr_get_def nth_append bindR_Inl_iff)
  ultimately show ?thesis by blast
qed

theorem dictionary_set_growth_failure_witness:
  "\<exists>d'. dictionary_set (alloc_ok\<lparr>al_key := False\<rparr>) (Some demo_dict) (Some ''x'') None = Inr (-1, Some d') \<and>
     dictionary_del (Some d') = Inl Segv"
proof -
  have a: "dict_abs demo_dict ''x'' = None" by (simp add: demo_dict_def dict_abs_def slot_of_def)
  show ?thesis using dictionary_set_growth_failure [OF demo_dict_ok _ _ a, of "alloc_ok\<lparr>al_key := False\<rparr>" None]
    by (simp add: demo_dict_def)
qed

end
