(* ===== verification/Mp_Iniparser.thy ===== *)
theory Mp_Iniparser
  imports Mp_Dictionary
begin

text \<open>
  The ini file parser (\<open>src/iniparser/src/iniparser.c\<close>) over the dictionary: the string helpers,
  the line grammar with its \<open>sscanf\<close> formats, the file loader, the getters and the writer.

  Strings are character lists without the terminator, so a buffer of \<open>ASCIILINESZ + 1\<close> bytes
  holds a string of at most 1024 characters; writing a longer one is a fault.  The file is the
  list of its characters and the answers of the allocator are arguments.  Diagnostics on
  \<open>stderr\<close> are not part of the state.
\<close>

section \<open>Character and string helpers of the C library\<close>

definition isspace :: "char \<Rightarrow> bool" where
  "isspace c \<longleftrightarrow> c \<in> set [CHR '' '', CHR 0x09, CHR 0x0A, CHR 0x0B, CHR 0x0C, CHR 0x0D]"

definition tolower :: "char \<Rightarrow> char" where
  "tolower c = (let n = of_char c :: nat in if 65 \<le> n \<and> n \<le> 90 then char_of (n + 32) else c)"

definition rstrip :: "string \<Rightarrow> string" where
  "rstrip s = rev (dropWhile isspace (rev s))"

text \<open>The conversions of the formats: \<open>%[^...]\<close>, \<open>%[...]\<close>, white space and literal characters.\<close>

datatype directive = SetNot string | SetOf string | White | Lit char

fun sscanf :: "directive list \<Rightarrow> string \<Rightarrow> string list" where
  "sscanf [] s = []"
| "sscanf (SetNot cs # ds) s =
     (let m = takeWhile (\<lambda>c. c \<notin> set cs) s in
      if m = [] then [] else m # sscanf ds (drop (length m) s))"
| "sscanf (SetOf cs # ds) s =
     (let m = takeWhile (\<lambda>c. c \<in> set cs) s in
      if m = [] then [] else m # sscanf ds (drop (length m) s))"
| "sscanf (White # ds) s = sscanf ds (dropWhile isspace s)"
| "sscanf (Lit c # ds) s = (case s of [] \<Rightarrow> [] | x # xs \<Rightarrow> if x = c then sscanf ds xs else [])"

text \<open>\<open>fgets\<close> with room for \<open>n\<close> characters: what is read, and the rest of the file.\<close>

fun fgets :: "nat \<Rightarrow> string \<Rightarrow> string \<times> string" where
  "fgets 0 s = ([], s)"
| "fgets (Suc n) [] = ([], [])"
| "fgets (Suc n) (c # cs) =
     (if c = CHR 0x0A then ([c], cs) else let (a, b) = fgets n cs in (c # a, b))"

text \<open>\<open>strtol\<close> with base 0: white space, sign, prefix, digits, clamped to 64 bits.\<close>

definition digit_val :: "char \<Rightarrow> nat option" where
  "digit_val c = (let n = of_char c :: nat in
     if 48 \<le> n \<and> n \<le> 57 then Some (n - 48)
     else if 97 \<le> n \<and> n \<le> 122 then Some (n - 87)
     else if 65 \<le> n \<and> n \<le> 90 then Some (n - 55)
     else None)"

fun read_digits :: "nat \<Rightarrow> nat \<Rightarrow> string \<Rightarrow> nat" where
  "read_digits b acc [] = acc"
| "read_digits b acc (c # cs) =
     (case digit_val c of None \<Rightarrow> acc | Some v \<Rightarrow> if v < b then read_digits b (acc * b + v) cs else acc)"

definition is_digit_of :: "nat \<Rightarrow> char \<Rightarrow> bool" where
  "is_digit_of b c \<longleftrightarrow> (case digit_val c of None \<Rightarrow> False | Some v \<Rightarrow> v < b)"

definition strtol_mag :: "string \<Rightarrow> nat" where
  "strtol_mag s =
     (case s of
        c0 # c1 # c2 # r \<Rightarrow>
          if c0 = CHR ''0'' \<and> (c1 = CHR ''x'' \<or> c1 = CHR ''X'') \<and> is_digit_of 16 c2
          then read_digits 16 0 (c2 # r)
          else if c0 = CHR ''0'' then read_digits 8 0 s else read_digits 10 0 s
      | c0 # r \<Rightarrow> if c0 = CHR ''0'' then read_digits 8 0 s else read_digits 10 0 s
      | [] \<Rightarrow> 0)"

definition strtol :: "string \<Rightarrow> int" where
  "strtol s =
     (case dropWhile isspace s of
        [] \<Rightarrow> 0
      | c # r \<Rightarrow>
          if c = CHR ''-'' then max (- (2 ^ 63)) (- int (strtol_mag r))
          else min (2 ^ 63 - 1) (int (strtol_mag (if c = CHR ''+'' then r else c # r))))"

text \<open>The conversion of a \<open>long\<close> to \<open>int\<close>.\<close>

definition to_int :: "int \<Rightarrow> int" where
  "to_int x = sint (word_of_int x :: 32 word)"

section \<open>String helpers of the parser\<close>

definition ASCIILINESZ :: nat where
  "ASCIILINESZ = 1024"

definition strlwc :: "string \<Rightarrow> string" where
  "strlwc s = map tolower (take ASCIILINESZ s)"

definition strstrip :: "string \<Rightarrow> string res" where
  "strstrip s = (let t = dropWhile isspace s in if length t > ASCIILINESZ then Inl Segv else Inr (rstrip t))"

section \<open>Lines\<close>

datatype line_status = LINE_UNPROCESSED | LINE_ERROR | LINE_EMPTY | LINE_COMMENT | LINE_SECTION | LINE_VALUE

abbreviation key_is :: "directive list" where
  "key_is \<equiv> [SetNot ''='', White, Lit (CHR ''=''), White]"

definition fmt_section :: "directive list" where "fmt_section = [Lit (CHR ''[''), SetNot '']'']"
definition fmt_dquote :: "directive list" where "fmt_dquote = key_is @ [Lit (CHR 0x22), SetNot [CHR 0x22], Lit (CHR 0x22)]"
definition fmt_squote :: "directive list" where "fmt_squote = key_is @ [Lit (CHR 0x27), SetNot [CHR 0x27], Lit (CHR 0x27)]"
definition fmt_plain :: "directive list" where "fmt_plain = key_is @ [SetNot '';#'']"
definition fmt_comment :: "directive list" where "fmt_comment = key_is @ [SetOf '';#'']"
definition fmt_empty :: "directive list" where "fmt_empty = [SetNot ''='', White, SetOf ''='']"

text \<open>
  A conversion of a format stores into the caller's buffers even when a later one fails; the
  flag says that both succeeded.
\<close>

definition scan_kv :: "directive list \<Rightarrow> string \<Rightarrow> string \<times> string \<Rightarrow> bool \<times> string \<times> string" where
  "scan_kv f line kv =
     (case sscanf f line of
        [] \<Rightarrow> (False, kv)
      | [k] \<Rightarrow> (False, k, snd kv)
      | k # v # _ \<Rightarrow> (True, k, v))"

fun scan_first :: "directive list list \<Rightarrow> string \<Rightarrow> string \<times> string \<Rightarrow> bool \<times> string \<times> string" where
  "scan_first [] line kv = (False, kv)"
| "scan_first (f # fs) line kv =
     (let (ok, kv1) = scan_kv f line kv in if ok then (True, kv1) else scan_first fs line kv1)"

text \<open>The branches for \<open>key = value\<close> and its special cases.\<close>

definition ini_value ::
  "string \<Rightarrow> string \<Rightarrow> string \<Rightarrow> string \<Rightarrow> (line_status \<times> string \<times> string \<times> string) res" where
  "ini_value line section key val =
     (let (ok, k, v) = scan_first [fmt_dquote, fmt_squote, fmt_plain] line (key, val) in
      if ok then
        bindR (strstrip k) (\<lambda>k1. bindR (strstrip v) (\<lambda>v1.
          Inr (LINE_VALUE, section, strlwc k1,
               if v1 = [CHR 0x22, CHR 0x22] \<or> v1 = [CHR 0x27, CHR 0x27] then [] else v1)))
      else let (ok2, k2, v2) = scan_first [fmt_comment, fmt_empty] line (k, v) in
        if ok2 then bindR (strstrip k2) (\<lambda>k3. Inr (LINE_VALUE, section, strlwc k3, []))
        else Inr (LINE_ERROR, section, k2, v2))"

definition iniparser_line ::
  "string \<Rightarrow> string \<Rightarrow> string \<Rightarrow> string \<Rightarrow> (line_status \<times> string \<times> string \<times> string) res" where
  "iniparser_line input_line section key val =
     bindR (strstrip input_line) (\<lambda>line.
     if length line < 1 then Inr (LINE_EMPTY, section, key, val)
     else if line ! 0 = CHR ''#'' \<or> line ! 0 = CHR '';'' then Inr (LINE_COMMENT, section, key, val)
     else if line ! 0 = CHR ''['' \<and> line ! (length line - 1) = CHR '']'' then
       bindR (strstrip (case sscanf fmt_section line of [] \<Rightarrow> section | s # _ \<Rightarrow> s)) (\<lambda>s.
         Inr (LINE_SECTION, strlwc s, key, val))
     else ini_value line section key val)"

section \<open>The loader\<close>

text \<open>The buffers of \<open>iniparser_load\<close>; \<open>i_last\<close> holds the first \<open>last\<close> characters of \<open>line\<close>.\<close>

record ini_st =
  i_last :: string
  i_section :: string
  i_key :: string
  i_val :: string
  i_dict :: dictionary
  i_errs :: int

definition process_line :: "allocs \<Rightarrow> string \<Rightarrow> ini_st \<Rightarrow> ini_st res" where
  "process_line al line st =
     bindR (iniparser_line line (i_section st) (i_key st) (i_val st)) (\<lambda>(sta, s, k, v).
     let st1 = st\<lparr>i_last := [], i_section := s, i_key := k, i_val := v\<rparr>;
         put = (\<lambda>key v. bindR (dict_set_in al (i_dict st) key v) (\<lambda>(r, d).
                  Inr (st1\<lparr>i_dict := d, i_errs := r\<rparr>))) in
     case sta of
       LINE_SECTION \<Rightarrow> put s None
     | LINE_VALUE \<Rightarrow>
         if length s + 1 + length k > ASCIILINESZ then Inl Segv else put (s @ '':'' @ k) (Some v)
     | LINE_ERROR \<Rightarrow> Inr (st1\<lparr>i_errs := i_errs st + 1\<rparr>)
     | _ \<Rightarrow> Inr st1)"

text \<open>
  One iteration of the loop reads at least one character, so fuel above the length of the file is
  enough.  \<open>None\<close> is the early return for a line without its newline.  The two faults are
  the reads of \<open>line[-1]\<close>: an empty string after \<open>fgets\<close> (the line starts with a zero byte),
  and a line of two or more characters that are all white space.
\<close>

fun load_loop :: "nat \<Rightarrow> (nat \<Rightarrow> allocs) \<Rightarrow> nat \<Rightarrow> ini_st \<Rightarrow> string \<Rightarrow> ini_st option res" where
  "load_loop 0 al lineno st file = Inl Blocked"
| "load_loop (Suc fuel) al lineno st file =
     (if file = [] then Inr (Some st)
      else
        let (piece, rest) = fgets (ASCIILINESZ - length (i_last st) - 1) file;
            line = i_last st @ takeWhile (\<lambda>c. c \<noteq> CHR 0x00) piece in
        if line = [] then Inl Segv
        else if length line = 1 then load_loop fuel al (Suc lineno) st rest
        else if List.last line \<noteq> CHR 0x0A then bindR (dictionary_del (Some (i_dict st))) (\<lambda>_. Inr None)
        else if rstrip line = [] then Inl Segv
        else if List.last (rstrip line) = CHR 0x5C then
          load_loop fuel al (Suc lineno) (st\<lparr>i_last := butlast (rstrip line)\<rparr>) rest
        else bindR (process_line (al lineno) (rstrip line) st) (\<lambda>st1.
          if i_errs st1 < 0 then Inr (Some st1) else load_loop fuel al (Suc lineno) st1 rest))"

definition iniparser_load :: "bool \<Rightarrow> allocs \<Rightarrow> (nat \<Rightarrow> allocs) \<Rightarrow> string option \<Rightarrow> dictionary option res" where
  "iniparser_load ok al0 al file =
     (case file of None \<Rightarrow> Inr None
      | Some text \<Rightarrow>
        (case dictionary_new ok al0 0 of None \<Rightarrow> Inr None
        | Some d \<Rightarrow>
          bindR (load_loop (Suc (length text)) al 0
                   \<lparr>i_last = [], i_section = [], i_key = [], i_val = [], i_dict = d, i_errs = 0\<rparr> text) (\<lambda>r.
            case r of None \<Rightarrow> Inr None
            | Some st \<Rightarrow>
              if i_errs st \<noteq> 0 then bindR (dictionary_del (Some (i_dict st))) (\<lambda>_. Inr None)
              else Inr (Some (i_dict st)))))"

section \<open>Getters\<close>

definition iniparser_getstring :: "dictionary option \<Rightarrow> string option \<Rightarrow> cptr \<Rightarrow> cptr res" where
  "iniparser_getstring d key dflt =
     (case d of None \<Rightarrow> Inr dflt
      | Some x \<Rightarrow> (case key of None \<Rightarrow> Inr dflt | Some k \<Rightarrow> dictionary_get x (strlwc k) dflt))"

definition iniparser_getint :: "dictionary option \<Rightarrow> string option \<Rightarrow> int \<Rightarrow> int res" where
  "iniparser_getint d key notfound =
     bindR (iniparser_getstring d key INVALID_KEY) (\<lambda>p.
       case p of INVALID_KEY \<Rightarrow> Inr notfound | NULLP \<Rightarrow> Inl Segv | Str s \<Rightarrow> Inr (to_int (strtol s)))"

text \<open>\<open>double\<close> is the type \<open>'f\<close>, and \<open>atof\<close> an argument.\<close>

definition iniparser_getdouble :: "(string \<Rightarrow> 'f) \<Rightarrow> dictionary option \<Rightarrow> string option \<Rightarrow> 'f \<Rightarrow> 'f res" where
  "iniparser_getdouble atof d key notfound =
     bindR (iniparser_getstring d key INVALID_KEY) (\<lambda>p.
       case p of INVALID_KEY \<Rightarrow> Inr notfound | NULLP \<Rightarrow> Inl Segv | Str s \<Rightarrow> Inr (atof s))"

definition iniparser_getboolean :: "dictionary option \<Rightarrow> string option \<Rightarrow> int \<Rightarrow> int res" where
  "iniparser_getboolean d key notfound =
     bindR (iniparser_getstring d key INVALID_KEY) (\<lambda>p.
       case p of INVALID_KEY \<Rightarrow> Inr notfound | NULLP \<Rightarrow> Inl Segv
       | Str s \<Rightarrow> Inr (if s \<noteq> [] \<and> hd s \<in> set ''yY1tT'' then 1
                       else if s \<noteq> [] \<and> hd s \<in> set ''nN0fF'' then 0 else notfound))"

definition iniparser_find_entry :: "dictionary option \<Rightarrow> string option \<Rightarrow> int res" where
  "iniparser_find_entry d entry =
     bindR (iniparser_getstring d entry INVALID_KEY) (\<lambda>p. Inr (if p \<noteq> INVALID_KEY then 1 else 0))"

definition iniparser_set ::
  "allocs \<Rightarrow> dictionary option \<Rightarrow> string option \<Rightarrow> string option \<Rightarrow> (int \<times> dictionary option) res" where
  "iniparser_set al d entry val = dictionary_set al d (map_option strlwc entry) val"

text \<open>\<open>dictionary_unset\<close> does not test the dictionary pointer.\<close>

definition iniparser_unset :: "dictionary option \<Rightarrow> string option \<Rightarrow> dictionary option res" where
  "iniparser_unset d entry =
     (case entry of None \<Rightarrow> Inr d
      | Some e \<Rightarrow>
        (case d of None \<Rightarrow> Inl Segv
         | Some x \<Rightarrow> bindR (dictionary_unset x (Some (strlwc e))) (\<lambda>y. Inr (Some y))))"

definition iniparser_freedict :: "dictionary option \<Rightarrow> string list res" where
  "iniparser_freedict d = dictionary_del d"

section \<open>Sections and the writer\<close>

text \<open>The loop over the slots that skips the empty ones: indices and keys, in order.\<close>

function live_slots :: "dictionary \<Rightarrow> nat \<Rightarrow> (nat \<times> string) list res" where
  "live_slots d i =
     (if i \<ge> d_size d then Inr []
      else bindR (arr_get (d_key d) i) (\<lambda>k.
        bindR (live_slots d (Suc i)) (\<lambda>r. Inr (case k of None \<Rightarrow> r | Some s \<Rightarrow> (i, s) # r))))"
  by auto
termination
  by (relation "measure (\<lambda>(d, i). d_size d - i)") auto

declare live_slots.simps [simp del]

definition iniparser_getnsec :: "dictionary option \<Rightarrow> int res" where
  "iniparser_getnsec d =
     (case d of None \<Rightarrow> Inr (-1)
      | Some x \<Rightarrow> bindR (live_slots x 0) (\<lambda>ks.
          Inr (int (length (filter (\<lambda>(i, k). CHR '':'' \<notin> set k) ks)))))"

definition iniparser_getsecname :: "dictionary option \<Rightarrow> int \<Rightarrow> string option res" where
  "iniparser_getsecname d n =
     (case d of None \<Rightarrow> Inr None
      | Some x \<Rightarrow>
        if n < 0 then Inr None
        else bindR (live_slots x 0) (\<lambda>ks.
          let secs = filter (\<lambda>(i, k). CHR '':'' \<notin> set k) ks in
          Inr (if int (length secs) \<le> n then None else Some (snd (secs ! nat n)))))"

text \<open>The keys that start with \<open>s:\<close>; \<open>keym\<close> is a buffer of \<open>ASCIILINESZ + 1\<close> bytes.\<close>

definition section_slots :: "dictionary \<Rightarrow> string \<Rightarrow> (nat \<times> string) list res" where
  "section_slots d s =
     (if length s + 1 > ASCIILINESZ then Inl Segv
      else bindR (live_slots d 0) (\<lambda>ks. Inr (filter (\<lambda>(i, k). take (length s + 1) k = s @ '':'') ks)))"

definition iniparser_getsecnkeys :: "dictionary option \<Rightarrow> string \<Rightarrow> int res" where
  "iniparser_getsecnkeys d s =
     (case d of None \<Rightarrow> Inr 0
      | Some x \<Rightarrow> bindR (iniparser_find_entry d (Some s)) (\<lambda>f.
          if f = 0 then Inr 0 else bindR (section_slots x s) (\<lambda>ks. Inr (int (length ks)))))"

definition iniparser_getseckeys :: "dictionary option \<Rightarrow> string \<Rightarrow> string list option res" where
  "iniparser_getseckeys d s =
     (case d of None \<Rightarrow> Inr None
      | Some x \<Rightarrow> bindR (iniparser_find_entry d (Some s)) (\<lambda>f.
          if f = 0 then Inr None else bindR (section_slots x s) (\<lambda>ks. Inr (Some (map snd ks)))))"

text \<open>\<open>"%-30s = %s\n"\<close>\<close>

definition fmt_entry :: "string \<Rightarrow> string \<Rightarrow> string" where
  "fmt_entry k v = k @ replicate (30 - length k) (CHR '' '') @ '' = '' @ v @ [CHR 0x0A]"

fun mapR :: "('a \<Rightarrow> 'b res) \<Rightarrow> 'a list \<Rightarrow> 'b list res" where
  "mapR f [] = Inr []"
| "mapR f (x # xs) = bindR (f x) (\<lambda>y. bindR (mapR f xs) (\<lambda>ys. Inr (y # ys)))"

text \<open>\<open>iniparser_dump\<close> and \<open>dictionary_dump\<close>: the text printed, \<open>%20s\<close> padding on the left.\<close>

definition iniparser_dump :: "dictionary option \<Rightarrow> string res" where
  "iniparser_dump d =
     (case d of None \<Rightarrow> Inr []
      | Some x \<Rightarrow>
        bindR (live_slots x 0) (\<lambda>ks.
        bindR (mapR (\<lambda>(i, k). bindR (arr_get (d_val x) i) (\<lambda>v.
                 Inr (''['' @ k @ '']='' @ (case v of None \<Rightarrow> ''UNDEF'' | Some t \<Rightarrow> ''['' @ t @ '']'') @ [CHR 0x0A]))) ks) (\<lambda>ls.
        Inr (concat ls))))"

definition dictionary_dump :: "dictionary option \<Rightarrow> string res" where
  "dictionary_dump d =
     (case d of None \<Rightarrow> Inr []
      | Some x \<Rightarrow>
        if d_n x < 1 then Inr (''empty dictionary'' @ [CHR 0x0A])
        else bindR (live_slots x 0) (\<lambda>ks.
          bindR (mapR (\<lambda>(i, k). bindR (arr_get (d_val x) i) (\<lambda>v.
                   Inr (replicate (20 - length k) (CHR '' '') @ k @ [CHR 0x09] @ ''['' @
                        (case v of None \<Rightarrow> ''UNDEF'' | Some t \<Rightarrow> t) @ '']'' @ [CHR 0x0A]))) ks) (\<lambda>ls.
          Inr (concat ls))))"

text \<open>The text written to the file by \<open>iniparser_dumpsection_ini\<close> and \<open>iniparser_dump_ini\<close>.\<close>

definition iniparser_dumpsection_ini :: "dictionary option \<Rightarrow> string \<Rightarrow> string res" where
  "iniparser_dumpsection_ini d s =
     (case d of None \<Rightarrow> Inr []
      | Some x \<Rightarrow> bindR (iniparser_find_entry d (Some s)) (\<lambda>f.
          if f = 0 then Inr []
          else bindR (section_slots x s) (\<lambda>ks.
            bindR (mapR (\<lambda>(i, k). bindR (arr_get (d_val x) i) (\<lambda>v.
                     Inr (fmt_entry (drop (length s + 1) k) (case v of None \<Rightarrow> [] | Some t \<Rightarrow> t)))) ks) (\<lambda>ls.
            Inr ([CHR 0x0A, CHR ''[''] @ s @ [CHR '']'', CHR 0x0A] @ concat ls @ [CHR 0x0A])))))"

text \<open>Without a section a null value is printed by \<open>%s\<close> as \<open>(null)\<close>.\<close>

definition iniparser_dump_ini :: "dictionary option \<Rightarrow> string res" where
  "iniparser_dump_ini d =
     (case d of None \<Rightarrow> Inr []
      | Some x \<Rightarrow> bindR (iniparser_getnsec d) (\<lambda>nsec.
          if nsec < 1 then
            bindR (live_slots x 0) (\<lambda>ks.
            bindR (mapR (\<lambda>(i, k). bindR (arr_get (d_val x) i) (\<lambda>v.
                     Inr (k @ '' = '' @ (case v of None \<Rightarrow> ''(null)'' | Some t \<Rightarrow> t) @ [CHR 0x0A]))) ks) (\<lambda>ls.
            Inr (concat ls)))
          else
            bindR (mapR (\<lambda>i. bindR (iniparser_getsecname d (int i)) (\<lambda>s.
                     case s of None \<Rightarrow> Inr [] | Some n \<Rightarrow> iniparser_dumpsection_ini d n))
                   [0..<nat nsec]) (\<lambda>ls. Inr (concat ls @ [CHR 0x0A]))))"

section \<open>Facts about the helpers\<close>

lemma rstrip_snoc [simp]: "rstrip (s @ [c]) = (if isspace c then rstrip s else s @ [c])"
  by (simp add: rstrip_def)

lemma rstrip_Nil [simp]: "rstrip [] = []"
  by (simp add: rstrip_def)

lemma rstrip_append_NL [simp]: "rstrip (s @ l @ [CHR 0x0A]) = rstrip (s @ l)"
  using rstrip_snoc [of "s @ l" "CHR 0x0A"] by (simp add: isspace_def)

lemma rstrip_id: "s = [] \<or> \<not> isspace (last s) \<Longrightarrow> rstrip s = s"
  by (cases s rule: rev_cases) auto

lemma length_rstrip: "length (rstrip s) \<le> length s"
  using length_dropWhile_le [of isspace "rev s"] by (simp add: rstrip_def)

lemma rstrip_last: "rstrip s \<noteq> [] \<Longrightarrow> \<not> isspace (last (rstrip s))"
  by (induction s rule: rev_induct) auto

lemma set_rstrip: "set (rstrip s) \<subseteq> set s"
  by (auto simp: rstrip_def dest: set_dropWhileD)

lemma strstrip_ok: "length s \<le> ASCIILINESZ \<Longrightarrow> strstrip s = Inr (rstrip (dropWhile isspace s))"
  by (simp add: strstrip_def Let_def not_less le_trans [OF length_dropWhile_le])

lemma length_strip: "length (rstrip (dropWhile isspace s)) \<le> length s"
  by (rule le_trans [OF length_rstrip length_dropWhile_le])

lemma length_strlwc: "length (strlwc s) \<le> length s"
  by (simp add: strlwc_def)

lemma sscanf_length: "x \<in> set (sscanf f s) \<Longrightarrow> length x \<le> length s"
proof (induction f s rule: sscanf.induct)
  case (2 cs ds s)
  let ?m = "takeWhile (\<lambda>c. c \<notin> set cs) s"
  from 2 length_takeWhile_le [of "\<lambda>c. c \<notin> set cs" s] show ?case
    by (cases "?m = []") (auto simp: Let_def intro: le_trans)
next
  case (3 cs ds s)
  let ?m = "takeWhile (\<lambda>c. c \<in> set cs) s"
  from 3 length_takeWhile_le [of "\<lambda>c. c \<in> set cs" s] show ?case
    by (cases "?m = []") (auto simp: Let_def intro: le_trans)
next
  case (4 ds s)
  then show ?case using length_dropWhile_le [of isspace s] by (auto intro: le_trans)
next
  case (5 c ds s)
  then show ?case by (cases s) (auto split: if_splits intro: le_SucI)
qed simp

lemma fgets_line:
  "CHR 0x0A \<notin> set l \<Longrightarrow> length l < n \<Longrightarrow> fgets n (l @ CHR 0x0A # rest) = (l @ [CHR 0x0A], rest)"
proof (induction l arbitrary: n)
  case Nil then show ?case by (cases n) auto
next
  case (Cons c l) then show ?case by (cases n) auto
qed

section \<open>One line\<close>

lemma scan_kv_indep:
  "fst (scan_kv f l kv) = fst (scan_kv f l kv')"
  "fst (scan_kv f l kv) \<Longrightarrow> scan_kv f l kv = scan_kv f l kv'"
  by (auto simp: scan_kv_def split: list.splits)

lemma scan_first_indep:
  "fst (scan_first fs l kv) = fst (scan_first fs l kv') \<and>
   (fst (scan_first fs l kv) \<longrightarrow> scan_first fs l kv = scan_first fs l kv')"
proof (induction fs arbitrary: kv kv')
  case (Cons f fs)
  obtain b k where a: "scan_kv f l kv = (b, k)" by (cases "scan_kv f l kv")
  obtain b' k' where a': "scan_kv f l kv' = (b', k')" by (cases "scan_kv f l kv'")
  have b: "b = b'" using scan_kv_indep(1) [of f l kv kv'] a a' by simp
  show ?case
  proof (cases b)
    case True
    then have "k = k'" using scan_kv_indep(2) [of f l kv kv'] a a' by simp
    with True a a' b show ?thesis by simp
  next
    case False
    then have "scan_first (f # fs) l kv = scan_first fs l k" "scan_first (f # fs) l kv' = scan_first fs l k'"
      using a a' b by simp_all
    then show ?thesis using Cons.IH [of k k'] by metis
  qed
qed simp

lemma scan_first_length:
  "scan_first fs l kv = (True, k, v) \<Longrightarrow> length k \<le> length l \<and> length v \<le> length l"
proof (induction fs arbitrary: kv)
  case (Cons f fs)
  obtain b k1 v1 where a: "scan_kv f l kv = (b, k1, v1)" by (cases "scan_kv f l kv")
  show ?case
  proof (cases b)
    case True
    with a Cons.prems have "(k, v) = (k1, v1)" by simp
    moreover have "k1 \<in> set (sscanf f l)" "v1 \<in> set (sscanf f l)"
      using a True by (auto simp: scan_kv_def split: list.splits)
    ultimately show ?thesis by (simp add: sscanf_length)
  next
    case False with a Cons show ?thesis by auto
  qed
qed simp

text \<open>What a logical line means, given the current section.\<close>

datatype ini_line = Skip | Sect string | Assign string string | Malformed

definition classify :: "string \<Rightarrow> string \<Rightarrow> ini_line" where
  "classify s t =
     (case iniparser_line t s [] [] of
        Inr (sta, s', k, v) \<Rightarrow>
          (case sta of LINE_SECTION \<Rightarrow> Sect s' | LINE_VALUE \<Rightarrow> Assign k v | LINE_ERROR \<Rightarrow> Malformed | _ \<Rightarrow> Skip)
      | _ \<Rightarrow> Skip)"

lemma iniparser_line_classify:
  assumes "length t \<le> ASCIILINESZ" "length s \<le> ASCIILINESZ"
  shows "\<exists>sta s' k' v'. iniparser_line t s k v = Inr (sta, s', k', v') \<and> length s' \<le> ASCIILINESZ \<and>
    (case classify s t of
       Sect x \<Rightarrow> sta = LINE_SECTION \<and> s' = x
     | Assign a b \<Rightarrow> sta = LINE_VALUE \<and> s' = s \<and> k' = a \<and> v' = b
     | Malformed \<Rightarrow> sta = LINE_ERROR \<and> s' = s
     | Skip \<Rightarrow> (sta = LINE_EMPTY \<or> sta = LINE_COMMENT) \<and> s' = s)"
proof -
  define l where "l = rstrip (dropWhile isspace t)"
  have l: "strstrip t = Inr l" using assms(1) by (simp add: strstrip_ok l_def)
  have ll: "length l \<le> ASCIILINESZ" using length_strip [of t] assms(1) by (simp add: l_def)
  let ?F = "[fmt_dquote, fmt_squote, fmt_plain]" and ?G = "[fmt_comment, fmt_empty]"
  consider (empty) "length l < 1" | (com) "length l \<ge> 1" "l ! 0 = CHR ''#'' \<or> l ! 0 = CHR '';''"
    | (sec) "length l \<ge> 1" "\<not> (l ! 0 = CHR ''#'' \<or> l ! 0 = CHR '';'')" "l ! 0 = CHR ''['' \<and> l ! (length l - 1) = CHR '']''"
    | (val) "length l \<ge> 1" "\<not> (l ! 0 = CHR ''#'' \<or> l ! 0 = CHR '';'')" "\<not> (l ! 0 = CHR ''['' \<and> l ! (length l - 1) = CHR '']'')"
    by linarith
  then show ?thesis
  proof cases
    case empty
    then show ?thesis using assms by (simp add: iniparser_line_def classify_def l)
  next
    case com
    then show ?thesis using assms by (auto simp: iniparser_line_def classify_def l)
  next
    case sec
    define x where "x = (case sscanf fmt_section l of [] \<Rightarrow> s | y # _ \<Rightarrow> y)"
    have "length x \<le> ASCIILINESZ"
    proof (cases "sscanf fmt_section l")
      case (Cons y ys)
      then show ?thesis using ll sscanf_length [of y fmt_section l] by (simp add: x_def)
    qed (simp add: x_def assms(2))
    then have st: "strstrip x = Inr (rstrip (dropWhile isspace x))" by (rule strstrip_ok)
    have lx: "length (strlwc (rstrip (dropWhile isspace x))) \<le> ASCIILINESZ"
      by (rule le_trans [OF length_strlwc le_trans [OF length_strip \<open>length x \<le> ASCIILINESZ\<close>]])
    have "l \<noteq> []" using sec(1) by auto
    then have e: "iniparser_line t s k v = Inr (LINE_SECTION, strlwc (rstrip (dropWhile isspace x)), k, v)" for k v
      using sec(2,3) st \<open>l \<noteq> []\<close> unfolding x_def by (simp add: iniparser_line_def l)
    then show ?thesis using lx by (simp add: classify_def)
  next
    case val
    obtain b k1 v1 where f: "scan_first ?F l ([], []) = (b, k1, v1)" by (cases "scan_first ?F l ([], [])") auto
    obtain b' k1' v1' where f': "scan_first ?F l (k, v) = (b', k1', v1')" by (cases "scan_first ?F l (k, v)") auto
    have bb: "b' = b" using scan_first_indep [of ?F l "(k, v)" "([], [])"] f f' by simp
    have "l \<noteq> []" using val(1) by auto
    then have line: "iniparser_line t s k v = ini_value l s k v" for k v
      using val(2,3) by (auto simp: iniparser_line_def l)
    show ?thesis
    proof (cases b)
      case True
      then have same: "k1' = k1" "v1' = v1"
        using scan_first_indep [of ?F l "(k, v)" "([], [])"] f f' bb by simp_all
      have "length k1 \<le> ASCIILINESZ" "length v1 \<le> ASCIILINESZ"
        using scan_first_length [of ?F l "([], [])" k1 v1] f True ll by auto
      then show ?thesis using True bb f f' same assms(2)
        by (auto simp: line ini_value_def classify_def strstrip_ok simp del: scan_first.simps)
    next
      case False
      obtain c k2 v2 where g: "scan_first ?G l (k1, v1) = (c, k2, v2)" by (cases "scan_first ?G l (k1, v1)") auto
      obtain c' k2' v2' where g': "scan_first ?G l (k1', v1') = (c', k2', v2')" by (cases "scan_first ?G l (k1', v1')") auto
      have cc: "c' = c" using scan_first_indep [of ?G l "(k1', v1')" "(k1, v1)"] g g' by simp
      show ?thesis
      proof (cases c)
        case True
        then have same: "k2' = k2" using scan_first_indep [of ?G l "(k1', v1')" "(k1, v1)"] g g' cc by simp
        have "length k2 \<le> ASCIILINESZ" using scan_first_length [of ?G l "(k1, v1)" k2 v2] g True ll by auto
        then show ?thesis using True False cc bb f f' g g' same assms(2)
          by (auto simp: line ini_value_def classify_def strstrip_ok simp del: scan_first.simps)
      next
        case False
        then show ?thesis using \<open>\<not> b\<close> cc bb f f' g g' assms(2)
          by (auto simp: line ini_value_def classify_def simp del: scan_first.simps)
      qed
    qed
  qed
qed

section \<open>Loading refines a fold over the lines\<close>

text \<open>
  The abstract loader works on a list of lines and a map: blank lines are skipped, a trailing
  backslash joins a line with the next, a section line starts a section and stores its name
  without a value, an assignment stores under \<open>section:key\<close>.  \<open>sp_errs\<close> counts the malformed lines
  since the last store, as the loader does.
\<close>

record ini_spec =
  sp_last :: string
  sp_section :: string
  sp_errs :: nat
  sp_map :: "string \<Rightarrow> string option option"

definition spec0 :: ini_spec where
  "spec0 = \<lparr>sp_last = [], sp_section = [], sp_errs = 0, sp_map = Map.empty\<rparr>"

definition spec_line :: "string \<Rightarrow> ini_spec \<Rightarrow> ini_spec" where
  "spec_line t s =
     (case classify (sp_section s) t of
        Skip \<Rightarrow> s
      | Sect x \<Rightarrow> s\<lparr>sp_section := x, sp_errs := 0, sp_map := (sp_map s)(x \<mapsto> None)\<rparr>
      | Assign k v \<Rightarrow> s\<lparr>sp_errs := 0, sp_map := (sp_map s)(sp_section s @ '':'' @ k \<mapsto> Some v)\<rparr>
      | Malformed \<Rightarrow> s\<lparr>sp_errs := Suc (sp_errs s)\<rparr>)"

definition ini_step :: "string \<Rightarrow> ini_spec \<Rightarrow> ini_spec" where
  "ini_step l s =
     (let t = rstrip (sp_last s @ l) in
      if sp_last s @ l = [] then s
      else if last t = CHR 0x5C then s\<lparr>sp_last := butlast t\<rparr>
      else spec_line t (s\<lparr>sp_last := []\<rparr>))"

text \<open>
  Lines the loader can handle: they fit the buffer together with what is carried over, are not
  only white space, and section and key fit the buffer they are joined in.
\<close>

definition line_ok :: "string \<Rightarrow> ini_spec \<Rightarrow> bool" where
  "line_ok l s \<longleftrightarrow>
     CHR 0x0A \<notin> set l \<and> CHR 0x00 \<notin> set l \<and> length (sp_last s @ l) < 1023 \<and>
     (sp_last s @ l = [] \<or> rstrip (sp_last s @ l) \<noteq> []) \<and>
     (case classify (sp_section s) (rstrip (sp_last s @ l)) of
        Assign k v \<Rightarrow> length (sp_section s) + 1 + length k \<le> ASCIILINESZ | _ \<Rightarrow> True)"

fun lines_ok :: "string list \<Rightarrow> ini_spec \<Rightarrow> bool" where
  "lines_ok [] s = True"
| "lines_ok (l # ls) s \<longleftrightarrow> line_ok l s \<and> lines_ok ls (ini_step l s)"

definition unlines :: "string list \<Rightarrow> string" where
  "unlines ls = concat (map (\<lambda>l. l @ [CHR 0x0A]) ls)"

definition ini_rel :: "ini_st \<Rightarrow> ini_spec \<Rightarrow> bool" where
  "ini_rel st s \<longleftrightarrow> i_last st = sp_last s \<and> i_section st = sp_section s \<and>
     length (sp_section s) \<le> ASCIILINESZ \<and> i_errs st = int (sp_errs s) \<and> dict_ok (i_dict st) \<and>
     dict_abs (i_dict st) = sp_map s"

lemma process_line_refines:
  assumes "ini_rel st s" "length t \<le> ASCIILINESZ" "d_n (i_dict st) < 2 ^ 27"
    "\<And>k v. classify (sp_section s) t = Assign k v \<Longrightarrow> length (sp_section s) + 1 + length k \<le> ASCIILINESZ"
  shows "\<exists>st'. process_line alloc_ok t st = Inr st' \<and> ini_rel st' (spec_line t (s\<lparr>sp_last := []\<rparr>)) \<and>
           d_n (i_dict st') \<le> Suc (d_n (i_dict st))"
proof -
  have sec: "length (i_section st) \<le> ASCIILINESZ" and dk: "dict_ok (i_dict st)"
    and eqs: "i_section st = sp_section s" "dict_abs (i_dict st) = sp_map s" "i_errs st = int (sp_errs s)"
    using assms(1) by (simp_all add: ini_rel_def)
  obtain sta s' k' v' where l: "iniparser_line t (i_section st) (i_key st) (i_val st) = Inr (sta, s', k', v')"
    "length s' \<le> ASCIILINESZ"
    and c: "(case classify (sp_section s) t of
       Sect x \<Rightarrow> sta = LINE_SECTION \<and> s' = x
     | Assign a b \<Rightarrow> sta = LINE_VALUE \<and> s' = i_section st \<and> k' = a \<and> v' = b
     | Malformed \<Rightarrow> sta = LINE_ERROR \<and> s' = i_section st
     | Skip \<Rightarrow> (sta = LINE_EMPTY \<or> sta = LINE_COMMENT) \<and> s' = i_section st)"
    using iniparser_line_classify [OF assms(2) sec, of "i_key st" "i_val st"] eqs(1) by metis
  show ?thesis
  proof (cases "classify (sp_section s) t")
    case Skip
    with c l eqs assms(1) show ?thesis by (auto simp: process_line_def spec_line_def ini_rel_def)
  next
    case (Sect x)
    then have x: "sta = LINE_SECTION" "s' = x" using c by simp_all
    from cfg.put_ok [OF dk assms(3), of x None] obtain d' where
      "dict_set_in alloc_ok (i_dict st) x None = Inr (0, d')" "dict_ok d'"
      "dict_abs d' = (dict_abs (i_dict st))(x \<mapsto> None)" "d_n d' \<le> Suc (d_n (i_dict st))" by auto
    with x l eqs Sect show ?thesis by (simp add: process_line_def spec_line_def ini_rel_def)
  next
    case (Assign k v)
    then have x: "sta = LINE_VALUE" "s' = sp_section s" "k' = k" "v' = v" using c eqs by simp_all
    from cfg.put_ok [OF dk assms(3), of "sp_section s @ '':'' @ k" "Some v"] obtain d' where
      "dict_set_in alloc_ok (i_dict st) (sp_section s @ '':'' @ k) (Some v) = Inr (0, d')" "dict_ok d'"
      "dict_abs d' = (dict_abs (i_dict st))(sp_section s @ '':'' @ k \<mapsto> Some v)"
      "d_n d' \<le> Suc (d_n (i_dict st))" by auto
    with x l eqs Assign assms(4) [OF Assign] show ?thesis
      by (simp add: process_line_def spec_line_def ini_rel_def)
  next
    case Malformed
    with c l eqs assms(1) show ?thesis by (auto simp: process_line_def spec_line_def ini_rel_def)
  qed
qed

declare load_loop.simps [simp del]

lemma load_loop_line:
  assumes "ini_rel st s" "line_ok l s" "d_n (i_dict st) < 2 ^ 27"
  shows "\<exists>st'. load_loop (Suc fuel) (\<lambda>_. alloc_ok) n st (l @ CHR 0x0A # rest) =
             load_loop fuel (\<lambda>_. alloc_ok) (Suc n) st' rest \<and>
           ini_rel st' (ini_step l s) \<and> d_n (i_dict st') \<le> Suc (d_n (i_dict st))"
proof -
  let ?p = "sp_last s" and ?t = "rstrip (sp_last s @ l)"
  have p: "i_last st = ?p" using assms(1) by (simp add: ini_rel_def)
  have lo: "CHR 0x0A \<notin> set l" "CHR 0x00 \<notin> set l" "length (?p @ l) < 1023" "?p @ l = [] \<or> ?t \<noteq> []"
    using assms(2) by (simp_all add: line_ok_def)
  have f: "fgets (ASCIILINESZ - length ?p - 1) (l @ CHR 0x0A # rest) = (l @ [CHR 0x0A], rest)"
    using lo by (intro fgets_line) (simp_all add: ASCIILINESZ_def)
  have tw: "takeWhile (\<lambda>c. c \<noteq> CHR 0x00) (l @ [CHR 0x0A]) = l @ [CHR 0x0A]"
    using lo(2) by (subst takeWhile_eq_all_conv) auto
  have unf: "load_loop (Suc fuel) (\<lambda>_. alloc_ok) n st (l @ CHR 0x0A # rest) =
      (if ?p @ l = [] then load_loop fuel (\<lambda>_. alloc_ok) (Suc n) st rest
       else if last ?t = CHR 0x5C then
         load_loop fuel (\<lambda>_. alloc_ok) (Suc n) (st\<lparr>i_last := butlast ?t\<rparr>) rest
       else bindR (process_line alloc_ok ?t st) (\<lambda>st1.
         if i_errs st1 < 0 then Inr (Some st1) else load_loop fuel (\<lambda>_. alloc_ok) (Suc n) st1 rest))"
  proof -
    have "length (?p @ l @ [CHR 0x0A]) = 1 \<longleftrightarrow> ?p @ l = []" by auto
    moreover have "last (?p @ l @ [CHR 0x0A]) = CHR 0x0A" by simp
    ultimately show ?thesis using lo(4) unfolding load_loop.simps f p prod.case Let_def tw by (simp, blast)
  qed
  consider (blank) "?p @ l = []" | (join) "?p @ l \<noteq> []" "last ?t = CHR 0x5C"
    | (line) "?p @ l \<noteq> []" "last ?t \<noteq> CHR 0x5C" by blast
  then show ?thesis
  proof cases
    case blank
    then show ?thesis using unf assms(1) by (auto simp: ini_step_def intro: exI [of _ st])
  next
    case join
    then have "load_loop (Suc fuel) (\<lambda>_. alloc_ok) n st (l @ CHR 0x0A # rest) =
        load_loop fuel (\<lambda>_. alloc_ok) (Suc n) (st\<lparr>i_last := butlast ?t\<rparr>) rest"
      unfolding unf by (simp only: if_False if_True refl)
    moreover have "ini_rel (st\<lparr>i_last := butlast ?t\<rparr>) (ini_step l s)"
      using join assms(1) by (auto simp: ini_step_def ini_rel_def Let_def)
    ultimately show ?thesis by (metis ini_st.simps(5) ini_st.update_convs(1) le_SucI order_refl ini_st.surjective)
  next
    case line
    have "length ?t \<le> ASCIILINESZ" using length_rstrip [of "?p @ l"] lo(3) by (simp add: ASCIILINESZ_def)
    moreover have "length (sp_section s) + 1 + length k \<le> ASCIILINESZ"
      if "classify (sp_section s) ?t = Assign k v" for k v using assms(2) that by (simp add: line_ok_def)
    ultimately obtain st' where
      st': "process_line alloc_ok ?t st = Inr st'" "ini_rel st' (spec_line ?t (s\<lparr>sp_last := []\<rparr>))"
      "d_n (i_dict st') \<le> Suc (d_n (i_dict st))" using process_line_refines [OF assms(1) _ assms(3)] by blast
    have "ini_step l s = spec_line ?t (s\<lparr>sp_last := []\<rparr>)" using line by (auto simp: ini_step_def Let_def)
    moreover have "\<not> i_errs st' < 0" using st'(2) by (simp add: ini_rel_def)
    ultimately show ?thesis using unf line st' by (intro exI [of _ st']) auto
  qed
qed

lemma load_loop_lines:
  assumes "ini_rel st s" "lines_ok ls s" "d_n (i_dict st) + length ls \<le> 2 ^ 27" "length ls < fuel"
  shows "\<exists>st'. load_loop fuel (\<lambda>_. alloc_ok) n st (unlines ls) = Inr (Some st') \<and> ini_rel st' (fold ini_step ls s)"
  using assms
proof (induction ls arbitrary: st s n fuel)
  case Nil
  then show ?case by (cases fuel) (auto simp: unlines_def load_loop.simps)
next
  case (Cons l ls)
  then obtain m where m: "fuel = Suc m" by (cases fuel) auto
  have u: "unlines (l # ls) = l @ CHR 0x0A # unlines ls" by (simp add: unlines_def)
  from load_loop_line [OF Cons.prems(1), of l m n "unlines ls"] Cons.prems(2,3) obtain st1 where
    st1: "load_loop (Suc m) (\<lambda>_. alloc_ok) n st (l @ CHR 0x0A # unlines ls) =
        load_loop m (\<lambda>_. alloc_ok) (Suc n) st1 (unlines ls)"
      "ini_rel st1 (ini_step l s)" "d_n (i_dict st1) \<le> Suc (d_n (i_dict st))" by auto
  from Cons.IH [OF st1(2), of m "Suc n"] Cons.prems(2-4) st1(3) m show ?case
    unfolding u m st1(1) by auto
qed

lemma length_unlines: "length ls \<le> length (unlines ls)"
  by (induction ls) (auto simp: unlines_def)

lemma dictionary_del_ok: "dict_ok d \<Longrightarrow> \<exists>fs. dictionary_del (Some d) = Inr fs"
  by (erule dict_okE) (simp add: dictionary_del_def del_loop_eq)

lemma load_lines:
  assumes "lines_ok ls spec0" "length ls \<le> 2 ^ 27"
  shows "\<exists>r. iniparser_load True alloc_ok (\<lambda>_. alloc_ok) (Some (unlines ls)) = Inr r \<and>
    (if sp_errs (fold ini_step ls spec0) = 0
     then \<exists>d. r = Some d \<and> dict_ok d \<and> dict_abs d = sp_map (fold ini_step ls spec0)
     else r = None)"
proof -
  obtain d where d: "dictionary_new True alloc_ok 0 = Some d" "dict_ok d" "dict_abs d = Map.empty" "d_n d = 0"
    by (rule dictionary_new_ok)
  let ?st = "\<lparr>i_last = [], i_section = [], i_key = [], i_val = [], i_dict = d, i_errs = 0\<rparr>"
  have "ini_rel ?st spec0" using d by (simp add: ini_rel_def spec0_def ASCIILINESZ_def)
  from load_loop_lines [OF this assms(1), of "Suc (length (unlines ls))" 0] assms(2) d(4) length_unlines [of ls]
  obtain st where st: "load_loop (Suc (length (unlines ls))) (\<lambda>_. alloc_ok) 0 ?st (unlines ls) = Inr (Some st)"
    "ini_rel st (fold ini_step ls spec0)" by auto
  from dictionary_del_ok [of "i_dict st"] st(2) obtain fs where "dictionary_del (Some (i_dict st)) = Inr fs"
    by (auto simp: ini_rel_def)
  with st d(1) show ?thesis
    by (auto simp: iniparser_load_def ini_rel_def)
qed

text \<open>
  C10: Loading an ini file refines a fold over its lines.  For a file whose lines fit the buffers of
  the loader, \<open>iniparser_load\<close> returns (it does not run out of fuel and does not fault), and its
  result is the abstract one: with no malformed line after the last store it is a well-formed
  dictionary holding exactly the map that the lines denote, including joined lines, later
  assignments winning; otherwise it is null.
\<close>

theorem iniparser_load_refines:
  assumes "lines_ok ls spec0" "length ls \<le> 2 ^ 27"
  shows "\<exists>r. iniparser_load True alloc_ok (\<lambda>_. alloc_ok) (Some (unlines ls)) = Inr r \<and>
    (if sp_errs (fold ini_step ls spec0) = 0
     then \<exists>d. r = Some d \<and> dict_ok d \<and> dict_abs d = sp_map (fold ini_step ls spec0)
     else r = None)"
  using assms by (rule load_lines)

definition demo_ini :: "string list" where
  "demo_ini = [''# sample'', ''[Server]'', ''garbage'', ''port = 80'' @ [CHR 0x5C], ''80'', [], ''name=mp ; c'']"

lemma demo_ini_ok: "lines_ok demo_ini spec0"
  by code_simp

theorem iniparser_load_refines_witness:
  "\<exists>d. iniparser_load True alloc_ok (\<lambda>_. alloc_ok) (Some (unlines demo_ini)) = Inr (Some d) \<and>
     dict_abs d ''server:port'' = Some (Some ''8080'') \<and> dict_abs d ''server:name'' = Some (Some ''mp'')"
proof -
  have e: "sp_errs (fold ini_step demo_ini spec0) = 0" by code_simp
  have m: "sp_map (fold ini_step demo_ini spec0) ''server:port'' = Some (Some ''8080'')"
    "sp_map (fold ini_step demo_ini spec0) ''server:name'' = Some (Some ''mp'')" by code_simp+
  have "length demo_ini \<le> 2 ^ 27" by (simp add: demo_ini_def)
  from iniparser_load_refines [OF demo_ini_ok this] e m show ?thesis by auto
qed

section \<open>Integers\<close>

text \<open>The spellings the documentation of \<open>iniparser_getint\<close> names: decimal, octal, hexadecimal.\<close>

definition digit_char :: "nat \<Rightarrow> char" where
  "digit_char n = char_of (if n < 10 then n + 48 else n + 87)"

definition lit_value :: "nat \<Rightarrow> nat list \<Rightarrow> nat" where
  "lit_value b ds = foldl (\<lambda>a x. a * b + x) 0 ds"

definition c_literal :: "bool \<Rightarrow> nat \<Rightarrow> nat list \<Rightarrow> string" where
  "c_literal neg b ds = (if neg then ''-'' else []) @
     (if b = 16 then ''0x'' else if b = 8 then ''0'' else []) @ map digit_char ds"

definition literal_ok :: "nat \<Rightarrow> nat list \<Rightarrow> bool" where
  "literal_ok b ds \<longleftrightarrow> b \<in> {8, 10, 16} \<and> ds \<noteq> [] \<and> list_all (\<lambda>x. x < b) ds \<and>
     (b = 10 \<longrightarrow> hd ds \<noteq> 0) \<and> lit_value b ds < 2 ^ 31"

lemma of_char_digit: "n < 36 \<Longrightarrow> of_char (digit_char n) = (if n < 10 then n + 48 else n + 87 :: nat)"
  by (simp add: digit_char_def)

lemma digit_val_char [simp]: "n < 36 \<Longrightarrow> digit_val (digit_char n) = Some n"
  by (auto simp: digit_val_def of_char_digit)

lemma digit_char_neq:
  assumes "n < 16"
  shows "digit_char n \<noteq> CHR ''-''" "digit_char n \<noteq> CHR ''+''" "digit_char n \<noteq> CHR ''x''" "digit_char n \<noteq> CHR ''X''"
    "\<not> isspace (digit_char n)" "digit_char n = CHR ''0'' \<longleftrightarrow> n = 0"
proof -
  have inj: "digit_char n = c \<longleftrightarrow> of_char (digit_char n) = (of_char c :: nat)" for c by simp
  show "digit_char n \<noteq> CHR ''-''" "digit_char n \<noteq> CHR ''+''" "digit_char n \<noteq> CHR ''x''" "digit_char n \<noteq> CHR ''X''"
    "\<not> isspace (digit_char n)" "digit_char n = CHR ''0'' \<longleftrightarrow> n = 0"
    using assms by (simp_all add: isspace_def inj of_char_digit del: of_char_eq_iff)
qed

lemma read_digits_chars:
  "list_all (\<lambda>x. x < b) ds \<Longrightarrow> b \<le> 36 \<Longrightarrow> read_digits b acc (map digit_char ds) = foldl (\<lambda>a x. a * b + x) acc ds"
  by (induction ds arbitrary: acc) auto

lemma strtol_mag_dec: "c \<noteq> CHR ''0'' \<Longrightarrow> strtol_mag (c # r) = read_digits 10 0 (c # r)"
  by (simp add: strtol_mag_def del: read_digits.simps split: list.split)

lemma strtol_mag_literal:
  assumes "literal_ok b ds"
  shows "strtol_mag (c_literal False b ds) = lit_value b ds"
proof -
  obtain x xs where ds: "ds = x # xs" using assms by (cases ds) (auto simp: literal_ok_def)
  have x: "x < b" and b: "b \<in> {8, 10, 16}" using assms ds by (simp_all add: literal_ok_def)
  have r: "read_digits b 0 (map digit_char ds) = lit_value b ds"
    using read_digits_chars [of b ds 0] assms by (auto simp: literal_ok_def lit_value_def)
  have z: "digit_val (CHR ''0'') = Some 0" by (simp add: digit_val_def)
  from b consider "b = 8" | "b = 10" | "b = 16" by blast
  then show ?thesis
  proof cases
    case 1
    have "read_digits 8 0 (CHR ''0'' # map digit_char ds) = lit_value b ds" using r 1 z by simp
    moreover have "digit_char x \<noteq> CHR ''x''" "digit_char x \<noteq> CHR ''X''" using digit_char_neq [of x] x 1 by simp_all
    ultimately show ?thesis using 1 by (cases xs) (simp_all add: c_literal_def strtol_mag_def ds)
  next
    case 2
    then have "digit_char x \<noteq> CHR ''0''" using digit_char_neq(6) [of x] x assms ds by (simp add: literal_ok_def)
    then show ?thesis using 2 r strtol_mag_dec [of "digit_char x" "map digit_char xs"]
      by (simp add: c_literal_def ds del: read_digits.simps)
  next
    case 3
    have "is_digit_of 16 (digit_char x)" using x 3 by (simp add: is_digit_of_def)
    then show ?thesis using 3 r by (simp add: c_literal_def strtol_mag_def ds)
  qed
qed

lemma c_literal_first:
  assumes "literal_ok b ds"
  shows "\<exists>c r. c_literal False b ds = c # r \<and> \<not> isspace c \<and> c \<noteq> CHR ''-'' \<and> c \<noteq> CHR ''+''"
proof -
  obtain x xs where ds: "ds = x # xs" using assms by (cases ds) (auto simp: literal_ok_def)
  have "x < 16" using assms ds by (auto simp: literal_ok_def)
  with digit_char_neq [of x] show ?thesis by (auto simp: c_literal_def ds isspace_def)
qed

lemma to_int_small: "- (2 ^ 31) \<le> x \<Longrightarrow> x < 2 ^ 31 \<Longrightarrow> to_int x = x"
  by (simp add: to_int_def signed_of_int signed_take_bit_int_eq_self)

lemma strtol_literal:
  assumes "literal_ok b ds"
  shows "to_int (strtol (c_literal neg b ds)) = (if neg then - int (lit_value b ds) else int (lit_value b ds))"
proof -
  obtain c r where c: "c_literal False b ds = c # r" "\<not> isspace c" "c \<noteq> CHR ''-''" "c \<noteq> CHR ''+''"
    using c_literal_first [OF assms] by blast
  have m: "strtol_mag (c # r) = lit_value b ds" using strtol_mag_literal [OF assms] c(1) by simp
  have v: "int (lit_value b ds) < 2 ^ 31" using assms by (simp add: literal_ok_def)
  have n: "c_literal True b ds = CHR ''-'' # c # r" using c(1) by (simp add: c_literal_def)
  have "strtol (c_literal neg b ds) = (if neg then - int (lit_value b ds) else int (lit_value b ds))"
    using c m n v by (cases neg) (simp_all add: strtol_def isspace_def)
  then show ?thesis using v to_int_small [of "int (lit_value b ds)"] to_int_small [of "- int (lit_value b ds)"] by simp
qed

text \<open>
  C37: \<open>iniparser_getint\<close> reads what it documents: for a key (in any letter case) whose value is a
  decimal, octal or hexadecimal literal within the range of \<open>int\<close>, with or without a minus
  sign, it returns that number; for a key that is not in the dictionary it returns the default.
\<close>

theorem iniparser_getint_reads:
  assumes "dict_ok d" "dict_abs d (strlwc key) = Some (Some (c_literal neg b ds))" "literal_ok b ds"
    "dict_abs d (strlwc other) = None"
  shows "iniparser_getint (Some d) (Some key) nf =
      Inr (if neg then - int (lit_value b ds) else int (lit_value b ds)) \<and>
    iniparser_getint (Some d) (Some other) nf = Inr nf"
  using assms strtol_literal [OF assms(3), of neg]
  by (simp add: iniparser_getint_def iniparser_getstring_def dictionary_get_abs ptr_of_def)

definition demo_ints :: dictionary where
  "demo_ints = \<lparr>d_n = 1, d_size = 2, d_val = Some [None, Some ''-0x1f''], d_key = Some [None, Some ''s:n''],
     d_hash = Some [0, dictionary_hash ''s:n'']\<rparr>"

theorem iniparser_getint_reads_witness:
  "iniparser_getint (Some demo_ints) (Some ''S:N'') 7 = Inr (-31) \<and> iniparser_getint (Some demo_ints) (Some ''x'') 7 = Inr 7"
proof -
  have d: "dict_ok demo_ints"
    by (simp add: demo_ints_def dict_ok_def hashed_def uniq_keys_def lessThan_nat_numeral lessThan_Suc)
  have s: "strlwc ''S:N'' = ''s:n''" "strlwc ''x'' = ''x''" by code_simp+
  have l: "c_literal True 16 [1, 15] = ''-0x1f''" by code_simp
  have v: "literal_ok 16 [1, 15]" "lit_value 16 [1, 15] = 31"
    by (simp_all add: literal_ok_def lit_value_def)
  have a: "dict_abs demo_ints (strlwc ''S:N'') = Some (Some (c_literal True 16 [1, 15]))"
    "dict_abs demo_ints (strlwc ''x'') = None"
    unfolding s l by (simp_all add: demo_ints_def dict_abs_def slot_of_def upt_rec)
  from iniparser_getint_reads [OF d a(1) v(1) a(2), of 7] show ?thesis unfolding v(2) by simp
qed

text \<open>
  Asking for the number or the truth value of a section faults.  A section is stored without a
  value, and \<open>iniparser_getint\<close> and \<open>iniparser_getboolean\<close> test the result of the lookup
  only against the marker for a missing key before they read the string.
\<close>

theorem getint_of_section_faults:
  assumes "dict_ok d" "dict_abs d (strlwc s) = Some None"
  shows "iniparser_getint (Some d) (Some s) nf = Inl Segv \<and> iniparser_getboolean (Some d) (Some s) nf = Inl Segv \<and>
    iniparser_find_entry (Some d) (Some s) = Inr 1"
  using assms by (simp add: iniparser_getint_def iniparser_getboolean_def iniparser_find_entry_def
      iniparser_getstring_def dictionary_get_abs ptr_of_def)

definition demo_sec :: dictionary where
  "demo_sec = \<lparr>d_n = 1, d_size = 1, d_val = Some [None], d_key = Some [Some ''server''],
     d_hash = Some [dictionary_hash ''server'']\<rparr>"

theorem getint_of_section_faults_witness:
  "iniparser_getint (Some demo_sec) (Some ''Server'') 0 = Inl Segv"
proof -
  have d: "dict_ok demo_sec" by (simp add: demo_sec_def dict_ok_def hashed_def uniq_keys_def)
  have "strlwc ''Server'' = ''server''" by code_simp
  then have a: "dict_abs demo_sec (strlwc ''Server'') = Some None"
    by (simp add: demo_sec_def dict_abs_def slot_of_def)
  from getint_of_section_faults [OF d a] show ?thesis by simp
qed

end
