(* ===== verification/Mp_Bindconf.thy ===== *)
theory Mp_Bindconf
  imports Mp_Shmq Mp_Iniparser
begin

text \<open>
  Reading the bind file (\<open>src/src/config.c\<close>, \<open>src/src/bindconf.c\<close>): \<open>mmap_config_file\<close>,
  \<open>str_split\<close> and \<open>load_bind_file\<close>.  The mapping is a list of characters with explicit zero bytes
  and pointers into it are indices, since \<open>str_split\<close> cuts the line in place and hands out
  pointers into it; an access outside the mapping is a fault.  The reference is \<open>split_ref\<close>, which
  works on the line as a string.
\<close>

section \<open>C strings in memory\<close>

abbreviation NUL :: char where "NUL \<equiv> CHR 0x00"
abbreviation NL :: char where "NL \<equiv> CHR 0x0A"

definition cstr :: "string \<Rightarrow> nat \<Rightarrow> string" where
  "cstr m p = takeWhile (\<lambda>c. c \<noteq> NUL) (drop p m)"

function skip_while :: "(char \<Rightarrow> bool) \<Rightarrow> string \<Rightarrow> nat \<Rightarrow> nat res" where
  "skip_while P m p =
     (if p \<ge> length m then Inl Segv else if P (m ! p) then skip_while P m (Suc p) else Inr p)"
  by auto
termination
  by (relation "measure (\<lambda>(P, m, p). length m - p)") auto

fun skip_back :: "(char \<Rightarrow> bool) \<Rightarrow> string \<Rightarrow> nat \<Rightarrow> nat res" where
  "skip_back P m 0 = (if m = [] \<or> P (m ! 0) then Inl Segv else Inr 0)"
| "skip_back P m (Suc p) =
     (if Suc p \<ge> length m then Inl Segv else if P (m ! Suc p) then skip_back P m p else Inr (Suc p))"

declare skip_while.simps [simp del] skip_back.simps [simp del]

definition put_char :: "string \<Rightarrow> nat \<Rightarrow> char \<Rightarrow> string res" where
  "put_char m p c = (if p < length m then Inr (m[p := c]) else Inl Segv)"

section \<open>The operations\<close>

definition default_ifs :: "char \<Rightarrow> bool" where
  "default_ifs c \<longleftrightarrow> c \<in> set [CHR '' '', CHR 0x09, CHR 0x0D, CHR 0x0A, CHR ''='']"

text \<open>
  \<open>mmap_config_file\<close>: \<open>file\<close> is the content if the file can be opened, \<open>got\<close> the number of bytes
  \<open>read\<close> delivers; the anonymous mapping is zero-filled.
\<close>

definition mmap_config_file :: "string option \<Rightarrow> bool \<Rightarrow> nat \<Rightarrow> int \<times> string" where
  "mmap_config_file file map_ok got =
     (case file of None \<Rightarrow> (-1, [])
      | Some s \<Rightarrow>
        if \<not> map_ok then (-1, [])
        else (int (length s) + 1, take got s @ replicate (length s - got) NUL @ [NUL]))"

text \<open>\<open>str_split\<close>: the result is the list of the fields set so far and the memory.\<close>

fun split_loop :: "(char \<Rightarrow> bool) \<Rightarrow> nat \<Rightarrow> string \<Rightarrow> nat \<Rightarrow> (nat list \<times> string) res" where
  "split_loop ifs 0 m line = Inl Segv"
| "split_loop ifs (Suc n) m line =
     bindR (skip_while ifs m line) (\<lambda>p.
     if m ! p = NUL then Inr ([], m)
     else if n = 0 then
       bindR (skip_back ifs m (p + length (cstr m p) - 1)) (\<lambda>e.
       bindR (put_char m (e + 1) NUL) (\<lambda>m1. Inr ([p], m1)))
     else
       bindR (skip_while (\<lambda>c. c \<noteq> NUL \<and> \<not> ifs c) m p) (\<lambda>e.
       if m ! e = NUL then Inr ([p], m)
       else bindR (put_char m e NUL) (\<lambda>m1.
         bindR (split_loop ifs n m1 (e + 1)) (\<lambda>(fs, m2). Inr (p # fs, m2)))))"

definition str_split :: "(char \<Rightarrow> bool) option \<Rightarrow> string \<Rightarrow> nat \<Rightarrow> nat \<Rightarrow> (nat list \<times> string) res" where
  "str_split ifs m line n = split_loop (case ifs of None \<Rightarrow> default_ifs | Some f \<Rightarrow> f) n m line"

definition atoi :: "string \<Rightarrow> int" where
  "atoi s =
     (case dropWhile isspace s of
        [] \<Rightarrow> 0
      | c # r \<Rightarrow> to_int
          (if c = CHR ''-'' then max (- (2 ^ 63)) (- int (read_digits 10 0 r))
           else min (2 ^ 63 - 1) (int (read_digits 10 0 (if c = CHR ''+'' then r else c # r)))))"

text \<open>
  One configuration entry: the names are copied with \<open>strncpy\<close> into zeroed arrays of 16 bytes, of
  which the last stays zero.
\<close>

definition fill_conf :: "string list \<Rightarrow> bind_config_info \<Rightarrow> bind_config_info" where
  "fill_conf fs e = e\<lparr>server_id := word_of_int (atoi (fs ! 0)), server_name := take 15 (fs ! 1),
     bind_ip := take 15 (fs ! 2), bind_port := word_of_int (atoi (fs ! 3))\<rparr>"

definition add_conf :: "string list \<Rightarrow> bind_config \<Rightarrow> bind_config res" where
  "add_conf fs bc =
     (if bind_num bc < length (configs bc)
      then Inr (bc\<lparr>configs := (configs bc)[bind_num bc := fill_conf fs (configs bc ! bind_num bc)],
                   bind_num := bind_num bc + 1\<rparr>)
      else Inl Segv)"

definition find_nl :: "string \<Rightarrow> nat \<Rightarrow> nat option" where
  "find_nl m p = (if NL \<in> set (cstr m p) then Some (p + length (takeWhile (\<lambda>c. c \<noteq> NL) (cstr m p))) else None)"

text \<open>
  One line: a newline becomes a terminator, comments and lines with fewer than four fields are
  skipped, then \<open>start = end + 1\<close>.  Without a newline \<open>end\<close> is null, so the next
  iteration dereferences a pointer next to null.
\<close>

definition bind_line :: "nat \<Rightarrow> string \<Rightarrow> bind_config \<Rightarrow> (nat option \<times> string \<times> bind_config) res" where
  "bind_line start m bc =
     (let e = find_nl m start in
      bindR (case e of None \<Rightarrow> Inr m | Some p \<Rightarrow> put_char m p NUL) (\<lambda>m1.
      bindR (if start < length m1 then Inr (m1 ! start) else Inl Segv) (\<lambda>c.
      bindR (if c = CHR ''#'' then Inr ([], m1) else str_split None m1 start 4) (\<lambda>(fs, m2).
      bindR (if c \<noteq> CHR ''#'' \<and> length fs = 4 then add_conf (map (cstr m2) fs) bc else Inr bc) (\<lambda>bc1.
      Inr (map_option Suc e, m2, bc1))))))"

fun bind_loop :: "nat \<Rightarrow> nat \<Rightarrow> nat option \<Rightarrow> string \<Rightarrow> bind_config \<Rightarrow> bind_config res" where
  "bind_loop 0 len start m bc = Inl Blocked"
| "bind_loop (Suc fuel) len start m bc =
     (case start of None \<Rightarrow> Inl Segv
      | Some p \<Rightarrow>
        if len > p then bindR (bind_line p m bc) (\<lambda>(s, m1, bc1). bind_loop fuel len s m1 bc1)
        else Inr bc)"

definition load_bind_file :: "string option \<Rightarrow> bool \<Rightarrow> nat \<Rightarrow> bind_config \<Rightarrow> (int \<times> bind_config) res" where
  "load_bind_file file map_ok got bc =
     (let (r, m) = mmap_config_file file map_ok got in
      if r > 0 then
        let len = length (cstr m 0) in
        bindR (bind_loop (Suc (length m)) len (Some 0) m bc) (\<lambda>bc1. Inr (0, bc1))
      else Inr (-1, bc))"

section \<open>Reference\<close>

definition trim_ifs :: "(char \<Rightarrow> bool) \<Rightarrow> string \<Rightarrow> string" where
  "trim_ifs ifs s = rev (dropWhile ifs (rev s))"

fun split_ref :: "(char \<Rightarrow> bool) \<Rightarrow> nat \<Rightarrow> string \<Rightarrow> string list" where
  "split_ref ifs 0 s = []"
| "split_ref ifs (Suc n) s =
     (let l = dropWhile ifs s in
      if l = [] then []
      else if n = 0 then [trim_ifs ifs l]
      else let w = takeWhile (\<lambda>c. \<not> ifs c) l; r = dropWhile (\<lambda>c. \<not> ifs c) l in
        w # (if r = [] then [] else split_ref ifs n (tl r)))"

definition bind_line_ref :: "string \<Rightarrow> bind_config \<Rightarrow> bind_config" where
  "bind_line_ref l bc =
     (let fs = split_ref default_ifs 4 l in
      if (l \<noteq> [] \<and> hd l = CHR ''#'') \<or> length fs \<noteq> 4 then bc
      else bc\<lparr>configs := (configs bc)[bind_num bc := fill_conf fs (configs bc ! bind_num bc)],
              bind_num := bind_num bc + 1\<rparr>)"

section \<open>Scanning\<close>

lemma skip_while_run:
  assumes "list_all P xs" "\<not> P c"
  shows "skip_while P (pre @ xs @ c # post) (length pre) = Inr (length pre + length xs)"
  using assms(1)
proof (induction xs arbitrary: pre)
  case Nil
  then show ?case using assms(2) by (simp add: skip_while.simps nth_append)
next
  case (Cons x xs)
  then show ?case using Cons.IH [of "pre @ [x]"] by (simp add: skip_while.simps [of _ _ "length pre"] nth_append)
qed

lemma skip_back_run:
  assumes "list_all P ys" "\<not> P x"
  shows "skip_back P (pre @ x # ys @ post) (length pre + length ys) = Inr (length pre)"
  using assms(1)
proof (induction ys arbitrary: post rule: rev_induct)
  case Nil
  then show ?case using assms(2) by (cases "length pre") (simp_all add: skip_back.simps nth_append)
next
  case (snoc y ys)
  then show ?case using snoc.IH [of "y # post"] by (simp add: skip_back.simps nth_append)
qed

lemma cstr_here: "NUL \<notin> set s \<Longrightarrow> cstr (pre @ s @ NUL # post) (length pre) = s"
proof -
  assume "NUL \<notin> set s"
  then have "takeWhile (\<lambda>c. c \<noteq> NUL) (s @ NUL # post) = s" by (induction s) auto
  then show ?thesis by (simp add: cstr_def)
qed

lemma takeWhile_all: "list_all P (takeWhile P xs)"
  by (simp add: list_all_iff) (meson set_takeWhileD)

lemma dropWhile_split: "dropWhile P xs = [] \<or> (\<exists>y ys. dropWhile P xs = y # ys \<and> \<not> P y)"
  by (cases "dropWhile P xs") (auto simp: dropWhile_eq_Cons_conv)

lemma trim_split:
  assumes "l \<noteq> []" "\<not> ifs (hd l)"
  obtains t x ys where "l = t @ x # ys" "\<not> ifs x" "list_all ifs ys" "trim_ifs ifs l = t @ [x]"
proof -
  have "\<not> list_all ifs (rev l)" using assms by (cases l) auto
  then obtain x zs where d: "dropWhile ifs (rev l) = x # zs" "\<not> ifs x"
    using dropWhile_split [of ifs "rev l"] by (auto simp: list_all_iff dropWhile_eq_Nil_conv)
  have "rev l = takeWhile ifs (rev l) @ x # zs" using takeWhile_dropWhile_id [of ifs "rev l"] d(1) by simp
  then have "l = rev zs @ x # rev (takeWhile ifs (rev l))" by (metis append.assoc append_Cons append_Nil rev.simps(2) rev_append rev_rev_ident)
  moreover have "list_all ifs (rev (takeWhile ifs (rev l)))" by (simp add: takeWhile_all)
  moreover have "trim_ifs ifs l = rev zs @ [x]" by (simp add: trim_ifs_def d(1))
  ultimately show ?thesis using that d(2) by blast
qed

lemma split_last:
  assumes "\<not> ifs NUL" "NUL \<notin> set l" "l \<noteq> []" "\<not> ifs (hd l)"
  shows "\<exists>l' e. skip_back ifs (pre @ l @ NUL # post) (length pre + length l - 1) = Inr e \<and>
    put_char (pre @ l @ NUL # post) (e + 1) NUL = Inr (pre @ l' @ NUL # post) \<and> length l' = length l \<and>
    cstr (pre @ l' @ NUL # post) (length pre) = trim_ifs ifs l"
proof -
  obtain t x ys where l: "l = t @ x # ys" "\<not> ifs x" "list_all ifs ys" "trim_ifs ifs l = t @ [x]"
    using trim_split [of l ifs] assms(3,4) by blast
  have b: "skip_back ifs (pre @ l @ NUL # post) (length pre + length l - 1) = Inr (length pre + length t)"
    using skip_back_run [OF l(3,2), of "pre @ t" "NUL # post"] by (simp add: l(1) add.assoc)
  define l' where "l' = t @ [x] @ (case ys of [] \<Rightarrow> [] | _ # zs \<Rightarrow> NUL # zs)"
  have "put_char (pre @ l @ NUL # post) (length pre + length t + 1) NUL = Inr (pre @ l' @ NUL # post)"
    by (cases ys) (simp_all add: put_char_def l(1) l'_def list_update_append nth_append)
  moreover have "length l' = length l" by (cases ys) (simp_all add: l(1) l'_def)
  moreover have "cstr (pre @ l' @ NUL # post) (length pre) = trim_ifs ifs l"
  proof (cases ys)
    case Nil
    then show ?thesis using cstr_here [of "t @ [x]" pre post] assms(2) l by (simp add: l'_def)
  next
    case (Cons y zs)
    then show ?thesis using cstr_here [of "t @ [x]" pre "zs @ NUL # post"] assms(2) l by (simp add: l'_def)
  qed
  ultimately show ?thesis using b by (metis Suc_eq_plus1)
qed

lemma split_loop_ref:
  assumes "\<not> ifs NUL" "NUL \<notin> set line" "0 < n"
  shows "\<exists>ps line'. split_loop ifs n (pre @ line @ NUL # post) (length pre) = Inr (ps, pre @ line' @ NUL # post) \<and>
    length line' = length line \<and>
    list_all2 (\<lambda>p w. cstr (pre @ line' @ NUL # post) p = w) ps (split_ref ifs n line)"
  using assms(2,3)
proof (induction n arbitrary: pre line)
  case (Suc n)
  let ?m = "pre @ line @ NUL # post"
  define sp l where "sp = takeWhile ifs line" and "l = dropWhile ifs line"
  have line: "line = sp @ l" by (simp add: sp_def l_def)
  have nul: "NUL \<notin> set l" using Suc.prems(1) line by simp
  have hd: "l = [] \<or> \<not> ifs (hd l)" using dropWhile_split [of ifs line] by (auto simp: l_def)
  obtain c r where c: "l @ NUL # post = c # r" "\<not> ifs c" "c = NUL \<longleftrightarrow> l = []"
    using hd nul assms(1) by (cases l) auto
  have p: "skip_while ifs ?m (length pre) = Inr (length pre + length sp)"
  proof -
    have "list_all ifs sp" by (simp add: sp_def takeWhile_all)
    from skip_while_run [OF this c(2), of pre r] c(1) show ?thesis by (simp add: line)
  qed
  have mp: "?m ! (length pre + length sp) = c" using c(1) by (simp add: line nth_append)
  let ?p = "length pre + length sp"
  consider (empty) "l = []" | (last) "l \<noteq> []" "n = 0" | (more) "l \<noteq> []" "n \<noteq> 0" by blast
  then show ?case
  proof cases
    case empty
    then show ?thesis using p mp c by (auto simp: l_def)
  next
    case last
    obtain l' e where e: "skip_back ifs ((pre @ sp) @ l @ NUL # post) (length (pre @ sp) + length l - 1) = Inr e"
      "put_char ((pre @ sp) @ l @ NUL # post) (e + 1) NUL = Inr ((pre @ sp) @ l' @ NUL # post)" "length l' = length l"
      "cstr ((pre @ sp) @ l' @ NUL # post) (length (pre @ sp)) = trim_ifs ifs l"
      using split_last [of ifs l "pre @ sp" post] assms(1) nul hd last(1) by blast
    have cs: "cstr ?m ?p = l" using cstr_here [OF nul, of "pre @ sp" post] by (simp add: line)
    have "split_loop ifs (Suc n) ?m (length pre) = Inr ([?p], pre @ (sp @ l') @ NUL # post)"
      using e last p mp c cs by (simp add: line)
    moreover have "split_ref ifs (Suc n) line = [trim_ifs ifs l]" using last by (simp add: l_def [symmetric])
    ultimately show ?thesis using e(3,4) by (intro exI [of _ "[?p]"] exI [of _ "sp @ l'"]) (simp add: line)
  next
    case more
    define w r where "w = takeWhile (\<lambda>c. \<not> ifs c) l" and "r = dropWhile (\<lambda>c. \<not> ifs c) l"
    have l: "l = w @ r" by (simp add: w_def r_def)
    have ref: "split_ref ifs (Suc n) line = w # (if r = [] then [] else split_ref ifs n (tl r))"
      using more by (simp add: l_def [symmetric] w_def r_def Let_def)
    have wn: "NUL \<notin> set w" "list_all (\<lambda>c. c \<noteq> NUL \<and> \<not> ifs c) w"
    proof -
      have "list_all (\<lambda>c. \<not> ifs c) w" by (simp add: w_def takeWhile_all)
      moreover show "NUL \<notin> set w" using nul l by simp
      ultimately show "list_all (\<lambda>c. c \<noteq> NUL \<and> \<not> ifs c) w" by (auto simp: list_all_iff)
    qed
    show ?thesis
    proof (cases r)
      case Nil
      have "skip_while (\<lambda>c. c \<noteq> NUL \<and> \<not> ifs c) ?m ?p = Inr (?p + length w)"
        using skip_while_run [OF wn(2), of NUL "pre @ sp" post] by (simp add: line l Nil)
      moreover have "?m ! (?p + length w) = NUL" by (simp add: line l Nil nth_append)
      moreover have "cstr ?m ?p = w" using cstr_here [OF wn(1), of "pre @ sp" post] by (simp add: line l Nil)
      ultimately show ?thesis using p mp c more ref Nil by (intro exI [of _ "[?p]"] exI [of _ line]) simp
    next
      case (Cons i r')
      have i: "ifs i" using Cons unfolding r_def by (auto simp: dropWhile_eq_Cons_conv)
      have inul: "i \<noteq> NUL" "NUL \<notin> set r'" using nul l Cons by auto
      have sk: "skip_while (\<lambda>c. c \<noteq> NUL \<and> \<not> ifs c) ?m ?p = Inr (?p + length w)"
        using skip_while_run [OF wn(2), of i "pre @ sp" "r' @ NUL # post"] i by (simp add: line l Cons)
      have mi: "?m ! (?p + length w) = i" by (simp add: line l Cons nth_append)
      let ?pre = "pre @ sp @ w @ [NUL]"
      have pc: "put_char ?m (?p + length w) NUL = Inr (?pre @ r' @ NUL # post)"
        by (simp add: put_char_def line l Cons list_update_append)
      obtain ps r'' where ih: "split_loop ifs n (?pre @ r' @ NUL # post) (length ?pre) = Inr (ps, ?pre @ r'' @ NUL # post)"
        "length r'' = length r'" "list_all2 (\<lambda>p w. cstr (?pre @ r'' @ NUL # post) p = w) ps (split_ref ifs n r')"
        using Suc.IH [OF inul(2), of ?pre] more(2) by blast
      have "split_loop ifs (Suc n) ?m (length pre) = Inr (?p # ps, pre @ (sp @ w @ [NUL] @ r'') @ NUL # post)"
        using p mp c more sk mi inul pc ih(1) by (simp add: algebra_simps)
      moreover have "cstr (?pre @ r'' @ NUL # post) ?p = w"
        using cstr_here [OF wn(1), of "pre @ sp" "r'' @ NUL # post"] by simp
      ultimately show ?thesis using ih(2,3) ref Cons
        by (intro exI [of _ "?p # ps"] exI [of _ "sp @ w @ [NUL] @ r''"]) (simp add: line l)
    qed
  qed
qed simp

section \<open>One line of the bind file\<close>

lemma default_ifs_NUL [simp]: "\<not> default_ifs NUL"
  by (simp add: default_ifs_def)

lemma find_nl_here:
  assumes "NL \<notin> set l" "NUL \<notin> set l"
  shows "find_nl (pre @ l @ NL # post) (length pre) = Some (length pre + length l)"
proof -
  have "cstr (pre @ l @ NL # post) (length pre) = l @ NL # takeWhile (\<lambda>c. c \<noteq> NUL) post"
    using assms(2) by (induction l) (auto simp: cstr_def)
  moreover have "takeWhile (\<lambda>c. c \<noteq> NL) (l @ NL # x) = l" for x using assms(1) by (induction l) auto
  ultimately show ?thesis by (simp add: find_nl_def)
qed

lemma bind_line_ok:
  assumes "NL \<notin> set l" "NUL \<notin> set l" "bind_num (bind_line_ref l bc) \<le> length (configs bc)"
  shows "\<exists>l'. length l' = length l \<and>
    bind_line (length pre) (pre @ l @ NL # post) bc =
      Inr (Some (length pre + length l + 1), pre @ l' @ NUL # post, bind_line_ref l bc)"
proof -
  let ?m = "pre @ l @ NUL # post"
  have pc: "put_char (pre @ l @ NL # post) (length pre + length l) NUL = Inr ?m"
    by (simp add: put_char_def list_update_append)
  have c: "?m ! length pre = CHR ''#'' \<longleftrightarrow> l \<noteq> [] \<and> hd l = CHR ''#''" by (cases l) (auto simp: nth_append)
  have st: "length pre < length ?m" by simp
  obtain ps l' where sp: "str_split None ?m (length pre) 4 = Inr (ps, pre @ l' @ NUL # post)" "length l' = length l"
    "list_all2 (\<lambda>p w. cstr (pre @ l' @ NUL # post) p = w) ps (split_ref default_ifs 4 l)"
    using split_loop_ref [of default_ifs l 4 pre post] assms(2) by (auto simp: str_split_def simp del: split_loop.simps)
  have fs: "map (cstr (pre @ l' @ NUL # post)) ps = split_ref default_ifs 4 l"
    using sp(3) by (simp add: list_all2_conv_all_nth list_eq_iff_nth_eq)
  then have len: "length ps = length (split_ref default_ifs 4 l)" by (metis length_map)
  show ?thesis
  proof (cases "l \<noteq> [] \<and> hd l = CHR ''#''")
    case True
    then have "bind_line_ref l bc = bc" by (simp add: bind_line_ref_def Let_def)
    then show ?thesis using True c st pc find_nl_here [OF assms(1,2), of pre post]
      by (intro exI [of _ l]) (simp add: bind_line_def)
  next
    case False
    then have cc: "?m ! length pre \<noteq> CHR ''#''" using c by blast
    show ?thesis
    proof (cases "length (split_ref default_ifs 4 l) = 4")
      case True
      then have "bind_line_ref l bc = bc\<lparr>configs := (configs bc)[bind_num bc :=
          fill_conf (split_ref default_ifs 4 l) (configs bc ! bind_num bc)], bind_num := bind_num bc + 1\<rparr>"
        using False by (auto simp: bind_line_ref_def simp del: split_ref.simps)
      moreover from this assms(3) have "bind_num bc < length (configs bc)" by simp
      ultimately have "add_conf (split_ref default_ifs 4 l) bc = Inr (bind_line_ref l bc)" by (simp add: add_conf_def)
      then show ?thesis using True cc st pc find_nl_here [OF assms(1,2), of pre post] sp fs len
        by (intro exI [of _ l']) (simp add: bind_line_def)
    next
      case no: False
      then have "bind_line_ref l bc = bc" by (simp add: bind_line_ref_def Let_def)
      then show ?thesis using no cc st pc find_nl_here [OF assms(1,2), of pre post] sp len
        by (intro exI [of _ l']) (simp add: bind_line_def)
    qed
  qed
qed

section \<open>The whole file\<close>

lemma bind_line_ref_mono:
  "bind_num bc \<le> bind_num (bind_line_ref l bc)" "length (configs (bind_line_ref l bc)) = length (configs bc)"
  by (simp_all add: bind_line_ref_def Let_def)

lemma bind_fold_mono: "bind_num bc \<le> bind_num (fold bind_line_ref ls bc)"
  by (induction ls arbitrary: bc) (auto intro: le_trans [OF bind_line_ref_mono(1)])

lemma bind_loop_lines:
  assumes "\<forall>l\<in>set ls. NL \<notin> set l \<and> NUL \<notin> set l" "bind_num (fold bind_line_ref ls bc) \<le> length (configs bc)"
    "length pre + length (unlines ls) \<le> len"
  shows "\<exists>pre'. length pre' = length pre + length (unlines ls) \<and>
    bind_loop (length ls + k) len (Some (length pre)) (pre @ unlines ls @ post) bc =
      bind_loop k len (Some (length pre')) (pre' @ post) (fold bind_line_ref ls bc)"
  using assms
proof (induction ls arbitrary: pre bc)
  case Nil
  then show ?case by (auto simp: unlines_def)
next
  case (Cons l ls)
  have u: "unlines (l # ls) = l @ NL # unlines ls" by (simp add: unlines_def)
  have b: "bind_num (bind_line_ref l bc) \<le> length (configs bc)"
    using bind_fold_mono [of "bind_line_ref l bc" ls] Cons.prems(2) by simp
  obtain l' where l': "length l' = length l" "bind_line (length pre) (pre @ l @ NL # unlines ls @ post) bc =
      Inr (Some (length pre + length l + 1), pre @ l' @ NUL # unlines ls @ post, bind_line_ref l bc)"
    using bind_line_ok [of l bc pre "unlines ls @ post"] Cons.prems(1) b by auto
  let ?pre = "pre @ l' @ [NUL]"
  have "\<exists>pre'. length pre' = length ?pre + length (unlines ls) \<and>
      bind_loop (length ls + k) len (Some (length ?pre)) (?pre @ unlines ls @ post) (bind_line_ref l bc) =
      bind_loop k len (Some (length pre')) (pre' @ post) (fold bind_line_ref ls (bind_line_ref l bc))"
    using Cons.prems l'(1) by (intro Cons.IH) (simp_all add: bind_line_ref_mono u)
  moreover have "len > length pre" using Cons.prems(3) by (simp add: u)
  ultimately show ?case using l' by (simp add: u add.assoc)
qed

lemma load_bind_file_steps:
  assumes "\<forall>l\<in>set ls. NL \<notin> set l \<and> NUL \<notin> set l" "bind_num (fold bind_line_ref ls bc) \<le> length (configs bc)"
    "NUL \<notin> set r"
  shows "\<exists>pre k. length pre = length (unlines ls) \<and> length r < k \<and>
    load_bind_file (Some (unlines ls @ r)) True (length (unlines ls @ r)) bc =
      bindR (bind_loop k (length pre + length r) (Some (length pre)) (pre @ r @ [NUL]) (fold bind_line_ref ls bc))
        (\<lambda>bc1. Inr (0, bc1))"
proof -
  let ?u = "unlines ls"
  have nn: "NUL \<notin> set (?u @ r)" using assms(1,3) by (auto simp: unlines_def)
  have c: "cstr (?u @ r @ [NUL]) 0 = ?u @ r" using cstr_here [OF nn, of "[]" "[]"] by simp
  define k where "k = Suc (length (?u @ r @ [NUL])) - length ls"
  have k: "Suc (length (?u @ r @ [NUL])) = length ls + k" "length r < k"
    using length_unlines [of ls] by (simp_all add: k_def)
  obtain pre where pre: "length pre = length ?u" "bind_loop (length ls + k) (length (?u @ r)) (Some 0) (?u @ r @ [NUL]) bc =
      bind_loop k (length (?u @ r)) (Some (length pre)) (pre @ r @ [NUL]) (fold bind_line_ref ls bc)"
    using bind_loop_lines [OF assms(1,2), of "[]" "length (?u @ r)" k "r @ [NUL]"] by auto
  have "load_bind_file (Some (?u @ r)) True (length (?u @ r)) bc =
      bindR (bind_loop (Suc (length (?u @ r @ [NUL]))) (length (cstr (?u @ r @ [NUL]) 0)) (Some 0) (?u @ r @ [NUL]) bc)
        (\<lambda>bc1. Inr (0, bc1))"
    by (simp add: load_bind_file_def mmap_config_file_def Let_def del: bind_loop.simps)
  then show ?thesis using pre unfolding c k(1) by (intro exI [of _ pre] exI [of _ k]) (simp add: k(2))
qed

section \<open>Properties\<close>

text \<open>
  C18: \<open>str_split\<close> cuts a line in place the way the reference splits the string: with at least one
  field wanted, the pointers it returns lead, in the memory it leaves, to exactly the fields of the
  reference (the last one running to the end of the line without trailing separators), and
  nothing outside the line is written.
\<close>

theorem str_split_correct:
  assumes "NUL \<notin> set line" "0 < n"
  shows "\<exists>ps line'. str_split None (pre @ line @ NUL # post) (length pre) n = Inr (ps, pre @ line' @ NUL # post) \<and>
    length line' = length line \<and> map (cstr (pre @ line' @ NUL # post)) ps = split_ref default_ifs n line"
proof -
  from split_loop_ref [of default_ifs line n pre post] assms obtain ps line' where
    "split_loop default_ifs n (pre @ line @ NUL # post) (length pre) = Inr (ps, pre @ line' @ NUL # post)"
    "length line' = length line"
    "list_all2 (\<lambda>p w. cstr (pre @ line' @ NUL # post) p = w) ps (split_ref default_ifs n line)" by auto
  then show ?thesis
    by (auto simp: str_split_def list_all2_conv_all_nth list_eq_iff_nth_eq intro!: exI [of _ ps] exI [of _ line'])
qed

theorem str_split_correct_witness:
  "\<exists>ps line'. str_split None (''ab'' @ '' run = back ground '' @ [NUL]) (length ''ab'') 2 = Inr (ps, ''ab'' @ line' @ [NUL]) \<and>
     map (cstr (''ab'' @ line' @ [NUL])) ps = [''run'', ''back ground'']"
proof -
  have r: "split_ref default_ifs 2 '' run = back ground '' = [''run'', ''back ground'']" by code_simp
  have n: "NUL \<notin> set '' run = back ground ''" by simp
  from str_split_correct [OF n, of 2 "''ab''" "[]"] show ?thesis unfolding r by fastforce
qed

text \<open>
  C31: \<open>load_bind_file\<close> reads a bind file line by line: for a file whose lines all end in a newline and
  that defines no more entries than there is room for, it returns 0 and the table holds one
  entry, in order, for every line that is not a comment and has four fields; other lines change
  nothing.
\<close>

theorem load_bind_file_reads:
  assumes "\<forall>l\<in>set ls. NL \<notin> set l \<and> NUL \<notin> set l" "bind_num (fold bind_line_ref ls bc) \<le> length (configs bc)"
  shows "load_bind_file (Some (unlines ls)) True (length (unlines ls)) bc = Inr (0, fold bind_line_ref ls bc)"
proof -
  obtain pre k where "length pre = length (unlines ls)" "0 < k"
    "load_bind_file (Some (unlines ls)) True (length (unlines ls)) bc =
      bindR (bind_loop k (length pre) (Some (length pre)) (pre @ [NUL]) (fold bind_line_ref ls bc)) (\<lambda>bc1. Inr (0, bc1))"
    using load_bind_file_steps [OF assms, of "[]"] by auto
  then show ?thesis by (cases k) simp_all
qed

definition no_queue :: shm_queue where
  "no_queue = \<lparr>mapped = False, head = 0, tail = 0, mem = [], q_length = 0, pipe_handles = (0, 0), notified = 0\<rparr>"

definition zero_conf :: bind_config_info where
  "zero_conf = \<lparr>server_id = 0, server_name = [], bind_ip = [], bind_port = 0, restart_cnt = 0,
     sendq = no_queue, recvq = no_queue\<rparr>"

definition demo_binds :: bind_config where
  "demo_binds = \<lparr>bind_num = 0, configs = [zero_conf, zero_conf]\<rparr>"

definition demo_bind_file :: "string list" where
  "demo_bind_file = [''# id name ip port'', [], ''3 echo 127.0.0.1 80'', ''bad line'', ''4 b 10.0.0.1 81 '']"

theorem load_bind_file_reads_witness:
  "\<exists>bc. load_bind_file (Some (unlines demo_bind_file)) True (length (unlines demo_bind_file)) demo_binds = Inr (0, bc) \<and>
     bind_num bc = 2 \<and> bind_port (configs bc ! 1) = 81 \<and> bind_ip (configs bc ! 0) = ''127.0.0.1''"
proof -
  have l: "\<forall>l\<in>set demo_bind_file. NL \<notin> set l \<and> NUL \<notin> set l" by (simp add: demo_bind_file_def)
  have b: "bind_num (fold bind_line_ref demo_bind_file demo_binds) = 2"
    "bind_port (configs (fold bind_line_ref demo_bind_file demo_binds) ! 1) = 81"
    "bind_ip (configs (fold bind_line_ref demo_bind_file demo_binds) ! 0) = ''127.0.0.1''" by code_simp+
  have "length (configs demo_binds) = 2" by (simp add: demo_binds_def)
  with load_bind_file_reads [OF l, of demo_binds] b show ?thesis by simp
qed

text \<open>
  A bind file whose last line lacks its newline crashes the server: whatever the line holds, the
  loop goes on from the address after the null pointer.
\<close>

theorem load_bind_file_no_newline:
  assumes "\<forall>l\<in>set ls. NL \<notin> set l \<and> NUL \<notin> set l" "bind_num (fold bind_line_ref ls bc) \<le> length (configs bc)"
    "r \<noteq> []" "NL \<notin> set r" "NUL \<notin> set r"
  shows "load_bind_file (Some (unlines ls @ r)) True (length (unlines ls @ r)) bc = Inl Segv"
proof -
  obtain pre k where k: "length pre = length (unlines ls)" "length r < k"
    "load_bind_file (Some (unlines ls @ r)) True (length (unlines ls @ r)) bc =
      bindR (bind_loop k (length pre + length r) (Some (length pre)) (pre @ r @ [NUL]) (fold bind_line_ref ls bc))
        (\<lambda>bc1. Inr (0, bc1))"
    using load_bind_file_steps [OF assms(1,2,5)] by blast
  let ?m = "pre @ r @ [NUL]" and ?bc = "fold bind_line_ref ls bc"
  obtain f where f: "k = Suc (Suc f)" 
  proof -
    have "1 < k" using k(2) assms(3) by (cases r) auto
    then show ?thesis using that less_imp_Suc_add [of 1 k] by auto
  qed
  have n: "find_nl ?m (length pre) = None" using cstr_here [OF assms(5), of pre "[]"] assms(4) by (simp add: find_nl_def)
  obtain ps l' where sp: "str_split None ?m (length pre) 4 = Inr (ps, pre @ l' @ [NUL])"
    using split_loop_ref [of default_ifs r 4 pre "[]"] assms(5) by (auto simp: str_split_def simp del: split_loop.simps)
  have "bind_line (length pre) ?m ?bc = Inl Segv \<or> (\<exists>m' bc'. bind_line (length pre) ?m ?bc = Inr (None, m', bc'))"
    unfolding bind_line_def n Let_def option.case bindR.simps by (simp add: sp add_conf_def)
  then have "bind_loop k (length pre + length r) (Some (length pre)) ?m ?bc = Inl Segv"
    using assms(3) by (auto simp: f)
  then show ?thesis using k(3) by simp
qed

theorem load_bind_file_no_newline_witness:
  "load_bind_file (Some ''1 a 0.0.0.0 80'') True (length ''1 a 0.0.0.0 80'') demo_binds = Inl Segv"
  using load_bind_file_no_newline [of "[]" demo_binds "''1 a 0.0.0.0 80''"] by (simp add: unlines_def demo_binds_def)

end
