(* ===== verification/Mp_Daemon.thy ===== *)
theory Mp_Daemon
  imports Mp_Loop Mp_Bindconf
begin

text \<open>
  Process control (\<open>src/src/daemon.c\<close>), plugin loading (\<open>src/src/dll.c\<close>) and the main
  program (\<open>src/src/main.c\<close>).  The record \<open>daemon\<close> adds the flags set by signal handlers and the
  saved arguments to the state of the parent process.  Signals are events that arrive between two
  steps; a list of them is an argument of the loops that wait for them.
\<close>

section \<open>State and signal handlers\<close>

datatype signal = TermSig | HupSig | ChldSig "int list"

record 't daemon =
  d_world :: "'t world"
  sig_stop :: bool
  sig_restart :: bool
  term_signal :: bool
  backgd_mode :: bool
  max_fd_num :: int
  saved_argv :: "string list option"
  prog_name :: "string option"
  current_dir :: "string option"
  arg_area :: string

definition sigterm_handler :: "'t daemon \<Rightarrow> 't daemon" where
  "sigterm_handler s = s\<lparr>sig_stop := True, sig_restart := False, term_signal := True\<rparr>"

definition sighup_handler :: "'t daemon \<Rightarrow> 't daemon" where
  "sighup_handler s = s\<lparr>sig_restart := True, sig_stop := True\<rparr>"

text \<open>The inner loop of \<open>sigchld_handler\<close> runs over the slots 0 and 1 only.\<close>

fun clear_pid :: "nat list \<Rightarrow> int \<Rightarrow> int list \<Rightarrow> int list" where
  "clear_pid [] pid ps = ps"
| "clear_pid (i # is) pid ps = (if atomic_read ps i = pid then atomic_set ps i 0 else clear_pid is pid ps)"

definition clear_slots :: "int \<Rightarrow> int list \<Rightarrow> int list" where
  "clear_slots = clear_pid [0, 1]"

text \<open>\<open>pids\<close> are the positive answers of \<open>waitpid\<close>.\<close>

definition sigchld_handler :: "int list \<Rightarrow> 't daemon \<Rightarrow> 't daemon" where
  "sigchld_handler pids s =
     s\<lparr>d_world := (d_world s)\<lparr>child_pids := fold clear_slots pids (child_pids (d_world s))\<rparr>\<rparr>"

fun deliver :: "signal \<Rightarrow> 't daemon \<Rightarrow> 't daemon" where
  "deliver TermSig s = sigterm_handler s"
| "deliver HupSig s = sighup_handler s"
| "deliver (ChldSig pids) s = sigchld_handler pids s"

section \<open>Starting\<close>

definition max_listen_fds :: nat where
  "max_listen_fds = 500"

definition dup_argv :: "bool \<Rightarrow> string list \<Rightarrow> 't daemon \<Rightarrow> 't daemon" where
  "dup_argv malloc_ok argv s = s\<lparr>saved_argv := (if malloc_ok then Some argv else None)\<rparr>"

definition rlimit_reset :: "dictionary option \<Rightarrow> 't daemon \<Rightarrow> 't daemon res" where
  "rlimit_reset ini s =
     bindR (iniparser_getint ini (Some ''max_open_fd'') 20000) (\<lambda>n. Inr (s\<lparr>max_fd_num := n\<rparr>))"

definition strcasecmp_eq :: "string \<Rightarrow> string \<Rightarrow> bool" where
  "strcasecmp_eq a b \<longleftrightarrow> map tolower a = map tolower b"

text \<open>The arguments lie one after the other in memory, each with its terminator.\<close>

definition daemon_start :: "dictionary option \<Rightarrow> bool \<Rightarrow> string list \<Rightarrow> 't daemon \<Rightarrow> 't daemon res" where
  "daemon_start ini malloc_ok argv s =
     bindR (rlimit_reset ini s) (\<lambda>s1.
     let s2 = dup_argv malloc_ok argv (s1\<lparr>arg_area := concat (map (\<lambda>a. a @ [NUL]) argv)\<rparr>) in
     bindR (iniparser_getstring ini (Some ''run_mode'') NULLP) (\<lambda>style.
       case style of
         NULLP \<Rightarrow> Inr (s2\<lparr>backgd_mode := True\<rparr>)
       | Str t \<Rightarrow> Inr (if strcasecmp_eq ''background'' t then s2\<lparr>backgd_mode := True\<rparr> else s2)
       | INVALID_KEY \<Rightarrow> Inl Segv))"

definition clean_child_pids :: "'t world \<Rightarrow> 't world" where
  "clean_child_pids w = w\<lparr>child_pids := replicate max_listen_fds 0\<rparr>"

section \<open>Stopping\<close>

definition children_gone :: "'t daemon \<Rightarrow> bool" where
  "children_gone s \<longleftrightarrow> list_all (\<lambda>i. atomic_read (child_pids (d_world s)) i = 0) [0..<bind_num (bindconf (d_world s))]"

text \<open>The pids \<open>SIGTERM\<close> is sent to.\<close>

definition kill_list :: "'t daemon \<Rightarrow> int list" where
  "kill_list s = filter (\<lambda>p. p \<noteq> 0) (map (atomic_read (child_pids (d_world s))) [0..<bind_num (bindconf (d_world s))])"

text \<open>
  The waiting loop of \<open>killall_children\<close>: the state changes only through the signals that arrive
  while it sleeps.  When the list of signals is used up the loop is still waiting.
\<close>

fun wait_children :: "signal list \<Rightarrow> 't daemon \<Rightarrow> 't daemon res" where
  "wait_children [] s = (if children_gone s then Inr s else Inl Blocked)"
| "wait_children (sg # sgs) s = (if children_gone s then Inr s else wait_children sgs (deliver sg s))"

definition killall_children :: "signal list \<Rightarrow> 't daemon \<Rightarrow> (int list \<times> 't daemon) res" where
  "killall_children sgs s =
     (if length (child_pids (d_world s)) < bind_num (bindconf (d_world s)) then Inl Segv
      else bindR (wait_children sgs s) (\<lambda>s1. Inr (kill_list s, s1)))"

definition free_argv :: "'t daemon \<Rightarrow> 't daemon res" where
  "free_argv s = (case saved_argv s of None \<Rightarrow> Inl Segv | Some _ \<Rightarrow> Inr (s\<lparr>saved_argv := None\<rparr>))"

text \<open>\<open>execv\<close> replaces the program when it succeeds.\<close>

datatype 't stop_result = Execd string "string list" | Stopped "'t daemon"

definition daemon_stop :: "bool \<Rightarrow> 't daemon \<Rightarrow> 't stop_result res" where
  "daemon_stop exec_ok s =
     (let finish = bindR (free_argv s) (\<lambda>s1. Inr (Stopped (s1\<lparr>prog_name := None, current_dir := None\<rparr>))) in
      case prog_name s of None \<Rightarrow> finish
      | Some p \<Rightarrow>
        (case saved_argv s of None \<Rightarrow> finish
         | Some argv \<Rightarrow> if sig_restart s \<and> exec_ok then Inr (Execd p argv) else finish))"

text \<open>
  \<open>daemon_set_title\<close> for the formatted title \<open>t\<close>.  \<open>env_start\<close> is never set, so the area is the
  one of the arguments; \<open>vsnprintf\<close> cuts the title to 62 characters.
\<close>

definition daemon_set_title :: "string \<Rightarrow> 't daemon \<Rightarrow> 't daemon res" where
  "daemon_set_title t s =
     (let title = take 62 t; tlen = length title + 1; i = length (arg_area s) in
      if tlen = i then Inr (s\<lparr>arg_area := title @ [NUL]\<rparr>)
      else if tlen < i then Inr (s\<lparr>arg_area := title @ [NUL] @ replicate (i - tlen) NUL\<rparr>)
      else if i = 0 then Inl Segv
      else Inr (s\<lparr>arg_area := take (i - 1) title @ [NUL]\<rparr>))"

section \<open>Plugin loading\<close>

text \<open>
  \<open>has\<close> says which symbols the library defines.  The result is the return code, whether a handle
  is kept, and the entry points that are set, in the order they are looked up.
\<close>

definition optional_syms :: "string list" where
  "optional_syms = [''init_service'', ''fini_service'', ''proc_mcast_pkg'', ''proc_udp_pkg'']"

definition required_syms :: "string list" where
  "required_syms = [''get_pkg_len'', ''proc_pkg_from_client'', ''proc_pkg_from_serv'', ''on_client_conn_closed'', ''on_fd_closed'']"

definition register_plugin :: "bool \<Rightarrow> (string \<Rightarrow> bool) \<Rightarrow> int \<times> bool \<times> string list" where
  "register_plugin dlopen_ok has =
     (if \<not> dlopen_ok then (-1, False, [])
      else let opt = filter has optional_syms; req = takeWhile has required_syms in
        if req = required_syms then (0, True, opt @ req) else (-1, False, opt @ req))"

definition unregister_plugin :: "bool \<Rightarrow> bool" where
  "unregister_plugin handle = False"

section \<open>The main program\<close>

definition parse_args :: "string list \<Rightarrow> string option \<Rightarrow> 't daemon \<Rightarrow> 't daemon res" where
  "parse_args argv cwd s =
     (case argv of [] \<Rightarrow> Inl Segv
      | a0 # rest \<Rightarrow>
        if length argv < 2 \<or> argv ! 1 = ''--help'' \<or> argv ! 1 = ''-h'' then Inl (Exit (-1))
        else Inr (s\<lparr>prog_name := Some a0, current_dir := cwd\<rparr>))"

text \<open>The settings \<open>main\<close> reads; \<open>def_page_size\<close> replaces a page size that is not positive.\<close>

definition read_settings :: "dictionary option \<Rightarrow> 't world \<Rightarrow> 't world res" where
  "read_settings ini w =
     bindR (iniparser_getint ini (Some ''server:cli_socket_timeout'') 0) (\<lambda>tmo.
     bindR (iniparser_getint ini (Some ''server:incoming_packet_max_size'') (-1)) (\<lambda>ps.
     bindR (iniparser_getint ini (Some ''server:send_buf_limit_size'') 0) (\<lambda>lim.
       Inr (w\<lparr>socket_timeout := tmo, page_size := (if ps \<le> 0 then 8192 else word_of_int ps),
              send_buf_limit_size := word_of_int lim\<rparr>))))"

definition start_worker ::
  "int \<Rightarrow> (nat \<Rightarrow> fork_env) \<Rightarrow> (nat \<Rightarrow> listen_env) \<Rightarrow> (nat \<Rightarrow> nat \<Rightarrow> 't world \<Rightarrow> 't world res) \<Rightarrow> nat \<Rightarrow> 't world \<Rightarrow> 't world res"
where
  "start_worker shmq_length fk lst run_worker i w =
     (if length (configs (bindconf w)) \<le> i then Inl Segv
      else bindR (shmq_create shmq_length (fk_mmap (fk i)) (fk_pipes (fk i)) (configs (bindconf w) ! i)) (\<lambda>(c, e).
        let w1 = set_conf i e w; pid = fk_pid (fk i) in
        if pid < 0 then Inr w1
        else if pid > 0 then
          bindR (do_add_conn (nat (fst (pipe_handles (sendq e)))) fd_type_pipe None (Some i)
                   (w1\<lparr>closed := closed w1 @ map nat (close_shmq_pipe (bindconf w1) i False)\<rparr>)) (\<lambda>w2.
          bindR (net_start (lst i) (Some i) w2) (\<lambda>(r, w3).
          if length (child_pids w3) \<le> i then Inl Segv
          else Inr (w3\<lparr>child_pids := atomic_set (child_pids w3) i pid\<rparr>)))
        else run_worker i (i + 1) w1))"

text \<open>
  The loop of the parent: before each iteration the signals of one element of the list have been
  delivered.  It leaves the loop on \<open>stop && term_signal\<close> or when \<open>net_loop\<close> returns -1.
\<close>

fun parent_loop ::
  "signal list list \<Rightarrow> nat \<Rightarrow> 't serv_if \<Rightarrow> 't ght \<Rightarrow> bool \<Rightarrow> (nat \<Rightarrow> 't world \<Rightarrow> 't world res) \<Rightarrow> 't daemon \<Rightarrow> 't daemon res"
where
  "parent_loop [] fuel dll g malloc_ok restart s = Inl Blocked"
| "parent_loop (sg # sgs) fuel dll g malloc_ok restart s =
     (let s1 = fold deliver sg s in
      if sig_stop s1 \<and> term_signal s1 then
        (case fini_service dll of None \<Rightarrow> Inr s1
         | Some f \<Rightarrow> bindR (f True (d_world s1)) (\<lambda>(r, w). Inr (s1\<lparr>d_world := w\<rparr>)))
      else
        bindR (net_loop fuel dll g malloc_ok restart (page_size (d_world s1)) True (d_world s1)) (\<lambda>(r, w).
          if r = -1 then Inr (s1\<lparr>d_world := w\<rparr>)
          else parent_loop sgs fuel dll g malloc_ok restart (s1\<lparr>d_world := w\<rparr>)))"

text \<open>Answers of the environment during start-up and shutdown.\<close>

record main_env =
  me_ini :: "string option"
  me_files :: "string \<Rightarrow> string option"
  me_cwd :: "string option"
  me_epfd :: int
  me_fork :: "nat \<Rightarrow> fork_env"
  me_listen :: "nat \<Rightarrow> listen_env"
  me_exec_ok :: bool

definition load_bind_conf :: "main_env \<Rightarrow> dictionary option \<Rightarrow> 't world \<Rightarrow> 't world res" where
  "load_bind_conf me ini w =
     bindR (iniparser_getstring ini (Some ''server:bind_conf'') NULLP) (\<lambda>p.
     let file = (case p of Str f \<Rightarrow> me_files me f | _ \<Rightarrow> None) in
     bindR (load_bind_file file True (case file of None \<Rightarrow> 0 | Some t \<Rightarrow> length t) (bindconf w)) (\<lambda>(r, bc).
       Inr (w\<lparr>bindconf := bc\<rparr>)))"

definition main_init ::
  "main_env \<Rightarrow> 't serv_if \<Rightarrow> string list \<Rightarrow> 't daemon \<Rightarrow> (dictionary option \<times> 't daemon) res"
where
  "main_init me dll argv s0 =
     bindR (parse_args argv (me_cwd me) s0) (\<lambda>s1.
     bindR (iniparser_load True alloc_ok (\<lambda>_. alloc_ok) (me_ini me)) (\<lambda>ini.
     bindR (daemon_start ini True argv s1) (\<lambda>s2.
     bindR (load_bind_conf me ini (renew_now (d_world s2))) (\<lambda>w1.
     bindR (read_settings ini w1) (\<lambda>w2.
     let w3 = snd (net_init (me_epfd me) True (nat (max_fd_num s2)) w2) in
     bindR (case init_service dll of None \<Rightarrow> Inr (0, w3) | Some f \<Rightarrow> f True w3) (\<lambda>(r, w4).
       Inr (ini, s2\<lparr>d_world := clean_child_pids w4\<rparr>)))))))"

definition server_main ::
  "main_env \<Rightarrow> 't serv_if \<Rightarrow> 't ght \<Rightarrow> nat \<Rightarrow> signal list list \<Rightarrow> signal list \<Rightarrow>
   (nat \<Rightarrow> nat \<Rightarrow> 't world \<Rightarrow> 't world res) \<Rightarrow> (nat \<Rightarrow> 't world \<Rightarrow> 't world res) \<Rightarrow>
   string list \<Rightarrow> 't daemon \<Rightarrow> 't stop_result res"
where
  "server_main me dll g fuel sigs wait_sigs run_worker restart argv s0 =
     bindR (main_init me dll argv s0) (\<lambda>(ini, s1).
     bindR (iniparser_getint ini (Some ''shmq_length'') (2 ^ 26)) (\<lambda>len.
     bindR (foldR (start_worker len (me_fork me) (me_listen me) run_worker)
              [0..<bind_num (bindconf (d_world s1))] (d_world s1)) (\<lambda>w2.
     bindR (parent_loop sigs fuel dll g True restart (s1\<lparr>d_world := w2\<rparr>)) (\<lambda>s3.
     bindR (killall_children wait_sigs s3) (\<lambda>(ks, s4).
     bindR (net_exit (d_world s4)) (\<lambda>w5.
       daemon_stop (me_exec_ok me)
         (s4\<lparr>d_world := w5\<lparr>bindconf := shmq_destroy None (bind_num (bindconf w5)) (bindconf w5)\<rparr>\<rparr>)))))))"

section \<open>Signals and the loop of the parent\<close>

text \<open>The control signals that arrived, in order; child signals do not change the flags.\<close>

fun last_control :: "signal list \<Rightarrow> signal option" where
  "last_control [] = None"
| "last_control (sg # sgs) =
     (case last_control sgs of Some x \<Rightarrow> Some x
      | None \<Rightarrow> if sg = TermSig \<or> sg = HupSig then Some sg else None)"

text \<open>
  The parent as a state machine: a signal is delivered, or an iteration of \<open>net_loop\<close> changes the
  rest of the state.  The trace holds the signals delivered so far.
\<close>

inductive parent_run :: "'t daemon \<Rightarrow> signal list \<Rightarrow> 't daemon \<Rightarrow> bool" for s0 where
  start: "parent_run s0 [] s0"
| signal: "parent_run s0 tr s \<Longrightarrow> parent_run s0 (tr @ [sg]) (deliver sg s)"
| iterate: "parent_run s0 tr s \<Longrightarrow> parent_run s0 tr (s\<lparr>d_world := w\<rparr>)"

inductive_cases parent_run_nilE: "parent_run s0 [] s"

definition flags_of :: "signal list \<Rightarrow> 't daemon \<Rightarrow> bool" where
  "flags_of tr s \<longleftrightarrow> (term_signal s \<longleftrightarrow> TermSig \<in> set tr) \<and> (sig_stop s \<longleftrightarrow> last_control tr \<noteq> None) \<and>
     (sig_restart s \<longleftrightarrow> last_control tr = Some HupSig)"

lemma last_control_snoc:
  "last_control (tr @ [sg]) = (if sg = TermSig \<or> sg = HupSig then Some sg else last_control tr)"
  by (induction tr) (auto split: option.splits)

lemma last_control_Term: "TermSig \<in> set tr \<Longrightarrow> last_control tr \<noteq> None"
  by (induction tr) (auto split: option.splits)

lemma parent_run_flags:
  assumes "parent_run s0 tr s" "flags_of [] s0"
  shows "flags_of tr s"
  using assms
proof (induction rule: parent_run.induct)
  case (signal tr s sg)
  then show ?case
    by (cases sg) (auto simp: flags_of_def last_control_snoc sigterm_handler_def sighup_handler_def sigchld_handler_def)
qed (simp_all add: flags_of_def)

lemma parent_run_signals: "parent_run s0 tr s \<Longrightarrow> parent_run s0 (tr @ sgs) (fold deliver sgs s)"
proof (induction sgs arbitrary: tr s)
  case (Cons sg sgs)
  from Cons.IH [OF parent_run.signal [OF Cons.prems], of sg] show ?case by simp
qed simp

lemma parent_loop_run:
  assumes "parent_loop sigs fuel dll g ok restart s = Inr s'" "parent_run s0 tr s"
  shows "\<exists>k. parent_run s0 (tr @ concat (take k sigs)) s' \<and>
    (TermSig \<in> set (tr @ concat (take k sigs)) \<or>
     (\<exists>w w'. net_loop fuel dll g ok restart (page_size w) True w = Inr (-1, w')) \<or> \<not> flags_of [] s0)"
  using assms
proof (induction sigs arbitrary: s tr)
  case (Cons sg sgs)
  define s1 where "s1 = fold deliver sg s"
  have run: "parent_run s0 (tr @ sg) s1" using parent_run_signals [OF Cons.prems(2)] by (simp add: s1_def)
  have flags: "flags_of [] s0 \<Longrightarrow> flags_of (tr @ sg) s1" by (rule parent_run_flags [OF run])
  show ?case
  proof (cases "sig_stop s1 \<and> term_signal s1")
    case True
    then obtain w where "s' = s1 \<or> s' = s1\<lparr>d_world := w\<rparr>"
      using Cons.prems(1) by (auto simp: s1_def [symmetric] Let_def split: option.splits)
    then have "parent_run s0 (tr @ sg) s'" using run parent_run.iterate [OF run] by auto
    moreover have "flags_of [] s0 \<Longrightarrow> TermSig \<in> set (tr @ sg)" using flags True by (simp add: flags_of_def)
    ultimately show ?thesis by (intro exI [of _ 1]) auto
  next
    case False
    then obtain r w where n: "net_loop fuel dll g ok restart (page_size (d_world s1)) True (d_world s1) = Inr (r, w)"
      "(if r = -1 then Inr (s1\<lparr>d_world := w\<rparr>) else parent_loop sgs fuel dll g ok restart (s1\<lparr>d_world := w\<rparr>)) = Inr s'"
      using Cons.prems(1) by (auto simp: s1_def [symmetric] Let_def)
    have run': "parent_run s0 (tr @ sg) (s1\<lparr>d_world := w\<rparr>)" by (rule parent_run.iterate [OF run])
    show ?thesis
    proof (cases "r = -1")
      case True
      then show ?thesis using n run' by (intro exI [of _ 1]) auto
    next
      case False
      then have p: "parent_loop sgs fuel dll g ok restart (s1\<lparr>d_world := w\<rparr>) = Inr s'" using n(2) by simp
      from Cons.IH [OF p run'] obtain k where
        "parent_run s0 ((tr @ sg) @ concat (take k sgs)) s'"
        "TermSig \<in> set ((tr @ sg) @ concat (take k sgs)) \<or>
         (\<exists>w w'. net_loop fuel dll g ok restart (page_size w) True w = Inr (-1, w')) \<or> \<not> flags_of [] s0" by blast
      then show ?thesis by (intro exI [of _ "Suc k"]) auto
    qed
  qed
qed simp

section \<open>Waiting for the children\<close>

lemma length_clear_pid [simp]: "length (clear_pid is p ps) = length ps"
  by (induction "is") auto

lemma clear_pid_other: "j \<notin> set is \<Longrightarrow> clear_pid is p ps ! j = ps ! j"
  by (induction "is") auto

lemma fold_clear_other: "2 \<le> j \<Longrightarrow> fold clear_slots pids ps ! j = ps ! j"
  by (induction pids arbitrary: ps) (auto simp: clear_slots_def clear_pid_other)

lemma deliver_bind_num [simp]: "bindconf (d_world (deliver sg s)) = bindconf (d_world s)"
  by (cases sg) (auto simp: sigterm_handler_def sighup_handler_def sigchld_handler_def)

lemma deliver_third: "child_pids (d_world (deliver sg s)) ! 2 = child_pids (d_world s) ! 2"
  by (cases sg) (auto simp: sigterm_handler_def sighup_handler_def sigchld_handler_def fold_clear_other)

lemma wait_children_stuck:
  assumes "3 \<le> bind_num (bindconf (d_world s))" "child_pids (d_world s) ! 2 \<noteq> 0"
  shows "wait_children sgs s = Inl Blocked"
  using assms
proof (induction sgs arbitrary: s)
  case Nil
  then show ?case by (auto simp: children_gone_def list_all_iff)
next
  case (Cons sg sgs)
  then show ?case by (auto simp: children_gone_def list_all_iff deliver_third)
qed

lemma wait_children_ends: "children_gone (fold deliver sgs s) \<Longrightarrow> \<exists>s'. wait_children sgs s = Inr s' \<and> children_gone s'"
  by (induction sgs arbitrary: s) auto

fun reaped :: "signal list \<Rightarrow> int set" where
  "reaped [] = {}"
| "reaped (ChldSig ps # sgs) = set ps \<union> reaped sgs"
| "reaped (sg # sgs) = reaped sgs"

text \<open>Two slots: \<open>a\<close> and \<open>b\<close> are their contents, distinct unless both are free.\<close>

definition two_slots :: "int list \<Rightarrow> int \<Rightarrow> int \<Rightarrow> bool" where
  "two_slots ps a b \<longleftrightarrow> 2 \<le> length ps \<and> ps ! 0 = a \<and> ps ! 1 = b \<and> (a = b \<longrightarrow> a = 0)"

lemma clear_two:
  assumes "two_slots ps a b" "p > 0"
  shows "two_slots (clear_slots p ps) (if a = p then 0 else a) (if b = p then 0 else b)"
proof -
  from assms(1) obtain x y r where "ps = x # y # r"
    by (cases ps; cases "tl ps") (auto simp: two_slots_def)
  with assms show ?thesis by (auto simp: two_slots_def clear_slots_def)
qed

lemma cleared_twice:
  "(0 :: int) \<notin> B \<Longrightarrow> (if (if a \<in> A then 0 else a) \<in> B then 0 else (if a \<in> A then 0 else a)) = (if a \<in> A \<union> B then 0 else a)"
  by simp

lemma fold_clear_two:
  assumes "two_slots ps a b" "\<forall>p\<in>set pids. p > 0"
  shows "two_slots (fold (clear_slots) pids ps) (if a \<in> set pids then 0 else a) (if b \<in> set pids then 0 else b)"
  using assms
proof (induction pids arbitrary: ps a b)
  case (Cons p pids)
  have p: "p > 0" "0 \<notin> set pids" using Cons.prems(2) by auto
  let ?c = "\<lambda>x. if x \<in> {p} then 0 else x"
  have t: "two_slots (clear_slots p ps) (?c a) (?c b)" using clear_two [OF Cons.prems(1) p(1)] by simp
  from Cons.IH [OF t] Cons.prems(2) have "two_slots (fold (clear_slots) pids (clear_slots p ps))
    (if ?c a \<in> set pids then 0 else ?c a) (if ?c b \<in> set pids then 0 else ?c b)" by simp
  then show ?case unfolding cleared_twice [OF p(2)] by simp
qed simp

lemma deliver_all_two:
  assumes "two_slots (child_pids (d_world s)) a b" "\<forall>p\<in>reaped sgs. p > 0"
  shows "two_slots (child_pids (d_world (fold deliver sgs s)))
    (if a \<in> reaped sgs then 0 else a) (if b \<in> reaped sgs then 0 else b)"
  using assms
proof (induction sgs arbitrary: s a b rule: reaped.induct)
  case (2 pids sgs)
  have "two_slots (child_pids (d_world (deliver (ChldSig pids) s))) (if a \<in> set pids then 0 else a) (if b \<in> set pids then 0 else b)"
    using fold_clear_two [OF 2(2), of pids] 2(3) by (simp add: sigchld_handler_def)
  from 2(1) [OF this] 2(3) have "two_slots (child_pids (d_world (fold deliver (ChldSig pids # sgs) s)))
    (if (if a \<in> set pids then 0 else a) \<in> reaped sgs then 0 else (if a \<in> set pids then 0 else a))
    (if (if b \<in> set pids then 0 else b) \<in> reaped sgs then 0 else (if b \<in> set pids then 0 else b))" by simp
  moreover have "0 \<notin> reaped sgs" using 2(3) by auto
  ultimately show ?case unfolding cleared_twice [OF \<open>0 \<notin> reaped sgs\<close>] by simp
qed (auto simp: sigterm_handler_def sighup_handler_def)

section \<open>The process title\<close>

lemma daemon_set_title_fits:
  assumes "daemon_set_title t s = Inr s'" "NUL \<notin> set t"
  shows "length (arg_area s') = length (arg_area s)"
    "cstr (arg_area s') 0 = take (length (arg_area s) - 1) (take 62 t)"
proof -
  have n: "NUL \<notin> set (take k (take 62 t))" for k using assms(2) by (meson in_set_takeD)
  show "length (arg_area s') = length (arg_area s)"
    using assms(1) by (auto simp: daemon_set_title_def Let_def split: if_splits)
  have "\<exists>post. arg_area s' = take (length (arg_area s) - 1) (take 62 t) @ NUL # post"
    using assms(1) by (auto simp: daemon_set_title_def Let_def min_def split: if_splits)
  then show "cstr (arg_area s') 0 = take (length (arg_area s) - 1) (take 62 t)"
    using cstr_here [OF n, of "[]"] by (metis append_Nil list.size(3))
qed

lemma register_plugin_complete:
  "fst (register_plugin ok has) = 0 \<longleftrightarrow> ok \<and> list_all has required_syms"
  by (auto simp: register_plugin_def Let_def required_syms_def)

section \<open>Properties\<close>

text \<open>
  C29: The parent leaves its loop for a termination signal, never for a hang-up alone.  If the loop,
  started with clear flags, ends, then a termination signal is among those delivered so far or
  \<open>net_loop\<close> failed; and the flag that makes \<open>daemon_stop\<close> execute the program again is set
  exactly when the last control signal delivered was a hang-up.
\<close>

theorem parent_loop_signals:
  assumes "parent_loop sigs fuel dll g ok restart s = Inr s'"
    "\<not> sig_stop s" "\<not> sig_restart s" "\<not> term_signal s"
  shows "\<exists>k. (TermSig \<in> set (concat (take k sigs)) \<or>
       (\<exists>w w'. net_loop fuel dll g ok restart (page_size w) True w = Inr (-1, w'))) \<and>
     (sig_restart s' \<longleftrightarrow> last_control (concat (take k sigs)) = Some HupSig)"
proof -
  have f: "flags_of [] s" using assms(2-4) by (simp add: flags_of_def)
  from parent_loop_run [OF assms(1) parent_run.start] f obtain k where
    "parent_run s (concat (take k sigs)) s'"
    "TermSig \<in> set (concat (take k sigs)) \<or>
      (\<exists>w w'. net_loop fuel dll g ok restart (page_size w) True w = Inr (-1, w'))" by auto
  moreover from parent_run_flags [OF this(1) f]
  have "sig_restart s' \<longleftrightarrow> last_control (concat (take k sigs)) = Some HupSig" by (simp add: flags_of_def)
  ultimately show ?thesis by blast
qed

definition demo_daemon :: "int list \<Rightarrow> nat \<Rightarrow> unit daemon" where
  "demo_daemon pids n = \<lparr>d_world = demo_world\<lparr>child_pids := pids, bindconf := \<lparr>bind_num = n, configs = []\<rparr>\<rparr>,
     sig_stop = False, sig_restart = False, term_signal = False, backgd_mode = False, max_fd_num = 8,
     saved_argv = Some [''srv''], prog_name = Some ''srv'', current_dir = None, arg_area = []\<rparr>"

definition no_ght :: "unit ght" where
  "no_ght = \<lparr>ht_new = (), ht_lookup = (\<lambda>_ _. None), ht_insert = (\<lambda>_ _ _. ()), ht_remove = (\<lambda>_ _. ()), ht_destroy = (\<lambda>_. ())\<rparr>"

theorem parent_loop_signals_witness:
  "\<exists>s'. parent_loop [[TermSig, HupSig]] 1 demo_dll no_ght True (\<lambda>i w. Inr w) (demo_daemon [] 0) = Inr s' \<and> sig_restart s'"
proof -
  let ?s = "demo_daemon [] 0"
  have r: "parent_loop [[TermSig, HupSig]] 1 demo_dll no_ght True (\<lambda>i w. Inr w) ?s = Inr (sighup_handler (sigterm_handler ?s))"
    by (simp add: sighup_handler_def sigterm_handler_def Let_def demo_dll_def)
  have c: "\<not> sig_stop ?s" "\<not> sig_restart ?s" "\<not> term_signal ?s" by (simp_all add: demo_daemon_def)
  have "\<exists>k. sig_restart (sighup_handler (sigterm_handler ?s)) \<longleftrightarrow> last_control (concat (take k [[TermSig, HupSig]])) = Some HupSig"
    using parent_loop_signals [OF r c] by blast
  moreover have "sig_restart (sighup_handler (sigterm_handler ?s))" by (simp add: sighup_handler_def)
  ultimately show ?thesis using r by blast
qed

text \<open>
  C27: With at most two workers the shutdown ends.  If the children are reported dead by the signals
  that arrive while \<open>killall_children\<close> waits, it returns, having sent the signal to exactly the
  recorded children, and no child is left.
\<close>

theorem killall_children_returns:
  assumes "bind_num (bindconf (d_world s)) \<le> 2" "two_slots (child_pids (d_world s)) a b"
    "\<forall>p\<in>reaped sgs. p > 0" "{a, b} - {0} \<subseteq> reaped sgs"
  shows "\<exists>s'. killall_children sgs s = Inr (kill_list s, s') \<and> children_gone s'"
proof -
  have b: "bindconf (d_world (fold deliver sgs s)) = bindconf (d_world s)"
    by (induction sgs arbitrary: s) simp_all
  have "two_slots (child_pids (d_world (fold deliver sgs s))) 0 0"
    using deliver_all_two [OF assms(2,3)] assms(4) by (auto split: if_splits)
  then have z: "child_pids (d_world (fold deliver sgs s)) ! i = 0" if "i < 2" for i
    using that by (cases "i = 0") (auto simp: two_slots_def less_2_cases_iff)
  have "children_gone (fold deliver sgs s)" using z assms(1) b by (auto simp: children_gone_def list_all_iff)
  from wait_children_ends [OF this] obtain s' where "wait_children sgs s = Inr s'" "children_gone s'" by blast
  then show ?thesis using assms(1,2) by (auto simp: killall_children_def two_slots_def)
qed

theorem killall_children_returns_witness:
  "\<exists>s'. killall_children [HupSig, ChldSig [12, 11]] (demo_daemon [11, 12] 2) = Inr ([11, 12], s')"
proof -
  let ?s = "demo_daemon [11, 12] 2"
  have t: "two_slots (child_pids (d_world ?s)) 11 12" by (simp add: demo_daemon_def two_slots_def)
  have n: "bind_num (bindconf (d_world ?s)) \<le> 2" by (simp add: demo_daemon_def)
  have k: "kill_list ?s = [11, 12]" by (simp add: kill_list_def demo_daemon_def upt_rec)
  from killall_children_returns [OF n t, of "[HupSig, ChldSig [12, 11]]"] k show ?thesis by auto
qed

text \<open>
  C28: With three or more workers the shutdown hangs.  The handler for dead children looks at the
  first two slots only, so while the third slot holds a child \<open>killall_children\<close> waits forever,
  whatever signals arrive.
\<close>

theorem killall_children_hangs:
  assumes "3 \<le> bind_num (bindconf (d_world s))" "bind_num (bindconf (d_world s)) \<le> length (child_pids (d_world s))"
    "child_pids (d_world s) ! 2 \<noteq> 0"
  shows "killall_children sgs s = Inl Blocked"
  using assms wait_children_stuck [OF assms(1,3), of sgs] by (simp add: killall_children_def)

theorem killall_children_hangs_witness:
  "killall_children [ChldSig [11, 12, 13]] (demo_daemon [11, 12, 13] 3) = Inl Blocked"
  using killall_children_hangs [of "demo_daemon [11, 12, 13] 3" "[ChldSig [11, 12, 13]]"] by (simp add: demo_daemon_def)

section \<open>Settings that cannot be set\<close>

lemma loaded_values_have_section:
  assumes "\<And>k v. sp_map s k = Some (Some v) \<Longrightarrow> CHR '':'' \<in> set k"
  shows "sp_map (ini_step l s) k = Some (Some v) \<Longrightarrow> CHR '':'' \<in> set k"
  using assms by (auto simp: ini_step_def spec_line_def Let_def split: ini_line.splits if_splits)

lemma fold_values_have_section:
  assumes "\<And>k v. sp_map s k = Some (Some v) \<Longrightarrow> CHR '':'' \<in> set k"
  shows "sp_map (fold ini_step ls s) k = Some (Some v) \<Longrightarrow> CHR '':'' \<in> set k"
  using assms
proof (induction ls arbitrary: s)
  case (Cons l ls)
  show ?case using Cons.IH [of "ini_step l s"] Cons.prems loaded_values_have_section [of s l] by simp
qed simp

text \<open>
  C30: Settings asked for without a section are never read from the file.  Whatever a configuration
  file holds, once it is loaded a key without a colon gives \<open>iniparser_getint\<close> its default (or, if it
  names a section, the fault), and the run mode that \<open>daemon_start\<close> looks up this way is
  always the background.
\<close>

theorem unprefixed_settings_ignored:
  assumes "lines_ok ls spec0" "length ls \<le> 2 ^ 27"
    "iniparser_load True alloc_ok (\<lambda>_. alloc_ok) (Some (unlines ls)) = Inr (Some d)"
    "CHR '':'' \<notin> set (strlwc key)"
  shows "(iniparser_getint (Some d) (Some key) nf = Inr nf \<or> iniparser_getint (Some d) (Some key) nf = Inl Segv) \<and>
    (\<forall>argv s s'. daemon_start (Some d) ok argv s = Inr s' \<longrightarrow> backgd_mode s')"
proof -
  have d: "dict_ok d" "dict_abs d = sp_map (fold ini_step ls spec0)"
    using load_lines [OF assms(1,2)] assms(3) by (auto split: if_splits)
  have val: "dict_abs d k = None \<or> dict_abs d k = Some None" if "CHR '':'' \<notin> set k" for k
  proof (cases "dict_abs d k")
    case (Some x)
    show ?thesis
    proof (cases x)
      case (Some v)
      have "CHR '':'' \<in> set k"
        by (rule fold_values_have_section [of spec0 ls]) (use \<open>dict_abs d k = Some x\<close> Some d(2) in \<open>auto simp: spec0_def\<close>)
      then show ?thesis using that by simp
    qed (simp add: Some)
  qed simp
  have "iniparser_getint (Some d) (Some key) nf = Inr nf \<or> iniparser_getint (Some d) (Some key) nf = Inl Segv"
    using val [OF assms(4)] dictionary_get_abs [OF d(1), of "strlwc key"]
    by (auto simp: iniparser_getint_def iniparser_getstring_def ptr_of_def)
  moreover have "CHR '':'' \<notin> set (strlwc ''run_mode'')" by code_simp
  then have "iniparser_getstring (Some d) (Some ''run_mode'') NULLP = Inr NULLP"
    using val [of "strlwc ''run_mode''"] dictionary_get_abs [OF d(1), of "strlwc ''run_mode''"]
    by (auto simp: iniparser_getstring_def ptr_of_def)
  then have "daemon_start (Some d) ok argv s = Inr s' \<Longrightarrow> backgd_mode s'" for argv and s s' :: "'a daemon"
    by (auto simp: daemon_start_def)
  ultimately show ?thesis by blast
qed

text \<open>The settings of \<open>samples/bench.ini\<close>.\<close>

definition bench_ini :: "string list" where
  "bench_ini = [''shmq_size = 10'', ''[server]'', ''; size of the buffer'', ''shmq_length = 4194304'', ''run_mode    = no '']"

theorem unprefixed_settings_ignored_witness:
  "\<exists>d. iniparser_load True alloc_ok (\<lambda>_. alloc_ok) (Some (unlines bench_ini)) = Inr (Some d) \<and>
     (iniparser_getint (Some d) (Some ''shmq_length'') 67108864 = Inr 67108864 \<or>
      iniparser_getint (Some d) (Some ''shmq_length'') 67108864 = Inl Segv)"
proof -
  have l: "lines_ok bench_ini spec0" "sp_errs (fold ini_step bench_ini spec0) = 0" by code_simp+
  have n: "length bench_ini \<le> 2 ^ 27" by (simp add: bench_ini_def)
  have c: "CHR '':'' \<notin> set (strlwc ''shmq_length'')" by code_simp
  from load_lines [OF l(1) n] l(2) obtain d where
    d: "iniparser_load True alloc_ok (\<lambda>_. alloc_ok) (Some (unlines bench_ini)) = Inr (Some d)" by auto
  have "iniparser_getint (Some d) (Some ''shmq_length'') 67108864 = Inr 67108864 \<or>
      iniparser_getint (Some d) (Some ''shmq_length'') 67108864 = Inl Segv"
    using unprefixed_settings_ignored [OF l(1) n d c, where 'a = unit] by blast
  with d show ?thesis by blast
qed

end
