(* ===== verification/Mp_Server.thy ===== *)
theory Mp_Server
  imports Mp_SafeLoop Mp_Daemon
begin

text \<open>
  The server as a system: the start of the workers in \<open>main\<close> establishes \<open>srv_inv\<close>, and a step
  relation interleaves the parent's iterations of \<open>net_loop\<close> with signals, new answers of the kernel
  and the workers' operations on the shared queues.
\<close>

section \<open>Starting the workers\<close>

text \<open>The descriptors that starting worker \<open>i\<close> registers.\<close>

definition boot_fds :: "(nat \<Rightarrow> fork_env) \<Rightarrow> (nat \<Rightarrow> listen_env) \<Rightarrow> nat \<Rightarrow> nat list" where
  "boot_fds fk lst i =
     (if fk_pid (fk i) > 0 then
        (case fst (fk_pipes (fk i)) of None \<Rightarrow> [] | Some p \<Rightarrow> [nat (fst p)]) @
        (if socket_r (lst i) \<noteq> -1 \<and> listen_err SOCK_STREAM (lst i) = 0 then [nat (socket_r (lst i))] else [])
      else [])"

text \<open>
  The kernel's answers: the descriptors of pipes and listening sockets differ and fit the table, and
  \<open>fork\<close> returns in the parent or fails; it fails if there was no pipe, whose absence the code
  does not notice.  Mappings may fail.
\<close>

definition boot_ok :: "(nat \<Rightarrow> fork_env) \<Rightarrow> (nat \<Rightarrow> listen_env) \<Rightarrow> nat \<Rightarrow> nat \<Rightarrow> bool" where
  "boot_ok fk lst N n \<longleftrightarrow>
     (\<forall>i<N. fk_pid (fk i) \<noteq> 0 \<and>
        (case fst (fk_pipes (fk i)) of None \<Rightarrow> fk_pid (fk i) < 0 | Some p \<Rightarrow> nat (fst p) < n)) \<and>
     distinct (concat (map (boot_fds fk lst) [0..<N])) \<and>
     (\<forall>d\<in>set (concat (map (boot_fds fk lst) [0..<N])). d < n)"

text \<open>The state before worker \<open>i\<close> is started; \<open>ds\<close> are the descriptors registered so far.\<close>

definition boot_inv :: "u32 \<Rightarrow> nat \<Rightarrow> nat \<Rightarrow> nat \<Rightarrow> nat \<Rightarrow> nat list \<Rightarrow> 't world \<Rightarrow> bool" where
  "boot_inv ps n N M i ds w \<longleftrightarrow> (\<exists>cl et. net_inv w cl et) \<and> accept_as w = [] \<and> is_parent w \<and>
     page_size w = ps \<and> length (fds w) = n \<and> small ps \<and> peer_ok ps (peer w) \<and>
     bind_num (bindconf w) = N \<and> length (configs (bindconf w)) = N \<and> N \<le> length (child_pids w) \<and>
     (\<forall>j<i. chan_ok ps M n (configs (bindconf w) ! j)) \<and>
     (\<forall>e\<in>set (configs (bindconf w)). nat (fst (pipe_handles (sendq e))) < n) \<and>
     ents_ok 0 w \<and> used w \<subseteq> set ds"

lemma boot_inv_done: "boot_inv ps n N M N ds w \<Longrightarrow> srv_inv N M 0 w"
  by (auto simp: boot_inv_def srv_inv_def env_ok_def accepts_fit_def in_set_conv_nth)

text \<open>Steps of \<open>start_worker\<close> that keep it.\<close>

lemma boot_inv_fields:
  assumes "boot_inv ps n N M i ds w" "fds w' = fds w" "nodes w' = nodes w" "maxfd w' = maxfd w" "ev_count w' = ev_count w"
    "page_size w' = page_size w" "peer w' = peer w" "is_parent w' = is_parent w"
    "length (child_pids w') = length (child_pids w)" "bindconf w' = bindconf w" "accept_as w' = accept_as w"
  shows "boot_inv ps n N M i ds w'"
proof -
  have "used w' = used w" using assms by (simp add: used_def)
  then show ?thesis
    using assms net_inv_cong [of w' w] ents_ok_cong [of w' w 0] by (simp add: boot_inv_def)
qed

lemma boot_inv_set_conf:
  assumes b: "boot_inv ps n N M i ds w" and e: "chan_ok (page_size w) M (length (fds w)) e" and i: "i < N"
  shows "boot_inv ps n N M (Suc i) ds (set_conf i e w)"
proof -
  let ?cs = "configs (bindconf w)"
  have u: "used (set_conf i e w) = used w" by (simp add: used_def set_conf_def)
  have "\<forall>j<Suc i. chan_ok (page_size w) M (length (fds w)) (?cs[i := e] ! j)"
    using b e i by (auto simp: boot_inv_def nth_list_update less_Suc_eq)
  moreover have "\<forall>x\<in>set (?cs[i := e]). nat (fst (pipe_handles (sendq x))) < length (fds w)"
    using b e set_update_subset_insert [of ?cs i e] by (auto simp: boot_inv_def chan_ok_def)
  ultimately show ?thesis
    using b u net_inv_cong [of "set_conf i e w" w] ents_ok_cong [of "set_conf i e w" w 0]
    by (simp add: boot_inv_def set_conf_def)
qed

lemma boot_inv_added:
  assumes b: "boot_inv ps n N M i ds w" and fd: "fd < length (fds w)" "fd \<notin> set ds"
    and k: "k < N" and ty: "ty \<in> {fd_type_listen, fd_type_pipe}"
  shows "boot_inv ps n N M i (fd # ds) (added fd ty pr (Some k) w)"
proof -
  have ty': "ty \<in> {fd_type_listen, fd_type_pipe, fd_type_remote}" "ty \<noteq> fd_type_unused" using ty by auto
  have u: "fd \<notin> used w" using b fd(2) by (auto simp: boot_inv_def)
  obtain cl et where "net_inv w cl et" using b by (auto simp: boot_inv_def)
  then have "net_inv (added fd ty pr (Some k) w) cl et" using added_inv fd(1) u ty'(2) by blast
  moreover have "ents_ok 0 (added fd ty pr (Some k) w)"
    using b k by (intro ents_ok_added [OF _ fd(1) _ ty'(1)]) (auto simp: boot_inv_def)
  moreover note env_eqD [OF added_env(3), of fd ty pr "Some k" w]
  ultimately show ?thesis
    using b used_added [OF fd(1) ty'(2)] unfolding boot_inv_def by (auto simp: added_env)
qed

lemma do_add_conn_boot:
  assumes "boot_inv ps n N M i ds w" "fd < length (fds w)" "fd \<notin> set ds" "k < N" "ty \<in> {fd_type_listen, fd_type_pipe}"
  shows "safe_res (\<lambda>w'. boot_inv ps n N M i (fd # ds) w' \<and> length (fds w') = length (fds w)) (do_add_conn fd ty pr (Some k) w)"
proof (cases "epoll_add_ok w")
  case True
  then show ?thesis using do_add_conn_eq [OF True assms(2)] boot_inv_added [OF assms] by simp
qed (simp add: do_add_conn_def add_events_def)


lemma net_start_boot:
  assumes b: "boot_inv ps n N M i ds w" and k: "k < N"
    and l: "socket_r ls \<noteq> -1 \<and> listen_err SOCK_STREAM ls = 0 \<Longrightarrow> nat (socket_r ls) < length (fds w) \<and> nat (socket_r ls) \<notin> set ds"
  shows "safe_res (\<lambda>(r, w'). boot_inv ps n N M i ((if socket_r ls \<noteq> -1 \<and> listen_err SOCK_STREAM ls = 0
      then [nat (socket_r ls)] else []) @ ds) w') (net_start ls (Some k) w)"
proof -
  have b': "boot_inv ps n N M i ds (w\<lparr>closed := cs\<rparr>)" for cs
    using b by (rule boot_inv_fields) simp_all
  show ?thesis
  proof (cases "socket_r ls \<noteq> -1 \<and> listen_err SOCK_STREAM ls = 0")
    case True
    have "safe_res (boot_inv ps n N M i (nat (socket_r ls) # ds)) (do_add_conn (nat (socket_r ls)) fd_type_listen None (Some k) w)"
      using do_add_conn_boot [OF b _ _ k, of "nat (socket_r ls)" fd_type_listen] l [OF True] by (auto intro: safe_mono)
    then have "safe_res (\<lambda>(r, w'). boot_inv ps n N M i (nat (socket_r ls) # ds) w')
        (bindR (do_add_conn (nat (socket_r ls)) fd_type_listen None (Some k) w) (\<lambda>w'. Inr (0 :: int, w')))"
      by (rule safe_bind) simp
    then show ?thesis using True by (simp add: net_start_def safe_socket_listen_def Let_def)
  next
    case False
    then show ?thesis using b b' by (auto simp: net_start_def safe_socket_listen_def Let_def)
  qed
qed

lemma start_worker_boot:
  assumes b: "boot_inv ps n N M i ds w" and i: "i < N" and len: "shm_len_ok (page_size w) M len"
    and k: "fk_pid (fk i) \<noteq> 0"
      "case fst (fk_pipes (fk i)) of None \<Rightarrow> fk_pid (fk i) < 0 | Some p \<Rightarrow> nat (fst p) < length (fds w)"
    and d: "distinct (boot_fds fk lst i)" "set (boot_fds fk lst i) \<inter> set ds = {}"
      "\<forall>x\<in>set (boot_fds fk lst i). x < length (fds w)"
  shows "safe_res (boot_inv ps n N M (Suc i) (rev (boot_fds fk lst i) @ ds)) (start_worker len fk lst rw i w)"
proof (cases "fk_mmap (fk i) = (True, True)")
  case False
  have li: "i < length (configs (bindconf w))" using b i by (simp add: boot_inv_def)
  then show ?thesis by (simp add: start_worker_def Let_def shmq_create_unmapped [OF False])
next
  case mapped: True
  have li: "i < length (configs (bindconf w))" using b i by (simp add: boot_inv_def)
  have pl: "nat (fst (pipe_handles (sendq (configs (bindconf w) ! i)))) < length (fds w)"
    using b li by (simp add: boot_inv_def)
  have kp: "\<And>p. fst (fk_pipes (fk i)) = Some p \<Longrightarrow> nat (fst p) < length (fds w)" using k(2) by simp
  obtain c e where e: "shmq_create len (fk_mmap (fk i)) (fk_pipes (fk i)) (configs (bindconf w) ! i) = Inr (c, e)"
    "chan_ok (page_size w) M (length (fds w)) e" "pipe_handles (sendq e) = (case fst (fk_pipes (fk i)) of
       None \<Rightarrow> pipe_handles (sendq (configs (bindconf w) ! i)) | Some p \<Rightarrow> p)"
    using shmq_create_chan [OF len mapped pl kp] by blast
  note b1 = boot_inv_set_conf [OF b e(2) i]
  show ?thesis
  proof (cases "fk_pid (fk i) < 0")
    case True
    then show ?thesis using li e(1) b1 by (simp add: start_worker_def Let_def boot_fds_def)
  next
    case False
    with k(1) have pid: "0 < fk_pid (fk i)" by simp
    with k(2) obtain p where p: "fst (fk_pipes (fk i)) = Some p" by (auto split: option.splits)
    let ?fd = "nat (fst p)"
    let ?ls = "if socket_r (lst i) \<noteq> -1 \<and> listen_err SOCK_STREAM (lst i) = 0 then [nat (socket_r (lst i))] else []"
    have bf: "boot_fds fk lst i = ?fd # ?ls" using pid p by (simp add: boot_fds_def)
    define w1 where "w1 = (set_conf i e w)\<lparr>closed := closed (set_conf i e w) @
      map nat (close_shmq_pipe (bindconf (set_conf i e w)) i False)\<rparr>"
    have b1': "boot_inv ps n N M (Suc i) ds w1" "length (fds w1) = length (fds w)"
      unfolding w1_def using b1 by (auto intro: boot_inv_fields simp: set_conf_def)
    have ph: "fst (pipe_handles (sendq e)) = fst p" using e(3) p by simp
    have fd: "?fd < length (fds w1)" "?fd \<notin> set ds" using d bf b1'(2) by auto
    have ad: "safe_res (\<lambda>w'. boot_inv ps n N M (Suc i) (?fd # ds) w' \<and> length (fds w') = length (fds w1))
        (do_add_conn ?fd fd_type_pipe None (Some i) w1)"
      using do_add_conn_boot [OF b1'(1) fd i] by simp
    have ns: "safe_res (\<lambda>(r, w'). boot_inv ps n N M (Suc i) (?ls @ ?fd # ds) w') (net_start (lst i) (Some i) w2)"
      if "boot_inv ps n N M (Suc i) (?fd # ds) w2" "length (fds w2) = length (fds w1)" for w2
      using d bf that(2) b1'(2) by (intro net_start_boot [OF that(1) i]) auto
    have fin: "safe_res (boot_inv ps n N M (Suc i) (?ls @ ?fd # ds))
        (if length (child_pids w3) \<le> i then Inl Segv else Inr (w3\<lparr>child_pids := atomic_set (child_pids w3) i (fk_pid (fk i))\<rparr>))"
      if "boot_inv ps n N M (Suc i) (?ls @ ?fd # ds) w3" for w3
    proof -
      have "i < length (child_pids w3)" using that i by (simp add: boot_inv_def)
      moreover have "boot_inv ps n N M (Suc i) (?ls @ ?fd # ds) (w3\<lparr>child_pids := atomic_set (child_pids w3) i (fk_pid (fk i))\<rparr>)"
        using that by (rule boot_inv_fields) simp_all
      ultimately show ?thesis by simp
    qed
    have eq: "start_worker len fk lst rw i w = bindR (do_add_conn ?fd fd_type_pipe None (Some i) w1) (\<lambda>w2.
        bindR (net_start (lst i) (Some i) w2) (\<lambda>(r, w3). if length (child_pids w3) \<le> i then Inl Segv
          else Inr (w3\<lparr>child_pids := atomic_set (child_pids w3) i (fk_pid (fk i))\<rparr>)))"
      using li e(1) pid ph by (simp add: start_worker_def Let_def w1_def)
    have rv: "rev (boot_fds fk lst i) = ?ls @ [?fd]" unfolding bf by simp
    show ?thesis
      unfolding eq rv append_assoc append_Cons append_Nil
      using fin by (auto intro!: safe_bind [OF ad] safe_bind [OF ns] simp del: split_paired_All split del: if_split)
  qed
qed

text \<open>
  The result of \<open>mmap\<close> is printed and then used: without the mapping of a queue the process ends at
  the write to its head, when the workers are started and when one is started again.
\<close>

theorem unmapped_queue_faults:
  assumes "fk_mmap (fk i) \<noteq> (True, True)" "i < length (configs (bindconf w))"
  shows "start_worker len fk lst rw i w = Inl MapFault \<and>
    (do_del_conn dll (nat (fst (pipe_handles (sendq (configs (bindconf w) ! i))))) 2 (restart_closed i w) = Inr w1 \<longrightarrow>
      restart_child_process dll len (fk i) rw i w = Inl MapFault)"
  using assms by (simp add: start_worker_def restart_child_process_def Let_def shmq_create_unmapped)

lemma start_workers_boot:
  fixes w :: "'t world"
  assumes b: "boot_inv ps n N M 0 [] w" and k: "boot_ok fk lst N n" and len: "shm_len_ok ps M len"
  shows "i \<le> N \<Longrightarrow> safe_res (boot_inv ps n N M i (rev (concat (map (boot_fds fk lst) [0..<i]))))
    (foldR (start_worker len fk lst rw) [0..<i] w)"
proof (induction i)
  case 0
  then show ?case using b by simp
next
  case (Suc i)
  let ?ds = "concat (map (boot_fds fk lst) [0..<i])"
  have i: "i < N" using Suc.prems by simp
  have split: "[0..<N] = [0..<Suc i] @ [Suc i..<N]" using upt_add_eq_append [of 0 "Suc i" "N - Suc i"] Suc.prems by simp
  have d: "distinct (?ds @ boot_fds fk lst i)" "\<forall>x\<in>set (boot_fds fk lst i). x < n"
    using k i unfolding boot_ok_def split by auto
  have r: "rev (concat (map (boot_fds fk lst) [0..<Suc i])) = rev (boot_fds fk lst i) @ rev ?ds" by simp
  show ?case
    unfolding r unfolding upt_Suc_append [OF le0] foldR_append
  proof (rule safe_bind [OF Suc.IH])
    fix v :: "'t world" assume v: "boot_inv ps n N M i (rev ?ds) v"
    then have n: "length (fds v) = n" "page_size v = ps" by (auto simp: boot_inv_def)
    have ki: "fk_pid (fk i) \<noteq> 0"
      "case fst (fk_pipes (fk i)) of None \<Rightarrow> fk_pid (fk i) < 0 | Some p \<Rightarrow> nat (fst p) < length (fds v)"
      using k i unfolding boot_ok_def n(1) by blast+
    have "safe_res (boot_inv ps n N M (Suc i) (rev (boot_fds fk lst i) @ rev ?ds)) (start_worker len fk lst rw i v)"
      using d by (intro start_worker_boot [where fk = fk and lst = lst, OF v i _ ki]) (auto simp: n len)
    then show "safe_res (boot_inv ps n N M (Suc i) (rev (boot_fds fk lst i) @ rev ?ds))
        (foldR (start_worker len fk lst rw) [i] v)"
      by (cases "start_worker len fk lst rw i v") simp_all
  qed (use i in simp)
qed

text \<open>The state in which \<open>main\<close> calls \<open>net_init\<close>: \<open>N\<close> lines of the bind file were read.\<close>

definition ready :: "nat \<Rightarrow> nat \<Rightarrow> 't world \<Rightarrow> bool" where
  "ready N sz w \<longleftrightarrow> is_parent w \<and> accept_as w = [] \<and> small (page_size w) \<and> peer_ok (page_size w) (peer w) \<and>
     bind_num (bindconf w) = N \<and> length (configs (bindconf w)) = N \<and> N \<le> max_listen_fds \<and>
     (\<forall>e\<in>set (configs (bindconf w)). nat (fst (pipe_handles (sendq e))) < sz)"

abbreviation set_up :: "int \<Rightarrow> nat \<Rightarrow> 't world \<Rightarrow> 't world" where
  "set_up epfd sz w \<equiv> clean_child_pids (snd (net_init epfd True sz w))"

lemma net_init_boot:
  assumes r: "ready N sz w" and "0 \<le> epfd" "0 < sz"
  shows "boot_inv (page_size w) sz N M 0 [] (set_up epfd sz w)"
proof -
  let ?w = "set_up epfd sz w"
  have f: "fds ?w = replicate sz zero_fdinfo" "maxfd ?w = 0" "ev_count ?w = 0" "bindconf ?w = bindconf w"
    "accept_as ?w = accept_as w" "is_parent ?w = is_parent w" "page_size ?w = page_size w" "peer ?w = peer w"
    "child_pids ?w = replicate max_listen_fds 0"
    using assms(2) by (simp_all add: net_init_def clean_child_pids_def)
  have n: "circ (nodes ?w) CloseHead []" "circ (nodes ?w) EtinHead []"
    using assms(2) by (simp_all add: net_init_def clean_child_pids_def circ_def INIT_LIST_HEAD_def)
  have u: "used ?w = {}" by (auto simp: used_def f zero_fdinfo_def)
  have "table_ok ?w" using assms(3) unfolding table_ok_def u by (simp add: f zero_fdinfo_def)
  moreover have "queues_ok ?w [] []" using n unfolding queues_ok_def by (auto simp: f zero_fdinfo_def)
  moreover have "ents_ok 0 ?w" unfolding ents_ok_def u by (simp add: f zero_fdinfo_def zero_cb_def)
  ultimately show ?thesis using r u by (auto simp: boot_inv_def net_inv_def ready_def f)
qed

section \<open>The server among clients, workers and kernel\<close>

text \<open>New answers of the kernel: everything else of the state stays.\<close>

definition reanswered :: "'t world \<Rightarrow> 't world \<Rightarrow> bool" where
  "reanswered w w' \<longleftrightarrow> accepts_fit w' \<and> (\<exists>ea mo ra sa aa pa ep tm so fe. w' = w\<lparr>epoll_add_ok := ea, mmap_ok := mo,
     recv_as := ra, send_as := sa, accept_as := aa, read_as := pa, epoll_as := ep, time_as := tm, so_error_as := so,
     fcntl_err := fe\<rparr>)"

lemma reansweredI:
  "accepts_fit w' \<Longrightarrow> w' = w\<lparr>epoll_add_ok := ea, mmap_ok := mo, recv_as := ra, send_as := sa, accept_as := aa, read_as := pa,
     epoll_as := ep, time_as := tm, so_error_as := so, fcntl_err := fe\<rparr> \<Longrightarrow> reanswered w w'"
  unfolding reanswered_def by blast

text \<open>
  Room for what one iteration can add to a send buffer: the contents of all send queues.  The code
  never checks it (\<open>net_send\<close> returns -1 beyond \<open>send_buf_limit_size\<close>, which its caller ignores).
\<close>

definition send_room :: "nat \<Rightarrow> 't world \<Rightarrow> bool" where
  "send_room M w \<longleftrightarrow> bind_num (bindconf w) * M < 2 ^ 31 \<and>
     (\<forall>fd\<in>used w. unat (sendlen (cb (fdi w fd))) + bind_num (bindconf w) * M < 2 ^ 31)"

text \<open>
  A worker has its own \<open>shm_queue\<close> structures; the parent sees what it does in the shared memory.
\<close>

definition seen :: "shm_queue \<Rightarrow> shm_queue \<Rightarrow> shm_queue" where
  "seen q q' = q\<lparr>head := head q', tail := tail q', mem := mem q'\<rparr>"

text \<open>
  The runs of the parent from a state \<open>s0\<close>: signals, iterations of its loop with the code's own
  restart function, new answers of the kernel, a worker that takes a block out of its receive queue
  and a worker that puts one into its send queue (whatever the parent takes out while it waits).
\<close>

inductive server_run ::
  "'t serv_if \<Rightarrow> 't ght \<Rightarrow> int \<Rightarrow> (nat \<Rightarrow> 't world \<Rightarrow> fork_env) \<Rightarrow> (nat \<Rightarrow> nat \<Rightarrow> 't world \<Rightarrow> 't world res) \<Rightarrow> nat \<Rightarrow>
   't daemon \<Rightarrow> 't daemon \<Rightarrow> bool" for dll g len k rw M s0
where
  start: "server_run dll g len k rw M s0 s0"
| signal: "server_run dll g len k rw M s0 s \<Longrightarrow> server_run dll g len k rw M s0 (deliver sg s)"
| iterate: "server_run dll g len k rw M s0 s \<Longrightarrow> send_room M (d_world s) \<Longrightarrow>
    net_loop fuel dll g ok (\<lambda>i w. restart_child_process dll len (k i w) rw i w) (page_size (d_world s)) True (d_world s) =
      Inr (r, w') \<Longrightarrow> server_run dll g len k rw M s0 (s\<lparr>d_world := w'\<rparr>)"
| kernel: "server_run dll g len k rw M s0 s \<Longrightarrow> reanswered (d_world s) w' \<Longrightarrow>
    server_run dll g len k rw M s0 (s\<lparr>d_world := w'\<rparr>)"
| worker_pop: "server_run dll g len k rw M s0 s \<Longrightarrow> i < length (configs (bindconf (d_world s))) \<Longrightarrow>
    e = configs (bindconf (d_world s)) ! i \<Longrightarrow> shmq_pop (recvq e) = Inr (r, q) \<Longrightarrow>
    server_run dll g len k rw M s0 (s\<lparr>d_world := set_conf i (e\<lparr>recvq := seen (recvq e) q\<rparr>) (d_world s)\<rparr>)"
| worker_push: "server_run dll g len k rw M s0 s \<Longrightarrow> i < length (configs (bindconf (d_world s))) \<Longrightarrow>
    e = configs (bindconf (d_world s)) ! i \<Longrightarrow> msg_fits (mb, d) \<Longrightarrow> out_msg (mb, d) \<Longrightarrow> peer_ok (page_size (d_world s)) pr \<Longrightarrow>
    shmq_push pr (page_size (d_world s)) (sendq e) mb d = Inr (r, q) \<Longrightarrow>
    server_run dll g len k rw M s0 (s\<lparr>d_world := set_conf i (e\<lparr>sendq := seen (sendq e) q\<rparr>) (d_world s)\<rparr>)"

text \<open>The bound on the buffers may be any that holds.\<close>

lemma srv_inv_tighten:
  assumes i: "srv_inv N M b w" and b: "\<And>fd. fd \<in> used w \<Longrightarrow> unat (sendlen (cb (fdi w fd))) \<le> b'"
  shows "srv_inv N M b' w"
proof -
  have "entry_ok (page_size w) (length (configs (bindconf w))) b' (fdi w fd)" if "fd \<in> used w" for fd
    using srv_inv_entry(1) [OF i that] b [OF that] by (auto simp: entry_ok_def send_ok_def)
  then show ?thesis using i unfolding srv_inv_def ents_ok_def by (metis (full_types))
qed

lemma send_room_inv:
  assumes i: "srv_inv N M b w" and r: "send_room M w"
  obtains b' where "srv_inv N M b' w" "b' + N * M < 2 ^ 31"
proof
  have n: "bind_num (bindconf w) = N" using srv_invD(1) [OF i] by (simp add: env_ok_def)
  show "srv_inv N M (2 ^ 31 - 1 - N * M) w"
    using r by (intro srv_inv_tighten [OF i]) (fastforce simp: send_room_def n)
  show "2 ^ 31 - 1 - N * M + N * M < 2 ^ 31" using r by (simp add: send_room_def n)
qed

lemma iterate_safe:
  assumes i: "srv_inv N M b w" and r: "send_room M w" and ps: "page_size w = ps"
    and len: "shm_len_ok ps M len" and k: "\<forall>i w. fork_ok i w (k i w)"
  shows "safe_res (\<lambda>(c, w'). (\<exists>b. srv_inv N M b w') \<and> page_size w' = ps)
    (net_loop fuel dll g ok (\<lambda>i w. restart_child_process dll len (k i w) rw i w) (page_size w) True w)"
proof -
  obtain b' where b: "srv_inv N M b' w" "b' + N * M < 2 ^ 31" using send_room_inv [OF i r] .
  show ?thesis
    by (rule safe_mono [OF net_loop_inv [OF b(1) b(2) restart_child_safe [OF len [folded ps], of k]]])
      (use k in \<open>auto simp: follows_def ps\<close>)
qed

lemma deliver_inv:
  fixes s :: "'t daemon"
  assumes "srv_inv N M b (d_world s)"
  shows "srv_inv N M b (d_world (deliver sg s))" "page_size (d_world (deliver sg s)) = page_size (d_world s)"
proof -
  have l: "length (fold clear_slots pids ps) = length ps" for pids ps
    by (induction pids arbitrary: ps) (simp_all add: clear_slots_def)
  have "srv_inv N M b (w\<lparr>child_pids := fold clear_slots pids (child_pids w)\<rparr>)" if "srv_inv N M b w" for w :: "'t world" and pids
    using that by (simp add: srv_inv_def env_ok_def ents_ok_def accepts_fit_def used_def net_inv_def queues_ok_def table_ok_def l)
  then show "srv_inv N M b (d_world (deliver sg s))" "page_size (d_world (deliver sg s)) = page_size (d_world s)"
    using assms by (cases sg; simp add: sigterm_handler_def sighup_handler_def sigchld_handler_def)+
qed

lemma reanswered_inv:
  assumes "srv_inv N M b w" "reanswered w w'"
  shows "srv_inv N M b w'" "page_size w' = page_size w"
proof -
  have f: "accepts_fit w'" using assms(2) by (simp add: reanswered_def)
  show "srv_inv N M b w'"
    using assms(1) by (rule srv_inv_fds) (use assms(2) f in \<open>auto simp: reanswered_def\<close>)
qed (use assms(2) in \<open>auto simp: reanswered_def\<close>)

lemma worker_inv:
  assumes "srv_inv N M b w" "chan_ok (page_size w) M (length (fds w)) e"
  shows "srv_inv N M b (set_conf i e w)" "page_size (set_conf i e w) = page_size w"
  using srv_inv_set_conf [OF assms, of i] by (simp_all add: set_conf_def)

lemma q_rep_seen: "q_rep ps q xs \<Longrightarrow> q_rep ps q' ys \<Longrightarrow> q_length q' = q_length q \<Longrightarrow> q_rep ps (seen q q') ys"
  by (auto simp: q_rep_def shmq_cfg_def seen_def linear_def wrapped_def)

lemma worker_pop_chan:
  assumes c: "chan_ok ps M n e" and p: "shmq_pop (recvq e) = Inr (r, q)"
  shows "chan_ok ps M n (e\<lparr>recvq := seen (recvq e) q\<rparr>)"
proof -
  obtain xs where x: "q_rep ps (recvq e) xs" using c by (auto simp: chan_ok_def)
  then obtain ys where "q_rep ps q ys" "q_length q = q_length (recvq e)"
    using shmq_pop_suffix [OF x] p by (metis Pair_inject sum.inject(2))
  then show ?thesis using c q_rep_seen [OF x] by (auto simp: chan_ok_def seen_def)
qed

lemma worker_push_chan:
  assumes c: "chan_ok ps M n e" and m: "msg_fits (mb, d)" "out_msg (mb, d)" and p: "peer_ok ps pr"
    and r: "shmq_push pr ps (sendq e) mb d = Inr (r, q)"
  shows "chan_ok ps M n (e\<lparr>sendq := seen (sendq e) q\<rparr>)"
proof -
  obtain xs where x: "q_rep ps (sendq e) xs" "list_all out_msg xs" using c by (auto simp: chan_ok_def)
  have l: "unat (mb_length mb) = 13 + length d" "mb_type mb \<noteq> PAD_BLOCK" using m(1) by (auto simp: msg_fits_def msg_len_def)
  then obtain ys zs where y: "q_rep ps q zs" "q_length q = q_length (sendq e)" "suffix ys xs" "zs = ys \<or> zs = ys @ [(mb, d)]"
    using shmq_push_rep [OF x(1) p, of mb d] r by (auto split: if_splits)
  have "list_all out_msg zs" using y(3,4) x(2) m(2) set_mono_suffix [OF y(3)] by (auto simp: list_all_iff)
  then show ?thesis using c q_rep_seen [OF x(1) y(1,2)] y(1) by (auto simp: chan_ok_def seen_def)
qed

lemma server_run_inv:
  assumes run: "server_run dll g len k rw M s0 s" and i: "srv_inv N M b (d_world s0)" and ps: "page_size (d_world s0) = ps"
    and len: "shm_len_ok ps M len" and k: "\<forall>i w. fork_ok i w (k i w)"
  shows "(\<exists>b. srv_inv N M b (d_world s)) \<and> page_size (d_world s) = ps"
  using run
proof induction
  case start
  then show ?case using i ps by blast
next
  case (signal s sg)
  then show ?case using deliver_inv by metis
next
  case (iterate s fuel ok r w')
  then obtain b where b: "srv_inv N M b (d_world s)" "page_size (d_world s) = ps" by blast
  from iterate_safe [OF b(1) iterate.hyps(2) b(2) len k, where fuel = fuel and dll = dll and g = g and ok = ok and rw = rw] iterate.hyps(3) show ?case by simp
next
  case (kernel s w')
  then show ?case using reanswered_inv [of N M _ "d_world s" w'] by auto
next
  case (worker_pop s i e r q)
  then obtain b where b: "srv_inv N M b (d_world s)" "page_size (d_world s) = ps" by blast
  then have "chan_ok ps M (length (fds (d_world s))) e"
    using srv_invD(1) [OF b(1)] worker_pop.hyps(2,3) by (simp add: env_ok_def)
  from worker_pop_chan [OF this worker_pop.hyps(4)] show ?case using worker_inv [OF b(1)] b(2) by auto
next
  case (worker_push s i e mb d pr r q)
  then obtain b where b: "srv_inv N M b (d_world s)" "page_size (d_world s) = ps" by blast
  then have "chan_ok ps M (length (fds (d_world s))) e"
    using srv_invD(1) [OF b(1)] worker_push.hyps(2,3) by (simp add: env_ok_def)
  from worker_push_chan [OF this worker_push.hyps(4,5) worker_push.hyps(6,7) [unfolded b(2)]] show ?case
    using worker_inv [OF b(1)] b(2) by auto
qed

lemma booted_run_inv:
  assumes boot: "ready N sz w" "0 \<le> epfd" "0 < sz" "boot_ok fk lst N sz" "shm_len_ok (page_size w) M len"
      "foldR (start_worker len fk lst rw) [0..<N] (set_up epfd sz w) = Inr w1"
    and k: "\<forall>i w. fork_ok i w (k i w)"
    and run: "server_run dll g len k rw M (s\<lparr>d_world := w1\<rparr>) s'"
  shows "(\<exists>b. srv_inv N M b (d_world s')) \<and> page_size (d_world s') = page_size w"
proof -
  have "boot_inv (page_size w) sz N M N (rev (concat (map (boot_fds fk lst) [0..<N]))) w1"
    using start_workers_boot [OF net_init_boot [OF boot(1-3)] boot(4,5) order.refl, of rw] boot(6) by simp
  then have "srv_inv N M 0 w1" "page_size w1 = page_size w" by (auto simp: boot_inv_done) (simp add: boot_inv_def)
  then show ?thesis using server_run_inv [OF run, of N 0 "page_size w"] boot(5) k by simp
qed

section \<open>An example\<close>

definition demo_fork :: "nat \<Rightarrow> fork_env" where
  "demo_fork i = \<lparr>fk_mmap = (True, True), fk_pipes = (Some (6, 20), Some (21, 22)), fk_pid = 100\<rparr>"

definition demo_listen :: "nat \<Rightarrow> listen_env" where
  "demo_listen i = \<lparr>socket_r = 5, reuse_r = 0, rcvbuf_r = 0, sndbuf_r = 0, bind_r = 0, listen_r = 0\<rparr>"

text \<open>\<open>fork\<close> and \<open>pipe\<close> later: the first free descriptor, or failure.\<close>

definition demo_refork :: "nat \<Rightarrow> 't world \<Rightarrow> fork_env" where
  "demo_refork i w =
     (case filter (\<lambda>fd. fi_type (fdi w fd) = fd_type_unused) [0..<length (fds w)] of
        [] \<Rightarrow> \<lparr>fk_mmap = (True, True), fk_pipes = (None, None), fk_pid = -1\<rparr>
      | fd # _ \<Rightarrow> \<lparr>fk_mmap = (True, True), fk_pipes = (Some (int fd, 20), Some (21, 22)), fk_pid = 101\<rparr>)"

lemma demo_refork_ok: "\<forall>i w. fork_ok i w (demo_refork i w)"
proof (intro allI)
  fix i w
  show "fork_ok i w (demo_refork i w)"
  proof (cases "filter (\<lambda>fd. fi_type (fdi w fd) = fd_type_unused) [0..<length (fds w)]")
    case Nil
    then show ?thesis by (simp add: demo_refork_def fork_ok_def)
  next
    case (Cons fd fds')
    have "fd < length (fds w) \<and> fi_type (fdi w fd) = fd_type_unused"
      using arg_cong [OF Cons, of set] by auto
    with Cons show ?thesis by (simp add: demo_refork_def fork_ok_def used_def)
  qed
qed

lemma demo_boot:
  "ready 1 8 demo_world" "boot_ok demo_fork demo_listen 1 8" "shm_len_ok (page_size demo_world) 200 200"
  by (simp_all add: ready_def demo_world_def small_def max_listen_fds_def demo_bc_def demo_queue_def peer_ok_idle
      boot_ok_def boot_fds_def demo_fork_def demo_listen_def listen_err_def shm_len_ok_def)

definition demo_started :: "nat \<Rightarrow> unit world res" where
  "demo_started sz = foldR (start_worker 200 demo_fork demo_listen (\<lambda>i n w. Inr w)) [0..<1]
     (clean_child_pids (snd (net_init 3 True sz demo_world)))"

text \<open>A client connects: the listening socket becomes readable.\<close>

definition demo_knock :: "unit world \<Rightarrow> unit world" where
  "demo_knock w = w\<lparr>accept_as := [AccOk 7 \<lparr>sin_addr = 0, sin_port = 0\<rparr>, AccErr EAGAIN],
     epoll_as := [Some [(5, \<lparr>ev_in = True, ev_out = False, ev_hup = False\<rparr>)]], time_as := [9]\<rparr>"

definition demo_iteration :: "unit world \<Rightarrow> (int \<times> unit world) res" where
  "demo_iteration w = net_loop 9 demo_dll no_ght True (\<lambda>i w. restart_child_process demo_dll 200 (demo_refork i w) (\<lambda>i n w. Inr w) i w)
     (page_size w) True w"

lemma demo_server_run:
  "case demo_started 8 of Inr w1 \<Rightarrow> 
     list_all (\<lambda>fd. fi_type (fdi w1 fd) = (if fd = 5 then fd_type_listen else if fd = 6 then fd_type_pipe else fd_type_unused)) [0..<8] \<and>
     length (fds w1) = 8 \<and> bind_num (bindconf w1) = 1 \<and> sendlen (cb (fdi w1 5)) = 0 \<and> sendlen (cb (fdi w1 6)) = 0 \<and>
     (case demo_iteration (demo_knock w1) of Inr (r, w2) \<Rightarrow>
        r = 0 \<and> length (fds w2) = 8 \<and> fi_type (fdi w2 7) = fd_type_remote \<and>  bind_num (bindconf w2) = 1 \<and>
        list_all (\<lambda>fd. sendlen (cb (fdi w2 fd)) = 0) [0..<8]
      | _ \<Rightarrow> False)
   | _ \<Rightarrow> False"
  by code_simp

lemma demo_server:
  obtains w1 w2 where "demo_started 8 = Inr w1" "demo_iteration (demo_knock w1) = Inr (0, w2)"
    "server_run demo_dll no_ght 200 demo_refork (\<lambda>i n w. Inr w) 200 ((demo_daemon [] 0)\<lparr>d_world := w1\<rparr>)
       ((demo_daemon [] 0)\<lparr>d_world := w2\<rparr>)"
    "send_room 200 w2" "7 < length (fds w2)" "fi_type (fdi w2 7) = fd_type_remote"
proof -
  obtain w1 where w1: "demo_started 8 = Inr w1" using demo_server_run by (cases "demo_started 8") auto
  note r1 = demo_server_run [unfolded w1 sum.case]
  obtain r w2 where w2: "demo_iteration (demo_knock w1) = Inr (r, w2)"
    using r1 by (cases "demo_iteration (demo_knock w1)") auto
  note r2 = r1 [unfolded w2 sum.case prod.case]
  have z: "r = 0" "length (fds w2) = 8" "bind_num (bindconf w2) = 1" "list_all (\<lambda>fd. sendlen (cb (fdi w2 fd)) = 0) [0..<8]"
    "fi_type (fdi w2 7) = fd_type_remote"
    "length (fds w1) = 8" "bind_num (bindconf w1) = 1" "sendlen (cb (fdi w1 5)) = 0" "sendlen (cb (fdi w1 6)) = 0"
    "list_all (\<lambda>fd. fi_type (fdi w1 fd) = (if fd = 5 then fd_type_listen else if fd = 6 then fd_type_pipe else fd_type_unused)) [0..<8]"
    using r2 by blast+
  have u: "used w1 \<subseteq> {5, 6}" using z(6,10) by (auto simp: used_def list_all_iff split: if_splits)
  have room: "send_room 200 (demo_knock w1)" using u z(7,8,9) by (auto simp: send_room_def demo_knock_def used_def)
  have room2: "send_room 200 w2" using z(2,3,4) by (auto simp: send_room_def used_def list_all_iff)
  have "accepts_fit (demo_knock w1)" using z(6) by (simp add: accepts_fit_def demo_knock_def)
  then have "reanswered w1 (demo_knock w1)"
    by (rule reansweredI [where ea = "epoll_add_ok w1" and mo = "mmap_ok w1" and ra = "recv_as w1" and sa = "send_as w1"
        and pa = "read_as w1" and so = "so_error_as w1" and fe = "fcntl_err w1"
        and aa = "accept_as (demo_knock w1)" and ep = "epoll_as (demo_knock w1)" and tm = "time_as (demo_knock w1)"])
      (simp add: demo_knock_def)
  then have "server_run demo_dll no_ght 200 demo_refork (\<lambda>i n w. Inr w) 200 ((demo_daemon [] 0)\<lparr>d_world := w1\<rparr>)
      ((demo_daemon [] 0)\<lparr>d_world := demo_knock w1\<rparr>)"
    using server_run.kernel [OF server_run.start, of "(demo_daemon [] 0)\<lparr>d_world := w1\<rparr>"] by simp
  from server_run.iterate [OF this, of 9 True r w2] room w2
  have "server_run demo_dll no_ght 200 demo_refork (\<lambda>i n w. Inr w) 200 ((demo_daemon [] 0)\<lparr>d_world := w1\<rparr>)
      ((demo_daemon [] 0)\<lparr>d_world := w2\<rparr>)"
    by (simp add: demo_iteration_def)
  then show thesis using that [OF w1 w2 [unfolded z(1)]] z(2,5) room2 by simp
qed

section \<open>Properties\<close>

text \<open>
  C22: \<open>main\<close> starts the workers safely.  From the state in which it calls \<open>net_init\<close> (\<open>ready\<close>: \<open>N\<close>
  lines of the bind file were read) it creates the queues, forks, registers the pipes and the
  listening sockets of all \<open>N\<close> lines, and afterwards the invariant of the server holds with nothing to
  send.  Of the kernel it needs (\<open>boot_ok\<close>) that pipes and sockets get different descriptors below the
  size \<open>sz\<close> of the table, which was allocated, that \<open>fork\<close> returns in the parent or fails, and that it
  fails when there was no pipe, which the code does not check; of the configuration, that a queue has room
  for its head and a block (\<open>shm_len_ok\<close>).  Then starting the workers never fails an assertion, and the only
  access outside an object that is left is the write through \<open>MAP_FAILED\<close> (\<open>MapFault\<close>): it is what happens
  when the mapping of a queue fails (\<open>unmapped_queue_faults\<close>).
\<close>

theorem workers_start_safely:
  assumes "ready N sz w" "0 \<le> epfd" "0 < sz" "boot_ok fk lst N sz" "shm_len_ok (page_size w) M len"
  shows "safe_res (srv_inv N M 0) (foldR (start_worker len fk lst rw) [0..<N] (clean_child_pids (snd (net_init epfd True sz w))))"
  using start_workers_boot [OF net_init_boot [OF assms(1-3)] assms(4,5) order.refl] boot_inv_done by (rule safe_mono)

theorem workers_start_safely_witness:
  "safe_res (srv_inv 1 200 0) (demo_started 8) \<and> (\<exists>w. demo_started 8 = Inr w)"
proof
  show "safe_res (srv_inv 1 200 0) (demo_started 8)"
    unfolding demo_started_def by (rule workers_start_safely [OF demo_boot(1) _ _ demo_boot(2,3)]) simp_all
  obtain w1 w2 where "demo_started 8 = Inr w1" using demo_server by metis
  then show "\<exists>w. demo_started 8 = Inr w" by simp
qed



text \<open>
  C21: The connection table is well typed in every reachable state: an entry in use is a listening
  socket, a pipe or a connection and points to a bind element; a receive buffer has \<open>page_size\<close>
  bytes and belongs to no pipe; a send buffer has \<open>sndbufsz\<close> bytes, of which \<open>sendlen\<close> are pending,
  and without a buffer nothing is.
\<close>

theorem reachable_table_typed:
  assumes boot: "ready N sz w" "0 \<le> epfd" "0 < sz" "boot_ok fk lst N sz" "shm_len_ok (page_size w) M len"
      "foldR (start_worker len fk lst rw) [0..<N] (clean_child_pids (snd (net_init epfd True sz w))) = Inr w1"
    and kernel: "\<forall>i w. fork_ok i w (k i w)"
    and run: "server_run dll g len k rw M (s\<lparr>d_world := w1\<rparr>) s'"
    and fd: "fd < length (fds (d_world s'))" "fi_type (fdi (d_world s') fd) \<noteq> fd_type_unused"
  shows "fi_type (fdi (d_world s') fd) \<in> {fd_type_listen, fd_type_pipe, fd_type_remote} \<and>
    (\<exists>i<length (configs (bindconf (d_world s'))). bc_elem (fdi (d_world s') fd) = Some i) \<and>
    (case recvptr (cb (fdi (d_world s') fd)) of None \<Rightarrow> True
     | Some buf \<Rightarrow> fi_type (fdi (d_world s') fd) \<noteq> fd_type_pipe \<and> length buf = unat (page_size w) \<and>
         unat (recvlen (cb (fdi (d_world s') fd))) \<le> length buf) \<and>
    (case sendptr (cb (fdi (d_world s') fd)) of None \<Rightarrow> sendlen (cb (fdi (d_world s') fd)) = 0
     | Some buf \<Rightarrow> length buf = unat (sndbufsz (cb (fdi (d_world s') fd))) \<and>
         unat (sendlen (cb (fdi (d_world s') fd))) \<le> length buf)"
proof -
  let ?w = "d_world s'"
  obtain b where b: "srv_inv N M b ?w" "page_size ?w = page_size w"
    using booted_run_inv [OF boot kernel run] by blast
  have "fd \<in> used ?w" using fd by (simp add: used_def)
  note e = srv_inv_entry(1) [OF b(1) this, unfolded entry_ok_def b(2)]
  have "unat (recvlen (cb (fdi ?w fd))) \<le> length buf" "length buf = unat (page_size w)" if "recvptr (cb (fdi ?w fd)) = Some buf" for buf
    using e that by (auto simp: recv_ok_def unat_of_nat intro: order_trans [OF mod_less_eq_dividend])
  then show ?thesis using e by (auto simp: send_ok_def split: option.splits)
qed

theorem reachable_table_typed_witness:
  "\<exists>w1 w2. demo_started 8 = Inr w1 \<and> demo_iteration (demo_knock w1) = Inr (0, w2) \<and>
     fi_type (fdi w2 7) = fd_type_remote \<and> (\<exists>i<length (configs (bindconf w2)). bc_elem (fdi w2 7) = Some i)"
proof -
  obtain w1 w2 where w: "demo_started 8 = Inr w1" "demo_iteration (demo_knock w1) = Inr (0, w2)"
    "server_run demo_dll no_ght 200 demo_refork (\<lambda>i n w. Inr w) 200 ((demo_daemon [] 0)\<lparr>d_world := w1\<rparr>)
       ((demo_daemon [] 0)\<lparr>d_world := w2\<rparr>)" "7 < length (fds w2)" "fi_type (fdi w2 7) = fd_type_remote"
    using demo_server by metis
  have "\<exists>i<length (configs (bindconf w2)). bc_elem (fdi w2 7) = Some i"
    using reachable_table_typed [OF demo_boot(1) _ _ demo_boot(2,3) w(1) [unfolded demo_started_def] demo_refork_ok w(3),
      of 7] w(4,5) by simp
  with w show ?thesis by blast
qed

end
