(* ===== verification/Mp_System.thy ===== *)
theory Mp_System
  imports Mp_Worker Mp_Server Mp_Echo
begin

text \<open>
  The life of a worker process and the system of the parent and its workers.  A worker that is forked
  from a parent in good order starts safely, runs safely under the contract \<open>worker_plugin\<close> and never
  returns into the parent's code; \<open>system_run\<close> interleaves the parent, the workers with their shared
  queues, signals, crashes and the kernel.
\<close>

section \<open>Server connections of a plugin\<close>

lemma added_wk:
  assumes i: "wk et w" and fd: "fd < length (fds w)" "fd \<notin> used w" and ty: "ty \<in> {fd_type_pipe, fd_type_remote}"
  shows "wk et (added fd ty pr bc w) \<and> wk_next w (added fd ty pr bc w)"
proof (rule wk_step [OF i])
  have ty': "ty \<noteq> fd_type_unused" using ty by auto
  show "env (added fd ty pr bc w) = env w" by (simp add: added_env)
  show "bindconf (added fd ty pr bc w) = bindconf w" by (simp add: added_def)
  show "net_inv (added fd ty pr bc w) [] et" by (rule added_inv [OF wkD(1) [OF i] fd ty'])
  show "core (fdi (added fd ty pr bc w) x) = core (fdi w x)" if "x \<noteq> fd" "x < length (fds w)" for x
    using that fd(1) by simp
  show "if fd \<in> used (added fd ty pr bc w) then wk_entry (page_size w) (fdi (added fd ty pr bc w) fd)
      else sendlen (cb (fdi (added fd ty pr bc w) fd)) = 0"
    using fd(1) ty by (auto simp: wk_entry_def recv_ok_def send_ok_def zero_cb_def)
qed

text \<open>What \<open>connect_to_svr\<close> and \<open>close_svr\<close> do to the state of the worker.\<close>

lemma connect_to_svr_wk:
  assumes i: "wk et w" and s: "\<And>fd cl. safe_tcp_connect (addr \<noteq> None) sock conn = (fd, cl) \<Longrightarrow> fd \<noteq> -1 \<Longrightarrow>
      nat fd < length (fds w) \<and> nat fd \<notin> used w"
  shows "safe_res (\<lambda>(r, w'). wk et w' \<and> wk_next w w') (connect_to_svr addr port sock conn w)"
proof -
  obtain fd cl where c: "safe_tcp_connect (addr \<noteq> None) sock conn = (fd, cl)" by fastforce
  let ?w = "w\<lparr>closed := closed w @ map nat cl\<rparr>"
  have w: "wk et ?w \<and> wk_next w ?w \<and> used ?w = used w" by (rule wk_fds [OF i]) simp_all
  have "safe_res (\<lambda>w'. wk et w' \<and> wk_next w w') (do_add_conn (nat fd) fd_type_remote (Some pr) None ?w)" if "fd \<noteq> -1" for pr
  proof (cases "epoll_add_ok ?w")
    case True
    have l: "nat fd < length (fds ?w)" "nat fd \<notin> used ?w" using s [OF c that] w by auto
    from added_wk [OF conjunct1 [OF w] l, of fd_type_remote "Some pr" None]
    have "wk et (added (nat fd) fd_type_remote (Some pr) None ?w) \<and> wk_next ?w (added (nat fd) fd_type_remote (Some pr) None ?w)" by simp
    then show ?thesis unfolding do_add_conn_eq [OF True l(1)] using w wk_next_trans [of w ?w] by simp
  qed (simp add: do_add_conn_def add_events_def)
  then show ?thesis
    unfolding connect_to_svr_def c using w by (auto simp: Let_def intro!: safe_bind)
qed

lemma close_svr_wk: "wk et w \<Longrightarrow> fd < length (fds w) \<Longrightarrow> safe_res (wk_ok w) (close_svr dll fd w)"
  unfolding close_svr_def by (rule safe_mono [OF quiet_del_wk]) (auto intro: wk_okI)

section \<open>The echo plugin keeps the contract\<close>

interpretation echo_wk: worker_plugin echo_plugin
proof unfold_locales
  fix pkg s and w :: "'a world"
  assume "wk_inv w"
  then obtain et where i: "wk et w" by (auto simp: wk_inv_def)
  show "safe_res (\<lambda>(r, w'). wk_ok w w') (proc_pkg_from_client echo_plugin pkg s w)"
    unfolding echo_plugin_sel by (rule safe_mono [OF send_frags_wk [OF i]]) (auto intro: wk_okI)
qed (auto simp: echo_plugin_def wk_ok_refl recv_kept_def intro: wk_leftI)

section \<open>The start of a worker\<close>

lemma net_init_inv:
  assumes "0 \<le> epfd" "0 < sz"
  shows "net_inv (snd (net_init epfd True sz w)) [] []" "used (snd (net_init epfd True sz w)) = {}"
proof -
  let ?w = "snd (net_init epfd True sz w)"
  have f: "fds ?w = replicate sz zero_fdinfo" "maxfd ?w = 0" "ev_count ?w = 0"
    using assms(1) by (simp_all add: net_init_def)
  have n: "circ (nodes ?w) CloseHead []" "circ (nodes ?w) EtinHead []"
    using assms(1) by (simp_all add: net_init_def circ_def INIT_LIST_HEAD_def)
  show u: "used ?w = {}" by (auto simp: used_def f zero_fdinfo_def)
  have "table_ok ?w" using assms(2) unfolding table_ok_def u by (simp add: f zero_fdinfo_def)
  moreover have "queues_ok ?w [] []" using n unfolding queues_ok_def by (auto simp: f zero_fdinfo_def)
  ultimately show "net_inv ?w [] []" by (simp add: net_inv_def)
qed

lemma shmq_destroy_keeps:
  "length (configs (shmq_destroy (Some idx) n bc)) = length (configs bc)"
  "configs (shmq_destroy (Some idx) n bc) ! idx = configs bc ! idx"
proof -
  have "length (fold (\<lambda>i cs. if Some i = Some idx then cs else cs[i := do_destroy_shmq (cs ! i)]) ks cs) = length cs \<and>
    fold (\<lambda>i cs. if Some i = Some idx then cs else cs[i := do_destroy_shmq (cs ! i)]) ks cs ! idx = cs ! idx" for ks cs
    by (induction ks arbitrary: cs) auto
  then show "length (configs (shmq_destroy (Some idx) n bc)) = length (configs bc)"
    "configs (shmq_destroy (Some idx) n bc) ! idx = configs bc ! idx"
    by (auto simp: shmq_destroy_def)
qed

text \<open>
  \<open>run_worker_process\<close> up to its loop; the flag of \<open>handle_init\<close> is the result.  \<open>worker_start\<close> is
  what follows the title of the process.
\<close>

definition worker_start ::
  "'t serv_if \<Rightarrow> 't ght \<Rightarrow> int \<Rightarrow> int \<Rightarrow> nat \<Rightarrow> nat \<Rightarrow> nat \<Rightarrow> 't world \<Rightarrow> (int \<times> 't world) res"
where
  "worker_start dll g epfd ini_idle sz idx n_inited w =
     (let w1 = w\<lparr>is_parent := False,
                 closed := closed w @ map nat (close_shmq_pipe (bindconf w) n_inited True),
                 bindconf := shmq_destroy (Some idx) n_inited (bindconf w)\<rparr> in
      bindR (net_exit w1) (\<lambda>w2.
      let w3 = snd (net_init epfd True sz w2);
          e = configs (bindconf w3) ! idx in
      bindR (do_add_conn (nat (fst (pipe_handles (recvq e)))) fd_type_pipe None None w3)
        (handle_init dll g ini_idle idx)))"

definition worker_init ::
  "'t serv_if \<Rightarrow> 't ght \<Rightarrow> int \<Rightarrow> int \<Rightarrow> nat \<Rightarrow> nat \<Rightarrow> nat \<Rightarrow> 't world \<Rightarrow> (int \<times> 't world) res"
where
  "worker_init dll g epfd ini_idle sz idx n_inited w =
     (if length (configs (bindconf w)) \<le> idx \<or> length (configs (bindconf w)) < n_inited then Inl Segv
      else if unat (server_id (configs (bindconf w) ! idx)) \<ge> 10 ^ 9 then Inl Segv
      else worker_start dll g epfd ini_idle sz idx n_inited w)"

lemma run_worker_process_eq:
  "run_worker_process sigs fuel dll g ok epfd ini_idle sz idx n_inited w =
     bindR (worker_init dll g epfd ini_idle sz idx n_inited w) (\<lambda>(r, w5).
     bindR (if r \<noteq> 0 then Inr w5 else worker_loop sigs fuel dll g ok w5) (\<lambda>w6.
     bindR (net_exit (set_conf idx (do_destroy_shmq (configs (bindconf w6) ! idx)) w6)) (\<lambda>w7. Inl (Exit 0))))"
  by (simp add: run_worker_process_def worker_init_def worker_start_def bindR_assoc Let_def)

text \<open>A state of the parent from which worker \<open>idx\<close> can be forked; \<open>sz\<close> is the size of the new table.\<close>

definition fork_point :: "nat \<Rightarrow> nat \<Rightarrow> nat \<Rightarrow> 't world \<Rightarrow> bool" where
  "fork_point M sz idx w \<longleftrightarrow> idx < length (configs (bindconf w)) \<and> small (page_size w) \<and> 13 < unat (page_size w) \<and>
     peer_ok (page_size w) (peer w) \<and> maxfd w < int (length (fds w)) \<and>
     (let e = configs (bindconf w) ! idx in (\<exists>xs. q_rep (page_size w) (recvq e) xs) \<and>
       (\<exists>xs. q_rep (page_size w) (sendq e) xs \<and> list_all out_msg xs) \<and>
       unat (q_length (recvq e)) = M \<and> unat (q_length (sendq e)) = M \<and> nat (fst (pipe_handles (recvq e))) < sz)"

text \<open>Every state of the parent that satisfies its invariant is one, as far as the descriptor fits.\<close>

lemma srv_inv_fork_point:
  assumes i: "srv_inv N M b w" and "idx < length (configs (bindconf w))" "13 < unat (page_size w)"
    "nat (fst (pipe_handles (recvq (configs (bindconf w) ! idx)))) < sz"
  shows "fork_point M sz idx w"
proof -
  have "chan_ok (page_size w) M (length (fds w)) (configs (bindconf w) ! idx)"
    using srv_invD(1) [OF i] assms(2) by (simp add: env_ok_def)
  moreover have "maxfd w < int (length (fds w))" using srv_invD(4) [OF i] by (auto simp: net_inv_def table_ok_def)
  ultimately show ?thesis using assms srv_invD(6,7) [OF i] by (auto simp: fork_point_def chan_ok_def Let_def)
qed

text \<open>What every state of worker \<open>idx\<close> satisfies.\<close>

definition mine :: "u32 \<Rightarrow> nat \<Rightarrow> nat \<Rightarrow> 't world \<Rightarrow> bool" where
  "mine ps M idx w \<longleftrightarrow> wk_inv w \<and> page_size w = ps \<and> cur_bc w = idx \<and> unat (fst (qlens w)) = M \<and> unat (snd (qlens w)) = M"

lemma mine_ok: "mine ps M idx w \<Longrightarrow> wk_ok w w' \<Longrightarrow> mine ps M idx w'"
  by (simp add: mine_def wk_ok_def wk_next_def)

context worker_plugin
begin

lemma worker_init_wk:
  assumes f: "fork_point M sz idx w" and n: "n_inited \<le> length (configs (bindconf w))"
    and id: "unat (server_id (configs (bindconf w) ! idx)) < 10 ^ 9" and ep: "0 \<le> epfd"
  shows "safe_res (\<lambda>(r, w'). mine (page_size w) M idx w') (worker_init dll g epfd ini_idle sz idx n_inited w)"
proof -
  let ?e = "configs (bindconf w) ! idx"
  define w1 where "w1 = w\<lparr>is_parent := False, closed := closed w @ map nat (close_shmq_pipe (bindconf w) n_inited True),
      bindconf := shmq_destroy (Some idx) n_inited (bindconf w)\<rparr>"
  define w2 where "w2 = w1\<lparr>closed := closed w1 @ filter (\<lambda>i. fi_type (fdi w1 i) \<noteq> fd_type_unused) [0..<nat (maxfd w1 + 1)],
      fds := [], interest := Map.empty\<rparr>"
  define w3 where "w3 = snd (net_init epfd True sz w2)"
  let ?fd = "nat (fst (pipe_handles (recvq ?e)))"
  have fp: "idx < length (configs (bindconf w))" "maxfd w < int (length (fds w))" "?fd < sz"
    using f by (auto simp: fork_point_def Let_def)
  have e1: "net_exit w1 = Inr w2" using fp(2) by (simp add: net_exit_def w1_def w2_def)
  have s3: "page_size w3 = page_size w" "peer w3 = peer w" "\<not> is_parent w3" "length (fds w3) = sz"
    "length (configs (bindconf w3)) = length (configs (bindconf w))" "configs (bindconf w3) ! idx = ?e"
    using ep by (simp_all add: w3_def w2_def w1_def net_init_def shmq_destroy_keeps)
  have z: "fds w3 = replicate sz zero_fdinfo" using ep by (simp add: w3_def net_init_def)
  have sz0: "0 < sz" using fp(3) by simp
  note ni = net_init_inv [OF ep sz0, of w2, folded w3_def]
  define w4 where "w4 = w3\<lparr>idle_timeout := ini_idle, cur_bc := idx, cn := ht_new g\<rparr>"
  have s4: "fds w4 = fds w3" "nodes w4 = nodes w3" "maxfd w4 = maxfd w3" "ev_count w4 = ev_count w3" "used w4 = used w3"
    by (simp_all add: w4_def used_def)
  have "wk [] w4"
    using ni net_inv_cong [OF s4(1-4)] f s3 s4(1,5) z fp(1)
    by (auto simp: wk_def wk_env_def wk_ents_def wk_chan_def fork_point_def Let_def w4_def zero_fdinfo_def zero_cb_def)
  from added_wk [OF this, of ?fd fd_type_pipe None None] s3(4) fp(3) ni(2) s4
  have a4: "wk [] (added ?fd fd_type_pipe None None w4)" "wk_next w4 (added ?fd fd_type_pipe None None w4)" by auto
  let ?w5 = "added ?fd fd_type_pipe None None w4"
  have sw: "(added ?fd fd_type_pipe None None w3)\<lparr>idle_timeout := ini_idle, cur_bc := idx, cn := ht_new g\<rparr> = ?w5"
    by (simp add: added_def w4_def)
  have "qlens w4 = (q_length (recvq ?e), q_length (sendq ?e))" using s3(6) by (simp add: qlens_def w4_def Let_def)
  then have m5: "mine (page_size w) M idx ?w5"
    using a4 f s3(1) by (auto simp: mine_def wk_inv_def wk_next_def fork_point_def Let_def w4_def)
  have hi: "safe_res (\<lambda>(r, w'). mine (page_size w) M idx w') (handle_init dll g ini_idle idx (added ?fd fd_type_pipe None None w3))"
  proof (cases "init_service dll")
    case None
    then show ?thesis using m5 sw by (simp add: handle_init_def Let_def)
  next
    case (Some k)
    have "safe_res (\<lambda>(r, w'). mine (page_size w) M idx w') (k False ?w5)"
      by (rule safe_mono [OF init_law [OF Some]]) (use m5 mine_ok [OF m5] in \<open>auto simp: mine_def\<close>)
    then show ?thesis using Some sw by (simp add: handle_init_def Let_def)
  qed
  have ad: "do_add_conn ?fd fd_type_pipe None None w3 = Inr (added ?fd fd_type_pipe None None w3) \<or>
      do_add_conn ?fd fd_type_pipe None None w3 = Inl (Exit 1)"
    using do_add_conn_eq [of w3 ?fd] s3(4) fp(3) by (cases "epoll_add_ok w3") (auto simp: do_add_conn_def add_events_def)
  have "worker_init dll g epfd ini_idle sz idx n_inited w = bindR (net_exit w1) (\<lambda>w2.
      bindR (do_add_conn (nat (fst (pipe_handles (recvq (configs (bindconf (snd (net_init epfd True sz w2))) ! idx)))))
        fd_type_pipe None None (snd (net_init epfd True sz w2))) (handle_init dll g ini_idle idx))"
    using fp(1) n id by (simp add: worker_init_def worker_start_def w1_def [symmetric] Let_def not_le)
  also have "\<dots> = bindR (do_add_conn ?fd fd_type_pipe None None w3) (handle_init dll g ini_idle idx)"
    by (simp add: e1 s3(6) flip: w3_def)
  finally show ?thesis using ad hi by auto
qed

lemma handle_fini_wk:
  assumes inv: "wk_inv w"
  shows "safe_res (\<lambda>(r, w'). wk_ok w w') (handle_fini dll g w)"
proof -
  obtain et where i: "wk et w" using inv by (auto simp: wk_inv_def)
  have "nat (maxfd w + 1) \<le> length (fds w)" using wkD(1) [OF i] by (auto simp: net_inv_def table_ok_def)
  moreover have "wk_ok w (v\<lparr>cn := c\<rparr>)" if "wk_ok w v" for v c using cn_ok [OF that, of "cn_count v" c] by simp
  ultimately show ?thesis
    using fini_law [OF _ inv] wk_ok_refl [OF inv]
    by (auto simp: handle_fini_def split: option.split intro!: safe_bind)
qed

lemma worker_loop_wk:
  assumes "mine ps M idx w"
  shows "safe_res (mine ps M idx) (worker_loop sigs fuel dll g ok w)"
  using assms
proof (induction sigs arbitrary: w)
  case (Cons sig sigs)
  let ?w0 = "if sig then w\<lparr>stopped := True\<rparr> else w"
  obtain et where i: "wk et w" using Cons.prems by (auto simp: mine_def wk_inv_def)
  have "wk_ok w (w\<lparr>stopped := True\<rparr>)" using wk_fds [OF i, of "w\<lparr>stopped := True\<rparr>"] by (auto intro: wk_okI)
  then have m0: "mine ps M idx ?w0" using mine_ok [OF Cons.prems] Cons.prems by simp
  then have i0: "wk_inv ?w0" by (simp add: mine_def)
  have f: "safe_res (\<lambda>(fini, w1). mine ps M idx w1) (if stopped ?w0 then handle_fini dll g ?w0 else Inr (False, ?w0))"
    using m0 safe_mono [OF handle_fini_wk [OF i0], of "\<lambda>(fini, w1). mine ps M idx w1" g] mine_ok [OF m0] by auto
  have "safe_res (mine ps M idx) (bindR (if stopped ?w0 then handle_fini dll g ?w0 else Inr (False, ?w0)) (\<lambda>(fini, w1).
        if fini then Inr w1
        else bindR (net_loop fuel dll g ok (\<lambda>i w. Inr w) (page_size w1) False w1) (\<lambda>(r, w2). worker_loop sigs fuel dll g ok w2)))"
  proof (rule safe_bind [OF f], clarify)
    fix fini and w1 :: "'t world" assume m1: "mine ps M idx w1"
    then have "wk_inv w1" by (simp add: mine_def)
    from net_loop_wk [OF this, of fuel g ok "\<lambda>i w. Inr w"]
    have "safe_res (\<lambda>(r, w2). mine ps M idx w2) (net_loop fuel dll g ok (\<lambda>i w. Inr w) (page_size w1) False w1)"
      by (rule safe_mono) (use mine_ok [OF m1] in auto)
    then show "safe_res (mine ps M idx) (if fini then Inr w1
        else bindR (net_loop fuel dll g ok (\<lambda>i w. Inr w) (page_size w1) False w1) (\<lambda>(r, w2). worker_loop sigs fuel dll g ok w2))"
      using m1 Cons.IH by (auto intro!: safe_bind)
  qed
  then show ?case by (simp add: Let_def)
qed simp

text \<open>The whole process: it ends with \<open>exit\<close> or waits, and never comes back to its caller.\<close>

lemma run_worker_process_wk:
  assumes "fork_point M sz idx w" "n_inited \<le> length (configs (bindconf w))"
    "unat (server_id (configs (bindconf w) ! idx)) < 10 ^ 9" "0 \<le> epfd"
  shows "safe_res (\<lambda>_. False) (run_worker_process sigs fuel dll g ok epfd ini_idle sz idx n_inited w)"
  unfolding run_worker_process_eq
proof (rule safe_bind [OF worker_init_wk [OF assms]], clarify)
  fix r and w5 :: "'t world" assume m: "mine (page_size w) M idx w5"
  have "safe_res (mine (page_size w) M idx) (if r \<noteq> 0 then Inr w5 else worker_loop sigs fuel dll g ok w5)"
    using m worker_loop_wk [OF m] by simp
  then show "safe_res (\<lambda>_. False) (bindR (if r \<noteq> 0 then Inr w5 else worker_loop sigs fuel dll g ok w5) (\<lambda>w6.
     bindR (net_exit (set_conf idx (do_destroy_shmq (configs (bindconf w6) ! idx)) w6)) (\<lambda>w7. Inl (Exit 0))))"
  proof (rule safe_bind)
    fix w6 :: "'t world" assume "mine (page_size w) M idx w6"
    then obtain et where i: "wk et w6" by (auto simp: mine_def wk_inv_def)
    have "nat (maxfd w6 + 1) \<le> length (fds w6)" using wkD(1) [OF i] by (auto simp: net_inv_def table_ok_def)
    then show "safe_res (\<lambda>_. False)
        (bindR (net_exit (set_conf idx (do_destroy_shmq (configs (bindconf w6) ! idx)) w6)) (\<lambda>w7. Inl (Exit 0)))"
      by (simp add: net_exit_def set_conf_def)
  qed
qed

end

section \<open>The restart of a worker, in the child\<close>

lemma shmq_create_fields:
  "shmq_create len mm pp e = Inr (c, e1) \<Longrightarrow> server_id e1 = server_id e \<and>
   pipe_handles (recvq e1) = (case snd pp of None \<Rightarrow> pipe_handles (recvq e) | Some p \<Rightarrow> p)"
  by (auto simp: shmq_create_def do_shmq_create_def pipe_create_def Let_def split: if_splits option.splits)

text \<open>The answers of the kernel in the child of a restart.\<close>

definition child_env :: "nat \<Rightarrow> nat \<Rightarrow> 't world \<Rightarrow> fork_env \<Rightarrow> bool" where
  "child_env sz i w K \<longleftrightarrow> fk_mmap K = (True, True) \<and> fk_pid K = 0 \<and>
     (case fst (fk_pipes K) of None \<Rightarrow> True | Some p \<Rightarrow> nat (fst p) < length (fds w)) \<and>
     (case snd (fk_pipes K) of None \<Rightarrow> nat (fst (pipe_handles (recvq (configs (bindconf w) ! i)))) < sz
      | Some p \<Rightarrow> nat (fst p) < sz)"

context worker_plugin
begin

text \<open>A worker that is forked by the restart of a dead one.\<close>

lemma restarted_child_wk:
  assumes inv: "srv_inv N M b w" and i: "i < length (configs (bindconf w))" and len: "shm_len_ok (page_size w) M len"
    and page: "13 < unat (page_size w)" and K: "child_env sz i w K" and ep: "0 \<le> epfd"
    and id: "unat (server_id (configs (bindconf w) ! i)) < 10 ^ 9"
  shows "safe_res (\<lambda>_. False)
    (restart_child_process dll' len K (run_worker_process sigs fuel dll g ok epfd ini_idle sz) i w)"
proof -
  have k: "fk_mmap K = (True, True)" "\<And>p. fst (fk_pipes K) = Some p \<Longrightarrow> nat (fst p) < length (fds w)" "fk_pid K = 0"
    using K by (auto simp: child_env_def)
  obtain c e1 where e1: "shmq_create len (fk_mmap K) (fk_pipes K) (do_destroy_shmq (configs (bindconf w) ! i)) = Inr (c, e1)"
    and del: "safe_res (at_fork N M b i e1 w)
       (do_del_conn dll' (nat (fst (pipe_handles (sendq (configs (bindconf w) ! i))))) 2 (restart_closed i w))"
    using restart_prefix [OF inv i len k(1,2), where dll = dll'] by metis
  have f: "server_id e1 = server_id (configs (bindconf w) ! i)" "nat (fst (pipe_handles (recvq e1))) < sz"
    using shmq_create_fields [OF e1] K by (auto simp: child_env_def do_destroy_shmq_def unmap_def split: option.splits)
  show ?thesis
    unfolding restart_child_eq [OF i e1]
  proof (rule safe_bind [OF del])
    fix w1 assume a: "at_fork N M b i e1 w w1"
    let ?w = "set_conf i e1 w1"
    have s: "srv_inv N M b ?w" "page_size ?w = page_size w" "i < length (configs (bindconf w1))"
      using a i by (auto simp: at_fork_def follows_def)
    have e: "configs (bindconf ?w) ! i = e1" "i < length (configs (bindconf ?w))" using s(3) by (simp_all add: set_conf_def)
    have "fork_point M sz i ?w" by (rule srv_inv_fork_point [OF s(1)]) (use e f(2) page s(2) in simp_all)
    moreover have "bind_num (bindconf ?w) \<le> length (configs (bindconf ?w))" using srv_invD(1) [OF s(1)] by (simp add: env_ok_def)
    ultimately have "safe_res (\<lambda>_. False)
        (run_worker_process sigs fuel dll g ok epfd ini_idle sz i (bind_num (bindconf ?w)) ?w)"
      by (rule run_worker_process_wk) (use e f(1) id ep in simp_all)
    then show "safe_res (\<lambda>_. False) (if fk_pid K < 0 then Inr ?w else if fk_pid K > 0 then
          bindR (do_add_conn (nat (fst (pipe_handles (sendq e1)))) fd_type_pipe None (Some i)
                   (?w\<lparr>closed := closed ?w @ map nat (close_shmq_pipe (bindconf ?w) i False)\<rparr>)) (\<lambda>w3.
          if length (child_pids w3) \<le> i then Inl Segv
          else Inr (w3\<lparr>child_pids := atomic_set (child_pids w3) i (fk_pid K)\<rparr>))
        else run_worker_process sigs fuel dll g ok epfd ini_idle sz i (bind_num (bindconf ?w)) ?w)"
      using k(3) by simp
  qed
qed

end

section \<open>The parent and its workers\<close>

text \<open>What process \<open>v\<close> left in the shared queues of bind element \<open>i\<close>, seen by process \<open>w\<close>.\<close>

definition share :: "nat \<Rightarrow> 't world \<Rightarrow> 't world \<Rightarrow> 't world" where
  "share i v w = (let e = configs (bindconf w) ! i; e' = configs (bindconf v) ! i in
     set_conf i (e\<lparr>recvq := seen (recvq e) (recvq e'), sendq := seen (sendq e) (sendq e')\<rparr>) w)"

text \<open>New answers of the kernel in a worker, and a termination signal.\<close>

definition wk_reanswered :: "'t world \<Rightarrow> 't world \<Rightarrow> bool" where
  "wk_reanswered w w' \<longleftrightarrow> (\<exists>ea mo ra sa aa pa ep tm so fe st. w' = w\<lparr>epoll_add_ok := ea, mmap_ok := mo,
     recv_as := ra, send_as := sa, accept_as := aa, read_as := pa, epoll_as := ep, time_as := tm, so_error_as := so,
     fcntl_err := fe, stopped := st\<rparr>)"

text \<open>
  The runs of the system from a state \<open>s0\<close> of the parent in which no worker runs yet: signals, new answers
  of the kernel and iterations of the parent's loop; a worker that is forked from the parent, crashes,
  makes an iteration of its own loop, refuses to end (\<open>handle_fini\<close>) or gets new answers.  After every
  iteration the other processes see what it did in the shared memory.
\<close>

inductive system_run ::
  "'t serv_if \<Rightarrow> 't ght \<Rightarrow> int \<Rightarrow> (nat \<Rightarrow> 't world \<Rightarrow> fork_env) \<Rightarrow> (nat \<Rightarrow> nat \<Rightarrow> 't world \<Rightarrow> 't world res) \<Rightarrow> nat \<Rightarrow>
   't daemon \<Rightarrow> 't daemon \<Rightarrow> (nat \<Rightarrow> 't world option) \<Rightarrow> bool" for dll g len k rw M s0
where
  start: "system_run dll g len k rw M s0 s0 (\<lambda>_. None)"
| signal: "system_run dll g len k rw M s0 s W \<Longrightarrow> system_run dll g len k rw M s0 (deliver sg s) W"
| kernel: "system_run dll g len k rw M s0 s W \<Longrightarrow> reanswered (d_world s) w' \<Longrightarrow>
    system_run dll g len k rw M s0 (s\<lparr>d_world := w'\<rparr>) W"
| parent: "system_run dll g len k rw M s0 s W \<Longrightarrow> send_room M (d_world s) \<Longrightarrow>
    net_loop fuel dll g ok (\<lambda>i w. restart_child_process dll len (k i w) rw i w) (page_size (d_world s)) True (d_world s) =
      Inr (r, w') \<Longrightarrow>
    system_run dll g len k rw M s0 (s\<lparr>d_world := w'\<rparr>) (\<lambda>i. map_option (share i w') (W i))"
| spawn: "system_run dll g len k rw M s0 s W \<Longrightarrow> i < bind_num (bindconf (d_world s)) \<Longrightarrow>
    nat (fst (pipe_handles (recvq (configs (bindconf (d_world s)) ! i)))) < sz \<Longrightarrow> 0 \<le> epfd \<Longrightarrow>
    worker_init dll g epfd ini_idle sz i n_inited (d_world s) = Inr (0, w) \<Longrightarrow>
    system_run dll g len k rw M s0 s (W(i \<mapsto> w))"
| crash: "system_run dll g len k rw M s0 s W \<Longrightarrow> system_run dll g len k rw M s0 s (W(i := None))"
| worker: "system_run dll g len k rw M s0 s W \<Longrightarrow> W i = Some w \<Longrightarrow>
    net_loop fuel dll g ok (\<lambda>i w. Inr w) (page_size w) False w = Inr (r, w') \<Longrightarrow>
    system_run dll g len k rw M s0 (s\<lparr>d_world := share i w' (d_world s)\<rparr>) (W(i \<mapsto> w'))"
| worker_fini: "system_run dll g len k rw M s0 s W \<Longrightarrow> W i = Some w \<Longrightarrow> handle_fini dll g w = Inr (False, w') \<Longrightarrow>
    system_run dll g len k rw M s0 (s\<lparr>d_world := share i w' (d_world s)\<rparr>) (W(i \<mapsto> w'))"
| worker_kernel: "system_run dll g len k rw M s0 s W \<Longrightarrow> W i = Some w \<Longrightarrow> wk_reanswered w w' \<Longrightarrow>
    system_run dll g len k rw M s0 s (W(i \<mapsto> w'))"

text \<open>The invariant of the system: the parent's, and that of every running worker.\<close>

definition sys_inv :: "u32 \<Rightarrow> nat \<Rightarrow> nat \<Rightarrow> 't daemon \<Rightarrow> (nat \<Rightarrow> 't world option) \<Rightarrow> bool" where
  "sys_inv ps N M s W \<longleftrightarrow> (\<exists>b. srv_inv N M b (d_world s)) \<and> page_size (d_world s) = ps \<and>
     (\<forall>i w. W i = Some w \<longrightarrow> i < N \<and> mine ps M i w)"

lemma chan_seen:
  "\<exists>xs. q_rep ps q xs \<Longrightarrow> \<exists>ys. q_rep ps q' ys \<Longrightarrow> q_length q' = q_length q \<Longrightarrow> \<exists>ys. q_rep ps (seen q q') ys"
  "\<exists>xs. q_rep ps q xs \<and> list_all P xs \<Longrightarrow> \<exists>ys. q_rep ps q' ys \<and> list_all P ys \<Longrightarrow> q_length q' = q_length q \<Longrightarrow>
   \<exists>ys. q_rep ps (seen q q') ys \<and> list_all P ys"
  using q_rep_seen by blast+

lemma share_parent:
  assumes i: "srv_inv N M b w" and m: "mine (page_size w) M k v" and k: "k < length (configs (bindconf w))"
  shows "srv_inv N M b (share k v w)" "page_size (share k v w) = page_size w"
    "length (configs (bindconf (share k v w))) = length (configs (bindconf w))"
proof -
  let ?e = "configs (bindconf w) ! k" and ?e' = "configs (bindconf v) ! k"
  obtain et where wv: "wk et v" using m by (auto simp: mine_def wk_inv_def)
  have v: "wk_chan (page_size w) ?e'" using wkD(7) [OF wv] m by (auto simp: mine_def)
  have l: "unat (q_length (recvq ?e')) = M" "unat (q_length (sendq ?e')) = M"
    using m by (auto simp: mine_def qlens_def Let_def)
  have c: "chan_ok (page_size w) M (length (fds w)) ?e" using srv_invD(1) [OF i] k by (simp add: env_ok_def)
  have eq: "q_length (recvq ?e') = q_length (recvq ?e)" "q_length (sendq ?e') = q_length (sendq ?e)"
    using c l by (auto simp: chan_ok_def intro: word_unat_eq_iff [THEN iffD2])
  have "chan_ok (page_size w) M (length (fds w)) (?e\<lparr>recvq := seen (recvq ?e) (recvq ?e'), sendq := seen (sendq ?e) (sendq ?e')\<rparr>)"
    using c v chan_seen(1) [OF _ _ eq(1)] chan_seen(2) [OF _ _ eq(2)] by (simp add: chan_ok_def wk_chan_def) (simp add: seen_def)
  from worker_inv [OF i this, of k] show "srv_inv N M b (share k v w)" "page_size (share k v w) = page_size w"
    by (simp_all add: share_def Let_def)
qed (simp add: share_def Let_def set_conf_def)

lemma share_worker:
  assumes i: "srv_inv N M b v" and m: "mine (page_size v) M k w" and k: "k < length (configs (bindconf v))"
  shows "mine (page_size v) M k (share k v w)"
proof -
  let ?e = "configs (bindconf w) ! k" and ?e' = "configs (bindconf v) ! k"
  obtain et where w: "wk et w" using m by (auto simp: mine_def wk_inv_def)
  have bc: "cur_bc w = k" "page_size w = page_size v" using m by (auto simp: mine_def)
  have c: "chan_ok (page_size v) M (length (fds v)) ?e'" using srv_invD(1) [OF i] k by (simp add: env_ok_def)
  have l: "unat (q_length (recvq ?e)) = M" "unat (q_length (sendq ?e)) = M"
    using m by (auto simp: mine_def qlens_def Let_def)
  have eq: "q_length (recvq ?e') = q_length (recvq ?e)" "q_length (sendq ?e') = q_length (sendq ?e)"
    using c l by (auto simp: chan_ok_def intro: word_unat_eq_iff [THEN iffD2])
  let ?n = "?e\<lparr>recvq := seen (recvq ?e) (recvq ?e'), sendq := seen (sendq ?e) (sendq ?e')\<rparr>"
  have "wk_chan (page_size w) ?n"
    using c wkD(7) [OF w] chan_seen(1) [OF _ _ eq(1)] chan_seen(2) [OF _ _ eq(2)] unfolding bc
    by (simp add: chan_ok_def wk_chan_def)
  moreover have "(q_length (recvq ?n), q_length (sendq ?n)) = qlens w" by (simp add: qlens_def bc(1) seen_def Let_def)
  ultimately have "wk et (set_bc ?n w) \<and> wk_next w (set_bc ?n w)" by (rule set_bc_wk [OF w])
  moreover have "share k v w = set_bc ?n w" by (simp add: share_def set_conf_def set_bc_def bc(1) Let_def)
  ultimately show ?thesis using mine_ok [OF m wk_okI] by metis
qed

lemma wk_reanswered_mine: "mine ps M i w \<Longrightarrow> wk_reanswered w w' \<Longrightarrow> mine ps M i w'"
proof -
  assume m: "mine ps M i w" and r: "wk_reanswered w w'"
  obtain et where "wk et w" using m by (auto simp: mine_def wk_inv_def)
  then have "wk et w' \<and> wk_next w w' \<and> used w' = used w"
    by (rule wk_fds) (use r in \<open>auto simp: wk_reanswered_def\<close>)
  then show ?thesis using mine_ok [OF m wk_okI] by blast
qed

lemma worker_init_guards:
  "worker_init dll g epfd ini_idle sz idx n_inited w = Inr x \<Longrightarrow>
   n_inited \<le> length (configs (bindconf w)) \<and> unat (server_id (configs (bindconf w) ! idx)) < 10 ^ 9"
  by (auto simp: worker_init_def split: if_splits)

lemma sys_inv_worker:
  assumes i: "sys_inv ps N M s W" and w: "W i = Some w" and m: "mine ps M i w'"
  shows "sys_inv ps N M (s\<lparr>d_world := share i w' (d_world s)\<rparr>) (W(i \<mapsto> w'))"
proof -
  obtain b where b: "srv_inv N M b (d_world s)" "page_size (d_world s) = ps" and k: "i < N"
    using i w by (auto simp: sys_inv_def)
  have "i < length (configs (bindconf (d_world s)))" using srv_invD(1) [OF b(1)] k by (simp add: env_ok_def)
  from share_parent [OF b(1) m [folded b(2)] this] show ?thesis using i m k b(2) by (auto simp: sys_inv_def)
qed

lemma sys_inv_upd: "sys_inv ps N M s W \<Longrightarrow> i < N \<Longrightarrow> mine ps M i w \<Longrightarrow> sys_inv ps N M s (W(i \<mapsto> w))"
  by (simp add: sys_inv_def)

lemma sys_inv_parent:
  assumes i: "sys_inv ps N M s W" and b: "srv_inv N M b w'" "page_size w' = ps"
  shows "sys_inv ps N M (s\<lparr>d_world := w'\<rparr>) (\<lambda>i. map_option (share i w') (W i))"
proof -
  have "mine ps M k (share k w' w)" if "W k = Some w" for k w
  proof -
    have m: "mine ps M k w" "k < N" using i that by (auto simp: sys_inv_def)
    have "k < length (configs (bindconf w'))" using srv_invD(1) [OF b(1)] m(2) by (simp add: env_ok_def)
    from share_worker [OF b(1) _ this] m(1) show ?thesis by (simp add: b(2))
  qed
  then show ?thesis using i b by (auto simp: sys_inv_def)
qed

context worker_plugin
begin

lemma system_run_inv:
  assumes run: "system_run dll g len k rw M s0 s W" and i: "srv_inv N M b (d_world s0)" and ps: "page_size (d_world s0) = ps"
    "13 < unat ps" and len: "shm_len_ok ps M len" and k: "\<forall>i w. fork_ok i w (k i w)"
  shows "sys_inv ps N M s W"
  using run
proof induction
  case start
  then show ?case using i ps by (auto simp: sys_inv_def)
next
  case (signal s W sg)
  then show ?case using deliver_inv [of N M _ s sg] by (auto simp: sys_inv_def)
next
  case (kernel s W w')
  then show ?case using reanswered_inv [of N M _ "d_world s" w'] by (auto simp: sys_inv_def)
next
  case (parent s W fuel ok r w')
  then obtain b where b: "srv_inv N M b (d_world s)" "page_size (d_world s) = ps" by (auto simp: sys_inv_def)
  from iterate_safe [OF b(1) parent.hyps(2) b(2) len k, where fuel = fuel and dll = dll and g = g and ok = ok and rw = rw] parent.hyps(3)
  obtain b' where "srv_inv N M b' w'" "page_size w' = ps" by auto
  with parent.IH show ?case by (rule sys_inv_parent)
next
  case (spawn s W i sz epfd ini_idle n_inited w)
  then obtain b where b: "srv_inv N M b (d_world s)" "page_size (d_world s) = ps" by (auto simp: sys_inv_def)
  have n: "i < N" "i < length (configs (bindconf (d_world s)))"
    using srv_invD(1) [OF b(1)] spawn.hyps(2) by (auto simp: env_ok_def)
  have "fork_point M sz i (d_world s)"
    using b n ps(2) spawn.hyps(3) by (intro srv_inv_fork_point) auto
  from worker_init_wk [OF this _ _ spawn.hyps(4), of n_inited g ini_idle] worker_init_guards [OF spawn.hyps(5)] spawn.hyps(5)
  have "mine ps M i w" by (simp add: b(2))
  with spawn.IH n(1) show ?case by (rule sys_inv_upd)
next
  case (crash s W i)
  then show ?case by (auto simp: sys_inv_def)
next
  case (worker s W i w fuel ok r w')
  then have m: "mine ps M i w" by (auto simp: sys_inv_def)
  then have "wk_inv w" by (simp add: mine_def)
  from net_loop_wk [OF this, of fuel g ok "\<lambda>i w. Inr w"] worker.hyps(3) have "mine ps M i w'" using mine_ok [OF m] by simp
  with worker.IH worker.hyps(2) show ?case by (rule sys_inv_worker)
next
  case (worker_fini s W i w w')
  then have m: "mine ps M i w" by (auto simp: sys_inv_def)
  then have "wk_inv w" by (simp add: mine_def)
  from handle_fini_wk [OF this, of g] worker_fini.hyps(3) have "mine ps M i w'" using mine_ok [OF m] by simp
  with worker_fini.IH worker_fini.hyps(2) show ?case by (rule sys_inv_worker)
next
  case (worker_kernel s W i w w')
  then have "mine ps M i w" "i < N" by (auto simp: sys_inv_def)
  with worker_kernel.IH wk_reanswered_mine [OF _ worker_kernel.hyps(3)] show ?case by (intro sys_inv_upd)
qed

text \<open>In a state that satisfies the invariant every process may go on.\<close>

lemma system_goes_on:
  assumes i: "sys_inv ps N M s W" and len: "shm_len_ok ps M len" and k: "\<forall>i w. fork_ok i w (k i w)"
  shows "send_room M (d_world s) \<Longrightarrow> net_loop fuel dll g ok (\<lambda>i w. restart_child_process dll len (k i w) rw i w)
      (page_size (d_world s)) True (d_world s) \<notin> {Inl Segv, Inl Abort}"
    "W j = Some w \<Longrightarrow> net_loop fuel dll g ok (\<lambda>i w. Inr w) (page_size w) False w \<notin> {Inl Segv, Inl Abort}"
    "W j = Some w \<Longrightarrow> handle_fini dll g w \<notin> {Inl Segv, Inl Abort}"
proof -
  assume r: "send_room M (d_world s)"
  obtain b where b: "srv_inv N M b (d_world s)" "page_size (d_world s) = ps" using i by (auto simp: sys_inv_def)
  show "net_loop fuel dll g ok (\<lambda>i w. restart_child_process dll len (k i w) rw i w)
      (page_size (d_world s)) True (d_world s) \<notin> {Inl Segv, Inl Abort}"
    by (rule safe_resD [OF iterate_safe [OF b(1) r b(2) len k]])
next
  assume "W j = Some w"
  then have w: "wk_inv w" using i by (auto simp: sys_inv_def mine_def)
  show "net_loop fuel dll g ok (\<lambda>i w. Inr w) (page_size w) False w \<notin> {Inl Segv, Inl Abort}"
    by (rule safe_resD [OF net_loop_wk [OF w]])
  show "handle_fini dll g w \<notin> {Inl Segv, Inl Abort}" by (rule safe_resD [OF handle_fini_wk [OF w]])
qed

end

section \<open>An example\<close>

text \<open>
  One worker with the echo plugin.  A client connects and sends a package of three bytes, the worker
  takes the two blocks and answers, the parent delivers the answer.
\<close>

definition sys_world :: "(u32 \<rightharpoonup> fdsession) world" where
  "sys_world = demo_worker\<lparr>is_parent := True, bindconf := bindconf demo_world\<rparr>"

definition sys_dll :: "(u32 \<rightharpoonup> fdsession) serv_if" where
  "sys_dll = echo_plugin"

definition sys_parent :: "(u32 \<rightharpoonup> fdsession) world \<Rightarrow> (int \<times> (u32 \<rightharpoonup> fdsession) world) res" where
  "sys_parent w = net_loop 9 sys_dll demo_ght True (\<lambda>i w. restart_child_process sys_dll 200 (demo_refork i w) (\<lambda>i n w. Inr w) i w)
     (page_size w) True w"

definition sys_worker :: "(u32 \<rightharpoonup> fdsession) world \<Rightarrow> (int \<times> (u32 \<rightharpoonup> fdsession) world) res" where
  "sys_worker w = net_loop 9 sys_dll demo_ght True (\<lambda>i w. Inr w) (page_size w) False w"

text \<open>New answers of the kernel: new connections, events, and what can be received, read and sent.\<close>

definition answers ::
  "accept_ans list \<Rightarrow> nat list \<Rightarrow> recv_ans list \<Rightarrow> recv_ans list \<Rightarrow> send_ans list \<Rightarrow> 't world \<Rightarrow> 't world"
where
  "answers acc evs rcv rd out w = w\<lparr>accept_as := acc,
     epoll_as := [Some (map (\<lambda>fd. (fd, \<lparr>ev_in = True, ev_out = False, ev_hup = False\<rparr>)) evs)],
     recv_as := rcv, read_as := rd, send_as := out\<rparr>"

definition fit_ok :: "'t world \<Rightarrow> bool" where
  "fit_ok w \<longleftrightarrow> list_all (\<lambda>n. 0 \<le> n \<and> nat n < length (fds w)) (acc_fds (accept_as w))"

definition flushed :: "'t world \<Rightarrow> bool" where
  "flushed w \<longleftrightarrow> bind_num (bindconf w) = 1 \<and> list_all (\<lambda>fd. sendlen (cb (fdi w fd)) = 0) [0..<length (fds w)]"

lemma flushed_room: "flushed w \<Longrightarrow> send_room 200 w"
  by (auto simp: flushed_def send_room_def used_def list_all_iff)

abbreviation yields :: "'a res \<Rightarrow> ('a \<Rightarrow> bool) \<Rightarrow> bool" where
  "yields r P \<equiv> (case r of Inl e \<Rightarrow> False | Inr x \<Rightarrow> P x)"

lemma yieldsE: "yields r P \<Longrightarrow> (\<And>x. r = Inr x \<Longrightarrow> P x \<Longrightarrow> thesis) \<Longrightarrow> thesis"
  by (cases r) auto

lemma yields2E: "yields r (\<lambda>(a, b). P a b) \<Longrightarrow> (\<And>a b. r = Inr (a, b) \<Longrightarrow> P a b \<Longrightarrow> thesis) \<Longrightarrow> thesis"
  by (cases r) auto

lemma answers_reanswered: "fit_ok (answers acc evs rcv rd out w) \<Longrightarrow> reanswered w (answers acc evs rcv rd out w)"
  by (rule reansweredI [where ea = "epoll_add_ok w" and mo = "mmap_ok w" and tm = "time_as w" and so = "so_error_as w"
        and fe = "fcntl_err w" and ra = rcv and sa = out and aa = acc and pa = rd and
        ep = "epoll_as (answers acc evs rcv rd out w)"])
    (auto simp: fit_ok_def accepts_fit_def used_def list_all_iff, simp add: answers_def)

lemma answers_wk_reanswered: "wk_reanswered w (answers acc evs rcv rd out w)"
  unfolding wk_reanswered_def
  by (intro exI [where x = "epoll_add_ok w"] exI [where x = "mmap_ok w"] exI [where x = rcv] exI [where x = out]
      exI [where x = acc] exI [where x = rd] exI [where x = "epoll_as (answers acc evs rcv rd out w)"]
      exI [where x = "time_as w"] exI [where x = "so_error_as w"] exI [where x = "fcntl_err w"] exI [where x = "stopped w"])
    (simp add: answers_def)

abbreviation sys_run where
  "sys_run s0 s W \<equiv> system_run sys_dll demo_ght 200 demo_refork (\<lambda>i n w. Inr w) 200 s0 s W"

definition sys_daemon :: "'t world \<Rightarrow> 't daemon" where
  "sys_daemon w = \<lparr>d_world = w, sig_stop = False, sig_restart = False, term_signal = False, backgd_mode = False,
     max_fd_num = 8, saved_argv = None, prog_name = None, current_dir = None, arg_area = []\<rparr>"

lemma sys_daemon_upd [simp]: "sys_daemon w\<lparr>d_world := w'\<rparr> = sys_daemon w'" "d_world (sys_daemon w) = w"
  by (simp_all add: sys_daemon_def)

lemma sys_spawn_step:
  assumes "sys_run s0 (sys_daemon w) W" "bind_num (bindconf w) = 1" "fst (pipe_handles (recvq (configs (bindconf w) ! 0))) = 21"
    "worker_init sys_dll demo_ght 3 10 32 0 1 w = Inr (0, v)"
  shows "sys_run s0 (sys_daemon w) (W(0 \<mapsto> v))"
  by (rule system_run.spawn [OF assms(1), where sz = 32]) (use assms(2-4) in simp_all)

lemma sys_parent_step:
  assumes "sys_run s0 (sys_daemon w) W" "fit_ok (answers acc evs rcv rd out w)" "flushed (answers acc evs rcv rd out w)"
    "sys_parent (answers acc evs rcv rd out w) = Inr (r, w')"
  shows "sys_run s0 (sys_daemon w') (\<lambda>i. map_option (share i w') (W i))"
proof -
  let ?w = "answers acc evs rcv rd out w"
  have "sys_run s0 (sys_daemon ?w) W"
    using system_run.kernel [OF assms(1), of ?w] answers_reanswered [OF assms(2)] by simp
  moreover have "send_room 200 (d_world (sys_daemon ?w))" using flushed_room [OF assms(3)] by simp
  moreover have "net_loop 9 sys_dll demo_ght True (\<lambda>i w. restart_child_process sys_dll 200 (demo_refork i w) (\<lambda>i n w. Inr w) i w)
      (page_size (d_world (sys_daemon ?w))) True (d_world (sys_daemon ?w)) = Inr (r, w')"
    using assms(4) by (simp add: sys_parent_def)
  ultimately have "sys_run s0 (sys_daemon ?w\<lparr>d_world := w'\<rparr>) (\<lambda>i. map_option (share i w') (W i))"
    by (rule system_run.parent)
  then show ?thesis by simp
qed

lemma sys_worker_step:
  assumes "sys_run s0 (sys_daemon w) W" "W 0 = Some v" "sys_worker (answers acc evs rcv rd out v) = Inr (r, v')"
  shows "sys_run s0 (sys_daemon (share 0 v' w)) (W(0 \<mapsto> v'))"
proof -
  let ?v = "answers acc evs rcv rd out v"
  have "sys_run s0 (sys_daemon w) (W(0 \<mapsto> ?v))"
    by (rule system_run.worker_kernel [OF assms(1,2) answers_wk_reanswered])
  from system_run.worker [OF this, where i = 0, OF _ assms(3) [unfolded sys_worker_def]] show ?thesis by simp
qed

definition sys_started :: "nat \<Rightarrow> (u32 \<rightharpoonup> fdsession) world res" where
  "sys_started sz = foldR (start_worker 200 demo_fork demo_listen (\<lambda>i n w. Inr w)) [0..<1]
     (clean_child_pids (snd (net_init 3 True sz sys_world)))"

lemma sys_boot:
  "ready 1 8 sys_world" "boot_ok demo_fork demo_listen 1 8" "shm_len_ok (page_size sys_world) 200 200"
  using demo_boot
  by (simp_all add: ready_def sys_world_def demo_worker_def demo_world_def small_def shm_len_ok_def
      peer_ok_idle idle_eq)

abbreviation sys_knock where "sys_knock \<equiv> answers [AccOk 7 \<lparr>sin_addr = 0, sin_port = 0\<rparr>, AccErr EAGAIN] [5] [] [] []"
abbreviation sys_send where "sys_send \<equiv> answers [] [7] [RecvData [3, 9, 7]] [] []"
abbreviation sys_wake where "sys_wake \<equiv> answers [] [21] [] [RecvData [0]] []"
abbreviation sys_sent where "sys_sent \<equiv> answers [] [] [] [] [SendOk 3]"

abbreviation parent_ok where "parent_ok w \<equiv> fit_ok w \<and> flushed w"

lemma sys_run_evaluated:
  "yields (sys_started 8) (\<lambda>w1. bind_num (bindconf w1) = 1 \<and> length (configs (bindconf w1)) = 1 \<and>
       fst (pipe_handles (recvq (configs (bindconf w1) ! 0))) = 21 \<and> server_id (configs (bindconf w1) ! 0) = 1 \<and>
     yields (worker_start sys_dll demo_ght 3 10 32 0 1 w1) (\<lambda>(r0, v0). r0 = 0 \<and>
     parent_ok (sys_knock w1) \<and> yields (sys_parent (sys_knock w1)) (\<lambda>(r1, w2).
     parent_ok (sys_send w2) \<and> yields (sys_parent (sys_send w2)) (\<lambda>(r2, w3).
     yields (sys_worker (sys_wake (share 0 w3 (share 0 w2 v0)))) (\<lambda>(r3, v3).
     parent_ok (sys_sent (share 0 v3 w3)) \<and> yields (sys_parent (sys_sent (share 0 v3 w3))) (\<lambda>(r4, w4).
     tx w4 7 = [3, 9, 7] \<and> flushed w4 \<and> length (fds w4) = 8 \<and> server_id (configs (bindconf w4) ! 0) = 1))))))"
  by code_simp

text \<open>The state in which the client has its answer is reached.\<close>

lemma sys_answered:
  obtains w1 w4 W v where "sys_started 8 = Inr w1" "sys_run (sys_daemon w1) (sys_daemon w4) W"
    "W 0 = Some v" "tx w4 7 = [3, 9, 7]" "send_room 200 w4" "length (fds w4) = 8" "server_id (configs (bindconf w4) ! 0) = 1"
  using sys_run_evaluated
proof (elim yields2E yieldsE conjE, goal_cases)
  case (1 w1 r0 v0 r1 w2 r2 w3 r3 v3 r4 w4)
  let ?run = "sys_run (sys_daemon w1)"
  have "worker_init sys_dll demo_ght 3 10 32 0 1 w1 = Inr (0, v0)" using 1 by (simp add: worker_init_def)
  then have "?run (sys_daemon w1) [0 \<mapsto> v0]" using 1 by (intro sys_spawn_step [OF system_run.start]) simp_all
  from sys_parent_step [OF this, of _ _ _ _ _ r1 w2] 1
  have "?run (sys_daemon w2) (\<lambda>i. map_option (share i w2) ([0 \<mapsto> v0] i))" by blast
  from sys_parent_step [OF this, of _ _ _ _ _ r2 w3] 1
  have "?run (sys_daemon w3) (\<lambda>i. map_option (share i w3) (map_option (share i w2) ([0 \<mapsto> v0] i)))" by blast
  from sys_worker_step [OF this, of "share 0 w3 (share 0 w2 v0)" _ _ _ _ _ r3 v3] 1
  have "?run (sys_daemon (share 0 v3 w3)) ((\<lambda>i. map_option (share i w3) (map_option (share i w2) ([0 \<mapsto> v0] i)))(0 \<mapsto> v3))" by simp
  from sys_parent_step [OF this, of _ _ _ _ _ r4 w4] 1
  have "?run (sys_daemon w4) (\<lambda>i. map_option (share i w4) (((\<lambda>i. map_option (share i w3) (map_option (share i w2) ([0 \<mapsto> v0] i)))(0 \<mapsto> v3)) i))"
    by blast
  then show ?case by (rule 1(1) [rotated]) (use 1(2-) flushed_room in simp_all)
qed

section \<open>Properties\<close>




text \<open>A worker that is asked to stop before its first iteration leaves with \<open>exit(0)\<close>.\<close>

lemma sys_worker_exits:
  "yields (sys_started 8) (\<lambda>w1. length (configs (bindconf w1)) = 1 \<and> server_id (configs (bindconf w1) ! 0) = 1 \<and>
     fst (pipe_handles (recvq (configs (bindconf w1) ! 0))) = 21 \<and> page_size w1 = 64 \<and>
     yields (worker_start sys_dll demo_ght 3 10 32 0 1 w1) (\<lambda>(r, w5). r = 0 \<and>
       yields (worker_loop [True] 9 sys_dll demo_ght True w5) (\<lambda>w6.
         yields (net_exit (set_conf 0 (do_destroy_shmq (configs (bindconf w6) ! 0)) w6)) (\<lambda>w7. True))))"
  by code_simp



definition sys_child :: fork_env where
  "sys_child = \<lparr>fk_mmap = (True, True), fk_pipes = (Some (6, 20), Some (21, 22)), fk_pid = 0\<rparr>"


end
