(* ===== verification/Mp_Reentry.thy ===== *)
theory Mp_Reentry
  imports Mp_Service Mp_Loop
begin

text \<open>
  A limit of the event loop: \<open>iterate_etin_queue\<close> of \<open>src/src/net.c\<close> saves the next node of the
  poll-again queue before it serves a connection.  When the plugin closes just that connection, with
  \<open>close_svr\<close> of \<open>src/src/net_if.c\<close> or a failing \<open>net_send\<close>, \<open>list_del_init\<close> links its node to
  itself and the loop never reaches the head again.  This is why the contract of a worker's plugin
  (\<open>worker_plugin\<close>) lets it close the connection it is called for and no other.
\<close>

section \<open>A node that is linked to itself\<close>

text \<open>The loop stays at such a node as long as its body keeps the link.\<close>

lemma for_each_self_linked:
  assumes body: "\<And>s. J s \<Longrightarrow> lnext (hp s p) = Some p \<and> (\<forall>e. body p s = Inl e \<longrightarrow> e = Blocked) \<and>
      (\<forall>s'. body p s = Inr s' \<longrightarrow> J s')"
    and "J s" "p \<noteq> hn"
  shows "for_each_safe fuel hp body hn (Some p) s = Inl Blocked"
  using assms(2)
proof (induction fuel arbitrary: s)
  case (Suc fuel)
  show ?case
  proof (cases "body p s")
    case (Inl e)
    then show ?thesis using body [OF Suc.prems] assms(3) by simp
  next
    case (Inr s')
    then show ?thesis using body [OF Suc.prems] Suc.IH [of s'] assms(3) by simp
  qed
qed simp

section \<open>The loop at a closed connection\<close>

definition no_data :: "recv_ans list \<Rightarrow> bool" where
  "no_data as \<longleftrightarrow> list_all (\<lambda>a. case a of RecvErr e \<Rightarrow> True | _ \<Rightarrow> False) as"

lemma recv_no_data:
  "no_data as \<Longrightarrow> safe_tcp_recv n as = Inl Blocked \<or> (\<exists>e as'. safe_tcp_recv n as = Inr (Failed e, as') \<and> no_data as')"
  by (induction n as rule: safe_tcp_recv.induct) (auto simp: no_data_def)

text \<open>Entry \<open>n\<close> is closed, with an empty receive buffer at most, and its node is linked to itself.\<close>

definition stranded :: "nat \<Rightarrow> u32 \<Rightarrow> 't world \<Rightarrow> bool" where
  "stranded n ps w \<longleftrightarrow> n < length (fds w) \<and> fi_type (fdi w n) = fd_type_unused \<and> sockfd (fdi w n) = n \<and>
     flag (fdi w n) = 0 \<and> lnext (nodes w (FdNode n)) = Some (FdNode n) \<and> page_size w = ps \<and> ps \<noteq> 0 \<and> mmap_ok w \<and>
     no_data (recv_as w) \<and>
     (case recvptr (cb (fdi w n)) of None \<Rightarrow> True | Some buf \<Rightarrow> recvlen (cb (fdi w n)) = 0 \<and> length buf = unat ps)"

lemma stranded_cb:
  assumes "stranded n ps w" "case recvptr (f (cb (fdi w n))) of None \<Rightarrow> True
      | Some buf \<Rightarrow> recvlen (f (cb (fdi w n))) = 0 \<and> length buf = unat ps"
  shows "stranded n ps (upd_cb n f w)"
  using assms by (simp add: stranded_def upd_cb_def upd_fd_def cong: option.case_cong)

lemma map_recvbuf_stranded:
  assumes "stranded n ps w"
  obtains w' buf where "map_recvbuf n w = Inr w'" "stranded n ps w'" "recvptr (cb (fdi w' n)) = Some buf"
proof (cases "recvptr (cb (fdi w n))")
  case None
  let ?f = "\<lambda>c. c\<lparr>rcvprotlen := 0, recvlen := 0, recvptr := Some (replicate (unat ps) 0)\<rparr>"
  have "map_recvbuf n w = Inr (upd_cb n ?f w)" using None assms by (simp add: map_recvbuf_def stranded_def)
  moreover have "stranded n ps (upd_cb n ?f w)" by (rule stranded_cb [OF assms]) simp
  moreover have "recvptr (cb (fdi (upd_cb n ?f w) n)) = Some (replicate (unat ps) 0)"
    using assms by (simp add: stranded_def)
  ultimately show thesis by (rule that)
next
  case (Some buf)
  then have "map_recvbuf n w = Inr w" by (simp add: map_recvbuf_def)
  then show thesis using assms Some by (rule that)
qed

lemma do_read_conn_stranded:
  assumes "stranded n ps w"
  shows "do_read_conn n ps w = Inl Blocked \<or>
    (\<exists>w' buf. do_read_conn n ps w = Inr (0, w') \<and> stranded n ps w' \<and> recvptr (cb (fdi w' n)) = Some buf)"
proof -
  obtain w1 buf where m: "map_recvbuf n w = Inr w1" and s: "stranded n ps w1" and b: "recvptr (cb (fdi w1 n)) = Some buf"
    by (rule map_recvbuf_stranded [OF assms])
  have l: "recvlen (cb (fdi w1 n)) = 0" "ps \<noteq> 0" "page_size w1 = ps" "fd_ok w n" "flag (fdi w1 n) = 0" "n < length (fds w1)"
      "no_data (recv_as w1)"
    using s b assms by (auto simp: stranded_def fd_ok_def)
  show ?thesis
  proof (cases "safe_tcp_recv (sint ps) (recv_as w1) = Inl Blocked")
    case True
    then show ?thesis using l b m by (simp add: do_read_conn_def Let_def)
  next
    case False
    then obtain e as where e: "safe_tcp_recv (sint ps) (recv_as w1) = Inr (Failed e, as)" "no_data as"
      using recv_no_data [OF l(7), of "sint ps"] by blast
    moreover have "store 0 buf 0 [] = Inr buf" by (simp add: store_def put_bytes_def)
    ultimately have "do_read_conn n ps w = Inr (0, w1\<lparr>recv_as := as\<rparr>)"
      using l b m by (simp add: do_read_conn_def Let_def del_from_etin_queue_def fd_ok_def)
    moreover have "stranded n ps (w1\<lparr>recv_as := as\<rparr>)" using s e(2) by (simp add: stranded_def cong: option.case_cong)
    ultimately show ?thesis using b by auto
  qed
qed

text \<open>There is no package in it, whatever \<open>get_pkg_len\<close> says of an empty buffer.\<close>

lemma parse_loop_stranded:
  assumes s: "stranded n ps w" and b: "recvptr (cb (fdi w n)) = Some buf"
  shows "\<exists>r pos w'. parse_loop (Suc 0) dll n ps is_par 0 0 w = Inr (r, pos, w') \<and> stranded n ps w' \<and> pos \<in> {None, Some 0}"
proof -
  have l: "recvlen (cb (fdi w n)) = 0" "ps \<noteq> 0" "n < length (fds w)" using s b by (auto simp: stranded_def)
  obtain w1 where w1: "learn_pkg_len dll n is_par 0 w = Inr w1" "stranded n ps w1" "recvlen (cb (fdi w1 n)) = 0"
  proof (cases "rcvprotlen (cb (fdi w n)) = 0")
    case True
    let ?f = "\<lambda>c. c\<lparr>rcvprotlen := get_pkg_len dll n [] is_par\<rparr>"
    have "recv_bytes n 0 0 w = Inr []" using b by (simp add: recv_bytes_def load_def bytes_at_def)
    then have "learn_pkg_len dll n is_par 0 w = Inr (upd_cb n ?f w)" using True l by (simp add: learn_pkg_len_def)
    moreover have "stranded n ps (upd_cb n ?f w)" by (rule stranded_cb [OF s]) (use s in \<open>simp add: stranded_def cong: option.case_cong\<close>)
    ultimately show thesis by (rule that) (simp add: l)
  next
    case False
    then show thesis using that [of w] s l by (simp add: learn_pkg_len_def)
  qed
  then show ?thesis using l(2) by (auto simp: Let_def)
qed

lemma etin_body_stranded:
  assumes "stranded n ps w"
  shows "etin_body dll ps is_par (FdNode n) w = Inl Blocked \<or>
    (\<exists>w'. etin_body dll ps is_par (FdNode n) w = Inr w' \<and> stranded n ps w')"
proof -
  have e: "etin_body dll ps is_par (FdNode n) w = recv_or_close dll n ps is_par w"
    using assms by (simp add: etin_body_def stranded_def fd_ok_def)
  from do_read_conn_stranded [OF assms] show ?thesis
  proof (elim disjE exE conjE)
    assume "do_read_conn n ps w = Inl Blocked"
    then show ?thesis using assms unfolding e by (simp add: recv_or_close_def net_recv_def stranded_def fd_ok_def)
  next
    fix w1 buf assume r: "do_read_conn n ps w = Inr (0, w1)" "stranded n ps w1" "recvptr (cb (fdi w1 n)) = Some buf"
    then have l: "recvlen (cb (fdi w1 n)) = 0" by (simp add: stranded_def)
    obtain c pos w2 where p: "parse_loop (Suc 0) dll n ps is_par 0 0 w1 = Inr (c, pos, w2)" "stranded n ps w2" "pos \<in> {None, Some 0}"
      using parse_loop_stranded [OF r(2,3)] by blast
    have "net_recv dll n ps is_par w = Inr (c, w2)"
      using assms r(1) l p(1,3) by (auto simp: net_recv_def stranded_def fd_ok_def compact_def simp del: parse_loop.simps)
    moreover have "do_del_conn dll n k w2 = Inr w2" for k using p(2) by (simp add: do_del_conn_def stranded_def fd_ok_def)
    ultimately show ?thesis unfolding e using p(2) by (simp add: recv_or_close_def)
  qed
qed

section \<open>Properties\<close>

text \<open>
  C25: A plugin that closes another connection can hang its worker.  Once the loop over the poll-again
  queue has come to a node that was unlinked behind its back, it never returns: whatever
  \<open>get_pkg_len\<close> answers, and however often \<open>recv\<close> reports that the descriptor is closed, it serves the
  dead entry again.
\<close>

theorem poll_again_loop_hangs:
  assumes "stranded n ps w"
  shows "for_each_safe fuel nodes (etin_body dll ps is_par) EtinHead (Some (FdNode n)) w = Inl Blocked"
proof (rule for_each_self_linked [where J = "stranded n ps"])
  fix w' :: "'a world"
  assume s: "stranded n ps w'"
  then show "lnext (nodes w' (FdNode n)) = Some (FdNode n) \<and>
      (\<forall>e. etin_body dll ps is_par (FdNode n) w' = Inl e \<longrightarrow> e = Blocked) \<and>
      (\<forall>w''. etin_body dll ps is_par (FdNode n) w' = Inr w'' \<longrightarrow> stranded n ps w'')"
    using etin_body_stranded [OF s, of dll is_par] by (auto simp: stranded_def)
qed (simp_all add: assms)

text \<open>
  A worker with connections to two servers.  Both have filled their buffers once, so both are polled
  again; then the first sends a byte on which the plugin closes the second.
\<close>

definition failover_dll :: "'t serv_if" where
  "failover_dll = demo_dll\<lparr>get_pkg_len := (\<lambda>_ bs _. of_nat (length bs)),
     proc_pkg_from_serv := (\<lambda>fd pkg w. if fd = 6 \<and> length pkg = 1 then close_svr demo_dll 7 w else Inr w)\<rparr>"

definition two_servers :: "unit world" where
  "two_servers = added 7 fd_type_remote None None (added 6 fd_type_remote None None (demo_world\<lparr>is_parent := False\<rparr>))"

definition busy_servers :: "byte list \<Rightarrow> unit world res" where
  "busy_servers pkg =
     bindR (net_recv failover_dll 6 64 False (two_servers\<lparr>recv_as := replicate 2 (RecvData pkg)\<rparr>)) (\<lambda>(r, w1).
     bindR (net_recv failover_dll 7 64 False w1) (\<lambda>(r, w2). Inr w2))"

lemma failover_step:
  "case busy_servers (replicate 64 1) of Inr w \<Rightarrow> lnext (nodes w EtinHead) = Some (FdNode 6) \<and> lnext (nodes w (FdNode 6)) = Some (FdNode 7) \<and>
     (case etin_body failover_dll 64 False (FdNode 6) (w\<lparr>recv_as := [RecvData [0]]\<rparr>) of Inr w' \<Rightarrow>
        length (fds w') = 8 \<and> fi_type (fdi w' 7) = fd_type_unused \<and> sockfd (fdi w' 7) = 7 \<and> flag (fdi w' 7) = 0 \<and>
        lnext (nodes w' (FdNode 7)) = Some (FdNode 7) \<and> page_size w' = 64 \<and> mmap_ok w' \<and>
        recvptr (cb (fdi w' 7)) = None
      | _ \<Rightarrow> False)
   | _ \<Rightarrow> False"
  by code_simp

theorem poll_again_loop_hangs_witness:
  "\<exists>w w'. busy_servers (replicate 64 1) = Inr w \<and> lnext (nodes w EtinHead) = Some (FdNode 6) \<and> lnext (nodes w (FdNode 6)) = Some (FdNode 7) \<and>
     etin_body failover_dll 64 False (FdNode 6) (w\<lparr>recv_as := [RecvData [0]]\<rparr>) = Inr w' \<and>
     (\<forall>fuel m. for_each_safe fuel nodes (etin_body failover_dll 64 False) EtinHead (Some (FdNode 7))
        (w'\<lparr>recv_as := replicate m (RecvErr (Eother 9))\<rparr>) = Inl Blocked)"
proof -
  obtain w where w: "busy_servers (replicate 64 1) = Inr w" using failover_step by (cases "busy_servers (replicate 64 1)") auto
  note r = failover_step [unfolded w sum.case]
  obtain w' where w': "etin_body failover_dll 64 False (FdNode 6) (w\<lparr>recv_as := [RecvData [0]]\<rparr>) = Inr w'"
    using r by (cases "etin_body failover_dll 64 False (FdNode 6) (w\<lparr>recv_as := [RecvData [0]]\<rparr>)") auto
  have "stranded 7 64 (w'\<lparr>recv_as := replicate m (RecvErr (Eother 9))\<rparr>)" for m
    using r [unfolded w' sum.case] by (simp add: stranded_def no_data_def list_all_iff)
  from poll_again_loop_hangs [OF this] show ?thesis using w w' r by blast
qed

end
