(* ===== verification/Mp_Interleave.thy ===== *)
theory Mp_Interleave
  imports Mp_Shmq
begin

unbundle bit_operations_syntax

text \<open>
  The shared-memory queue under true concurrency (\<open>src/src/shmq.c\<close>).  Parent and worker run
  \<open>shmq_push\<close> and \<open>shmq_pop\<close> on the same mapping without a lock, so here each of them is a
  program counter and a step function that makes one access to the memory of the other process per
  step: one load of \<open>tail\<close> or \<open>head\<close>, one store of a pad field, one byte of \<open>memcpy\<close>.  The fields
  of \<open>shm_head_t\<close> are volatile, so every mention of one in the source is a load of its own; loads of
  the variable that only the process itself writes are not separate steps.

  The argument is by rely and guarantee, once for all in the locale \<open>two_procs\<close>: each process
  keeps an assertion at every program counter, which the guaranteed behaviour of the other cannot
  falsify.  Running one process alone gives back the functions of \<open>Mp_Shmq\<close>.
\<close>

section \<open>The producer, step by step\<close>

text \<open>\<open>PIdle r\<close>: the last call returned \<open>r\<close>.\<close>

datatype prod_pc = PIdle int | PEnter message | PTail message | PTail2 message | PReset message
  | PPad message nat | PWrap message | PFull message nat | PFull2 message nat
  | PCopy message nat | PCommit message | PNotify message

definition push_bytes :: "message \<Rightarrow> byte list" where
  "push_bytes x = enc_block (fst x) @ take (unat (mb_length (fst x)) - 13) (snd x)"

text \<open>
  \<open>PEnter\<close>: the assertion and the size check; \<open>PTail\<close>, \<open>PTail2\<close>: the two loads of \<open>tail\<close> in
  \<open>align_queue_head\<close>; \<open>PReset\<close>: its branch for a corrupt queue; \<open>PPad\<close>: the three stores of the pad;
  \<open>PWrap\<close>: \<open>head\<close> moves to the first block; \<open>PFull\<close>, \<open>PFull2\<close>: the two loads of \<open>tail\<close> in round
  \<open>cnt\<close> of the waiting loop; \<open>PCopy\<close>: both \<open>memcpy\<close> calls, byte by byte; then \<open>head\<close> is advanced and
  the pipe written.
\<close>

fun prod_step :: "u32 \<Rightarrow> prod_pc \<Rightarrow> shm_queue \<Rightarrow> (prod_pc \<times> shm_queue) res" where
  "prod_step ps (PIdle r) q = Inr (PIdle r, q)"
| "prod_step ps (PEnter x) q =
     (if unat (mb_length (fst x)) < sizeof_shm_block then Inl Abort
      else if mb_length (fst x) > ps then Inr (PIdle (-1), q)
      else if \<not> mapped q then Inl Segv
      else Inr (PTail x, q))"
| "prod_step ps (PTail x) q =
     (if q_length q - head q < mb_length (fst x)
      then if tail q = 8 then Inl (Exit (-1)) else Inr (PTail2 x, q)
      else Inr (PFull x 0, q))"
| "prod_step ps (PTail2 x) q =
     (if sint (tail q) > sint (head q) then Inr (PReset x, q)
      else if unat (q_length q - head q) < sizeof_shm_block then Inr (PWrap x, q)
      else Inr (PPad x 0, q))"
| "prod_step ps (PReset x) q = Inr (PWrap x, q\<lparr>tail := 8\<rparr>)"
| "prod_step ps (PPad x k) q =
     (if k = 0 then bindR (store 8 (mem q) (head_mb q + 12) [PAD_BLOCK]) (\<lambda>m. Inr (PPad x 1, q\<lparr>mem := m\<rparr>))
      else if k = 1 then
        bindR (store 8 (mem q) (head_mb q + 8) (le32 (q_length q - head q))) (\<lambda>m. Inr (PPad x 2, q\<lparr>mem := m\<rparr>))
      else bindR (store 8 (mem q) (head_mb q) (le32 0)) (\<lambda>m. Inr (PWrap x, q\<lparr>mem := m\<rparr>)))"
| "prod_step ps (PWrap x) q = Inr (PFull x 0, q\<lparr>head := 8\<rparr>)"
| "prod_step ps (PFull x cnt) q =
     (if cnt = 10 then Inr (PIdle (-1), q)
      else if sint (tail q) > sint (head q) then Inr (PFull2 x cnt, q)
      else Inr (PCopy x 0, q))"
| "prod_step ps (PFull2 x cnt) q =
     (if tail q < head q + mb_length (fst x) + ps then Inr (PFull x (Suc cnt), q) else Inr (PCopy x 0, q))"
| "prod_step ps (PCopy x i) q =
     (if length (snd x) < unat (mb_length (fst x)) - sizeof_shm_block then Inl Segv
      else if i < length (push_bytes x)
      then bindR (store 8 (mem q) (head_mb q + int i) [push_bytes x ! i]) (\<lambda>m. Inr (PCopy x (Suc i), q\<lparr>mem := m\<rparr>))
      else Inr (PCommit x, q))"
| "prod_step ps (PCommit x) q = Inr (PNotify x, q\<lparr>head := head q + mb_length (fst x)\<rparr>)"
| "prod_step ps (PNotify x) q = Inr (PIdle 0, q\<lparr>notified := notified q + 1\<rparr>)"

section \<open>The consumer, step by step\<close>

text \<open>
  \<open>CIdle\<close>: the last call returned -1.  \<open>CEnter\<close>: first test for emptiness; \<open>CAlign\<close>, \<open>CType\<close>,
  \<open>CSkip\<close>: \<open>align_queue_tail\<close>; \<open>CEmpty\<close>: second test; \<open>CLen\<close>: the length check that only prints;
  \<open>CTake\<close>: the load of the length added to \<open>tail\<close> in \<open>CAdv\<close>.  \<open>CHold off\<close>: the call returned 0 and
  the caller works on the block at \<open>off\<close>.
\<close>

datatype cons_pc = CIdle | CEnter | CAlign | CType | CSkip | CEmpty | CLen | CTake | CAdv u32 | CHold int

fun cons_step :: "cons_pc \<Rightarrow> shm_queue \<Rightarrow> (cons_pc \<times> shm_queue) res" where
  "cons_step CIdle q = Inr (CIdle, q)"
| "cons_step CEnter q =
     (if \<not> mapped q then Inl Segv else Inr (if tail q = head q then CIdle else CAlign, q))"
| "cons_step CAlign q =
     Inr (if sint (head q) \<ge> sint (tail q) then CEmpty
          else if unat (q_length q - tail q) < sizeof_shm_block then CSkip else CType, q)"
| "cons_step CType q =
     bindR (block_type_at q (tail_mb q)) (\<lambda>ty. Inr (if ty = PAD_BLOCK then CSkip else CEmpty, q))"
| "cons_step CSkip q = Inr (CEmpty, q\<lparr>tail := 8\<rparr>)"
| "cons_step CEmpty q = Inr (if tail q = head q then CIdle else CLen, q)"
| "cons_step CLen q = bindR (block_length_at q (tail_mb q)) (\<lambda>len. Inr (CTake, q))"
| "cons_step CTake q = bindR (block_length_at q (tail_mb q)) (\<lambda>len. Inr (CAdv len, q))"
| "cons_step (CAdv len) q = Inr (CHold (tail_mb q), q\<lparr>tail := tail q + len\<rparr>)"
| "cons_step (CHold off) q = Inr (CHold off, q)"

section \<open>Two processes and their histories\<close>

text \<open>
  The shared state with two histories: the messages committed by the producer, and the messages
  the consumer found in memory when it took them.
\<close>

record chan =
  cq :: shm_queue
  acc :: "message list"
  got :: "message list"

inductive prod_move :: "u32 \<Rightarrow> prod_pc \<Rightarrow> chan \<Rightarrow> prod_pc \<Rightarrow> chan \<Rightarrow> bool" for ps where
  call_push: "msg_fits x \<Longrightarrow> prod_move ps (PIdle r) s (PEnter x) s"
| commit: "prod_step ps (PCommit x) (cq s) = Inr (pc', q) \<Longrightarrow>
     prod_move ps (PCommit x) s pc' (s\<lparr>cq := q, acc := acc s @ [x]\<rparr>)"
| prod_other: "prod_step ps pc (cq s) = Inr (pc', q) \<Longrightarrow> (\<forall>x. pc \<noteq> PCommit x) \<Longrightarrow>
     prod_move ps pc s pc' (s\<lparr>cq := q\<rparr>)"

inductive cons_move :: "cons_pc \<Rightarrow> chan \<Rightarrow> cons_pc \<Rightarrow> chan \<Rightarrow> bool" where
  call_pop: "pc = CIdle \<or> pc = CHold off \<Longrightarrow> cons_move pc s CEnter s"
| take_block: "cons_step (CAdv len) (cq s) = Inr (pc', q) \<Longrightarrow> read_msg (cq s) (tail_mb (cq s)) = Inr x \<Longrightarrow>
     cons_move (CAdv len) s pc' (s\<lparr>cq := q, got := got s @ [x]\<rparr>)"
| cons_other: "cons_step pc (cq s) = Inr (pc', q) \<Longrightarrow> (\<forall>len. pc \<noteq> CAdv len) \<Longrightarrow>
     cons_move pc s pc' (s\<lparr>cq := q\<rparr>)"

text \<open>Any interleaving of the moves of two processes.\<close>

inductive runs :: "('a \<Rightarrow> 's \<Rightarrow> 'a \<Rightarrow> 's \<Rightarrow> bool) \<Rightarrow> ('b \<Rightarrow> 's \<Rightarrow> 'b \<Rightarrow> 's \<Rightarrow> bool) \<Rightarrow>
    'a \<times> 'b \<times> 's \<Rightarrow> 'a \<times> 'b \<times> 's \<Rightarrow> bool" for mA mB where
  runs_refl: "runs mA mB c c"
| runs_A: "runs mA mB c (a, b, s) \<Longrightarrow> mA a s a' s' \<Longrightarrow> runs mA mB c (a', b, s')"
| runs_B: "runs mA mB c (a, b, s) \<Longrightarrow> mB b s b' s' \<Longrightarrow> runs mA mB c (a, b', s')"

section \<open>Rely and guarantee\<close>

locale two_procs =
  fixes inv :: "'s \<Rightarrow> bool"
    and mA :: "'a \<Rightarrow> 's \<Rightarrow> 'a \<Rightarrow> 's \<Rightarrow> bool" and mB :: "'b \<Rightarrow> 's \<Rightarrow> 'b \<Rightarrow> 's \<Rightarrow> bool"
    and okA :: "'a \<Rightarrow> 's \<Rightarrow> bool" and okB :: "'b \<Rightarrow> 's \<Rightarrow> bool"
    and guarA :: "'s \<Rightarrow> 's \<Rightarrow> bool" and guarB :: "'s \<Rightarrow> 's \<Rightarrow> bool"
  assumes stepA: "inv s \<Longrightarrow> okA a s \<Longrightarrow> mA a s a' s' \<Longrightarrow> inv s' \<and> okA a' s' \<and> guarA s s'"
    and stepB: "inv s \<Longrightarrow> okB b s \<Longrightarrow> mB b s b' s' \<Longrightarrow> inv s' \<and> okB b' s' \<and> guarB s s'"
    and stableA: "inv s \<Longrightarrow> inv s' \<Longrightarrow> okA a s \<Longrightarrow> guarB s s' \<Longrightarrow> okA a s'"
    and stableB: "inv s \<Longrightarrow> inv s' \<Longrightarrow> okB b s \<Longrightarrow> guarA s s' \<Longrightarrow> okB b s'"
begin

lemma runs_ok:
  assumes "runs mA mB c c'" "case c of (a, b, s) \<Rightarrow> inv s \<and> okA a s \<and> okB b s"
  shows "case c' of (a, b, s) \<Rightarrow> inv s \<and> okA a s \<and> okB b s"
  using assms
proof (induction rule: runs.induct)
  case (runs_A c a b s a' s')
  then have ih: "inv s" "okA a s" "okB b s" by auto
  from stepA [OF ih(1,2) runs_A.hyps(2)] stableB [OF ih(1) _ ih(3)] show ?case by simp
next
  case (runs_B c a b s b' s')
  then have ih: "inv s" "okA a s" "okB b s" by auto
  from stepB [OF ih(1,3) runs_B.hyps(2)] stableA [OF ih(1) _ ih(2)] show ?case by simp
qed simp

end

section \<open>Assertions of the producer and the consumer\<close>

definition left :: "chan \<Rightarrow> message list" where
  "left s = drop (length (got s)) (acc s)"

definition chan_inv :: "u32 \<Rightarrow> chan \<Rightarrow> bool" where
  "chan_inv ps s \<longleftrightarrow> prefix (got s) (acc s) \<and> q_rep ps (cq s) (left s)"

definition pushable :: "u32 \<Rightarrow> message \<Rightarrow> bool" where
  "pushable ps x \<longleftrightarrow> msg_fits x \<and> msg_len x \<le> unat ps"

definition lin_far :: "shm_queue \<Rightarrow> bool" where
  "lin_far q \<longleftrightarrow> 8 < tpos q \<and> tpos q \<le> hpos q"

definition room :: "u32 \<Rightarrow> message \<Rightarrow> shm_queue \<Rightarrow> bool" where
  "room ps x q \<longleftrightarrow> hpos q + msg_len x \<le> qsz q \<and> (tpos q \<le> hpos q \<or> hpos q + msg_len x + unat ps \<le> tpos q)"

fun prod_ok :: "u32 \<Rightarrow> prod_pc \<Rightarrow> shm_queue \<Rightarrow> bool" where
  "prod_ok ps (PIdle r) q \<longleftrightarrow> True"
| "prod_ok ps (PEnter x) q \<longleftrightarrow> msg_fits x"
| "prod_ok ps (PTail x) q \<longleftrightarrow> pushable ps x"
| "prod_ok ps (PTail2 x) q \<longleftrightarrow> pushable ps x \<and> lin_far q"
| "prod_ok ps (PReset x) q \<longleftrightarrow> False"
| "prod_ok ps (PPad x k) q \<longleftrightarrow> pushable ps x \<and> lin_far q \<and> hpos q + 13 \<le> qsz q \<and>
     (0 < k \<longrightarrow> mem q ! (hpos q + 12) = PAD_BLOCK)"
| "prod_ok ps (PWrap x) q \<longleftrightarrow> pushable ps x \<and> lin_far q \<and> end_mark (mem q) (hpos q)"
| "prod_ok ps (PFull x cnt) q \<longleftrightarrow> pushable ps x \<and> hpos q + msg_len x \<le> qsz q \<and> cnt \<le> 10"
| "prod_ok ps (PFull2 x cnt) q \<longleftrightarrow> pushable ps x \<and> hpos q + msg_len x \<le> qsz q \<and> cnt < 10"
| "prod_ok ps (PCopy x i) q \<longleftrightarrow> pushable ps x \<and> room ps x q \<and> i \<le> msg_len x \<and>
     bytes_at (mem q) (hpos q) i = take i (enc_msg x)"
| "prod_ok ps (PCommit x) q \<longleftrightarrow> pushable ps x \<and> room ps x q \<and> bytes_at (mem q) (hpos q) (msg_len x) = enc_msg x"
| "prod_ok ps (PNotify x) q \<longleftrightarrow> True"

text \<open>\<open>ready\<close>: the oldest message starts at \<open>tail\<close>.  \<open>held\<close>: the bytes before \<open>tail\<close> are the last one taken.\<close>

definition block_at :: "shm_queue \<Rightarrow> nat \<Rightarrow> message \<Rightarrow> bool" where
  "block_at q a x \<longleftrightarrow> a + msg_len x \<le> qsz q \<and> bytes_at (mem q) a (msg_len x) = enc_msg x"

definition ready :: "chan \<Rightarrow> bool" where
  "ready s \<longleftrightarrow> left s \<noteq> [] \<and> block_at (cq s) (tpos (cq s)) (hd (left s))"

definition held :: "u32 \<Rightarrow> int \<Rightarrow> chan \<Rightarrow> bool" where
  "held ps off s \<longleftrightarrow> got s \<noteq> [] \<and> 8 \<le> nat off \<and> msg_ok (unat ps) (last (got s)) \<and>
     nat off + msg_len (last (got s)) = tpos (cq s) \<and> block_at (cq s) (nat off) (last (got s))"

fun cons_ok :: "u32 \<Rightarrow> cons_pc \<Rightarrow> chan \<Rightarrow> bool" where
  "cons_ok ps CIdle s \<longleftrightarrow> True"
| "cons_ok ps CEnter s \<longleftrightarrow> True"
| "cons_ok ps CAlign s \<longleftrightarrow> tpos (cq s) \<noteq> hpos (cq s)"
| "cons_ok ps CType s \<longleftrightarrow> hpos (cq s) < tpos (cq s) \<and> tpos (cq s) + 13 \<le> qsz (cq s)"
| "cons_ok ps CSkip s \<longleftrightarrow> hpos (cq s) < tpos (cq s) \<and> end_mark (mem (cq s)) (tpos (cq s))"
| "cons_ok ps CEmpty s \<longleftrightarrow> tpos (cq s) = 8 \<or> ready s"
| "cons_ok ps CLen s \<longleftrightarrow> ready s"
| "cons_ok ps CTake s \<longleftrightarrow> ready s"
| "cons_ok ps (CAdv len) s \<longleftrightarrow> ready s \<and> len = mb_length (fst (hd (left s)))"
| "cons_ok ps (CHold off) s \<longleftrightarrow> held ps off s"

text \<open>What each process promises the other.\<close>

definition prod_guar :: "u32 \<Rightarrow> chan \<Rightarrow> chan \<Rightarrow> bool" where
  "prod_guar ps s s' \<longleftrightarrow> tail (cq s') = tail (cq s) \<and> q_length (cq s') = q_length (cq s) \<and>
     got s' = got s \<and> prefix (acc s) (acc s') \<and>
     (tpos (cq s) \<noteq> hpos (cq s) \<longrightarrow> tpos (cq s) \<noteq> hpos (cq s')) \<and>
     (hpos (cq s) < tpos (cq s) \<longrightarrow> hpos (cq s') < tpos (cq s)) \<and>
     (\<forall>i < qsz (cq s). i + unat ps \<ge> tpos (cq s) \<and> (i < hpos (cq s) \<or> hpos (cq s) < tpos (cq s)) \<longrightarrow>
        mem (cq s') ! i = mem (cq s) ! i)"

definition cons_guar :: "chan \<Rightarrow> chan \<Rightarrow> bool" where
  "cons_guar s s' \<longleftrightarrow> head (cq s') = head (cq s) \<and> mem (cq s') = mem (cq s) \<and>
     q_length (cq s') = q_length (cq s) \<and> acc s' = acc s \<and>
     (if tpos (cq s) \<le> hpos (cq s) then tpos (cq s) \<le> tpos (cq s') \<and> tpos (cq s') \<le> hpos (cq s)
      else tpos (cq s) \<le> tpos (cq s') \<or> tpos (cq s') \<le> hpos (cq s))"

lemma stable_prod: "prod_ok ps pc (cq s) \<Longrightarrow> cons_guar s s' \<Longrightarrow> prod_ok ps pc (cq s')"
  by (cases pc) (auto simp: cons_guar_def lin_far_def room_def split: if_splits)

lemma left_mono: "prefix (acc s) (acc s') \<Longrightarrow> got s' = got s \<Longrightarrow> prefix (got s) (acc s) \<Longrightarrow> prefix (left s) (left s')"
  by (auto simp: left_def prefix_def)

lemma block_at_same:
  assumes "block_at q a x" "q_length q' = q_length q" "length (mem q) = qsz q" "length (mem q') = qsz q"
    "\<forall>i. a \<le> i \<and> i < a + msg_len x \<longrightarrow> mem q' ! i = mem q ! i"
  shows "block_at q' a x"
proof -
  have le: "a + msg_len x \<le> qsz q" using assms(1) by (simp add: block_at_def)
  have "bytes_at (mem q') a (msg_len x) = bytes_at (mem q) a (msg_len x)"
    using le assms(3-5) by (intro nth_equalityI) (auto simp: length_bytes_at nth_bytes_at)
  then show ?thesis using assms(1,2) by (simp add: block_at_def)
qed

lemma chan_invD:
  assumes "chan_inv ps s"
  shows "q_rep ps (cq s) (left s)" "prefix (got s) (acc s)" "length (mem (cq s)) = qsz (cq s)"
    "\<forall>x\<in>set (left s). msg_ok (unat ps) x"
  using assms q_repD(2,7) [of ps "cq s" "left s"] by (auto simp: chan_inv_def)

lemma seg_first:
  assumes "seg m a xs z" "xs \<noteq> []"
  shows "a + msg_len (hd xs) \<le> z" "bytes_at m a (msg_len (hd xs)) = enc_msg (hd xs)"
  using assms by (cases xs; auto dest: seg_le)+

text \<open>In a queue that is not wrapped, the oldest message lies between \<open>tail\<close> and \<open>head\<close>.\<close>

lemma linear_ready:
  assumes "chan_inv ps s" "tpos (cq s) \<le> hpos (cq s)"
  shows "seg (mem (cq s)) (tpos (cq s)) (left s) (hpos (cq s))"
    "left s \<noteq> [] \<Longrightarrow> tpos (cq s) + msg_len (hd (left s)) \<le> hpos (cq s) \<and> ready s"
proof -
  have rep: "q_rep ps (cq s) (left s)" using assms(1) by (simp add: chan_inv_def)
  show sg: "seg (mem (cq s)) (tpos (cq s)) (left s) (hpos (cq s))"
    using rep by (cases rule: q_rep_cases) (use assms(2) in auto)
  show "left s \<noteq> [] \<Longrightarrow> tpos (cq s) + msg_len (hd (left s)) \<le> hpos (cq s) \<and> ready s"
    using seg_first [OF sg] q_repD(6) [OF rep] by (auto simp: ready_def block_at_def)
qed

text \<open>In a wrapped queue the consumer is at an end mark or at the oldest message, never at both.\<close>

lemma wrapped_ready:
  assumes "chan_inv ps s" "hpos (cq s) < tpos (cq s)"
  shows "end_mark (mem (cq s)) (tpos (cq s)) \<longleftrightarrow> \<not> ready s"
    "end_mark (mem (cq s)) (tpos (cq s)) \<Longrightarrow> seg (mem (cq s)) 8 (left s) (hpos (cq s))"
proof -
  let ?q = "cq s"
  have rep: "q_rep ps ?q (left s)" using assms(1) by (simp add: chan_inv_def)
  have lm: "length (mem ?q) = qsz ?q" "8 \<le> tpos ?q" using q_repD [OF rep] by auto
  have nr: "\<not> end_mark (mem ?q) (tpos ?q)" if "ready s"
  proof -
    have b: "tpos ?q + msg_len (hd (left s)) \<le> length (mem ?q)"
        "bytes_at (mem ?q) (tpos ?q) (msg_len (hd (left s))) = enc_msg (hd (left s))" "left s \<noteq> []"
      using that lm by (auto simp: ready_def block_at_def)
    have "mem ?q ! (tpos ?q + 12) = mb_type (fst (hd (left s)))"
      using b lm by (intro seg_first_fields(2)) auto
    moreover have "mb_type (fst (hd (left s))) \<noteq> PAD_BLOCK"
      using chan_invD(4) [OF assms(1)] b(3) by (auto simp: msg_ok_def)
    ultimately show ?thesis using b(1) msg_len_ge [of "hd (left s)"] by (auto simp: end_mark_def)
  qed
  obtain e ys zs where w: "left s = ys @ zs" "seg (mem ?q) (tpos ?q) ys e" "e \<le> qsz ?q" "end_mark (mem ?q) e"
      "seg (mem ?q) 8 zs (hpos ?q)"
    using rep by (cases rule: q_rep_cases) (use assms(2) in auto)
  have rd: "ready s" if "ys \<noteq> []"
    using that w seg_first [OF w(2) that] by (auto simp: ready_def block_at_def)
  show "end_mark (mem ?q) (tpos ?q) \<longleftrightarrow> \<not> ready s" using nr rd w by (cases "ys = []") auto
  show "end_mark (mem ?q) (tpos ?q) \<Longrightarrow> seg (mem ?q) 8 (left s) (hpos ?q)"
    using nr rd w by (cases "ys = []") auto
qed

lemma ready_mono:
  assumes inv: "chan_inv ps s" "chan_inv ps s'" and g: "prod_guar ps s s'" and r: "ready s"
  shows "ready s' \<and> hd (left s') = hd (left s)"
proof -
  let ?x = "hd (left s)" and ?t = "tpos (cq s)"
  have pf: "prefix (left s) (left s')" "left s \<noteq> []"
    using g r chan_invD(2) [OF inv(1)] left_mono by (auto simp: prod_guar_def ready_def)
  then have hd: "hd (left s') = ?x" "left s' \<noteq> []" by (auto simp: prefix_def)
  have b: "block_at (cq s) ?t ?x" using r by (simp add: ready_def)
  have "i < hpos (cq s) \<or> hpos (cq s) < ?t" if "i < ?t + msg_len ?x" for i
    using linear_ready(2) [OF inv(1)] pf(2) that by linarith
  then have "\<forall>i. ?t \<le> i \<and> i < ?t + msg_len ?x \<longrightarrow> mem (cq s') ! i = mem (cq s) ! i"
    using g b by (auto simp: prod_guar_def block_at_def)
  then have "block_at (cq s') ?t ?x"
    using g chan_invD(3) [OF inv(1)] chan_invD(3) [OF inv(2)] by (intro block_at_same [OF b]) (auto simp: prod_guar_def)
  then show ?thesis using hd g by (simp add: ready_def prod_guar_def)
qed

lemma prod_guar_mem:
  "prod_guar ps s s' \<Longrightarrow> i < qsz (cq s) \<Longrightarrow> tpos (cq s) \<le> i + unat ps \<Longrightarrow>
   i < hpos (cq s) \<or> hpos (cq s) < tpos (cq s) \<Longrightarrow> mem (cq s') ! i = mem (cq s) ! i"
  by (simp add: prod_guar_def)

lemma held_mono:
  assumes inv: "chan_inv ps s" "chan_inv ps s'" and g: "prod_guar ps s s'" and h: "held ps off s"
  shows "held ps off s'"
proof -
  let ?x = "last (got s)" and ?t = "tpos (cq s)"
  have b: "block_at (cq s) (nat off) ?x" "nat off + msg_len ?x = ?t" "msg_len ?x \<le> unat ps"
    using h by (auto simp: held_def msg_ok_def)
  then have "mem (cq s') ! i = mem (cq s) ! i" if "nat off \<le> i" "i < nat off + msg_len ?x" for i
    using that q_repD(4) [OF chan_invD(1) [OF inv(1)]] by (intro prod_guar_mem [OF g]) auto
  then have "block_at (cq s') (nat off) ?x"
    using g chan_invD(3) [OF inv(1)] chan_invD(3) [OF inv(2)] by (intro block_at_same [OF b(1)]) (auto simp: prod_guar_def)
  then show ?thesis using h g by (simp add: held_def prod_guar_def)
qed

lemma stable_cons:
  assumes inv: "chan_inv ps s" "chan_inv ps s'" and ok: "cons_ok ps pc s" and g: "prod_guar ps s s'"
  shows "cons_ok ps pc s'"
proof (cases pc)
  case CSkip
  then have w: "hpos (cq s) < tpos (cq s)" "end_mark (mem (cq s)) (tpos (cq s))" using ok by auto
  have "end_mark (mem (cq s')) (tpos (cq s))"
    using w g chan_invD(3) [OF inv(1)] chan_invD(3) [OF inv(2)]
    by (cases "qsz (cq s) - tpos (cq s) < 13") (auto simp: prod_guar_def end_mark_def)
  then show ?thesis using CSkip w g by (auto simp: prod_guar_def)
next
  case CEmpty
  then show ?thesis using ok ready_mono [OF inv g] g by (auto simp: prod_guar_def)
qed (use ok ready_mono [OF inv g] held_mono [OF inv g] g in \<open>auto simp: prod_guar_def\<close>)

section \<open>Moves of the consumer\<close>

lemma read_block_at:
  assumes "chan_inv ps s" "block_at (cq s) a x" "8 \<le> a" "msg_ok (unat ps) x"
  shows "read_msg (cq s) (int a) = Inr x"
  using assms chan_invD(3) [OF assms(1)] by (intro read_msg_enc) (auto simp: block_at_def msg_ok_def)

lemma ready_reads:
  assumes inv: "chan_inv ps s" and r: "ready s"
  shows "block_length_at (cq s) (tail_mb (cq s)) = Inr (mb_length (fst (hd (left s))))"
    "read_msg (cq s) (tail_mb (cq s)) = Inr (hd (left s))" "tail_mb (cq s) = int (tpos (cq s))"
    "msg_ok (unat ps) (hd (left s))"
proof -
  note rep = chan_invD(1) [OF inv]
  show ok: "msg_ok (unat ps) (hd (left s))" using chan_invD(4) [OF inv] r by (simp add: ready_def)
  have b: "block_at (cq s) (tpos (cq s)) (hd (left s))" using r by (simp add: ready_def)
  then show "block_length_at (cq s) (tail_mb (cq s)) = Inr (mb_length (fst (hd (left s))))"
    using q_repD [OF rep] q_rep_small [OF rep] by (intro block_fields_at(1)) (auto simp: block_at_def)
  show t: "tail_mb (cq s) = int (tpos (cq s))" using sint_head_tail [OF rep] by (simp add: tail_mb_def)
  show "read_msg (cq s) (tail_mb (cq s)) = Inr (hd (left s))"
    unfolding t using q_repD(3) [OF rep] by (rule read_block_at [OF inv b _ ok])
qed

text \<open>A step that writes nothing.\<close>

lemma cons_guar_refl: "cons_guar s s"
  by (simp add: cons_guar_def)

lemma linear_nonempty:
  assumes inv: "chan_inv ps s" and lt: "tpos (cq s) < hpos (cq s)"
  shows "ready s"
proof -
  have "left s \<noteq> []" using linear_ready(1) [OF inv] lt by (cases "left s") auto
  then show ?thesis using linear_ready(2) [OF inv] lt by simp
qed

lemma skip_move:
  assumes inv: "chan_inv ps s" and ok: "cons_ok ps CSkip s"
  shows "chan_inv ps (s\<lparr>cq := (cq s)\<lparr>tail := 8\<rparr>\<rparr>) \<and> cons_guar s (s\<lparr>cq := (cq s)\<lparr>tail := 8\<rparr>\<rparr>)"
proof -
  have w: "hpos (cq s) < tpos (cq s)" "end_mark (mem (cq s)) (tpos (cq s))" using ok by auto
  have "q_rep ps ((cq s)\<lparr>tail := 8\<rparr>) (left s)"
    using q_rep_skip [OF chan_invD(1) [OF inv] w(1)] wrapped_ready(2) [OF inv w(1,2)] by simp
  then show ?thesis
    using inv w q_repD(5) [OF chan_invD(1) [OF inv]] by (simp add: chan_inv_def cons_guar_def left_def)
qed

lemma take_move:
  assumes inv: "chan_inv ps s" and r: "ready s" and x: "x = hd (left s)"
  defines "s' \<equiv> s\<lparr>cq := (cq s)\<lparr>tail := tail (cq s) + mb_length (fst x)\<rparr>, got := got s @ [x]\<rparr>"
  shows "chan_inv ps s' \<and> cons_ok ps (CHold (tail_mb (cq s))) s' \<and> cons_guar s s'"
proof -
  note rep = chan_invD(1) [OF inv]
  note rd = ready_reads [OF inv r]
  note d = q_repD [OF rep]
  have b: "block_at (cq s) (tpos (cq s)) x" "left s \<noteq> []" using r x by (auto simp: ready_def)
  have adv: "unat (tail (cq s) + mb_length (fst x)) = tpos (cq s) + msg_len x"
    using rep rd(4) b x by (intro unat_advance_tail) (auto simp: block_at_def)
  have split: "left s = x # left s'" "prefix (got s') (acc s')"
    using b(2) chan_invD(2) [OF inv] x by (auto simp: left_def s'_def prefix_def neq_Nil_conv)
  have ne: "tail (cq s) \<noteq> head (cq s)"
  proof
    assume e: "tail (cq s) = head (cq s)"
    then show False using linear_ready(2) [OF inv] b(2) msg_len_ge [of "hd (left s)"] by simp
  qed
  have pop: "shmq_pop (cq s) = Inr (Some (int (tpos (cq s))), cq s')"
    using shmq_pop_block [OF rep, of x] b rd(4) x ne by (simp add: block_at_def s'_def)
  have rep': "q_rep ps (cq s') (left s')" using shmq_pop_rep [OF rep] pop split(1) by simp
  have "tpos (cq s') \<le> hpos (cq s)" if "tpos (cq s) \<le> hpos (cq s)"
    using linear_ready(2) [OF inv that] b(2) x adv by (simp add: s'_def)
  moreover have "tpos (cq s) \<le> tpos (cq s')" using adv by (simp add: s'_def)
  ultimately have "cons_guar s s'" by (simp add: cons_guar_def s'_def)
  moreover have "held ps (tail_mb (cq s)) s'"
    using b d(3) adv rd x by (auto simp: held_def s'_def block_at_def)
  ultimately show ?thesis using rep' split by (simp add: chan_inv_def)
qed

lemma cons_move_ok:
  assumes inv: "chan_inv ps s" and ok: "cons_ok ps pc s" and mv: "cons_move pc s pc' s'"
  shows "chan_inv ps s' \<and> cons_ok ps pc' s' \<and> cons_guar s s'"
  using mv
proof (cases rule: cons_move.cases)
  case (call_pop off)
  then show ?thesis using inv by (simp add: cons_guar_def)
next
  case (take_block len q x)
  then have r: "ready s" "len = mb_length (fst (hd (left s)))" using ok by auto
  then show ?thesis using take_block take_move [OF inv r(1) refl] ready_reads(2) [OF inv r(1)] by auto
next
  case (cons_other q)
  note rep = chan_invD(1) [OF inv]
  note st = sint_head_tail [OF rep]
  show ?thesis
  proof (cases pc)
    case CAlign
    have "unat (q_length (cq s) - tail (cq s)) = qsz (cq s) - tpos (cq s)"
      using q_repD [OF rep] by (intro unat_sub_le32) auto
    then show ?thesis
      using cons_other CAlign ok inv st linear_nonempty [OF inv] q_repD(2,4) [OF rep]
      by (auto simp: cons_guar_refl end_mark_def)
  next
    case CType
    then have w: "hpos (cq s) < tpos (cq s)" "tpos (cq s) + 13 \<le> length (mem (cq s))"
      using ok chan_invD(3) [OF inv] by auto
    then have "block_type_at (cq s) (tail_mb (cq s)) = Inr (mem (cq s) ! (tpos (cq s) + 12))"
      using q_repD(3) [OF rep] st load_nat [of 8 "tpos (cq s) + 12" 1 "mem (cq s)"]
        nth_bytes_at [of 0 1 "tpos (cq s) + 12" "mem (cq s)"]
      by (simp add: block_type_at_def tail_mb_def)
    then show ?thesis
      using cons_other CType w inv wrapped_ready(1) [OF inv w(1)] by (auto simp: cons_guar_refl end_mark_def)
  next
    case CSkip
    then show ?thesis using cons_other skip_move [OF inv] ok by auto
  next
    case CEmpty
    have "ready s" if "tail (cq s) \<noteq> head (cq s)"
      using ok CEmpty q_repD(5) [OF rep] that linear_nonempty [OF inv] by (auto simp: word_unat_eq_iff)
    then show ?thesis using cons_other CEmpty inv by (auto simp: cons_guar_refl)
  next
    case CTake
    then show ?thesis using cons_other ok inv ready_reads(1) [OF inv] by (auto simp: cons_guar_refl)
  qed (use cons_other ok inv in \<open>auto simp: cons_guar_refl word_unat_eq_iff split: if_splits\<close>)
qed

section \<open>Moves of the producer\<close>

text \<open>A store at or above \<open>head\<close> that stays in free room changes neither the contents nor the block in use.\<close>

lemma free_store:
  assumes inv: "chan_inv ps s" and h: "hpos (cq s) \<le> a" "a + length bs \<le> qsz (cq s)"
    and free: "tpos (cq s) \<le> hpos (cq s) \<or> a + length bs + unat ps \<le> tpos (cq s)"
  defines "s' \<equiv> s\<lparr>cq := (cq s)\<lparr>mem := put_bytes (mem (cq s)) a bs\<rparr>\<rparr>"
  shows "chan_inv ps s' \<and> prod_guar ps s s' \<and>
    store 8 (mem (cq s)) (int a) bs = Inr (mem (cq s'))"
proof -
  let ?q = "cq s" and ?q' = "cq s'"
  note rep = chan_invD(1) [OF inv]
  note d = q_repD [OF rep]
  have m: "mem ?q' ! i = (if a \<le> i \<and> i < a + length bs then bs ! (i - a) else mem ?q ! i)" if "i < qsz ?q" for i
    using that d h by (simp add: s'_def nth_put_bytes)
  have cfg: "shmq_cfg ps ?q'" using rep d h by (auto simp: q_rep_def shmq_cfg_def s'_def length_put_bytes)
  have same: "left s' = left s" by (simp add: left_def s'_def)
  have "q_rep ps ?q' (left s)"
    using rep
  proof (cases rule: q_rep_cases)
    case linear
    then have "seg (put_bytes (mem ?q) a bs) (tpos ?q) (left s) (hpos ?q)"
      using d h by (intro seg_put_bytes) auto
    then show ?thesis using cfg d by (intro q_rep_linearI) (auto simp: s'_def)
  next
    case (wrapped e ys zs)
    have te: "tpos ?q \<le> e" using wrapped(4) by (rule seg_le)
    have "seg (put_bytes (mem ?q) a bs) (tpos ?q) ys e" "seg (put_bytes (mem ?q) a bs) 8 zs (hpos ?q)"
      using wrapped d h free by (auto intro!: seg_put_bytes)
    moreover have "end_mark (put_bytes (mem ?q) a bs) e"
      using wrapped d h free te by (intro end_mark_put_bytes) auto
    ultimately have "q_rep ps ?q' (ys @ zs)"
      using cfg d wrapped by (intro q_rep_wrappedI [where e = e]) (auto simp: s'_def)
    then show ?thesis using wrapped(3) by simp
  qed
  moreover have "prod_guar ps s s'"
    using m h free by (auto simp: prod_guar_def s'_def)
  moreover have "store 8 (mem ?q) (int a) bs = Inr (mem ?q')" using d h by (simp add: s'_def)
  ultimately show ?thesis using inv same by (simp add: chan_inv_def s'_def)
qed

lemma prod_guar_refl: "prod_guar ps s s"
  by (simp add: prod_guar_def)

lemma wrap_move:
  assumes inv: "chan_inv ps s" and ok: "prod_ok ps (PWrap x) (cq s)"
  defines "s' \<equiv> s\<lparr>cq := (cq s)\<lparr>head := 8\<rparr>\<rparr>"
  shows "chan_inv ps s' \<and> prod_ok ps (PFull x 0) (cq s') \<and> prod_guar ps s s'"
proof -
  note rep = chan_invD(1) [OF inv]
  note d = q_repD [OF rep]
  have t: "8 < tpos (cq s)" "tpos (cq s) \<le> hpos (cq s)" "end_mark (mem (cq s)) (hpos (cq s))" "pushable ps x"
    using ok by (auto simp: lin_far_def)
  have "q_rep ps (cq s') (left s @ [])"
    using rep d t linear_ready(1) [OF inv t(2)]
    by (intro q_rep_wrappedI [where e = "hpos (cq s)"]) (auto simp: q_rep_def shmq_cfg_def s'_def)
  moreover have "prod_guar ps s s'" using t by (auto simp: prod_guar_def s'_def)
  ultimately show ?thesis using inv t d by (auto simp: chan_inv_def left_def s'_def pushable_def)
qed

lemma put_bytes_same: "a + n \<le> length m \<Longrightarrow> put_bytes m a (bytes_at m a n) = m"
  by (intro nth_equalityI) (auto simp: length_put_bytes length_bytes_at nth_put_bytes nth_bytes_at)

lemma commit_move:
  assumes inv: "chan_inv ps s" and ok: "prod_ok ps (PCommit x) (cq s)"
  defines "s' \<equiv> s\<lparr>cq := (cq s)\<lparr>head := head (cq s) + mb_length (fst x)\<rparr>, acc := acc s @ [x]\<rparr>"
  shows "chan_inv ps s' \<and> prod_guar ps s s'"
proof -
  note rep = chan_invD(1) [OF inv]
  note d = q_repD [OF rep]
  have o: "msg_ok (unat ps) x" "hpos (cq s) + msg_len x \<le> qsz (cq s)"
      "tpos (cq s) \<le> hpos (cq s) \<or> hpos (cq s) < tpos (cq s) \<and> hpos (cq s) + msg_len x + unat ps \<le> tpos (cq s)"
      "bytes_at (mem (cq s)) (hpos (cq s)) (msg_len x) = enc_msg x"
    using ok by (auto simp: pushable_def room_def msg_fits_def msg_ok_def)
  have same: "put_bytes (mem (cq s)) (hpos (cq s)) (enc_msg x) = mem (cq s)"
    unfolding o(4) [symmetric] using o(2) d(2) by (intro put_bytes_same) simp
  have h: "unat (head (cq s) + mb_length (fst x)) = hpos (cq s) + msg_len x"
    using d o unat_add_less32 [of "head (cq s)" "mb_length (fst x)"] by (auto simp: msg_ok_def)
  have "q_rep ps (cq s') (left s @ [x])"
    using append_message [OF rep o(1-3), of "notified (cq s)"] by (simp add: same s'_def)
  moreover have "left s' = left s @ [x]" "prefix (got s') (acc s')"
    using chan_invD(2) [OF inv] by (auto simp: left_def s'_def prefix_def)
  moreover have "prod_guar ps s s'"
    using o h msg_len_ge [of x] d by (auto simp: prod_guar_def s'_def)
  ultimately show ?thesis by (simp add: chan_inv_def)
qed

lemma copy_move:
  assumes inv: "chan_inv ps s" and ok: "prod_ok ps (PCopy x i) (cq s)" and i: "i < msg_len x"
  defines "s' \<equiv> s\<lparr>cq := (cq s)\<lparr>mem := put_bytes (mem (cq s)) (hpos (cq s) + i) [enc_msg x ! i]\<rparr>\<rparr>"
  shows "chan_inv ps s' \<and> prod_ok ps (PCopy x (Suc i)) (cq s') \<and> prod_guar ps s s' \<and>
    store 8 (mem (cq s)) (int (hpos (cq s)) + int i) [enc_msg x ! i] = Inr (mem (cq s'))"
proof -
  let ?a = "hpos (cq s) + i" and ?m = "mem (cq s)"
  have o: "room ps x (cq s)" "bytes_at ?m (hpos (cq s)) i = take i (enc_msg x)" using ok by auto
  have lm: "?a + 1 \<le> length ?m" using o i chan_invD(3) [OF inv] by (simp add: room_def)
  have "bytes_at (put_bytes ?m ?a [enc_msg x ! i]) (hpos (cq s)) (i + 1) =
      bytes_at ?m (hpos (cq s)) i @ [enc_msg x ! i]"
    unfolding bytes_at_append_split using lm bytes_at_put_other [of ?a "[enc_msg x ! i]" ?m "hpos (cq s)" i]
    by (simp add: bytes_at_put_same)
  then have "prod_ok ps (PCopy x (Suc i)) (cq s')"
    using ok i o(2) by (simp add: s'_def room_def take_Suc_conv_app_nth)
  moreover have "tpos (cq s) \<le> hpos (cq s) \<or> ?a + length [enc_msg x ! i] + unat ps \<le> tpos (cq s)"
    using o(1) i by (auto simp: room_def)
  ultimately show ?thesis
    using free_store [OF inv, of ?a "[enc_msg x ! i]"] o(1) i by (simp add: s'_def room_def)
qed

lemma pad_move:
  assumes inv: "chan_inv ps s" and ok: "prod_ok ps (PPad x k) (cq s)"
    and st: "prod_step ps (PPad x k) (cq s) = Inr (pc', q)"
  shows "chan_inv ps (s\<lparr>cq := q\<rparr>) \<and> prod_ok ps pc' q \<and> prod_guar ps s (s\<lparr>cq := q\<rparr>)"
proof -
  let ?q = "cq s" and ?h = "hpos (cq s)"
  note rep = chan_invD(1) [OF inv]
  have o: "pushable ps x" "8 < tpos ?q" "tpos ?q \<le> ?h" "?h + 13 \<le> qsz ?q" "0 < k \<longrightarrow> mem ?q ! (?h + 12) = PAD_BLOCK"
    using ok by (auto simp: lin_far_def)
  have hm: "head_mb ?q = int ?h" using sint_head_tail [OF rep] by (simp add: head_mb_def)
  have lm: "length (mem ?q) = qsz ?q" by (rule chan_invD(3) [OF inv])
  note fs = free_store [OF inv]
  consider "k = 0" | "k = 1" | "k \<noteq> 0" "k \<noteq> 1" by blast
  then show ?thesis
  proof cases
    case 1
    then show ?thesis
      using st o hm lm fs [of "?h + 12" "[PAD_BLOCK]"] by (auto simp: lin_far_def nth_put_bytes algebra_simps)
  next
    case 2
    then show ?thesis
      using st o hm lm fs [of "?h + 8" "le32 (q_length ?q - head ?q)"]
      by (auto simp: lin_far_def nth_put_bytes algebra_simps)
  next
    case 3
    then have q: "q = ?q\<lparr>mem := put_bytes (mem ?q) ?h (le32 0)\<rparr>" "pc' = PWrap x" "mem ?q ! (?h + 12) = PAD_BLOCK"
      using st o hm lm by auto
    show ?thesis
      unfolding q using o q(3) lm fs [of ?h "le32 0"] by (simp add: lin_far_def nth_put_bytes end_mark_def)
  qed
qed

lemma push_bytes_fits: "msg_fits x \<Longrightarrow> push_bytes x = enc_msg x"
  by (simp add: push_bytes_def enc_msg_def msg_fits_def msg_len_def)

lemma copy_step:
  assumes inv: "chan_inv ps s" and ok: "prod_ok ps (PCopy x i) (cq s)"
    and st: "prod_step ps (PCopy x i) (cq s) = Inr (pc', q)"
  shows "chan_inv ps (s\<lparr>cq := q\<rparr>) \<and> prod_ok ps pc' q \<and> prod_guar ps s (s\<lparr>cq := q\<rparr>)"
proof -
  have f: "msg_fits x" "push_bytes x = enc_msg x" "i \<le> msg_len x"
    using ok push_bytes_fits by (auto simp: pushable_def)
  have hm: "head_mb (cq s) = int (hpos (cq s))"
    using sint_head_tail [OF chan_invD(1) [OF inv]] by (simp add: head_mb_def)
  show ?thesis
  proof (cases "i < msg_len x")
    case True
    note c = copy_move [OF inv ok True]
    then have "q = cq (s\<lparr>cq := (cq s)\<lparr>mem := put_bytes (mem (cq s)) (hpos (cq s) + i) [enc_msg x ! i]\<rparr>\<rparr>)"
      "pc' = PCopy x (Suc i)"
      using st f True hm by (auto split: if_splits)
    then show ?thesis using c by simp
  next
    case False
    then have "i = msg_len x" "pc' = PCommit x" "q = cq s" using f st by (auto split: if_splits)
    then show ?thesis using inv ok by (simp add: prod_guar_refl)
  qed
qed

lemma tail_step:
  assumes inv: "chan_inv ps s" and ok: "pushable ps x"
    and st: "prod_step ps (PTail x) (cq s) = Inr (pc', q)"
  shows "q = cq s \<and> prod_ok ps pc' q"
proof -
  note rep = chan_invD(1) [OF inv]
  note d = q_repD [OF rep]
  have sub: "unat (q_length (cq s) - head (cq s)) = qsz (cq s) - hpos (cq s)"
    using d by (intro unat_sub_le32) auto
  have l: "unat (mb_length (fst x)) = msg_len x" "msg_len x \<le> unat ps" using ok by (auto simp: pushable_def msg_fits_def)
  have lin: "tpos (cq s) \<le> hpos (cq s)" if "qsz (cq s) - hpos (cq s) < msg_len x"
    using rep by (cases rule: q_rep_cases) (use that l d in auto)
  have "8 < tpos (cq s)" if "tail (cq s) \<noteq> 8" using that d by (auto simp: word_unat_eq_iff)
  then show ?thesis using st lin ok l sub d by (auto simp: lin_far_def word_less_nat_alt split: if_splits)
qed

lemma full2_step:
  assumes inv: "chan_inv ps s" and ok: "prod_ok ps (PFull2 x cnt) (cq s)"
    and st: "prod_step ps (PFull2 x cnt) (cq s) = Inr (pc', q)"
  shows "q = cq s \<and> prod_ok ps pc' q"
proof -
  note d = q_repD [OF chan_invD(1) [OF inv]]
  have l: "unat (mb_length (fst x)) = msg_len x" "msg_len x \<le> unat ps"
    using ok by (auto simp: pushable_def msg_fits_def)
  have "unat (head (cq s) + mb_length (fst x)) = hpos (cq s) + msg_len x"
    using d l unat_add_less32 [of "head (cq s)" "mb_length (fst x)"] by auto
  then have "unat (head (cq s) + mb_length (fst x) + ps) = hpos (cq s) + msg_len x + unat ps"
    using d l unat_add_less32 [of "head (cq s) + mb_length (fst x)" ps] by auto
  then show ?thesis using st ok by (auto simp: room_def word_less_nat_alt split: if_splits)
qed

lemma notify_inv: "chan_inv ps (s\<lparr>cq := (cq s)\<lparr>notified := k\<rparr>\<rparr>) \<longleftrightarrow> chan_inv ps s"
  by (simp add: chan_inv_def left_def q_rep_def shmq_cfg_def linear_def wrapped_def)

lemma prod_move_ok:
  assumes inv: "chan_inv ps s" and ok: "prod_ok ps pc (cq s)" and mv: "prod_move ps pc s pc' s'"
  shows "chan_inv ps s' \<and> prod_ok ps pc' (cq s') \<and> prod_guar ps s s'"
  using mv
proof (cases rule: prod_move.cases)
  case (call_push x r)
  then show ?thesis using inv by (simp add: prod_guar_refl)
next
  case (commit x q)
  then show ?thesis using commit_move [OF inv, of x] ok by auto
next
  case (prod_other q)
  note sh = sint_head_tail [OF chan_invD(1) [OF inv]]
  show ?thesis
  proof (cases pc)
    case (PTail x)
    then show ?thesis using tail_step [OF inv, of x pc' q] prod_other ok inv by (auto simp: prod_guar_refl simp del: prod_step.simps)
  next
    case (PTail2 x)
    have "unat (q_length (cq s) - head (cq s)) = qsz (cq s) - hpos (cq s)"
      using q_repD [OF chan_invD(1) [OF inv]] by (intro unat_sub_le32) auto
    then show ?thesis
      using PTail2 prod_other ok inv sh chan_invD(3) [OF inv]
      by (auto simp: prod_guar_refl lin_far_def end_mark_def split: if_splits)
  next
    case (PPad x k)
    then show ?thesis using pad_move [OF inv, of x k pc' q] prod_other ok by simp
  next
    case (PWrap x)
    then show ?thesis using wrap_move [OF inv, of x] prod_other ok by auto
  next
    case (PFull2 x cnt)
    then show ?thesis using full2_step [OF inv, of x cnt pc' q] prod_other ok inv by (auto simp: prod_guar_refl simp del: prod_step.simps)
  next
    case (PCopy x i)
    then show ?thesis using copy_step [OF inv, of x i pc' q] prod_other ok by simp
  qed (use prod_other ok inv sh in \<open>auto simp: prod_guar_refl pushable_def room_def msg_fits_def word_less_nat_alt
      notify_inv prod_guar_def split: if_splits\<close>)
qed

interpretation conc: two_procs "chan_inv ps" "prod_move ps" cons_move "\<lambda>pc s. prod_ok ps pc (cq s)" "cons_ok ps"
    "prod_guar ps" cons_guar for ps
proof unfold_locales
  show "chan_inv ps s' \<and> prod_ok ps a' (cq s') \<and> prod_guar ps s s'"
    if "chan_inv ps s" "prod_ok ps a (cq s)" "prod_move ps a s a' s'" for s a a' s'
    using that by (rule prod_move_ok)
  show "chan_inv ps s' \<and> cons_ok ps b' s' \<and> cons_guar s s'"
    if "chan_inv ps s" "cons_ok ps b s" "cons_move b s b' s'" for s b b' s'
    using that by (rule cons_move_ok)
  show "prod_ok ps a (cq s')" if "chan_inv ps s" "chan_inv ps s'" "prod_ok ps a (cq s)" "cons_guar s s'" for s s' a
    using that(3,4) by (rule stable_prod)
  show "cons_ok ps b s'" if "chan_inv ps s" "chan_inv ps s'" "cons_ok ps b s" "prod_guar ps s s'" for s s' b
    using that by (rule stable_cons)
qed

section \<open>No process is stuck\<close>

lemma prod_fault:
  assumes inv: "chan_inv ps s" and ok: "prod_ok ps pc (cq s)" and e: "prod_step ps pc (cq s) = Inl e"
  shows "e = Exit (-1)"
proof (cases pc)
  case (PPad x k)
  have hm: "head_mb (cq s) = int (hpos (cq s))"
    using sint_head_tail [OF chan_invD(1) [OF inv]] by (simp add: head_mb_def)
  have o: "tpos (cq s) \<le> hpos (cq s)" "8 < tpos (cq s)" "hpos (cq s) + 13 \<le> qsz (cq s)"
    using ok PPad by (auto simp: lin_far_def)
  then show ?thesis
    using e PPad hm free_store [OF inv, of "hpos (cq s) + 12" "[PAD_BLOCK]"]
      free_store [OF inv, of "hpos (cq s) + 8" "le32 (q_length (cq s) - head (cq s))"]
      free_store [OF inv, of "hpos (cq s)" "le32 0"]
    by (auto simp: algebra_simps split: if_splits)
next
  case (PCopy x i)
  have hm: "head_mb (cq s) = int (hpos (cq s))"
    using sint_head_tail [OF chan_invD(1) [OF inv]] by (simp add: head_mb_def)
  have f: "push_bytes x = enc_msg x" "\<not> length (snd x) < unat (mb_length (fst x)) - 13"
    using ok PCopy push_bytes_fits by (auto simp: pushable_def msg_fits_def msg_len_def)
  then show ?thesis
    using e PCopy hm copy_move [OF inv, of x i] ok by (auto split: if_splits)
qed (use e ok q_repD(1) [OF chan_invD(1) [OF inv]] in \<open>auto simp: msg_fits_def msg_len_def split: if_splits\<close>)

lemma cons_enabled:
  assumes inv: "chan_inv ps s" and ok: "cons_ok ps pc s"
  shows "\<exists>pc' s'. cons_move pc s pc' s'"
proof -
  note rep = chan_invD(1) [OF inv]
  have "\<exists>y. cons_step pc (cq s) = Inr y"
  proof (cases pc)
    case CType
    then have w: "tpos (cq s) + 13 \<le> length (mem (cq s))" using ok chan_invD(3) [OF inv] by auto
    then show ?thesis
      using CType q_repD(3) [OF rep] sint_head_tail [OF rep] load_nat [of 8 "tpos (cq s) + 12" 1 "mem (cq s)"]
      by (simp add: block_type_at_def tail_mb_def)
  qed (use ok ready_reads(1) [OF inv] q_repD(1) [OF rep] in auto)
  then obtain pc' q where st: "cons_step pc (cq s) = Inr (pc', q)" by auto
  show ?thesis
  proof (cases "\<exists>len. pc = CAdv len")
    case True
    then have "read_msg (cq s) (tail_mb (cq s)) = Inr (hd (left s))" using ok ready_reads(2) [OF inv] by auto
    then show ?thesis using True st cons_move.take_block by blast
  next
    case False
    then show ?thesis using st cons_move.cons_other by blast
  qed
qed

lemma empty_answer:
  assumes inv: "chan_inv ps s" and st: "cons_step pc (cq s) = Inr (CIdle, q)" "pc \<noteq> CIdle"
  shows "got s = acc s"
proof -
  have "tpos (cq s) = hpos (cq s)"
    using st by (cases pc) (auto split: if_splits)
  then have "left s = []" using linear_ready(1) [OF inv] seg_same_end by simp
  then show ?thesis using chan_invD(2) [OF inv] by (auto simp: left_def prefix_def)
qed

lemma held_read: "chan_inv ps s \<Longrightarrow> held ps off s \<Longrightarrow> got s \<noteq> [] \<and> read_msg (cq s) off = Inr (last (got s))"
  using read_block_at [of ps s "nat off" "last (got s)"] by (auto simp: held_def split: if_splits)

section \<open>One process alone\<close>

fun prod_run :: "nat \<Rightarrow> u32 \<Rightarrow> prod_pc \<Rightarrow> shm_queue \<Rightarrow> (int \<times> shm_queue) res" where
  "prod_run 0 ps pc q = Inl Blocked"
| "prod_run (Suc n) ps pc q =
     (case pc of PIdle r \<Rightarrow> Inr (r, q) | _ \<Rightarrow> bindR (prod_step ps pc q) (\<lambda>(pc', q'). prod_run n ps pc' q'))"

fun cons_run :: "nat \<Rightarrow> cons_pc \<Rightarrow> shm_queue \<Rightarrow> (int option \<times> shm_queue) res" where
  "cons_run 0 pc q = Inl Blocked"
| "cons_run (Suc n) pc q =
     (case pc of CIdle \<Rightarrow> Inr (None, q) | CHold off \<Rightarrow> Inr (Some off, q)
      | _ \<Rightarrow> bindR (cons_step pc q) (\<lambda>(pc', q'). cons_run n pc' q'))"

text \<open>The part of \<open>shmq_pop\<close> after \<open>align_queue_tail\<close>.\<close>

definition pop_rest :: "shm_queue \<Rightarrow> (int option \<times> shm_queue) res" where
  "pop_rest q = (if tail q = head q then Inr (None, q)
     else bindR (block_length_at q (tail_mb q)) (\<lambda>len. Inr (Some (tail_mb q), q\<lparr>tail := tail q + len\<rparr>)))"

lemma cons_run_Empty:
  assumes "5 \<le> n"
  shows "cons_run n CEmpty q = pop_rest q"
proof -
  obtain m where m: "n = Suc (Suc (Suc (Suc (Suc m))))" using le_Suc_ex [OF assms] by (auto simp: numeral_eq_Suc)
  then show ?thesis by (cases "block_length_at q (tail_mb q)") (auto simp: pop_rest_def)
qed

lemma cons_run_step:
  "cons_run (Suc n) CAlign q = cons_run n (fst (projr (cons_step CAlign q))) q"
  "cons_run (Suc n) CSkip q = cons_run n CEmpty (q\<lparr>tail := 8\<rparr>)"
  "cons_run (Suc n) CType q = bindR (block_type_at q (tail_mb q)) (\<lambda>ty. cons_run n (if ty = PAD_BLOCK then CSkip else CEmpty) q)"
  by (simp_all) (cases "block_type_at q (tail_mb q)"; simp)

lemma cons_run_Align:
  assumes "8 \<le> n"
  shows "cons_run n CAlign q = bindR (align_queue_tail q) pop_rest"
proof -
  obtain m where m: "n = Suc (Suc (Suc m))" "5 \<le> m" using le_Suc_ex [OF assms] by (auto simp: numeral_eq_Suc)
  then show ?thesis
    by (cases "block_type_at q (tail_mb q)") (simp_all add: align_queue_tail_def cons_run_Empty cons_run_step del: cons_run.simps(2))
qed

lemma cons_run_pop:
  assumes "9 \<le> n"
  shows "cons_run n CEnter q = shmq_pop q"
proof -
  obtain m where m: "n = Suc m" "8 \<le> m" using le_Suc_ex [OF assms] by (auto simp: numeral_eq_Suc)
  then have "cons_run m CIdle q = Inr (None, q)" by (cases m) auto
  then show ?thesis using m by (auto simp: cons_run_Align shmq_pop_def pop_rest_def [abs_def])
qed

section \<open>Alone, the producer is \<open>shmq_push\<close>\<close>

lemma length_push_bytes:
  "13 \<le> unat (mb_length (fst x)) \<Longrightarrow> unat (mb_length (fst x)) - 13 \<le> length (snd x) \<Longrightarrow>
   length (push_bytes x) = unat (mb_length (fst x))"
  by (simp add: push_bytes_def)

definition after_push :: "message \<Rightarrow> byte list \<Rightarrow> shm_queue \<Rightarrow> shm_queue" where
  "after_push x m q = q\<lparr>mem := m, head := head q + mb_length (fst x), notified := notified q + 1\<rparr>"

lemma copy_run_ok:
  assumes "8 \<le> a" "head_mb q = int a" "unat (mb_length (fst x)) - 13 \<le> length (snd x)"
    "i \<le> length (push_bytes x)" "length (push_bytes x) - i + 4 \<le> n"
  shows "prod_run n ps (PCopy x i) q =
    (if a + length (push_bytes x) \<le> length (mem q) \<or> i = length (push_bytes x)
     then Inr (0, after_push x (put_bytes (mem q) (a + i) (drop i (push_bytes x))) q) else Inl Segv)"
  using assms(2,4,5)
proof (induction n arbitrary: i q)
  case 0
  then show ?case by simp
next
  case (Suc n)
  let ?bs = "push_bytes x"
  show ?case
  proof (cases "i = length ?bs")
    case True
    then obtain n' where "n = Suc (Suc (Suc n'))" using Suc.prems(3) by (cases n; cases "n - 1"; cases "n - 2"; auto)
    then show ?thesis using True assms(3) by (simp add: after_push_def not_less)
  next
    case False
    then have lt: "i < length ?bs" using Suc.prems(2) by simp
    let ?m = "put_bytes (mem q) (a + i) [?bs ! i]" and ?q = "q\<lparr>mem := put_bytes (mem q) (a + i) [?bs ! i]\<rparr>"
    show ?thesis
    proof (cases "a + i + 1 \<le> length (mem q)")
      case True
      have "store 8 (mem q) (int a + int i) [?bs ! i] = Inr ?m"
        using True assms(1) store_nat [of 8 "a + i" "[?bs ! i]" "mem q"] by simp
      then have "prod_run (Suc n) ps (PCopy x i) q = prod_run n ps (PCopy x (Suc i)) ?q"
        using lt assms(3) Suc.prems(1) by (simp add: not_less)
      also have "\<dots> = (if a + length ?bs \<le> length (mem q) \<or> Suc i = length ?bs
          then Inr (0, after_push x (put_bytes ?m (a + Suc i) (drop (Suc i) ?bs)) ?q) else Inl Segv)"
        using lt Suc.prems True by (subst Suc.IH) (simp_all add: head_mb_def length_put_bytes)
      also have "put_bytes ?m (a + Suc i) (drop (Suc i) ?bs) = put_bytes (mem q) (a + i) (drop i ?bs)"
        if "a + length ?bs \<le> length (mem q)"
        using put_bytes_put_bytes_adj [of "a + i" "[?bs ! i]" "drop (Suc i) ?bs" "mem q"] that lt
        by (simp add: Cons_nth_drop_Suc)
      ultimately show ?thesis using True lt by (auto simp: after_push_def)
    next
      case False
      then have "store 8 (mem q) (int a + int i) [?bs ! i] = Inl Segv" by (simp add: store_def)
      then show ?thesis using lt assms(3) Suc.prems(1) False by (simp add: not_less)
    qed
  qed
qed

definition push_store :: "message \<Rightarrow> shm_queue \<Rightarrow> (int \<times> shm_queue) res" where
  "push_store x q =
     (let n = unat (mb_length (fst x)) - sizeof_shm_block in
      if length (snd x) < n then Inl Segv
      else bindR (store 8 (mem q) (head_mb q) (enc_block (fst x))) (\<lambda>m1.
        bindR (store 8 m1 (head_mb q + 13) (take n (snd x))) (\<lambda>m2. Inr (0, after_push x m2 q))))"

lemma copy_run:
  assumes len: "13 \<le> unat (mb_length (fst x))" and n: "unat (mb_length (fst x)) + 4 \<le> n"
  shows "prod_run n ps (PCopy x 0) q = push_store x q"
proof -
  let ?bs = "push_bytes x" and ?d = "take (unat (mb_length (fst x)) - 13) (snd x)"
  obtain k where k: "n = Suc k" using n by (cases n) auto
  consider "length (snd x) < unat (mb_length (fst x)) - 13"
    | "unat (mb_length (fst x)) - 13 \<le> length (snd x)" "head_mb q < 8"
    | a where "unat (mb_length (fst x)) - 13 \<le> length (snd x)" "8 \<le> a" "head_mb q = int a"
  proof (cases "length (snd x) < unat (mb_length (fst x)) - 13 \<or> head_mb q < 8")
    case False
    then have "unat (mb_length (fst x)) - 13 \<le> length (snd x)" "8 \<le> nat (head_mb q)" "head_mb q = int (nat (head_mb q))"
      by auto
    then show thesis by (rule that(3))
  qed (use that(1,2) leI in blast)
  then show ?thesis
  proof cases
    case 1
    then show ?thesis by (simp add: k push_store_def)
  next
    case 2
    then have "store 8 (mem q) (head_mb q) b = Inl Segv" for b by (simp add: store_def)
    then show ?thesis using 2 length_push_bytes [OF len] len by (simp add: k push_store_def not_less)
  next
    case (3 a)
    have lb: "length ?bs = unat (mb_length (fst x))" "length ?d = unat (mb_length (fst x)) - 13"
      using 3 len length_push_bytes by auto
    have run: "prod_run n ps (PCopy x 0) q = (if a + length ?bs \<le> length (mem q)
        then Inr (0, after_push x (put_bytes (mem q) a ?bs) q) else Inl Segv)"
      using copy_run_ok [of a q x 0 n ps] 3 n lb len by auto
    let ?m = "put_bytes (mem q) a (enc_block (fst x))"
    show ?thesis
    proof (cases "a + length ?bs \<le> length (mem q)")
      case True
      have "store 8 ?m (int a + 13) ?d = Inr (put_bytes ?m (a + 13) ?d)"
        using True 3 lb len store_nat [of 8 "a + 13" ?d ?m] by (simp add: length_put_bytes)
      moreover have "put_bytes ?m (a + 13) ?d = put_bytes (mem q) a ?bs"
        using True lb len put_bytes_put_bytes_adj [of a "enc_block (fst x)" ?d "mem q"] by (simp add: push_bytes_def)
      ultimately show ?thesis using run True 3 lb len by (simp add: push_store_def not_less)
    next
      case False
      have "store 8 ?m (int a + 13) ?d = Inl Segv" if "a + 13 \<le> length (mem q)"
        using False lb len that by (simp add: store_def length_put_bytes)
      then show ?thesis
        using run False 3 by (cases "a + 13 \<le> length (mem q)") (simp_all add: push_store_def not_less store_def)
    qed
  qed
qed

lemma prod_run_step:
  "prod_run (Suc n) ps (PEnter x) q = bindR (prod_step ps (PEnter x) q) (\<lambda>(pc, q'). prod_run n ps pc q')"
  "prod_run (Suc n) ps (PTail x) q = bindR (prod_step ps (PTail x) q) (\<lambda>(pc, q'). prod_run n ps pc q')"
  "prod_run (Suc n) ps (PTail2 x) q = bindR (prod_step ps (PTail2 x) q) (\<lambda>(pc, q'). prod_run n ps pc q')"
  "prod_run (Suc n) ps (PReset x) q = prod_run n ps (PWrap x) (q\<lparr>tail := 8\<rparr>)"
  "prod_run (Suc n) ps (PPad x k) q = bindR (prod_step ps (PPad x k) q) (\<lambda>(pc, q'). prod_run n ps pc q')"
  "prod_run (Suc n) ps (PWrap x) q = prod_run n ps (PFull x 0) (q\<lparr>head := 8\<rparr>)"
  "prod_run (Suc n) ps (PFull x cnt) q = bindR (prod_step ps (PFull x cnt) q) (\<lambda>(pc, q'). prod_run n ps pc q')"
  "prod_run (Suc n) ps (PFull2 x cnt) q = bindR (prod_step ps (PFull2 x cnt) q) (\<lambda>(pc, q'). prod_run n ps pc q')"
  "prod_run (Suc n) ps (PIdle r) q = Inr (r, q)"
  by simp_all

lemma full_run:
  assumes len: "13 \<le> unat (mb_length (fst x))"
  shows "cnt \<le> 10 \<Longrightarrow> unat (mb_length (fst x)) + 6 + 2 * (10 - cnt) \<le> n \<Longrightarrow>
    prod_run n ps (PFull x cnt) q =
      (if cnt = 10 \<or> queue_full ps (mb_length (fst x)) q then Inr (-1, q) else push_store x q)"
proof (induction n arbitrary: cnt rule: less_induct)
  case (less n)
  then obtain k where k: "n = Suc (Suc k)" by (cases n; cases "n - 1"; auto)
  show ?case
  proof (cases "cnt = 10 \<or> \<not> sint (tail q) > sint (head q)")
    case True
    then show ?thesis
      using k less.prems copy_run [OF len, of "Suc k"]
      by (auto simp: prod_run_step queue_full_def simp del: prod_run.simps)
  next
    case False
    then show ?thesis
      using k less.prems copy_run [OF len, of k] less.IH [of k "Suc cnt"]
      by (auto simp: prod_run_step queue_full_def simp del: prod_run.simps)
  qed
qed

lemma bindR_bindR: "bindR (bindR m f) g = bindR m (\<lambda>x. bindR (f x) g)"
  by (cases m) auto

definition wait_and_store :: "u32 \<Rightarrow> message \<Rightarrow> shm_queue \<Rightarrow> (int \<times> shm_queue) res" where
  "wait_and_store ps x q = (if queue_full ps (mb_length (fst x)) q then Inr (-1, q) else push_store x q)"

lemma tail_run:
  assumes len: "13 \<le> unat (mb_length (fst x))" and n: "unat (mb_length (fst x)) + 32 \<le> n"
  shows "prod_run n ps (PTail x) q = bindR (align_queue_head q (fst x)) (wait_and_store ps x)"
proof -
  obtain m where m: "n = Suc (Suc (Suc (Suc (Suc (Suc m)))))" "unat (mb_length (fst x)) + 26 \<le> m"
    using le_Suc_ex [OF n] by (auto simp: numeral_eq_Suc)
  have f: "prod_run k ps (PFull x 0) q = wait_and_store ps x q" if "m \<le> k" for k q
    using full_run [OF len, of 0 k ps q] m that by (simp add: wait_and_store_def)
  show ?thesis
    by (simp add: m align_queue_head_def Let_def bindR_bindR prod_run_step(1-6) f write_pad_def head_mb_def del: prod_run.simps)
qed

lemma push_wait_still: "push_wait (Suc n) (\<lambda>i q. q) ps len q = (queue_full ps len q, q)"
  by (induction n) auto

lemma shmq_push_alone:
  "shmq_push (\<lambda>i q. q) ps q (fst x) (snd x) =
     (if unat (mb_length (fst x)) < 13 then Inl Abort
      else if mb_length (fst x) > ps then Inr (-1, q)
      else if \<not> mapped q then Inl Segv
      else bindR (align_queue_head q (fst x)) (wait_and_store ps x))"
proof -
  have w: "push_wait 10 (\<lambda>i q. q) ps (mb_length (fst x)) q1 = (queue_full ps (mb_length (fst x)) q1, q1)" for q1
    using push_wait_still [of 9] by simp
  have ws: "wait_and_store ps x = (\<lambda>q1. case (queue_full ps (mb_length (fst x)) q1, q1) of
          (True, q2) \<Rightarrow> Inr (-1, q2) | (False, q2) \<Rightarrow> push_store x q2)"
    by (rule ext) (simp add: wait_and_store_def)
  show ?thesis
    unfolding shmq_push_def w ws push_store_def after_push_def by (rule refl)
qed

lemma prod_run_push:
  assumes n: "unat (mb_length (fst x)) + 33 \<le> n"
  shows "prod_run n ps (PEnter x) q = shmq_push (\<lambda>i q. q) ps q (fst x) (snd x)"
proof -
  obtain m where m: "n = Suc (Suc m)" "unat (mb_length (fst x)) + 32 \<le> Suc m"
    using le_Suc_ex [OF n] by (auto simp: numeral_eq_Suc)
  note t = tail_run [OF _ m(2), of ps q]
  consider "unat (mb_length (fst x)) < 13" | "13 \<le> unat (mb_length (fst x))" "mb_length (fst x) > ps"
    | "13 \<le> unat (mb_length (fst x))" "\<not> mb_length (fst x) > ps"
    by linarith
  then show ?thesis
  proof cases
    case 3
    have "prod_run n ps (PEnter x) q = (if \<not> mapped q then Inl Segv else prod_run (Suc m) ps (PTail x) q)"
      unfolding m(1) prod_run_step(1) using 3 by (simp del: prod_run.simps)
    then show ?thesis unfolding t [OF 3(1)] shmq_push_alone using 3 by simp
  qed (simp_all add: m(1) shmq_push_alone)
qed

section \<open>Schedules\<close>

text \<open>A schedule fixes who moves next; executing it gives one of the runs.\<close>

datatype move = PushCall message | ProdStep | PopCall | ConsStep

fun exec_move :: "u32 \<Rightarrow> move \<Rightarrow> prod_pc \<times> cons_pc \<times> chan \<Rightarrow> (prod_pc \<times> cons_pc \<times> chan) option" where
  "exec_move ps (PushCall x) (p, c, s) =
     (case p of PIdle r \<Rightarrow> if msg_fits x then Some (PEnter x, c, s) else None | _ \<Rightarrow> None)"
| "exec_move ps ProdStep (p, c, s) =
     (case prod_step ps p (cq s) of Inl e \<Rightarrow> None
      | Inr (p', q) \<Rightarrow> Some (p', c, case p of PCommit x \<Rightarrow> s\<lparr>cq := q, acc := acc s @ [x]\<rparr> | _ \<Rightarrow> s\<lparr>cq := q\<rparr>))"
| "exec_move ps PopCall (p, c, s) =
     (case c of CIdle \<Rightarrow> Some (p, CEnter, s) | CHold off \<Rightarrow> Some (p, CEnter, s) | _ \<Rightarrow> None)"
| "exec_move ps ConsStep (p, c, s) =
     (case cons_step c (cq s) of Inl e \<Rightarrow> None
      | Inr (c', q) \<Rightarrow> (case c of
            CAdv len \<Rightarrow> (case read_msg (cq s) (tail_mb (cq s)) of Inl e \<Rightarrow> None
              | Inr x \<Rightarrow> Some (p, c', s\<lparr>cq := q, got := got s @ [x]\<rparr>))
          | _ \<Rightarrow> Some (p, c', s\<lparr>cq := q\<rparr>)))"

fun exec_sched :: "u32 \<Rightarrow> move list \<Rightarrow> prod_pc \<times> cons_pc \<times> chan \<Rightarrow> (prod_pc \<times> cons_pc \<times> chan) option" where
  "exec_sched ps [] y = Some y"
| "exec_sched ps (m # ms) y = (case exec_move ps m y of None \<Rightarrow> None | Some y' \<Rightarrow> exec_sched ps ms y')"

lemma exec_move_moves:
  assumes "exec_move ps m (p, c, s) = Some (p', c', s')"
  shows "c' = c \<and> prod_move ps p s p' s' \<or> p' = p \<and> cons_move c s c' s'"
proof (cases m)
  case (PushCall x)
  then show ?thesis using assms by (auto split: prod_pc.splits if_splits intro: prod_move.call_push)
next
  case ProdStep
  then obtain q where st: "prod_step ps p (cq s) = Inr (p', q)" "c' = c"
      "s' = (case p of PCommit x \<Rightarrow> s\<lparr>cq := q, acc := acc s @ [x]\<rparr> | _ \<Rightarrow> s\<lparr>cq := q\<rparr>)"
    using assms by (auto split: sum.splits simp del: prod_step.simps)
  show ?thesis
  proof (cases "\<exists>x. p = PCommit x")
    case True
    then show ?thesis using st prod_move.commit by fastforce
  next
    case False
    then have "s' = s\<lparr>cq := q\<rparr>" using st(3) by (simp split: prod_pc.splits)
    then show ?thesis using st False prod_move.prod_other by blast
  qed
next
  case PopCall
  then show ?thesis using assms by (auto split: cons_pc.splits intro: cons_move.call_pop)
next
  case ConsStep
  then obtain q where st: "cons_step c (cq s) = Inr (c', q)" "p' = p"
    and s': "(\<exists>len x. c = CAdv len \<and> read_msg (cq s) (tail_mb (cq s)) = Inr x \<and> s' = s\<lparr>cq := q, got := got s @ [x]\<rparr>) \<or>
      (\<forall>len. c \<noteq> CAdv len) \<and> s' = s\<lparr>cq := q\<rparr>"
    using assms by (cases c) (auto split: sum.splits simp del: cons_step.simps)
  then show ?thesis using cons_move.take_block cons_move.cons_other by blast
qed

lemma runs_trans: "runs mA mB y z \<Longrightarrow> runs mA mB x y \<Longrightarrow> runs mA mB x z"
  by (induction rule: runs.induct) (auto intro: runs.intros)

lemma exec_sched_runs: "exec_sched ps ms y = Some z \<Longrightarrow> runs (prod_move ps) cons_move y z"
proof (induction ms arbitrary: y)
  case Nil
  then show ?case by (simp add: runs_refl)
next
  case (Cons m ms)
  obtain p c s where y: "y = (p, c, s)" by (cases y)
  obtain p' c' s' where m: "exec_move ps m (p, c, s) = Some (p', c', s')" "exec_sched ps ms (p', c', s') = Some z"
    using Cons.prems y by (cases "exec_move ps m y") (auto simp del: exec_move.simps)
  have "runs (prod_move ps) cons_move (p, c, s) (p, c, s)" by (rule runs_refl)
  then have "runs (prod_move ps) cons_move y (p', c', s')"
    using exec_move_moves [OF m(1)] y by (auto intro: runs_A runs_B)
  then show ?case using Cons.IH [OF m(2)] runs_trans by blast
qed

section \<open>Properties\<close>

definition chan_start :: "shm_queue \<Rightarrow> prod_pc \<times> cons_pc \<times> chan" where
  "chan_start q = (PIdle 0, CIdle, \<lparr>cq = q, acc = [], got = []\<rparr>)"

text \<open>
  C4: The queue needs no lock.  Under every interleaving of the single memory accesses of a producer
  that calls \<open>shmq_push\<close> and a consumer that calls \<open>shmq_pop\<close>, starting from an empty queue:
  the messages taken are a prefix of the messages committed and the rest lies intact in the ring; the
  block the consumer works on reads as the message it took, whatever the producer is writing; \<open>shmq_pop\<close>
  answers -1 only at a moment when everything committed has been taken; the branch of
  \<open>align_queue_head\<close> for a corrupt queue is never reached; the consumer can always go on, and the
  producer can fail to go on only by the \<open>exit(-1)\<close> of a full queue.
\<close>

theorem interleaved_fifo:
  assumes "q_rep ps q []" "runs (prod_move ps) cons_move (chan_start q) (p, c, s)"
  shows "prefix (got s) (acc s) \<and> q_rep ps (cq s) (drop (length (got s)) (acc s)) \<and>
    (\<forall>off. c = CHold off \<longrightarrow> got s \<noteq> [] \<and> read_msg (cq s) off = Inr (last (got s))) \<and>
    (\<forall>q'. cons_step c (cq s) = Inr (CIdle, q') \<and> c \<noteq> CIdle \<longrightarrow> got s = acc s) \<and>
    (\<forall>x. p \<noteq> PReset x) \<and> (\<exists>c' s'. cons_move c s c' s') \<and>
    (\<forall>e. prod_step ps p (cq s) = Inl e \<longrightarrow> e = Exit (-1))"
proof -
  have "chan_inv ps s \<and> prod_ok ps p (cq s) \<and> cons_ok ps c s"
    using conc.runs_ok [OF assms(2)] assms(1) by (simp add: chan_start_def chan_inv_def left_def)
  then have ok: "chan_inv ps s" "prod_ok ps p (cq s)" "cons_ok ps c s" by auto
  have "prefix (got s) (acc s)" "q_rep ps (cq s) (drop (length (got s)) (acc s))"
    using ok(1) by (auto simp: chan_inv_def left_def)
  moreover have "\<forall>off. c = CHold off \<longrightarrow> got s \<noteq> [] \<and> read_msg (cq s) off = Inr (last (got s))"
    using held_read [OF ok(1)] ok(3) by auto
  moreover have "\<forall>q'. cons_step c (cq s) = Inr (CIdle, q') \<and> c \<noteq> CIdle \<longrightarrow> got s = acc s"
    using empty_answer [OF ok(1)] by blast
  moreover have "\<forall>x. p \<noteq> PReset x" using ok(2) by auto
  ultimately show ?thesis using cons_enabled [OF ok(1,3)] prod_fault [OF ok(1,2)] by blast
qed

text \<open>The consumer asks once while the message is half copied, and again before the producer has returned.\<close>

theorem interleaved_fifo_witness:
  "\<exists>p c s. runs (prod_move 20) cons_move (chan_start demo_empty) (p, c, s) \<and> p = PNotify demo_msg \<and>
     c = CHold 8 \<and> read_msg (cq s) 8 = Inr (last (got s)) \<and> q_rep 20 (cq s) [] \<and> got s = [demo_msg]"
proof -
  let ?sched = "PushCall demo_msg # replicate 9 ProdStep @ [PopCall, ConsStep] @ replicate 11 ProdStep
    @ PopCall # replicate 6 ConsStep"
  have "(case exec_sched 20 ?sched (chan_start demo_empty) of
      Some (p, c, s) \<Rightarrow> p = PNotify demo_msg \<and> c = CHold 8 \<and> got s = [demo_msg] \<and> acc s = [demo_msg] | None \<Rightarrow> False)"
    by code_simp
  then obtain p c s where e: "exec_sched 20 ?sched (chan_start demo_empty) = Some (p, c, s)"
    and f: "p = PNotify demo_msg" "c = CHold 8" "got s = [demo_msg]" "acc s = [demo_msg]"
    by (auto split: option.splits)
  note r = exec_sched_runs [OF e]
  show ?thesis using interleaved_fifo [OF demo_empty_rep r] r f by auto
qed

text \<open>
  The step functions are \<open>shmq_push\<close> and \<open>shmq_pop\<close>: a process that runs alone, on any queue
  and with any arguments, ends with the result, the return value and the fault of the function.
\<close>

theorem alone_is_push_and_pop:
  assumes "unat (mb_length (fst x)) + 33 \<le> n" "9 \<le> k"
  shows "prod_run n ps (PEnter x) q = shmq_push (\<lambda>i q. q) ps q (fst x) (snd x) \<and>
    cons_run k CEnter q = shmq_pop q"
  using prod_run_push [OF assms(1)] cons_run_pop [OF assms(2)] by blast

theorem alone_is_push_and_pop_witness:
  "prod_run 50 20 (PEnter demo_msg) demo_empty = Inr (0, demo_one\<lparr>notified := 1\<rparr>) \<and>
   cons_run 9 CEnter demo_one = Inr (Some 8, demo_one\<lparr>tail := 23\<rparr>)"
proof -
  have "shmq_push (\<lambda>i q. q) 20 demo_empty (fst demo_msg) (snd demo_msg) = Inr (0, demo_one\<lparr>notified := 1\<rparr>)"
    "shmq_pop demo_one = Inr (Some 8, demo_one\<lparr>tail := 23\<rparr>)"
    by code_simp+
  moreover have "unat (mb_length (fst demo_msg)) + 33 \<le> 50" by (simp add: demo_msg_def)
  ultimately show ?thesis
    using alone_is_push_and_pop [of demo_msg 50 9 20 demo_empty] alone_is_push_and_pop [of demo_msg 50 9 20 demo_one] by simp
qed

end
