(* ===== verification/Mp_IniRoundtrip.thy ===== *)
theory Mp_IniRoundtrip
  imports Mp_Iniparser
begin

text \<open>
  What the lines of an ini file mean, and that the writer \<open>iniparser_dump_ini\<close> and the loader
  \<open>iniparser_load\<close> (\<open>src/iniparser/src/iniparser.c\<close>) are inverse on dictionaries whose names and
  values survive the line grammar.  The lemmas on strings lead to \<open>classify_section\<close> and
  \<open>classify_entry\<close>; the block lemmas then follow the text of one section through the loader.
\<close>

section \<open>Names and values that survive\<close>

definition plain :: "string \<Rightarrow> bool" where
  "plain s \<longleftrightarrow> CHR 0x0A \<notin> set s \<and> CHR 0x00 \<notin> set s \<and> (s \<noteq> [] \<longrightarrow> \<not> isspace (hd s) \<and> \<not> isspace (last s))"

definition good_name :: "string \<Rightarrow> bool" where
  "good_name s \<longleftrightarrow> plain s \<and> s \<noteq> [] \<and> CHR '']'' \<notin> set s \<and> map tolower s = s \<and> length s < 1000"

definition good_key :: "string \<Rightarrow> bool" where
  "good_key k \<longleftrightarrow> plain k \<and> k \<noteq> [] \<and> CHR ''='' \<notin> set k \<and> hd k \<notin> set ''#;['' \<and> map tolower k = k"

definition good_val :: "string \<Rightarrow> bool" where
  "good_val v \<longleftrightarrow> plain v \<and> CHR '';'' \<notin> set v \<and> CHR ''#'' \<notin> set v \<and>
     (v \<noteq> [] \<longrightarrow> hd v \<noteq> CHR 0x22 \<and> hd v \<noteq> CHR 0x27 \<and> last v \<noteq> CHR 0x5C)"

lemma dropWhile_hd: "s = [] \<or> \<not> P (hd s) \<Longrightarrow> dropWhile P s = s"
  by (cases s) auto

lemma plain_strip [simp]: "plain s \<Longrightarrow> rstrip s = s \<and> dropWhile isspace s = s"
  unfolding plain_def using rstrip_id [of s] dropWhile_hd [of s isspace] by blast

lemma strlwc_id: "map tolower s = s \<Longrightarrow> length s \<le> 1024 \<Longrightarrow> strlwc s = s"
  by (simp add: strlwc_def ASCIILINESZ_def)

lemma rstrip_spaces [simp]: "rstrip (s @ replicate n (CHR '' '')) = rstrip s"
proof (induction n)
  case (Suc n)
  have "s @ replicate (Suc n) (CHR '' '') = (s @ replicate n (CHR '' '')) @ [CHR '' '']"
    by (simp add: replicate_append_same)
  then show ?case using Suc rstrip_snoc [of "s @ replicate n (CHR '' '')" "CHR '' ''"]
    by (simp add: isspace_def)
qed simp

lemma isspace_simps [simp]:
  "isspace (CHR '' '')" "\<not> isspace (CHR ''='')" "\<not> isspace (CHR ''['')" "\<not> isspace (CHR '']'')"
  by (simp_all add: isspace_def)

section \<open>The grammar of lines\<close>

lemma strstrip_plain: "plain s \<Longrightarrow> length s \<le> 1024 \<Longrightarrow> strstrip s = Inr s"
  by (simp add: strstrip_ok ASCIILINESZ_def)

lemma iniparser_line_section:
  assumes "good_name s"
  shows "iniparser_line (CHR ''['' # s @ '']'') s0 k v = Inr (LINE_SECTION, s, k, v)"
proof -
  let ?l = "CHR ''['' # s @ '']''"
  have s: "plain s" "length s < 1000" "map tolower s = s" "CHR '']'' \<notin> set s" using assms by (simp_all add: good_name_def)
  have l: "plain ?l" using s(1) by (simp add: plain_def)
  have "takeWhile (\<lambda>c. c \<noteq> CHR '']'') (s @ '']'') = s" using s(4) by (auto simp: takeWhile_append takeWhile_eq_all_conv)
  then have f: "sscanf fmt_section ?l = [s]" using assms by (simp add: fmt_section_def good_name_def)
  have n: "?l ! (length ?l - 1) = CHR '']''" by (simp add: nth_append)
  show ?thesis using strstrip_plain [OF l] strstrip_plain [OF s(1)] s f n strlwc_id [OF s(3)]
    by (simp add: iniparser_line_def)
qed

lemma takeWhile_key: "CHR ''='' \<notin> set x \<Longrightarrow> takeWhile (\<lambda>c. c \<noteq> CHR ''='') (x @ CHR ''='' # r) = x"
  by (induction x) auto

lemma sscanf_key:
  assumes "CHR ''='' \<notin> set x" "x \<noteq> []" "v = [] \<or> \<not> isspace (hd v)"
  shows "sscanf (key_is @ ds) (x @ ''= '' @ v) = x # sscanf ds v" "sscanf (key_is @ ds) (x @ ''='') = x # sscanf ds []"
  using assms takeWhile_key [OF assms(1), of "CHR '' '' # v"] takeWhile_key [OF assms(1), of "[]"]
  by (simp_all add: dropWhile_hd)

lemma ini_value_plain:
  assumes "CHR ''='' \<notin> set x" "x \<noteq> []" "rstrip (dropWhile isspace x) = y" "length x \<le> 1024"
    "good_val v" "v \<noteq> []" "length v \<le> 1024"
  shows "ini_value (x @ ''= '' @ v) s k0 v0 = Inr (LINE_VALUE, s, strlwc y, v)"
proof -
  have v: "\<not> isspace (hd v)" "hd v \<noteq> CHR 0x22" "hd v \<noteq> CHR 0x27" "plain v"
    using assms(5,6) by (simp_all add: good_val_def plain_def)
  have tw: "takeWhile (\<lambda>c. c \<notin> set '';#'') v = v"
    using assms(5) by (subst takeWhile_eq_all_conv) (auto simp: good_val_def)
  note sc = sscanf_key(1) [OF assms(1,2), of v]
  have q: "sscanf fmt_dquote (x @ ''= '' @ v) = [x]" "sscanf fmt_squote (x @ ''= '' @ v) = [x]"
    unfolding fmt_dquote_def fmt_squote_def using sc v assms(6) by (cases v; simp)+
  have p: "sscanf fmt_plain (x @ ''= '' @ v) = [x, v]"
  proof -
    have "sscanf [SetNot '';#''] v = [v]" unfolding sscanf.simps Let_def tw using assms(6) by simp
    then show ?thesis unfolding fmt_plain_def using sc v(1) by (simp del: sscanf.simps)
  qed
  have "scan_first [fmt_dquote, fmt_squote, fmt_plain] (x @ ''= '' @ v) (k0, v0) = (True, x, v)"
    unfolding scan_first.simps scan_kv_def q p by simp
  moreover have "v \<noteq> [CHR 0x22, CHR 0x22]" "v \<noteq> [CHR 0x27, CHR 0x27]" using v by auto
  moreover have "strstrip x = Inr y" using assms(3,4) by (simp add: strstrip_ok ASCIILINESZ_def)
  ultimately show ?thesis using strstrip_plain [OF v(4) assms(7)] by (simp add: ini_value_def del: scan_first.simps)
qed

lemma ini_value_empty:
  assumes "CHR ''='' \<notin> set x" "x \<noteq> []" "rstrip (dropWhile isspace x) = y" "length x \<le> 1024"
  shows "ini_value (x @ ''='') s k0 v0 = Inr (LINE_VALUE, s, strlwc y, [])"
proof -
  note sc = sscanf_key(2) [OF assms(1,2), of "[]"]
  have q: "sscanf fmt_dquote (x @ ''='') = [x]" "sscanf fmt_squote (x @ ''='') = [x]"
      "sscanf fmt_plain (x @ ''='') = [x]" "sscanf fmt_comment (x @ ''='') = [x]"
    unfolding fmt_dquote_def fmt_squote_def fmt_plain_def fmt_comment_def using sc by simp_all
  have e: "sscanf fmt_empty (x @ ''='') = [x, ''='']"
    unfolding fmt_empty_def using assms(2) takeWhile_key [OF assms(1), of "[]"] by simp
  have "scan_first [fmt_dquote, fmt_squote, fmt_plain] (x @ ''='') (k0, v0) = (False, x, v0)"
    "scan_first [fmt_comment, fmt_empty] (x @ ''='') (x, v0) = (True, x, ''='')"
    unfolding scan_first.simps scan_kv_def q e by simp_all
  moreover have "strstrip x = Inr y" using assms(3,4) by (simp add: strstrip_ok ASCIILINESZ_def)
  ultimately show ?thesis by (simp add: ini_value_def del: scan_first.simps)
qed

definition entry_line :: "string \<Rightarrow> string \<Rightarrow> string" where
  "entry_line k v = k @ replicate (30 - length k) (CHR '' '') @ '' = '' @ v"

lemma fmt_entry_line: "fmt_entry k v = entry_line k v @ [CHR 0x0A]"
  by (simp add: fmt_entry_def entry_line_def)

lemma entry_line_strip:
  assumes "good_key k" "good_val v" "length k + length v < 950"
  shows "rstrip (entry_line k v) \<noteq> [] \<and> last (rstrip (entry_line k v)) \<noteq> CHR 0x5C \<and>
    classify s (rstrip (entry_line k v)) = Assign k v \<and> length (entry_line k v) < 1023 \<and>
    CHR 0x0A \<notin> set (entry_line k v) \<and> CHR 0x00 \<notin> set (entry_line k v)"
proof -
  let ?x = "k @ replicate (30 - length k) (CHR '' '') @ '' ''"
  define t where "t = (if v = [] then ?x @ ''='' else ?x @ ''= '' @ v)"
  have k: "plain k" "k \<noteq> []" "CHR ''='' \<notin> set k" "hd k \<notin> set ''#;[''" "map tolower k = k"
    using assms(1) by (simp_all add: good_key_def)
  have v: "plain v" "v \<noteq> [] \<longrightarrow> last v \<noteq> CHR 0x5C" using assms(2) by (simp_all add: good_val_def)
  have l: "entry_line k v = ?x @ ''= '' @ v" by (simp add: entry_line_def)
  have r: "rstrip (entry_line k v) = t"
  proof (cases "v = []")
    case True
    then have e: "entry_line k v = ((?x @ ''='') @ [CHR '' ''])" by (simp add: entry_line_def)
    have "rstrip (?x @ ''='') = ?x @ ''=''" by (rule rstrip_id) simp
    with True e rstrip_snoc [of "?x @ ''=''" "CHR '' ''"] show ?thesis by (simp add: t_def)
  next
    case False
    then have "rstrip (entry_line k v) = entry_line k v"
      using v(1) by (intro rstrip_id) (simp add: l plain_def)
    then show ?thesis using False by (simp add: l t_def)
  qed
  have t: "t \<noteq> []" "hd t = hd k" "length t \<le> 1024" "\<not> isspace (last t)"
    using k(2) v(1) assms(3) by (auto simp: t_def plain_def)
  then have st: "strstrip t = Inr t"
    using k(1,2) rstrip_id [of t] dropWhile_hd [of t isspace] by (simp add: strstrip_ok ASCIILINESZ_def plain_def)
  have ne: "t ! 0 = hd k" using t(1,2) by (simp add: hd_conv_nth)
  have xs: "rstrip (dropWhile isspace ?x) = k"
  proof -
    have "dropWhile isspace ?x = ?x" using k(1,2) by (intro dropWhile_hd) (simp add: plain_def)
    moreover have "?x = k @ replicate (Suc (30 - length k)) (CHR '' '')" by (simp add: replicate_append_same)
    ultimately show ?thesis using k(1) rstrip_spaces [of k "Suc (30 - length k)"] by simp
  qed
  have lx: "length ?x \<le> 1024" "length v \<le> 1024" "length k \<le> 1024" using assms(3) by auto
  have kx: "CHR ''='' \<notin> set ?x" "?x \<noteq> []" using k(3) by auto
  have "iniparser_line t s [] [] = ini_value t s [] []"
    using st t(1) ne k(4) by (simp add: iniparser_line_def)
  also have "\<dots> = Inr (LINE_VALUE, s, strlwc k, v)"
    using ini_value_plain [OF kx xs lx(1) assms(2) _ lx(2)] ini_value_empty [OF kx xs lx(1)] by (simp add: t_def)
  finally have "classify s t = Assign k v" by (simp add: classify_def strlwc_id [OF k(5) lx(3)])
  moreover have "last t \<noteq> CHR 0x5C" using v(2) by (simp add: t_def)
  moreover have "CHR 0x0A \<notin> set (entry_line k v)" "CHR 0x00 \<notin> set (entry_line k v)"
    using k(1) v(1) by (auto simp: l plain_def)
  ultimately show ?thesis using r t(1) assms(3) by (simp add: l)
qed

section \<open>One section through the loader\<close>

definition put_all :: "(string \<times> string option) list \<Rightarrow> (string \<Rightarrow> string option option) \<Rightarrow> string \<Rightarrow> string option option" where
  "put_all evs m = fold (\<lambda>(k, v) m. m(k \<mapsto> v)) evs m"

lemma put_all_eq:
  assumes "\<And>k v. (k, v) \<in> set evs \<Longrightarrow> M k = Some v" "\<And>k. M k \<noteq> None \<Longrightarrow> k \<in> fst ` set evs \<or> m k = M k"
    "\<And>k. m k \<noteq> None \<Longrightarrow> m k = M k"
  shows "put_all evs m = M"
  using assms
proof (induction evs arbitrary: m)
  case Nil
  then have "m k = M k" for k by (cases "M k") (auto, metis not_None_eq)
  then show ?case by (simp add: put_all_def fun_eq_iff)
next
  case (Cons e evs)
  obtain k v where e: "e = (k, v)" by (cases e)
  have "put_all evs (m(k \<mapsto> v)) = M"
  proof (rule Cons.IH)
    show "M a = Some b" if "(a, b) \<in> set evs" for a b using Cons.prems(1) [of a b] that by simp
    show "a \<in> fst ` set evs \<or> (m(k \<mapsto> v)) a = M a" if "M a \<noteq> None" for a
      using Cons.prems(1) [of k v] Cons.prems(2) [OF that] e by auto
    show "(m(k \<mapsto> v)) a = M a" if "(m(k \<mapsto> v)) a \<noteq> None" for a
      using Cons.prems(1) [of k v] Cons.prems(3) [of a] that e by (auto split: if_splits)
  qed
  then show ?case by (simp add: e put_all_def)
qed

definition at_rest :: "ini_spec \<Rightarrow> bool" where
  "at_rest s \<longleftrightarrow> sp_last s = [] \<and> sp_errs s = 0"

lemma section_line_step:
  assumes "at_rest s" "good_name x"
  shows "line_ok (CHR ''['' # x @ '']'') s"
    "ini_step (CHR ''['' # x @ '']'') s = s\<lparr>sp_section := x, sp_map := (sp_map s)(x \<mapsto> None)\<rparr>"
proof -
  let ?l = "CHR ''['' # x @ '']''"
  have r: "rstrip ?l = ?l" using rstrip_id [of ?l] by simp
  have c: "classify (sp_section s) ?l = Sect x" using iniparser_line_section [OF assms(2)] by (simp add: classify_def)
  show "line_ok ?l s" using assms r c by (simp add: line_ok_def at_rest_def good_name_def plain_def)
  show "ini_step ?l s = s\<lparr>sp_section := x, sp_map := (sp_map s)(x \<mapsto> None)\<rparr>"
    using assms(1) r c by (simp add: ini_step_def spec_line_def at_rest_def)
qed

lemma entry_line_step:
  assumes "at_rest s" "good_key k" "good_val v" "length k + length v < 950" "length (sp_section s) + length k < 1024"
  shows "line_ok (entry_line k v) s"
    "ini_step (entry_line k v) s = s\<lparr>sp_map := (sp_map s)(sp_section s @ '':'' @ k \<mapsto> Some v)\<rparr>"
proof -
  note e = entry_line_strip [OF assms(2-4), of "sp_section s"]
  have ne: "entry_line k v \<noteq> []" by (simp add: entry_line_def)
  show "line_ok (entry_line k v) s"
    using assms(1,5) e by (simp add: line_ok_def at_rest_def ASCIILINESZ_def)
  show "ini_step (entry_line k v) s = s\<lparr>sp_map := (sp_map s)(sp_section s @ '':'' @ k \<mapsto> Some v)\<rparr>"
    using assms(1) e ne by (simp add: ini_step_def spec_line_def at_rest_def)
qed

lemma blank_step: "at_rest s \<Longrightarrow> line_ok [] s \<and> ini_step [] s = s"
proof -
  assume "at_rest s"
  moreover have "classify (sp_section s) [] = Skip" by (simp add: classify_def iniparser_line_def strstrip_def)
  ultimately show ?thesis by (simp add: line_ok_def ini_step_def at_rest_def)
qed

lemma entries_fold:
  assumes "at_rest s" "\<And>k v. (k, v) \<in> set kvs \<Longrightarrow> good_key k \<and> good_val v \<and> length k + length v < 950 \<and>
      length (sp_section s) + length k < 1024"
  shows "lines_ok (map (\<lambda>(k, v). entry_line k v) kvs) s \<and>
    fold ini_step (map (\<lambda>(k, v). entry_line k v) kvs) s =
      s\<lparr>sp_map := put_all (map (\<lambda>(k, v). (sp_section s @ '':'' @ k, Some v)) kvs) (sp_map s)\<rparr>"
  using assms
proof (induction kvs arbitrary: s)
  case Nil
  then show ?case by (simp add: put_all_def)
next
  case (Cons kv kvs)
  obtain k v where kv: "kv = (k, v)" by (cases kv)
  note st = entry_line_step [of s k v]
  let ?s = "s\<lparr>sp_map := (sp_map s)(sp_section s @ '':'' @ k \<mapsto> Some v)\<rparr>"
  have g: "good_key k" "good_val v" "length k + length v < 950" "length (sp_section s) + length k < 1024"
    using Cons.prems(2) [of k v] kv by simp_all
  have rest: "at_rest ?s" using Cons.prems(1) by (simp add: at_rest_def)
  have "lines_ok (map (\<lambda>(k, v). entry_line k v) kvs) ?s \<and>
     fold ini_step (map (\<lambda>(k, v). entry_line k v) kvs) ?s =
      ?s\<lparr>sp_map := put_all (map (\<lambda>(k, v). (sp_section ?s @ '':'' @ k, Some v)) kvs) (sp_map ?s)\<rparr>"
  proof (rule Cons.IH [OF rest])
    show "good_key a \<and> good_val b \<and> length a + length b < 950 \<and> length (sp_section ?s) + length a < 1024"
      if "(a, b) \<in> set kvs" for a b using Cons.prems(2) [of a b] that by simp
  qed
  then show ?case using st [OF Cons.prems(1) g] by (simp add: kv put_all_def)
qed

lemma lines_ok_append: "lines_ok (xs @ ys) s \<longleftrightarrow> lines_ok xs s \<and> lines_ok ys (fold ini_step xs s)"
  by (induction xs arbitrary: s) auto

lemma put_all_append: "put_all (xs @ ys) m = put_all ys (put_all xs m)"
  by (simp add: put_all_def)

definition block_lines :: "string \<Rightarrow> (string \<times> string) list \<Rightarrow> string list" where
  "block_lines x kvs = [[], CHR ''['' # x @ '']''] @ map (\<lambda>(k, v). entry_line k v) kvs @ [[]]"

definition block_puts :: "string \<Rightarrow> (string \<times> string) list \<Rightarrow> (string \<times> string option) list" where
  "block_puts x kvs = (x, None) # map (\<lambda>(k, v). (x @ '':'' @ k, Some v)) kvs"

definition good_block :: "string \<Rightarrow> (string \<times> string) list \<Rightarrow> bool" where
  "good_block x kvs \<longleftrightarrow> good_name x \<and>
     (\<forall>(k, v)\<in>set kvs. good_key k \<and> good_val v \<and> length k + length v < 950 \<and> length x + length k < 1024)"

lemma block_fold:
  assumes "at_rest s" "good_block x kvs"
  shows "lines_ok (block_lines x kvs) s \<and>
    fold ini_step (block_lines x kvs) s = s\<lparr>sp_section := x, sp_map := put_all (block_puts x kvs) (sp_map s)\<rparr>"
proof -
  let ?s = "s\<lparr>sp_section := x, sp_map := (sp_map s)(x \<mapsto> None)\<rparr>"
  have g: "good_name x" using assms(2) by (simp add: good_block_def)
  have r: "at_rest ?s" using assms(1) by (simp add: at_rest_def)
  have e: "lines_ok (map (\<lambda>(k, v). entry_line k v) kvs) ?s \<and>
    fold ini_step (map (\<lambda>(k, v). entry_line k v) kvs) ?s =
      ?s\<lparr>sp_map := put_all (map (\<lambda>(k, v). (sp_section ?s @ '':'' @ k, Some v)) kvs) (sp_map ?s)\<rparr>"
  proof (rule entries_fold [OF r])
    show "good_key k \<and> good_val v \<and> length k + length v < 950 \<and> length (sp_section ?s) + length k < 1024"
      if "(k, v) \<in> set kvs" for k v using assms(2) that by (auto simp: good_block_def)
  qed
  let ?t = "?s\<lparr>sp_map := put_all (map (\<lambda>(k, v). (sp_section ?s @ '':'' @ k, Some v)) kvs) (sp_map ?s)\<rparr>"
  have "at_rest ?t" using r by (simp add: at_rest_def)
  from blank_step [OF this] blank_step [OF assms(1)] section_line_step [OF assms(1) g] e show ?thesis
    by (simp add: block_lines_def block_puts_def lines_ok_append put_all_def)
qed

lemma blocks_fold:
  assumes "at_rest s" "\<And>x kvs. (x, kvs) \<in> set bs \<Longrightarrow> good_block x kvs"
  shows "lines_ok (concat (map (\<lambda>(x, kvs). block_lines x kvs) bs)) s \<and>
    at_rest (fold ini_step (concat (map (\<lambda>(x, kvs). block_lines x kvs) bs)) s) \<and>
    sp_map (fold ini_step (concat (map (\<lambda>(x, kvs). block_lines x kvs) bs)) s) =
      put_all (concat (map (\<lambda>(x, kvs). block_puts x kvs) bs)) (sp_map s)"
  using assms
proof (induction bs arbitrary: s)
  case Nil
  then show ?case by (simp add: put_all_def)
next
  case (Cons b bs)
  obtain x kvs where b: "b = (x, kvs)" by (cases b)
  let ?s = "s\<lparr>sp_section := x, sp_map := put_all (block_puts x kvs) (sp_map s)\<rparr>"
  have f: "lines_ok (block_lines x kvs) s" "fold ini_step (block_lines x kvs) s = ?s"
    using block_fold [OF Cons.prems(1), of x kvs] Cons.prems(2) [of x kvs] b by auto
  have "at_rest ?s" using Cons.prems(1) by (simp add: at_rest_def)
  from Cons.IH [OF this] Cons.prems(2) f show ?case by (simp add: b lines_ok_append put_all_append)
qed

section \<open>What the writer prints\<close>

definition slots :: "string option list \<Rightarrow> nat \<Rightarrow> (nat \<times> string) list" where
  "slots ks i = concat (map (\<lambda>j. case ks ! j of None \<Rightarrow> [] | Some k \<Rightarrow> [(j, k)]) [i..<length ks])"

lemma live_slots_eq:
  assumes "d_key d = Some ks" "length ks = d_size d"
  shows "live_slots d i = Inr (slots ks i)"
proof (induction "d_size d - i" arbitrary: i)
  case 0
  then show ?case using assms by (simp add: live_slots.simps slots_def)
next
  case (Suc m)
  then have i: "i < d_size d" by simp
  moreover from i have "[i..<d_size d] = i # [Suc i..<d_size d]" by (simp add: upt_conv_Cons)
  ultimately show ?case using assms Suc.hyps(1) [of "Suc i"] Suc.hyps(2)
    by (subst live_slots.simps) (simp add: arr_get_def slots_def split: option.split)
qed

lemma set_slots: "(i, k) \<in> set (slots ks 0) \<longleftrightarrow> i < length ks \<and> ks ! i = Some k"
  by (auto simp: slots_def split: option.splits)

lemma mapR_Inr: "(\<And>x. x \<in> set xs \<Longrightarrow> f x = Inr (g x)) \<Longrightarrow> mapR f xs = Inr (map g xs)"
  by (induction xs) auto

definition good_entry :: "dictionary \<Rightarrow> string \<Rightarrow> string option \<Rightarrow> bool" where
  "good_entry d k v \<longleftrightarrow>
     (let s = takeWhile (\<lambda>c. c \<noteq> CHR '':'') k; k' = drop (length s + 1) k in
      if CHR '':'' \<notin> set k then v = None \<and> good_name k
      else dict_abs d s \<noteq> None \<and> good_key k' \<and> v \<noteq> None \<and> good_val (the v) \<and>
           length k' + length (the v) < 950 \<and> length s + length k' < 1024)"

definition dumpable :: "dictionary \<Rightarrow> bool" where
  "dumpable d \<longleftrightarrow> dict_ok d \<and> (\<forall>i\<in>{..<d_size d}.
     case the (d_key d) ! i of None \<Rightarrow> True | Some k \<Rightarrow> good_entry d k (the (d_val d) ! i))"

definition sec_names :: "string option list \<Rightarrow> string list" where
  "sec_names ks = map snd (filter (\<lambda>(i, k). CHR '':'' \<notin> set k) (slots ks 0))"

definition sec_entries :: "string option list \<Rightarrow> string option list \<Rightarrow> string \<Rightarrow> (string \<times> string) list" where
  "sec_entries ks vs s = map (\<lambda>(i, k). (drop (length s + 1) k, the (vs ! i)))
     (filter (\<lambda>(i, k). take (length s + 1) k = s @ '':'') (slots ks 0))"

lemma prefix_colon:
  assumes "take (length s + 1) k = s @ '':''" "CHR '':'' \<notin> set s"
  shows "takeWhile (\<lambda>c. c \<noteq> CHR '':'') k = s" "k = s @ '':'' @ drop (length s + 1) k" "CHR '':'' \<in> set k"
proof -
  show k: "k = s @ '':'' @ drop (length s + 1) k"
    by (metis append.assoc append_take_drop_id assms(1))
  have "takeWhile (\<lambda>c. c \<noteq> CHR '':'') (s @ '':'' @ r) = s" for r
    using assms(2) by (induction s) auto
  then show "takeWhile (\<lambda>c. c \<noteq> CHR '':'') k = s" using k by metis
  show "CHR '':'' \<in> set k" by (subst k) simp
qed

lemma colon_prefix:
  assumes "CHR '':'' \<in> set k" "s = takeWhile (\<lambda>c. c \<noteq> CHR '':'') k"
  shows "take (length s + 1) k = s @ '':''" "CHR '':'' \<notin> set s"
proof -
  have d: "dropWhile (\<lambda>c. c \<noteq> CHR '':'') k \<noteq> []" using assms(1) by (simp add: dropWhile_eq_Nil_conv)
  then have h: "hd (dropWhile (\<lambda>c. c \<noteq> CHR '':'') k) = CHR '':''" using hd_dropWhile [OF d] by simp
  have k: "k = s @ dropWhile (\<lambda>c. c \<noteq> CHR '':'') k" using assms(2) by simp
  obtain r where "dropWhile (\<lambda>c. c \<noteq> CHR '':'') k = CHR '':'' # r" using d h by (cases "dropWhile (\<lambda>c. c \<noteq> CHR '':'') k") auto
  then show "take (length s + 1) k = s @ '':''" by (subst k) simp
  show "CHR '':'' \<notin> set s" unfolding assms(2) by (auto dest: set_takeWhileD)
qed

lemma dumpable_slots:
  assumes "dumpable d" "d_key d = Some ks" "d_val d = Some vs" "(i, k) \<in> set (slots ks 0)"
  shows "good_entry d k (vs ! i)" "dict_abs d k = Some (vs ! i)"
proof -
  from assms(1) have ok: "dict_ok d" by (simp add: dumpable_def)
  then have ks: "length ks = d_size d" "uniq_keys ks" using assms(2) by (auto elim!: dict_okE)
  from assms(4) have i: "i < length ks" "ks ! i = Some k" by (simp_all add: set_slots)
  then show "good_entry d k (vs ! i)" using assms(1-3) ks(1) by (force simp: dumpable_def)
  show "dict_abs d k = Some (vs ! i)" using slot_of_eq [OF ks(2) i] assms(2,3) by (simp add: dict_abs_def)
qed

lemma sec_names_good:
  assumes "dumpable d" "d_key d = Some ks" "d_val d = Some vs" "s \<in> set (sec_names ks)"
  shows "good_name s" "CHR '':'' \<notin> set s" "dict_abs d s = Some None"
proof -
  from assms(4) obtain i where i: "(i, s) \<in> set (slots ks 0)" "CHR '':'' \<notin> set s" by (auto simp: sec_names_def)
  with dumpable_slots [OF assms(1-3) i(1)] show "good_name s" "CHR '':'' \<notin> set s" "dict_abs d s = Some None"
    by (simp_all add: good_entry_def Let_def)
qed

lemma sec_entries_good:
  assumes "dumpable d" "d_key d = Some ks" "d_val d = Some vs" "s \<in> set (sec_names ks)"
    "(i, k) \<in> set (slots ks 0)" "take (length s + 1) k = s @ '':''"
  shows "good_key (drop (length s + 1) k)" "vs ! i \<noteq> None" "good_val (the (vs ! i))"
    "length (drop (length s + 1) k) + length (the (vs ! i)) < 950" "length s + length (drop (length s + 1) k) < 1024"
proof -
  note p = prefix_colon [OF assms(6) sec_names_good(2) [OF assms(1-4)]]
  show "good_key (drop (length s + 1) k)" "vs ! i \<noteq> None" "good_val (the (vs ! i))"
    "length (drop (length s + 1) k) + length (the (vs ! i)) < 950" "length s + length (drop (length s + 1) k) < 1024"
    using dumpable_slots(1) [OF assms(1-3,5)] p(1,3) by (simp_all add: good_entry_def)
qed

lemma sec_block_good:
  assumes "dumpable d" "d_key d = Some ks" "d_val d = Some vs" "s \<in> set (sec_names ks)"
  shows "good_block s (sec_entries ks vs s)"
  unfolding good_block_def
proof (intro conjI ballI)
  show "good_name s" by (rule sec_names_good(1) [OF assms])
  fix kv assume "kv \<in> set (sec_entries ks vs s)"
  then obtain i k where "(i, k) \<in> set (slots ks 0)" "take (length s + 1) k = s @ '':''"
    "kv = (drop (length s + 1) k, the (vs ! i))" by (auto simp: sec_entries_def)
  then show "case kv of (k, v) \<Rightarrow>
      good_key k \<and> good_val v \<and> length k + length v < 950 \<and> length s + length k < 1024"
    using sec_entries_good [OF assms, of i k] by simp
qed

lemma dumpsection_eq:
  assumes "dumpable d" "d_key d = Some ks" "d_val d = Some vs" "s \<in> set (sec_names ks)"
  shows "iniparser_dumpsection_ini (Some d) s = Inr (unlines (block_lines s (sec_entries ks vs s)))"
proof -
  have ok: "dict_ok d" using assms(1) by (simp add: dumpable_def)
  then have n: "length ks = d_size d" "length vs = d_size d" using assms(2,3) by (auto elim!: dict_okE)
  have g: "good_name s" "dict_abs d s = Some None" by (rule sec_names_good [OF assms])+
  then have "strlwc s = s" by (intro strlwc_id) (simp_all add: good_name_def)
  then have f: "iniparser_find_entry (Some d) (Some s) = Inr 1"
    using dictionary_get_abs [OF ok, of s INVALID_KEY] g(2)
    by (simp add: iniparser_find_entry_def iniparser_getstring_def ptr_of_def)
  let ?P = "filter (\<lambda>(i, k). take (length s + 1) k = s @ '':'') (slots ks 0)"
  have ss: "section_slots d s = Inr ?P"
    using g(1) live_slots_eq [OF assms(2) n(1), of 0] by (simp add: section_slots_def ASCIILINESZ_def good_name_def)
  let ?g = "\<lambda>(i, k). entry_line (drop (length s + 1) k) (the (vs ! i)) @ [CHR 0x0A]"
  have m: "mapR (\<lambda>(i, k). bindR (arr_get (d_val d) i) (\<lambda>v.
      Inr (fmt_entry (drop (length s + 1) k) (case v of None \<Rightarrow> [] | Some t \<Rightarrow> t)))) ?P = Inr (map ?g ?P)"
  proof (rule mapR_Inr)
    fix x assume x: "x \<in> set ?P"
    obtain i k where ik: "x = (i, k)" by (cases x)
    with x have s: "(i, k) \<in> set (slots ks 0)" "take (length s + 1) k = s @ '':''" by auto
    then have "arr_get (d_val d) i = Inr (vs ! i)" using assms(3) n by (simp add: arr_get_def set_slots)
    moreover obtain t where "vs ! i = Some t" using sec_entries_good(2) [OF assms s] by auto
    ultimately show "(case x of (i, k) \<Rightarrow> bindR (arr_get (d_val d) i) (\<lambda>v.
        Inr (fmt_entry (drop (length s + 1) k) (case v of None \<Rightarrow> [] | Some t \<Rightarrow> t)))) = Inr (?g x)"
      by (simp add: ik fmt_entry_line)
  qed
  show ?thesis
    unfolding iniparser_dumpsection_ini_def f option.case bindR.simps ss m
    by (simp add: block_lines_def unlines_def sec_entries_def comp_def split_def)
qed

lemma dump_ini_eq:
  assumes "dumpable d" "d_key d = Some ks" "d_val d = Some vs"
  shows "iniparser_dump_ini (Some d) = Inr (unlines (if sec_names ks = [] then []
    else concat (map (\<lambda>s. block_lines s (sec_entries ks vs s)) (sec_names ks)) @ [[]]))"
proof -
  have ok: "dict_ok d" using assms(1) by (simp add: dumpable_def)
  then have n: "length ks = d_size d" using assms(2) by (auto elim!: dict_okE)
  note live = live_slots_eq [OF assms(2) n, of 0]
  have ns: "iniparser_getnsec (Some d) = Inr (int (length (sec_names ks)))"
    using live by (simp add: iniparser_getnsec_def sec_names_def)
  show ?thesis
  proof (cases "sec_names ks = []")
    case True
    have "slots ks 0 = []"
    proof (rule ccontr)
      assume "slots ks 0 \<noteq> []"
      then obtain i k where ik: "(i, k) \<in> set (slots ks 0)" by (cases "slots ks 0") auto
      have "CHR '':'' \<in> set k" using True ik by (auto simp: sec_names_def filter_empty_conv)
      moreover define s where "s = takeWhile (\<lambda>c. c \<noteq> CHR '':'') k"
      ultimately have s: "CHR '':'' \<notin> set s" "dict_abs d s \<noteq> None"
        using colon_prefix(2) [of k s] dumpable_slots(1) [OF assms ik] by (simp_all add: good_entry_def Let_def)
      then obtain j where "j < length ks" "ks ! j = Some s"
        using slot_of_SomeD assms(2) by (auto simp: dict_abs_def)
      then have "(j, s) \<in> set (slots ks 0)" by (simp add: set_slots)
      then show False using s(1) True by (auto simp: sec_names_def filter_empty_conv)
    qed
    then show ?thesis using True ns live by (simp add: iniparser_dump_ini_def unlines_def)
  next
    case False
    let ?b = "\<lambda>s. unlines (block_lines s (sec_entries ks vs s))"
    have name: "iniparser_getsecname (Some d) (int i) = Inr (Some (sec_names ks ! i))" if "i < length (sec_names ks)" for i
      using live that by (simp add: iniparser_getsecname_def sec_names_def)
    have "mapR (\<lambda>i. bindR (iniparser_getsecname (Some d) (int i)) (\<lambda>s.
        case s of None \<Rightarrow> Inr [] | Some n \<Rightarrow> iniparser_dumpsection_ini (Some d) n)) [0..<length (sec_names ks)] =
        Inr (map (\<lambda>i. ?b (sec_names ks ! i)) [0..<length (sec_names ks)])"
      by (rule mapR_Inr) (simp add: name dumpsection_eq [OF assms])
    also have "map (\<lambda>i. ?b (sec_names ks ! i)) [0..<length (sec_names ks)] = map ?b (sec_names ks)"
      by (rule nth_equalityI) simp_all
    finally have m: "mapR (\<lambda>i. bindR (iniparser_getsecname (Some d) (int i)) (\<lambda>s.
        case s of None \<Rightarrow> Inr [] | Some n \<Rightarrow> iniparser_dumpsection_ini (Some d) n)) [0..<length (sec_names ks)] =
        Inr (map ?b (sec_names ks))" .
    have "concat (map ?b xs) @ [CHR 0x0A] =
        unlines (concat (map (\<lambda>s. block_lines s (sec_entries ks vs s)) xs) @ [[]])" for xs
      by (induction xs) (simp_all add: unlines_def)
    then show ?thesis using False ns m by (simp add: iniparser_dump_ini_def)
  qed
qed

lemma dump_puts:
  assumes "dumpable d" "d_key d = Some ks" "d_val d = Some vs"
  shows "put_all (concat (map (\<lambda>s. block_puts s (sec_entries ks vs s)) (sec_names ks))) Map.empty = dict_abs d"
proof (rule put_all_eq)
  fix k v assume "(k, v) \<in> set (concat (map (\<lambda>s. block_puts s (sec_entries ks vs s)) (sec_names ks)))"
  then obtain s where s: "s \<in> set (sec_names ks)" "(k, v) \<in> set (block_puts s (sec_entries ks vs s))" by auto
  show "dict_abs d k = Some v"
  proof (cases "(k, v) = (s, None)")
    case True
    then show ?thesis using sec_names_good(3) [OF assms s(1)] by simp
  next
    case False
    then obtain i x where x: "(i, x) \<in> set (slots ks 0)" "take (length s + 1) x = s @ '':''"
      "k = s @ '':'' @ drop (length s + 1) x" "v = Some (the (vs ! i))"
      using s(2) by (auto simp: block_puts_def sec_entries_def)
    have "k = x" using x(3) prefix_colon(2) [OF x(2) sec_names_good(2) [OF assms s(1)]] by simp
    then show ?thesis using dumpable_slots(2) [OF assms x(1)] sec_entries_good(2) [OF assms s(1) x(1,2)] x(4) by simp
  qed
next
  fix k assume "dict_abs d k \<noteq> None"
  then obtain i where "i < length ks" "ks ! i = Some k" using slot_of_SomeD assms(2) by (auto simp: dict_abs_def)
  then have ik: "(i, k) \<in> set (slots ks 0)" by (simp add: set_slots)
  define s where "s = (if CHR '':'' \<in> set k then takeWhile (\<lambda>c. c \<noteq> CHR '':'') k else k)"
  have "CHR '':'' \<notin> set s" "dict_abs d s \<noteq> None"
    using dumpable_slots [OF assms ik] colon_prefix(2) [of k s] by (auto simp: s_def good_entry_def Let_def)
  then obtain j where "j < length ks" "ks ! j = Some s" "CHR '':'' \<notin> set s"
    using slot_of_SomeD assms(2) by (auto simp: dict_abs_def)
  then have s: "s \<in> set (sec_names ks)" by (force simp: sec_names_def set_slots image_iff)
  have "k \<in> fst ` set (block_puts s (sec_entries ks vs s))"
  proof (cases "CHR '':'' \<in> set k")
    case True
    then have t: "take (length s + 1) k = s @ '':''" using colon_prefix(1) [of k s] by (simp add: s_def)
    have "(drop (length s + 1) k, the (vs ! i)) \<in> set (sec_entries ks vs s)"
      using ik t by (force simp: sec_entries_def)
    then have "s @ '':'' @ drop (length s + 1) k \<in> fst ` set (block_puts s (sec_entries ks vs s))"
      by (force simp: block_puts_def)
    then show ?thesis using prefix_colon(2) [OF t \<open>CHR '':'' \<notin> set s\<close>] by simp
  next
    case False
    then show ?thesis by (simp add: s_def block_puts_def)
  qed
  then show "k \<in> fst ` set (concat (map (\<lambda>s. block_puts s (sec_entries ks vs s)) (sec_names ks))) \<or>
      Map.empty k = dict_abs d k" using s by auto
qed simp

section \<open>Round trip\<close>

text \<open>
  C11: Writing a configuration and loading it again gives the same configuration, if its names and
  values survive without quotes, which \<open>iniparser_dump_ini\<close> never writes.  The condition \<open>dumpable\<close> asks for a
  well-formed dictionary in which every key \<open>section:key\<close> has its section and a value, and every name is in
  lower case; none of the texts holds a newline or a zero byte or begins or ends with white space
  (\<open>plain\<close>); section names are not empty, hold no closing bracket and have less than 1000 characters; keys are
  not empty, hold no equals sign and do not begin with a hash sign, a semicolon or an opening bracket; values, which may
  be empty, hold no semicolon and no hash sign, do not begin with a quotation mark and do not end
  with a backslash; and the lines fit the buffer of the loader.  Then \<open>iniparser_dump_ini\<close> produces a text, and
  \<open>iniparser_load\<close> of that text (up to 128 MB) returns a well-formed dictionary with the same mapping: every
  section, every key with its value, and nothing else.  Without the condition the program loses data: a value that
  holds a semicolon can be loaded, being quoted, but comes back cut off (\<open>dump_cuts_quoted_value\<close>).
\<close>

theorem dump_load_roundtrip:
  assumes "dumpable d"
  shows "\<exists>txt. iniparser_dump_ini (Some d) = Inr txt \<and>
    (length txt \<le> 2 ^ 27 \<longrightarrow>
      (\<exists>d'. iniparser_load True alloc_ok (\<lambda>_. alloc_ok) (Some txt) = Inr (Some d') \<and> dict_ok d' \<and>
         dict_abs d' = dict_abs d))"
proof -
  from assms have "dict_ok d" by (simp add: dumpable_def)
  then obtain ks vs where k: "d_key d = Some ks" "d_val d = Some vs" by (rule dict_okE)
  define bs where "bs = map (\<lambda>s. (s, sec_entries ks vs s)) (sec_names ks)"
  define L where "L = concat (map (\<lambda>s. block_lines s (sec_entries ks vs s)) (sec_names ks))"
  define ls where "ls = (if sec_names ks = [] then [] else L @ [[]])"
  have r: "at_rest spec0" by (simp add: at_rest_def spec0_def)
  have g: "good_block x kvs" if "(x, kvs) \<in> set bs" for x kvs
    using that sec_block_good [OF assms k] by (auto simp: bs_def)
  have bl: "concat (map (\<lambda>(x, kvs). block_lines x kvs) bs) = L"
    and m: "put_all (concat (map (\<lambda>(x, kvs). block_puts x kvs) bs)) (sp_map spec0) = dict_abs d"
    using dump_puts [OF assms k] by (simp_all add: bs_def L_def comp_def spec0_def)
  have f: "lines_ok L spec0" "at_rest (fold ini_step L spec0)" "sp_map (fold ini_step L spec0) = dict_abs d"
    using blocks_fold [OF r, of bs] g unfolding bl m by blast+
  have "lines_ok ls spec0 \<and> fold ini_step ls spec0 = fold ini_step L spec0"
    using f(1) blank_step [OF f(2)] by (simp add: ls_def lines_ok_append) (simp add: L_def)
  with f have l: "lines_ok ls spec0" "sp_errs (fold ini_step ls spec0) = 0"
    "sp_map (fold ini_step ls spec0) = dict_abs d" by (simp_all add: at_rest_def)
  have t: "iniparser_dump_ini (Some d) = Inr (unlines ls)"
    using dump_ini_eq [OF assms k] by (simp add: ls_def L_def)
  have "\<exists>d'. iniparser_load True alloc_ok (\<lambda>_. alloc_ok) (Some (unlines ls)) = Inr (Some d') \<and> dict_ok d' \<and>
      dict_abs d' = dict_abs d" if "length (unlines ls) \<le> 2 ^ 27"
    using load_lines [OF l(1)] l(2,3) length_unlines [of ls] that by auto
  with t show ?thesis by blast
qed

definition demo_conf :: dictionary where
  "demo_conf = \<lparr>d_n = 3, d_size = 4,
     d_val = Some [Some ''8080'', None, None, Some []],
     d_key = Some [Some ''server:port'', None, Some ''server'', Some ''server:name''],
     d_hash = Some [dictionary_hash ''server:port'', 0, dictionary_hash ''server'', dictionary_hash ''server:name'']\<rparr>"

theorem dump_load_roundtrip_witness:
  "\<exists>txt d'. iniparser_dump_ini (Some demo_conf) = Inr txt \<and>
     iniparser_load True alloc_ok (\<lambda>_. alloc_ok) (Some txt) = Inr (Some d') \<and> dict_abs d' = dict_abs demo_conf"
proof -
  have ok: "dict_ok demo_conf"
    by (simp add: demo_conf_def dict_ok_def hashed_def uniq_keys_def lessThan_nat_numeral lessThan_Suc)
  have abs: "dict_abs demo_conf ''server'' = Some None" by code_simp
  have "good_entry demo_conf ''server:port'' (Some ''8080'')" "good_entry demo_conf ''server:name'' (Some [])"
    by (simp_all add: good_entry_def abs good_key_def good_val_def plain_def isspace_def tolower_def)
  moreover have "good_entry demo_conf ''server'' None"
    by (simp add: good_entry_def good_name_def plain_def isspace_def tolower_def)
  moreover have "d_size demo_conf = 4" "d_val demo_conf = Some [Some ''8080'', None, None, Some []]"
    "d_key demo_conf = Some [Some ''server:port'', None, Some ''server'', Some ''server:name'']"
    by (simp_all add: demo_conf_def)
  ultimately have d: "dumpable demo_conf"
    using ok by (simp add: dumpable_def lessThan_nat_numeral lessThan_Suc)
  have "(case iniparser_dump_ini (Some demo_conf) of Inr t \<Rightarrow> length t \<le> 100 | _ \<Rightarrow> False)" by code_simp
  then obtain t where "iniparser_dump_ini (Some demo_conf) = Inr t" "length t \<le> 100" by (auto split: sum.splits)
  with dump_load_roundtrip [OF d] show ?thesis by auto
qed

text \<open>
  A file with \<open>k = "a;b"\<close> loads, but the dictionary with that value is written without the quotes, and
  what is written loads with the value \<open>a\<close>.
\<close>

definition quoted_lines :: "unit \<Rightarrow> string list" where
  "quoted_lines u = [''[s]'', ''k = '' @ [CHR 0x22] @ ''a;b'' @ [CHR 0x22]]"

definition demo_quoted :: dictionary where
  "demo_quoted = \<lparr>d_n = 2, d_size = 2, d_val = Some [None, Some ''a;b''], d_key = Some [Some ''s'', Some ''s:k''],
     d_hash = Some [dictionary_hash ''s'', dictionary_hash ''s:k'']\<rparr>"

definition dumped_lines :: "unit \<Rightarrow> string list" where
  "dumped_lines u = [[], ''[s]'', entry_line ''k'' ''a;b'', [], []]"

lemma quoted_lines_read:
  "lines_ok (quoted_lines u) spec0" "sp_errs (fold ini_step (quoted_lines u) spec0) = 0"
  "sp_map (fold ini_step (quoted_lines u) spec0) ''s:k'' = Some (Some ''a;b'')"
  "lines_ok (dumped_lines u) spec0" "sp_errs (fold ini_step (dumped_lines u) spec0) = 0"
  "sp_map (fold ini_step (dumped_lines u) spec0) ''s:k'' = Some (Some ''a'')"
  "iniparser_dump_ini (Some demo_quoted) = Inr (unlines (dumped_lines u))"
  "dict_abs demo_quoted ''s:k'' = Some (Some ''a;b'')"
  by code_simp+

theorem dump_cuts_quoted_value:
  "\<exists>d txt d'. iniparser_load True alloc_ok (\<lambda>_. alloc_ok) (Some (unlines (quoted_lines ()))) = Inr (Some d) \<and>
     dict_abs d ''s:k'' = Some (Some ''a;b'') \<and>
     dict_ok demo_quoted \<and> dict_abs demo_quoted ''s:k'' = Some (Some ''a;b'') \<and>
     iniparser_dump_ini (Some demo_quoted) = Inr txt \<and>
     iniparser_load True alloc_ok (\<lambda>_. alloc_ok) (Some txt) = Inr (Some d') \<and>
     dict_abs d' ''s:k'' = Some (Some ''a'')"
proof -
  have n: "length (quoted_lines ()) \<le> 2 ^ 27" "length (dumped_lines ()) \<le> 2 ^ 27"
    by (simp_all add: quoted_lines_def dumped_lines_def)
  obtain d where "iniparser_load True alloc_ok (\<lambda>_. alloc_ok) (Some (unlines (quoted_lines ()))) = Inr (Some d)"
    "dict_abs d ''s:k'' = Some (Some ''a;b'')"
    using load_lines [OF quoted_lines_read(1) n(1)] by (auto simp: quoted_lines_read(2,3))
  moreover obtain d' where "iniparser_load True alloc_ok (\<lambda>_. alloc_ok) (Some (unlines (dumped_lines ()))) = Inr (Some d')"
    "dict_abs d' ''s:k'' = Some (Some ''a'')"
    using load_lines [OF quoted_lines_read(4) n(2)] by (auto simp: quoted_lines_read(5,6))
  moreover have "dict_ok demo_quoted"
    by (simp add: demo_quoted_def dict_ok_def hashed_def uniq_keys_def lessThan_nat_numeral lessThan_Suc)
  ultimately show ?thesis using quoted_lines_read(7,8) by blast
qed

end
