(* ===== verification/Mp_Log.thy ===== *)
theory Mp_Log
  imports Mp_Prelude
begin

text \<open>
  Logging (\<open>src/src/log.h\<close>, \<open>src/src/log.c\<close>).  \<open>write_log\<close> formats into two local arrays; the model
  keeps their sizes, so that a line too long for them is a fault.  The text is what \<open>vsnprintf\<close> makes
  of the format and its arguments.  \<open>daemon_log\<close> puts a file in the place of standard output; the
  state is the descriptor table of the process, the open files with their offsets and the file
  system.
\<close>

section \<open>Levels and time\<close>

abbreviation "MAX_LOG_BUF \<equiv> (1024 :: nat)"

datatype LOG_LEVEL = BOOT | TRACE | DEBUG | ERROR

primrec log_header :: "LOG_LEVEL \<Rightarrow> string" where
  "log_header BOOT = ''BOOT> ''"
| "log_header TRACE = ''TRACE> ''"
| "log_header DEBUG = ''DEBUG> ''"
| "log_header ERROR = ''ERROR> ''"

text \<open>The levels are ordered as the numbers of the \<open>enum\<close>.\<close>

primrec level_num :: "LOG_LEVEL \<Rightarrow> nat" where
  "level_num BOOT = 0"
| "level_num TRACE = 1"
| "level_num DEBUG = 2"
| "level_num ERROR = 3"

lemma level_num_inject [simp]: "level_num a = level_num b \<longleftrightarrow> a = b"
  by (cases a; cases b) simp_all

instantiation LOG_LEVEL :: linorder
begin

definition less_eq_LOG_LEVEL :: "LOG_LEVEL \<Rightarrow> LOG_LEVEL \<Rightarrow> bool" where
  "a \<le> b \<longleftrightarrow> level_num a \<le> level_num b"

definition less_LOG_LEVEL :: "LOG_LEVEL \<Rightarrow> LOG_LEVEL \<Rightarrow> bool" where
  "a < b \<longleftrightarrow> level_num a < level_num b"

instance
  by standard (auto simp: less_eq_LOG_LEVEL_def less_LOG_LEVEL_def)

end

text \<open>The answer of \<open>localtime\<close>.\<close>

record tm =
  tm_sec :: int
  tm_min :: int
  tm_hour :: int
  tm_mday :: int
  tm_mon :: int
  tm_year :: int

fun dec_nat :: "nat \<Rightarrow> string" where
  "dec_nat n = (if n < 10 then [char_of (48 + n)] else dec_nat (n div 10) @ [char_of (48 + n mod 10)])"

declare dec_nat.simps [simp del]

text \<open>The conversion \<open>%d\<close>.\<close>

definition dec_int :: "int \<Rightarrow> string" where
  "dec_int i = (if i < 0 then ''-'' @ dec_nat (nat (- i)) else dec_nat (nat i))"

text \<open>\<open>snprintf\<close> into a buffer of \<open>n\<close> bytes keeps \<open>n - 1\<close> characters.\<close>

definition get_date_char :: "tm \<Rightarrow> string" where
  "get_date_char lt = take 127 (dec_int (tm_year lt + 1900) @ ''-'' @ dec_int (tm_mon lt) @ ''-'' @ dec_int (tm_mday lt))"

definition get_daytime_char :: "tm \<Rightarrow> string" where
  "get_daytime_char lt = take 127 (dec_int (tm_hour lt) @ '':'' @ dec_int (tm_min lt) @ '':'' @ dec_int (tm_sec lt))"

section \<open>Files\<close>

text \<open>
  \<open>lp_fds\<close>: what each descriptor refers to, an index into the open files \<open>lp_open\<close> (path and
  offset); \<open>lp_files\<close>: the contents.
\<close>

record log_proc =
  lp_fds :: "nat option list"
  lp_open :: "(string \<times> nat) list"
  lp_files :: "string \<rightharpoonup> string"

text \<open>The kernel gives the lowest free descriptor.\<close>

definition free_fd :: "nat option list \<Rightarrow> nat" where
  "free_fd fs = length (takeWhile (\<lambda>x. x \<noteq> None) fs)"

definition install :: "nat \<Rightarrow> nat option list \<Rightarrow> nat option list" where
  "install x fs = (if free_fd fs < length fs then fs[free_fd fs := Some x] else fs @ [Some x])"

definition sys_open :: "bool \<Rightarrow> string \<Rightarrow> log_proc \<Rightarrow> int \<times> log_proc" where
  "sys_open ok path s =
     (if \<not> ok then (-1, s)
      else (int (free_fd (lp_fds s)),
            s\<lparr>lp_fds := install (length (lp_open s)) (lp_fds s), lp_open := lp_open s @ [(path, 0)],
              lp_files := (case lp_files s path of None \<Rightarrow> (lp_files s)(path \<mapsto> []) | Some _ \<Rightarrow> lp_files s)\<rparr>))"

definition fd_file :: "log_proc \<Rightarrow> int \<Rightarrow> nat option" where
  "fd_file s fd = (if 0 \<le> fd \<and> nat fd < length (lp_fds s) then lp_fds s ! nat fd else None)"

definition sys_seek_end :: "int \<Rightarrow> log_proc \<Rightarrow> log_proc" where
  "sys_seek_end fd s =
     (case fd_file s fd of None \<Rightarrow> s
      | Some x \<Rightarrow> s\<lparr>lp_open := (lp_open s)[x := (fst (lp_open s ! x), length (the (lp_files s (fst (lp_open s ! x)))))]\<rparr>)"

definition sys_close :: "nat \<Rightarrow> log_proc \<Rightarrow> log_proc" where
  "sys_close fd s = s\<lparr>lp_fds := (lp_fds s)[fd := None]\<rparr>"

definition sys_dup :: "int \<Rightarrow> log_proc \<Rightarrow> log_proc" where
  "sys_dup fd s = (case fd_file s fd of None \<Rightarrow> s | Some x \<Rightarrow> s\<lparr>lp_fds := install x (lp_fds s)\<rparr>)"

definition sys_write :: "int \<Rightarrow> string \<Rightarrow> log_proc \<Rightarrow> log_proc" where
  "sys_write fd bs s =
     (case fd_file s fd of None \<Rightarrow> s
      | Some x \<Rightarrow>
        let path = fst (lp_open s ! x); off = snd (lp_open s ! x); c = the (lp_files s path) in
        s\<lparr>lp_open := (lp_open s)[x := (path, off + length bs)],
          lp_files := (lp_files s)(path \<mapsto> take off c @ bs @ drop (off + length bs) c)\<rparr>)"

section \<open>The functions of the program\<close>

text \<open>A C string ends at the first zero character.\<close>

definition zstr :: "string \<Rightarrow> string" where
  "zstr s = takeWhile (\<lambda>c. c \<noteq> CHR 0x00) s"

text \<open>
  \<open>vsnprintf (body, MAX_LOG_BUF, ...)\<close> writes at most 1024 bytes into \<open>body\<close>, which has 1014, and
  \<open>sprintf\<close> the line and its zero byte into \<open>buf\<close>, which has 1024.
\<close>

definition write_log :: "LOG_LEVEL \<Rightarrow> string \<Rightarrow> tm \<Rightarrow> log_proc \<Rightarrow> log_proc res" where
  "write_log log_level txt lt s =
     (if min (length txt) (MAX_LOG_BUF - 1) + 1 > MAX_LOG_BUF - 10 then Inl Segv
      else
        let body = zstr (take (MAX_LOG_BUF - 1) txt);
            buf = log_header log_level @ ''['' @ get_daytime_char lt @ ''] '' @ body @ [CHR 0x0A] in
        if length buf + 1 > MAX_LOG_BUF then Inl Segv
        else Inr (sys_write 1 (zstr buf) s))"

definition DEBUG_LOG :: "string \<Rightarrow> tm \<Rightarrow> log_proc \<Rightarrow> log_proc res" where
  "DEBUG_LOG = write_log DEBUG"

definition BOOT_LOG :: "string \<Rightarrow> tm \<Rightarrow> log_proc \<Rightarrow> log_proc res" where
  "BOOT_LOG = write_log BOOT"

definition ERROR_LOG :: "string \<Rightarrow> tm \<Rightarrow> log_proc \<Rightarrow> log_proc res" where
  "ERROR_LOG = write_log ERROR"

definition TRACE_LOG :: "string \<Rightarrow> tm \<Rightarrow> log_proc \<Rightarrow> log_proc res" where
  "TRACE_LOG = write_log TRACE"

text \<open>
  \<open>mk\<close> is the answer of \<open>mkdir\<close>: \<open>None\<close> or whether \<open>errno\<close> is \<open>EEXIST\<close>; \<open>ok\<close> says that \<open>open\<close>
  succeeds.  The result of \<open>open\<close> is not checked.
\<close>

definition daemon_log :: "string option \<Rightarrow> bool option \<Rightarrow> bool \<Rightarrow> tm \<Rightarrow> log_proc \<Rightarrow> (int \<times> log_proc) res" where
  "daemon_log log_dir mk ok lt s =
     (let dir = (case log_dir of None \<Rightarrow> ''log'' | Some d \<Rightarrow> d) in
      if mk = Some False then Inr (-1, s)
      else
        let path = ''./'' @ dir @ ''/'' @ get_date_char lt in
        if length path + 1 > 128 then Inl Segv
        else
          let (fd, s1) = sys_open ok path s in
          Inr (0, sys_dup fd (sys_close 1 (sys_seek_end fd s1))))"

section \<open>The length of a line\<close>

definition time_ok :: "tm \<Rightarrow> bool" where
  "time_ok lt \<longleftrightarrow> 0 \<le> tm_hour lt \<and> tm_hour lt < 24 \<and> 0 \<le> tm_min lt \<and> tm_min lt < 60 \<and> 0 \<le> tm_sec lt \<and> tm_sec lt \<le> 60"

definition no_nul :: "string \<Rightarrow> bool" where
  "no_nul s \<longleftrightarrow> CHR 0x00 \<notin> set s"

lemma zstr_no_nul: "no_nul s \<Longrightarrow> zstr s = s"
  unfolding zstr_def no_nul_def by (auto simp: takeWhile_eq_all_conv)

lemma dec_nat_small: "n < 100 \<Longrightarrow> length (dec_nat n) \<in> {1, 2}"
  by (auto simp: dec_nat.simps [of n] dec_nat.simps [of "n div 10"])

lemma digit_no_nul:
  assumes "d < 10"
  shows "char_of (48 + d :: nat) \<noteq> CHR 0x00"
proof
  assume "char_of (48 + d) = CHR 0x00"
  then have "of_char (char_of (48 + d)) = (of_char (CHR 0x00) :: nat)" by simp
  with assms show False by simp
qed

lemma dec_nat_no_nul: "no_nul (dec_nat n)"
proof (induction n rule: dec_nat.induct)
  case (1 n)
  then show ?case using digit_no_nul [of n] digit_no_nul [of "n mod 10"]
    by (auto simp: dec_nat.simps [of n] no_nul_def)
qed

lemma dec_int_small: "0 \<le> i \<Longrightarrow> i < 100 \<Longrightarrow> length (dec_int i) \<in> {1, 2}"
  using dec_nat_small [of "nat i"] by (simp add: dec_int_def nat_less_iff)

lemma dec_int_no_nul: "no_nul (dec_int i)"
  using dec_nat_no_nul by (auto simp: dec_int_def no_nul_def)

lemma daytime_length: "time_ok lt \<Longrightarrow> 5 \<le> length (get_daytime_char lt) \<and> length (get_daytime_char lt) \<le> 8"
  using dec_int_small [of "tm_hour lt"] dec_int_small [of "tm_min lt"] dec_int_small [of "tm_sec lt"]
  by (auto simp: time_ok_def get_daytime_char_def)

lemma daytime_no_nul: "no_nul (get_daytime_char lt)"
  using dec_int_no_nul by (auto simp: get_daytime_char_def no_nul_def dest!: in_set_takeD)

lemma header_length: "6 \<le> length (log_header l) \<and> length (log_header l) \<le> 7" and header_no_nul: "no_nul (log_header l)"
  by (cases l; simp add: no_nul_def)+

definition log_line :: "LOG_LEVEL \<Rightarrow> string \<Rightarrow> tm \<Rightarrow> string" where
  "log_line l txt lt = log_header l @ ''['' @ get_daytime_char lt @ ''] '' @ txt @ [CHR 0x0A]"

lemma log_line_no_nul: "no_nul txt \<Longrightarrow> no_nul (log_line l txt lt)"
  using daytime_no_nul [of lt] header_no_nul [of l] by (auto simp: log_line_def no_nul_def)

lemma write_log_eq:
  assumes "no_nul txt"
  shows "write_log l txt lt s =
    (if length txt \<le> 1013 \<and> length (log_header l) + length (get_daytime_char lt) + length txt \<le> 1019
     then Inr (sys_write 1 (log_line l txt lt) s) else Inl Segv)"
proof (cases "length txt \<le> 1013")
  case True
  then have "zstr (take 1023 txt) = txt" using zstr_no_nul [OF assms] by simp
  then show ?thesis
    using True zstr_no_nul [OF log_line_no_nul [OF assms], of l lt]
    by (auto simp: write_log_def Let_def log_line_def)
qed (simp add: write_log_def)

section \<open>The log file\<close>

text \<open>Descriptors refer to open files, and these exist.\<close>

definition log_proc_ok :: "log_proc \<Rightarrow> bool" where
  "log_proc_ok s \<longleftrightarrow> (\<forall>x. Some x \<in> set (lp_fds s) \<longrightarrow> x < length (lp_open s)) \<and>
     (\<forall>p\<in>set (lp_open s). lp_files s (fst p) \<noteq> None)"

text \<open>Standard output writes at the end of the file \<open>path\<close>, which holds \<open>c\<close>.\<close>

definition logs_to :: "string \<Rightarrow> string \<Rightarrow> log_proc \<Rightarrow> bool" where
  "logs_to path c s \<longleftrightarrow> (\<exists>x. fd_file s 1 = Some x \<and> x < length (lp_open s) \<and> lp_open s ! x = (path, length c)) \<and>
     lp_files s path = Some c"

lemma fd_file_write [simp]: "fd_file (sys_write fd' bs s) fd = fd_file s fd"
proof -
  have "lp_fds (sys_write fd' bs s) = lp_fds s" by (simp add: sys_write_def Let_def split: option.split)
  then show ?thesis by (simp add: fd_file_def)
qed

lemma sys_write_logs: "logs_to path c s \<Longrightarrow> logs_to path (c @ bs) (sys_write 1 bs s)"
  by (auto simp: logs_to_def) (auto simp: sys_write_def Let_def)

lemma sys_write_other: "logs_to path c s \<Longrightarrow> p \<noteq> path \<Longrightarrow> lp_files (sys_write 1 bs s) p = lp_files s p"
  by (auto simp: logs_to_def sys_write_def Let_def)

lemma free_fd_after_close:
  assumes "1 < length fs" "fs ! 0 \<noteq> None"
  shows "free_fd (fs[1 := None]) = 1"
proof -
  obtain a b r where "fs = a # b # r" using assms(1) by (cases fs; cases "tl fs") auto
  then show ?thesis using assms(2) by (simp add: free_fd_def)
qed

lemma free_fd_past: "1 < length fs \<Longrightarrow> fs ! 0 \<noteq> None \<Longrightarrow> fs ! 1 \<noteq> None \<Longrightarrow> 2 \<le> free_fd fs"
  by (cases fs; cases "tl fs") (auto simp: free_fd_def)

lemma install_nth:
  "length (install x fs) = (if free_fd fs < length fs then length fs else Suc (length fs))"
  "i \<noteq> free_fd fs \<Longrightarrow> i < length fs \<Longrightarrow> install x fs ! i = fs ! i" "install x fs ! free_fd fs = Some x"
proof -
  have le: "free_fd fs \<le> length fs" by (simp add: free_fd_def length_takeWhile_le)
  then show "install x fs ! free_fd fs = Some x" by (auto simp: install_def nth_append)
qed (auto simp: install_def nth_append)

lemma daemon_log_redirects:
  assumes "1 < length (lp_fds s)" "lp_fds s ! 0 \<noteq> None" "lp_fds s ! 1 \<noteq> None" "mk \<noteq> Some False"
    and path: "path = ''./'' @ (case dir of None \<Rightarrow> ''log'' | Some d \<Rightarrow> d) @ ''/'' @ get_date_char lt" "length path \<le> 127"
    and c: "c = (case lp_files s path of None \<Rightarrow> [] | Some c \<Rightarrow> c)"
  shows "\<exists>s'. daemon_log dir mk True lt s = Inr (0, s') \<and> logs_to path c s' \<and> (\<forall>p. p \<noteq> path \<longrightarrow> lp_files s' p = lp_files s p)"
proof -
  define f where "f = free_fd (lp_fds s)"
  define s1 where "s1 = snd (sys_open True path s)"
  let ?x = "length (lp_open s)"
  have f: "2 \<le> f" "f \<le> length (lp_fds s)" using free_fd_past assms(1-3) by (simp_all add: f_def free_fd_def length_takeWhile_le)
  have s1: "lp_fds s1 = install ?x (lp_fds s)" "lp_open s1 = lp_open s @ [(path, 0)]" "lp_files s1 path = Some c"
    "\<And>p. p \<noteq> path \<Longrightarrow> lp_files s1 p = lp_files s p"
    using c by (auto simp: s1_def sys_open_def split: option.splits)
  have i: "install ?x (lp_fds s) ! f = Some ?x" "f < length (install ?x (lp_fds s))"
    "install ?x (lp_fds s) ! 0 \<noteq> None" "1 < length (install ?x (lp_fds s))"
    using install_nth(1,3) [of ?x "lp_fds s"] install_nth(2) [of 0 "lp_fds s" ?x] f assms(1,2)
    unfolding f_def [symmetric] by (auto simp: length_greater_0_conv [symmetric] simp del: length_greater_0_conv)
  have fd: "fd_file s1 (int f) = Some ?x" using i by (simp add: fd_file_def s1)
  define s2 where "s2 = sys_close 1 (sys_seek_end (int f) s1)"
  have s2: "lp_fds s2 = (install ?x (lp_fds s))[1 := None]" "lp_open s2 = lp_open s @ [(path, length c)]" "lp_files s2 = lp_files s1"
    by (simp_all add: s2_def sys_close_def sys_seek_end_def fd s1)
  have "fd_file s2 (int f) = Some ?x" using i f by (simp add: fd_file_def s2)
  moreover have "free_fd (lp_fds s2) = 1" unfolding s2 using free_fd_after_close i(3,4) by blast
  ultimately have d: "sys_dup (int f) s2 = s2\<lparr>lp_fds := (lp_fds s2)[1 := Some ?x]\<rparr>"
    using i(4) by (simp add: sys_dup_def install_def s2)
  have "logs_to path c (sys_dup (int f) s2)"
    using i(4) by (simp add: d logs_to_def fd_file_def s1(3) s2)
  moreover have "daemon_log dir mk True lt s = Inr (0, sys_dup (int f) s2)"
    using assms(4) path by (simp add: daemon_log_def Let_def s2_def s1_def f_def sys_open_def)
  ultimately show ?thesis by (auto simp: d s2(3) s1(4))
qed

lemma write_logs_append:
  assumes "logs_to path c s" "\<forall>(l, t, lt)\<in>set es. no_nul t \<and> time_ok lt \<and> length t \<le> 1004"
  shows "\<exists>s'. foldR (\<lambda>(l, t, lt). write_log l t lt) es s = Inr s' \<and>
    logs_to path (c @ concat (map (\<lambda>(l, t, lt). log_line l t lt) es)) s' \<and> (\<forall>p. p \<noteq> path \<longrightarrow> lp_files s' p = lp_files s p)"
  using assms
proof (induction es arbitrary: s c)
  case (Cons e es)
  obtain l t lt where e: "e = (l, t, lt)" by (cases e)
  have "length t \<le> 1013 \<and> length (log_header l) + length (get_daytime_char lt) + length t \<le> 1019"
    using Cons.prems(2) header_length [of l] daytime_length [of lt] by (auto simp: e)
  then have w: "write_log l t lt s = Inr (sys_write 1 (log_line l t lt) s)"
    using write_log_eq Cons.prems(2) by (simp add: e)
  have es: "\<forall>(l, t, lt)\<in>set es. no_nul t \<and> time_ok lt \<and> length t \<le> 1004" using Cons.prems(2) by simp
  obtain s' where "foldR (\<lambda>(l, t, lt). write_log l t lt) es (sys_write 1 (log_line l t lt) s) = Inr s'"
    "logs_to path ((c @ log_line l t lt) @ concat (map (\<lambda>(l, t, lt). log_line l t lt) es)) s'"
    "\<forall>p. p \<noteq> path \<longrightarrow> lp_files s' p = lp_files (sys_write 1 (log_line l t lt) s) p"
    using Cons.IH [OF sys_write_logs [OF Cons.prems(1)] es] by blast
  then show ?case using w sys_write_other [OF Cons.prems(1)] by (auto simp: e)
qed simp

section \<open>Properties\<close>

text \<open>
  C23: What is logged ends up in the log file.  With standard input and output open, \<open>daemon_log\<close>
  puts the file of the day in the place of standard output, behind what the file held before; every
  later \<open>write_log\<close> of at most 1004 characters appends exactly its line, and no other file changes.
\<close>

theorem log_file_appended:
  assumes "1 < length (lp_fds s)" "lp_fds s ! 0 \<noteq> None" "lp_fds s ! 1 \<noteq> None" "mk \<noteq> Some False"
    "path = ''./'' @ (case dir of None \<Rightarrow> ''log'' | Some d \<Rightarrow> d) @ ''/'' @ get_date_char lt" "length path \<le> 127"
    "\<forall>(l, t, lt)\<in>set es. no_nul t \<and> time_ok lt \<and> length t \<le> 1004"
  shows "\<exists>s1 s2. daemon_log dir mk True lt s = Inr (0, s1) \<and> foldR (\<lambda>(l, t, lt). write_log l t lt) es s1 = Inr s2 \<and>
    lp_files s2 path = Some ((case lp_files s path of None \<Rightarrow> [] | Some c \<Rightarrow> c) @
      concat (map (\<lambda>(l, t, lt). log_header l @ ''['' @ get_daytime_char lt @ ''] '' @ t @ [CHR 0x0A]) es)) \<and>
    (\<forall>p. p \<noteq> path \<longrightarrow> lp_files s2 p = lp_files s p)"
proof -
  obtain s1 where s1: "daemon_log dir mk True lt s = Inr (0, s1)"
      "logs_to path (case lp_files s path of None \<Rightarrow> [] | Some c \<Rightarrow> c) s1" "\<forall>p. p \<noteq> path \<longrightarrow> lp_files s1 p = lp_files s p"
    using daemon_log_redirects [OF assms(1-6) refl] by blast
  from write_logs_append [OF s1(2) assms(7)] s1 show ?thesis
    unfolding log_line_def by (auto simp: logs_to_def)
qed

definition demo_log :: log_proc where
  "demo_log = \<lparr>lp_fds = [Some 0, Some 0], lp_open = [(''tty'', 0)], lp_files = [''tty'' \<mapsto> []]\<rparr>"

definition demo_tm :: tm where
  "demo_tm = \<lparr>tm_sec = 5, tm_min = 30, tm_hour = 9, tm_mday = 21, tm_mon = 1, tm_year = 118\<rparr>"

abbreviation demo_entries :: "(LOG_LEVEL \<times> string \<times> tm) list" where
  "demo_entries \<equiv> [(BOOT, ''up'', demo_tm), (ERROR, ''x'', demo_tm)]"

theorem log_file_appended_witness:
  "\<exists>s1 s2. daemon_log None None True demo_tm demo_log = Inr (0, s1) \<and>
     foldR (\<lambda>(l, t, lt). write_log l t lt) demo_entries s1 = Inr s2 \<and>
     lp_files s2 ''./log/2018-1-21'' = Some (''BOOT> [9:30:5] up'' @ [CHR 0x0A] @ ''ERROR> [9:30:5] x'' @ [CHR 0x0A])"
proof -
  have d: "get_date_char demo_tm = ''2018-1-21''" "get_daytime_char demo_tm = ''9:30:5''" by code_simp+
  have p: "''./log/2018-1-21'' = ''./'' @ (case None of None \<Rightarrow> ''log'' | Some d \<Rightarrow> d) @ ''/'' @ get_date_char demo_tm"
    by (simp add: d)
  have q: "(case lp_files demo_log ''./log/2018-1-21'' of None \<Rightarrow> [] | Some c \<Rightarrow> c) @
      concat (map (\<lambda>(l, t, lt). log_header l @ ''['' @ get_daytime_char lt @ ''] '' @ t @ [CHR 0x0A]) demo_entries) =
      ''BOOT> [9:30:5] up'' @ [CHR 0x0A] @ ''ERROR> [9:30:5] x'' @ [CHR 0x0A]"
    by (simp add: d demo_log_def)
  have e: "\<forall>(l, t, lt)\<in>set demo_entries. no_nul t \<and> time_ok lt \<and> length t \<le> 1004"
    by (simp add: no_nul_def time_ok_def demo_tm_def)
  have "1 < length (lp_fds demo_log)" "lp_fds demo_log ! 0 \<noteq> None" "lp_fds demo_log ! 1 \<noteq> None"
    by (simp_all add: demo_log_def)
  from log_file_appended [OF this _ p _ e, of None, unfolded q]
  obtain s1 s2 where "daemon_log None None True demo_tm demo_log = Inr (0, s1)"
    "foldR (\<lambda>(l, t, lt). write_log l t lt) demo_entries s1 = Inr s2"
    "lp_files s2 ''./log/2018-1-21'' = Some (''BOOT> [9:30:5] up'' @ [CHR 0x0A] @ ''ERROR> [9:30:5] x'' @ [CHR 0x0A])"
    by auto
  then show ?thesis by (intro exI conjI)
qed

text \<open>
  C38: The limits of a log line.  At any time of day a text of at most 1004 characters is written
  without leaving the arrays of \<open>write_log\<close>, and one of 1009 or more characters always leaves them:
  the buffer of the body is ten bytes smaller than the length given to \<open>vsnprintf\<close>, and the prefix
  of the line takes more than those ten bytes.
\<close>

theorem write_log_bounds:
  assumes "no_nul txt" "time_ok lt"
  shows "(length txt \<le> 1004 \<longrightarrow> (\<exists>s'. write_log l txt lt s = Inr s')) \<and> (1009 \<le> length txt \<longrightarrow> write_log l txt lt s = Inl Segv)"
  using write_log_eq [OF assms(1), of l lt s] header_length [of l] daytime_length [OF assms(2)] by auto

theorem write_log_bounds_witness:
  "(\<exists>s'. write_log DEBUG (replicate 1004 (CHR ''a'')) demo_tm demo_log = Inr s') \<and>
   write_log DEBUG (replicate 1009 (CHR ''a'')) demo_tm demo_log = Inl Segv"
  using write_log_bounds [of "replicate 1004 (CHR ''a'')" demo_tm DEBUG demo_log]
    write_log_bounds [of "replicate 1009 (CHR ''a'')" demo_tm DEBUG demo_log]
  by (simp add: no_nul_def time_ok_def demo_tm_def)

text \<open>
  A log file that cannot be opened is reported as success: \<open>daemon_log\<close> returns 0 with standard
  output closed, and the next descriptor the process opens, a client's connection for the parent,
  becomes descriptor 1, where \<open>write_log\<close> writes.
\<close>

theorem daemon_log_open_failure:
  assumes "1 < length (lp_fds s)" "lp_fds s ! 0 \<noteq> None" "mk \<noteq> Some False"
    "length (case dir of None \<Rightarrow> ''log'' | Some d \<Rightarrow> d) + length (get_date_char lt) \<le> 124"
  shows "\<exists>s'. daemon_log dir mk False lt s = Inr (0, s') \<and> fd_file s' 1 = None \<and> fst (sys_open True p s') = 1"
proof -
  have "daemon_log dir mk False lt s = Inr (0, sys_close 1 s)"
    using assms(3,4) by (simp add: daemon_log_def Let_def sys_open_def sys_seek_end_def sys_dup_def fd_file_def)
  moreover have "fd_file (sys_close 1 s) 1 = None" by (simp add: fd_file_def sys_close_def)
  moreover have "fst (sys_open True p (sys_close 1 s)) = 1"
    using free_fd_after_close [OF assms(1,2)] by (simp add: sys_open_def sys_close_def)
  ultimately show ?thesis by blast
qed

theorem daemon_log_open_failure_witness:
  "\<exists>s'. daemon_log None (Some True) False demo_tm demo_log = Inr (0, s') \<and> fst (sys_open True ''client'' s') = 1"
proof -
  have "get_date_char demo_tm = ''2018-1-21''" by code_simp
  then show ?thesis
    using daemon_log_open_failure [of demo_log "Some True" None demo_tm "''client''"] by (auto simp: demo_log_def)
qed

end
