(* ===== verification/Mp_Tests.thy ===== *)
theory Mp_Tests
  imports Mp_IniRoundtrip Mp_Log
begin

text \<open>
  The test programs of the ini parser: the self test at the end of \<open>dictionary.c\<close>, and
  \<open>iniexample.c\<close> and \<open>parse.c\<close> of \<open>src/iniparser/test\<close>.  Output is a text, files are a map from
  names to contents; conversions to and from \<open>double\<close> are arguments.
\<close>

section \<open>The self test of the dictionary\<close>

text \<open>\<open>sprintf (cval, "%04d", i)\<close>\<close>

definition cval :: "nat \<Rightarrow> string" where
  "cval i = replicate (4 - length (dec_nat i)) (CHR ''0'') @ dec_nat i"

abbreviation endl :: "string \<Rightarrow> string" where
  "endl s \<equiv> s @ [CHR 0x0A]"

definition set_values :: "nat \<Rightarrow> dictionary option \<Rightarrow> dictionary option res" where
  "set_values n d =
     foldR (\<lambda>i d. bindR (dictionary_set alloc_ok d (Some (cval i)) (Some ''salut'')) (\<lambda>(r, d'). Inr d')) [0..<n] d"

definition get_values :: "nat \<Rightarrow> dictionary \<Rightarrow> string list \<Rightarrow> string list res" where
  "get_values n d out =
     foldR (\<lambda>i out. bindR (dictionary_get d (cval i) INVALID_KEY) (\<lambda>v.
       Inr (if v = INVALID_KEY then out @ [endl (''cannot get value for key ['' @ cval i @ '']'')] else out))) [0..<n] out"

definition unset_values :: "nat \<Rightarrow> dictionary \<Rightarrow> dictionary res" where
  "unset_values n d = foldR (\<lambda>i d. dictionary_unset d (Some (cval i))) [0..<n] d"

text \<open>\<open>nvals\<close> is \<open>NVALS\<close>, 20000 in the source; a failed allocation is dereferenced by the second loop.\<close>

definition dictionary_test_main :: "bool \<Rightarrow> nat \<Rightarrow> (int \<times> string list) res" where
  "dictionary_test_main ok nvals =
     (let num = dec_nat nvals in
      bindR (set_values nvals (dictionary_new ok alloc_ok 0)) (\<lambda>dp.
      let out = [endl ''allocating...'', endl (''setting '' @ num @ '' values...''), endl (''getting '' @ num @ '' values...'')] in
      case dp of None \<Rightarrow> Inl Segv
      | Some d \<Rightarrow>
        bindR (get_values nvals d out) (\<lambda>out1.
        bindR (unset_values nvals d) (\<lambda>d1.
        let out2 = out1 @ [endl (''unsetting '' @ num @ '' values...'')] @
                   (if d_n d1 \<noteq> 0 then [endl ''error deleting values''] else []) @ [endl ''deallocating...''] in
        bindR (dictionary_del (Some d1)) (\<lambda>_. Inr (0, out2))))))"

section \<open>The example programs\<close>

definition example_lines :: "string list" where
  "example_lines = [''#'', ''# This is an example of ini file'', ''#'', [], ''[Pizza]'', [],
     ''Ham       = yes ;'', ''Mushrooms = TRUE ;'', ''Capres    = 0 ;'', ''Cheese    = Non ;'', [], [],
     ''[Wine]'', [], ''Grape     = Cabernet Sauvignon ;'', ''Year      = 1989 ;'', ''Country   = Spain ;'',
     ''Alcohol   = 12.5  ;'', []]"

text \<open>\<open>ok\<close> says that \<open>fopen\<close> succeeds.\<close>

definition create_example_ini_file :: "bool \<Rightarrow> (string \<rightharpoonup> string) \<Rightarrow> (string \<rightharpoonup> string) res" where
  "create_example_ini_file ok files = (if ok then Inr (files(''example.ini'' \<mapsto> concat (map endl example_lines))) else Inl Segv)"

definition or_undef :: "cptr \<Rightarrow> string" where
  "or_undef p = (case p of Str s \<Rightarrow> s | _ \<Rightarrow> ''UNDEF'')"

text \<open>The status, the standard output and the standard error.\<close>

definition parse_ini_file ::
  "(string \<Rightarrow> 'f) \<Rightarrow> ('f \<Rightarrow> string) \<Rightarrow> 'f \<Rightarrow> (string \<rightharpoonup> string) \<Rightarrow> string \<Rightarrow> (int \<times> string \<times> string) res" where
  "parse_ini_file atof fmt_g neg_one files ini_name =
     bindR (iniparser_load True alloc_ok (\<lambda>_. alloc_ok) (files ini_name)) (\<lambda>ini.
     if ini = None then Inr (-1, [], endl (''cannot parse file: '' @ ini_name))
     else
       bindR (iniparser_dump ini) (\<lambda>err.
       bindR (iniparser_getboolean ini (Some ''pizza:ham'') (-1)) (\<lambda>b1.
       bindR (iniparser_getboolean ini (Some ''pizza:mushrooms'') (-1)) (\<lambda>b2.
       bindR (iniparser_getboolean ini (Some ''pizza:capres'') (-1)) (\<lambda>b3.
       bindR (iniparser_getboolean ini (Some ''pizza:cheese'') (-1)) (\<lambda>b4.
       bindR (iniparser_getstring ini (Some ''wine:grape'') NULLP) (\<lambda>s1.
       bindR (iniparser_getint ini (Some ''wine:year'') (-1)) (\<lambda>i.
       bindR (iniparser_getstring ini (Some ''wine:country'') NULLP) (\<lambda>s2.
       bindR (iniparser_getdouble atof ini (Some ''wine:alcohol'') neg_one) (\<lambda>d.
       bindR (iniparser_freedict ini) (\<lambda>_.
       Inr (0, concat (map endl [''Pizza:'', ''Ham:       ['' @ dec_int b1 @ '']'', ''Mushrooms: ['' @ dec_int b2 @ '']'',
           ''Capres:    ['' @ dec_int b3 @ '']'', ''Cheese:    ['' @ dec_int b4 @ '']'', ''Wine:'',
           ''Grape:     ['' @ or_undef s1 @ '']'', ''Year:      ['' @ dec_int i @ '']'',
           ''Country:   ['' @ or_undef s2 @ '']'', ''Alcohol:   ['' @ fmt_g d @ '']'']), err))))))))))))"

definition iniexample_main ::
  "(string \<Rightarrow> 'f) \<Rightarrow> ('f \<Rightarrow> string) \<Rightarrow> 'f \<Rightarrow> bool \<Rightarrow> (string \<rightharpoonup> string) \<Rightarrow> string list \<Rightarrow> (int \<times> string \<times> string) res" where
  "iniexample_main atof fmt_g neg_one ok files argv =
     (if length argv < 2 then
        bindR (create_example_ini_file ok files) (\<lambda>fs. parse_ini_file atof fmt_g neg_one fs ''example.ini'')
      else parse_ini_file atof fmt_g neg_one files (argv ! 1))"

definition parse_main :: "(string \<rightharpoonup> string) \<Rightarrow> string list \<Rightarrow> (int \<times> string) res" where
  "parse_main files argv =
     (let ini_name = (if length argv < 2 then ''twisted.ini'' else argv ! 1) in
      bindR (iniparser_load True alloc_ok (\<lambda>_. alloc_ok) (files ini_name)) (\<lambda>ini.
      bindR (iniparser_dump ini) (\<lambda>out.
      bindR (iniparser_freedict ini) (\<lambda>_. Inr (0, out)))))"

section \<open>The self test passes\<close>

text \<open>The number a key stands for.\<close>

definition key_num :: "string \<Rightarrow> nat" where
  "key_num s = foldl (\<lambda>a c. 10 * a + (of_char c - 48)) 0 s"

lemma key_num_dec: "key_num (dec_nat n) = n"
proof (induction n rule: dec_nat.induct)
  case (1 n)
  then show ?case by (cases "n < 10") (simp_all add: dec_nat.simps [of n] key_num_def)
qed

lemma key_num_zeros: "key_num (replicate k (CHR ''0'') @ s) = key_num s"
  by (induction k) (simp_all add: key_num_def)

lemma cval_inject: "cval i = cval j \<longleftrightarrow> i = j"
  using key_num_dec [of i] key_num_dec [of j] by (metis cval_def key_num_zeros)

lemma set_values_ok:
  assumes "dict_ok d" "d_n d = 0" "dict_abs d = Map.empty" "n < 2 ^ 27"
  shows "\<exists>d'. set_values n (Some d) = Inr (Some d') \<and> dict_ok d' \<and> d_n d' = n \<and>
    dict_abs d' = (\<lambda>k. if k \<in> cval ` {..<n} then Some (Some ''salut'') else None)"
  using assms(4)
proof (induction n)
  case 0
  then show ?case using assms(1-3) by (auto simp: set_values_def)
next
  case (Suc n)
  then obtain d1 where d1: "set_values n (Some d) = Inr (Some d1)" "dict_ok d1" "d_n d1 = n"
    "dict_abs d1 = (\<lambda>k. if k \<in> cval ` {..<n} then Some (Some ''salut'') else None)" by auto
  have new: "dict_abs d1 (cval n) = None" by (auto simp: d1(4) cval_inject)
  obtain d2 where "dict_set_in alloc_ok d1 (cval n) (Some ''salut'') = Inr (0, d2)" "dict_ok d2"
    "dict_abs d2 = (dict_abs d1)(cval n \<mapsto> Some ''salut'')" "d_n d2 = Suc n"
    using dict_set_in_ok [OF d1(2) _ refl, of "cval n" "Some ''salut''"] Suc.prems d1(3) new by auto
  moreover have "(dict_abs d1)(cval n \<mapsto> Some ''salut'') =
      (\<lambda>k. if k \<in> cval ` {..<Suc n} then Some (Some ''salut'') else None)"
    by (auto simp: d1(4) fun_eq_iff lessThan_Suc)
  ultimately show ?case
    using d1(1) by (auto simp: set_values_def foldR_append dictionary_set_def)
qed

lemma get_values_ok:
  assumes "dict_ok d" "\<forall>i<n. dict_abs d (cval i) = Some (Some s)"
  shows "get_values n d out = Inr out"
  using assms(2)
proof (induction n)
  case (Suc n)
  then show ?case
    using dictionary_get_abs [OF assms(1), of "cval n" INVALID_KEY] by (simp add: get_values_def foldR_append ptr_of_def)
qed (simp add: get_values_def)

lemma unset_values_ok:
  assumes "dict_ok d" "d_n d = m" "\<forall>i<m. dict_abs d (cval i) \<noteq> None" "n \<le> m"
  shows "\<exists>d'. unset_values n d = Inr d' \<and> dict_ok d' \<and> d_n d' = m - n \<and> (\<forall>i. n \<le> i \<longrightarrow> dict_abs d' (cval i) = dict_abs d (cval i))"
  using assms(4)
proof (induction n)
  case 0
  then show ?case using assms by (auto simp: unset_values_def)
next
  case (Suc n)
  then obtain d1 where d1: "unset_values n d = Inr d1" "dict_ok d1" "d_n d1 = m - n"
    "\<forall>i. n \<le> i \<longrightarrow> dict_abs d1 (cval i) = dict_abs d (cval i)" by auto
  have "dict_abs d1 (cval n) \<noteq> None" using d1(4) assms(3) Suc.prems by simp
  then obtain d2 where "dictionary_unset d1 (Some (cval n)) = Inr d2" "dict_ok d2" "dict_abs d2 = (dict_abs d1)(cval n := None)"
    "d_n d2 = m - n - 1"
    using dict_unset_ok [OF d1(2), of "cval n"] d1(3) by auto
  then show ?case using d1 by (auto simp: unset_values_def foldR_append cval_inject)
qed

text \<open>
  C40: The self test of the dictionary passes: for every number of values below \<open>2 ^ 27\<close>, the 20000 of
  the source among them, every value is found again, every key can be deleted, no error is
  reported and the program returns 0.
\<close>

theorem dictionary_test_passes:
  assumes "n < 2 ^ 27"
  shows "dictionary_test_main True n = Inr (0, map endl [''allocating...'', ''setting '' @ dec_nat n @ '' values...'',
    ''getting '' @ dec_nat n @ '' values...'', ''unsetting '' @ dec_nat n @ '' values...'', ''deallocating...''])"
proof -
  obtain d where d: "dictionary_new True alloc_ok 0 = Some d" "dict_ok d" "dict_abs d = Map.empty" "d_n d = 0"
    by (rule dictionary_new_ok)
  obtain d1 where d1: "set_values n (Some d) = Inr (Some d1)" "dict_ok d1" "d_n d1 = n"
    "dict_abs d1 = (\<lambda>k. if k \<in> cval ` {..<n} then Some (Some ''salut'') else None)"
    using set_values_ok [OF d(2,4,3) assms] by blast
  have g: "\<forall>i<n. dict_abs d1 (cval i) = Some (Some ''salut'')" by (simp add: d1(4))
  obtain d2 where d2: "unset_values n d1 = Inr d2" "dict_ok d2" "d_n d2 = 0"
    using unset_values_ok [OF d1(2,3), of n] g by auto
  obtain fr where "dictionary_del (Some d2) = Inr fr"
    using d2(2) by (rule dict_okE) (simp add: dictionary_del_def del_loop_eq)
  then show ?thesis
    using d d1(1) d2 get_values_ok [OF d1(2) g] by (simp add: dictionary_test_main_def Let_def)
qed

theorem dictionary_test_passes_witness:
  "dictionary_test_main True 20000 = Inr (0, map endl [''allocating...'', ''setting '' @ dec_nat 20000 @ '' values...'',
    ''getting '' @ dec_nat 20000 @ '' values...'', ''unsetting '' @ dec_nat 20000 @ '' values...'', ''deallocating...''])"
  by (rule dictionary_test_passes) simp

section \<open>The example programs run\<close>

lemma mapR_ok: "\<forall>x\<in>set xs. \<exists>y. f x = Inr y \<Longrightarrow> \<exists>ys. mapR f xs = Inr ys"
  by (induction xs) auto

lemma iniparser_dump_ok:
  assumes "dict_ok d"
  shows "\<exists>t. iniparser_dump (Some d) = Inr t"
  using assms
proof (rule dict_okE)
  fix ks vs hs assume d: "d_key d = Some ks" "d_val d = Some vs" "length ks = d_size d" "length vs = d_size d"
  have "\<exists>ys. mapR (\<lambda>(i, k). bindR (arr_get (d_val d) i) (\<lambda>v.
      Inr (''['' @ k @ '']='' @ (case v of None \<Rightarrow> ''UNDEF'' | Some t \<Rightarrow> ''['' @ t @ '']'') @ [CHR 0x0A]))) (slots ks 0) = Inr ys"
    using d by (intro mapR_ok) (auto simp: slots_def arr_get_def split: option.splits)
  then show ?thesis using live_slots_eq [OF d(1,3), of 0] by (auto simp: iniparser_dump_def)
qed

lemma example_loaded:
  obtains d where "iniparser_load True alloc_ok (\<lambda>_. alloc_ok) (Some (unlines example_lines)) = Inr (Some d)" "dict_ok d"
    "dict_abs d = sp_map (fold ini_step example_lines spec0)"
proof -
  have l: "lines_ok example_lines spec0" "sp_errs (fold ini_step example_lines spec0) = 0" by code_simp+
  have "length example_lines \<le> 2 ^ 27" by (simp add: example_lines_def)
  from load_lines [OF l(1) this] l(2) that show thesis by auto
qed

lemma example_values:
  "case (sp_map (fold ini_step example_lines spec0), ()) of (m, _) \<Rightarrow>
     list_all (\<lambda>(k, v). m (strlwc k) = Some (Some v))
       [(''pizza:ham'', ''yes''),
        (''pizza:mushrooms'', ''TRUE''),
        (''pizza:capres'', ''0''),
        (''pizza:cheese'', ''Non''),
        (''wine:grape'', ''Cabernet Sauvignon''),
        (''wine:year'', ''1989''),
        (''wine:country'', ''Spain''),
        (''wine:alcohol'', ''12.5'')]"
  by code_simp

lemma example_map:
  "sp_map (fold ini_step example_lines spec0) (strlwc ''pizza:ham'') = Some (Some ''yes'')"
  "sp_map (fold ini_step example_lines spec0) (strlwc ''pizza:mushrooms'') = Some (Some ''TRUE'')"
  "sp_map (fold ini_step example_lines spec0) (strlwc ''pizza:capres'') = Some (Some ''0'')"
  "sp_map (fold ini_step example_lines spec0) (strlwc ''pizza:cheese'') = Some (Some ''Non'')"
  "sp_map (fold ini_step example_lines spec0) (strlwc ''wine:grape'') = Some (Some ''Cabernet Sauvignon'')"
  "sp_map (fold ini_step example_lines spec0) (strlwc ''wine:year'') = Some (Some ''1989'')"
  "sp_map (fold ini_step example_lines spec0) (strlwc ''wine:country'') = Some (Some ''Spain'')"
  "sp_map (fold ini_step example_lines spec0) (strlwc ''wine:alcohol'') = Some (Some ''12.5'')"
  using example_values by simp_all

text \<open>
  The example program without arguments writes its file, loads it and prints the values the file
  was written with: the booleans \<open>yes\<close>, \<open>TRUE\<close>, \<open>0\<close> and \<open>Non\<close> as 1, 1, 0 and 0, the strings without the
  comment that follows them, the year as an integer and what \<open>atof\<close> makes of \<open>12.5\<close>.
\<close>

theorem iniexample_prints:
  "\<exists>err. iniexample_main atof fmt_g neg_one True files [''iniexample''] = Inr (0, concat (map endl
     [''Pizza:'', ''Ham:       [1]'', ''Mushrooms: [1]'', ''Capres:    [0]'', ''Cheese:    [0]'', ''Wine:'',
      ''Grape:     [Cabernet Sauvignon]'', ''Year:      [1989]'', ''Country:   [Spain]'',
      ''Alcohol:   ['' @ fmt_g (atof ''12.5'') @ '']'']), err)"
proof -
  obtain d where d: "iniparser_load True alloc_ok (\<lambda>_. alloc_ok) (Some (concat (map endl example_lines))) = Inr (Some d)"
    "dict_ok d" "dict_abs d = sp_map (fold ini_step example_lines spec0)"
    using example_loaded unfolding unlines_def by blast
  have g: "iniparser_getstring (Some d) (Some k) dflt = Inr (Str v)" if "dict_abs d (strlwc k) = Some (Some v)" for k dflt v
    using that dictionary_get_abs [OF d(2), of "strlwc k"] by (simp add: iniparser_getstring_def ptr_of_def)
  note v = example_map [folded d(3), THEN g]
  have y: "to_int (strtol ''1989'') = 1989" by code_simp
  have n: "dec_int 1 = ''1''" "dec_int 0 = ''0''" "dec_int 1989 = ''1989''" by code_simp+
  obtain t where t: "iniparser_dump (Some d) = Inr t" using iniparser_dump_ok [OF d(2)] by blast
  obtain fs where f: "iniparser_freedict (Some d) = Inr fs"
    using dictionary_del_ok [OF d(2)] by (auto simp: iniparser_freedict_def)
  show ?thesis
    by (simp add: iniexample_main_def create_example_ini_file_def parse_ini_file_def d(1) v t f y n or_undef_def
        iniparser_getboolean_def iniparser_getint_def iniparser_getdouble_def)
qed

end
