(* ===== verification/Mp_Client.thy ===== *)
theory Mp_Client
  imports Mp_Tcp Mp_Bindconf
begin

unbundle bit_operations_syntax

text \<open>
  The sample client (\<open>src/samples/echo_client.cpp\<close>): it connects, sends each line of its input and
  prints what comes back.  The answers of \<open>write\<close> and \<open>read\<close> are lists in the state, one per call;
  a call without an answer blocks.  The two arrays have 4096 bytes, and reading in front of the first
  or behind the last byte of one is a fault.
\<close>

section \<open>The program\<close>

record echo_client =
  c_in :: string
  c_out :: string
  c_sent :: string
  c_writes :: "nat option list"
  c_reads :: "string option list"

text \<open>The client has its own copies of two helpers of \<open>tcp.c\<close>.\<close>

definition client_set_io_blockability :: "bool \<Rightarrow> 32 word \<Rightarrow> 32 word" where
  "client_set_io_blockability nonblock getfl = (if nonblock then O_NONBLOCK OR getfl else NOT O_NONBLOCK AND getfl)"

text \<open>The answers of \<open>inet_pton\<close>, \<open>socket\<close>, \<open>connect\<close> and \<open>F_GETFL\<close>.\<close>

record connect_env =
  ce_pton :: int
  ce_sock :: int
  ce_conn :: int
  ce_flags :: "32 word"

text \<open>The result, the descriptors closed and the flags set.\<close>

definition client_tcp_connect :: "bool \<Rightarrow> connect_env \<Rightarrow> int \<times> int list \<times> 32 word option" where
  "client_tcp_connect nonblock k =
     (if ce_pton k \<le> 0 then (-1, [], None)
      else if ce_sock k = -1 then (-1, [], None)
      else if ce_conn k = -1 then (-1, [ce_sock k], None)
      else (ce_sock k, [], Some (client_set_io_blockability nonblock (ce_flags k))))"

text \<open>One round of the loop after \<open>fgets\<close> filled \<open>buf\<close>.\<close>

definition client_line :: "string \<Rightarrow> echo_client \<Rightarrow> echo_client res" where
  "client_line buf c =
     (let s = takeWhile (\<lambda>x. x \<noteq> CHR 0x00) buf in
      if s = [] then Inl Segv
      else
        let t = (if last s = CHR 0x0A then butlast s else s) in
        case c_writes c of [] \<Rightarrow> Inl Blocked
        | k # ks \<Rightarrow>
          case c_reads c of [] \<Rightarrow> Inl Blocked
          | r # rs \<Rightarrow>
            let recv_buf = take 4096 (case r of None \<Rightarrow> [] | Some d \<Rightarrow> d);
                full = (length recv_buf = 4096 \<and> CHR 0x00 \<notin> set recv_buf) in
            if full then Inl Segv
            else Inr (c\<lparr>c_sent := c_sent c @ take (case k of None \<Rightarrow> 0 | Some n \<Rightarrow> n) t, c_writes := ks, c_reads := rs,
                c_out := c_out c @ takeWhile (\<lambda>x. x \<noteq> CHR 0x00) recv_buf @ [CHR 0x0A]\<rparr>))"

text \<open>Every round takes at least one character of the input, so its length bounds the rounds.\<close>

fun client_loop :: "nat \<Rightarrow> echo_client \<Rightarrow> echo_client res" where
  "client_loop 0 c = Inl Blocked"
| "client_loop (Suc fuel) c =
     (if c_in c = [] then Inr c
      else let (buf, rest) = fgets 4095 (c_in c) in
        bindR (client_line buf (c\<lparr>c_in := rest\<rparr>)) (client_loop fuel))"

definition client_main :: "string list \<Rightarrow> (string \<Rightarrow> int \<Rightarrow> connect_env) \<Rightarrow> echo_client \<Rightarrow> (int \<times> echo_client) res" where
  "client_main argv net c =
     (if length argv \<noteq> 3 then Inr (-1, c\<lparr>c_out := c_out c @ ''Usage: '' @ hd argv @ '' ipaddr port'' @ [CHR 0x0A]\<rparr>)
      else if fst (client_tcp_connect False (net (argv ! 1) (atoi (argv ! 2)))) = -1 then Inr (-1, c)
      else bindR (client_loop (Suc (length (c_in c))) c) (\<lambda>c'. Inr (0, c')))"

section \<open>Against an echo server\<close>

lemma client_line_echo:
  assumes "l \<noteq> []" "CHR 0x0A \<notin> set l" "CHR 0x00 \<notin> set l" "length l < 4095"
    "c_writes c = Some (length l) # ks" "c_reads c = Some l # rs"
  shows "client_line (l @ [CHR 0x0A]) c =
    Inr (c\<lparr>c_sent := c_sent c @ l, c_writes := ks, c_reads := rs, c_out := c_out c @ l @ [CHR 0x0A]\<rparr>)"
proof -
  have s: "takeWhile (\<lambda>x. x \<noteq> CHR 0x00) (l @ [CHR 0x0A]) = l @ [CHR 0x0A]" "takeWhile (\<lambda>x. x \<noteq> CHR 0x00) l = l"
    using assms(3) by (auto simp: takeWhile_eq_all_conv)
  have "take 4096 l = l" "length l \<noteq> 4096" using assms(4) by simp_all
  then show ?thesis unfolding client_line_def s Let_def using assms(5,6) s(2) by simp
qed

lemma client_loop_echo:
  assumes "list_all (\<lambda>l. l \<noteq> [] \<and> CHR 0x0A \<notin> set l \<and> CHR 0x00 \<notin> set l \<and> length l < 4095) ls" "length ls < fuel"
    "c_in c = unlines ls" "c_writes c = map (\<lambda>l. Some (length l)) ls" "c_reads c = map Some ls"
  shows "\<exists>c'. client_loop fuel c = Inr c' \<and> c_sent c' = c_sent c @ concat ls \<and> c_out c' = c_out c @ unlines ls"
  using assms
proof (induction ls arbitrary: c fuel)
  case Nil
  then show ?case by (cases fuel) (auto simp: unlines_def)
next
  case (Cons l ls)
  obtain m where m: "fuel = Suc m" using Cons.prems(2) by (cases fuel) auto
  have i: "c_in c = l @ CHR 0x0A # unlines ls" using Cons.prems(3) by (simp add: unlines_def)
  have l: "l \<noteq> []" "CHR 0x0A \<notin> set l" "CHR 0x00 \<notin> set l" "length l < 4095" using Cons.prems(1) by auto
  let ?c = "c\<lparr>c_in := unlines ls, c_sent := c_sent c @ l, c_writes := map (\<lambda>l. Some (length l)) ls, c_reads := map Some ls,
    c_out := c_out c @ l @ [CHR 0x0A]\<rparr>"
  have "client_line (l @ [CHR 0x0A]) (c\<lparr>c_in := unlines ls\<rparr>) = Inr ?c"
    using client_line_echo [OF l, of "c\<lparr>c_in := unlines ls\<rparr>" "map (\<lambda>l. Some (length l)) ls" "map Some ls"] Cons.prems(4,5) by simp
  then have "client_loop fuel c = client_loop m ?c"
    using fgets_line [OF l(2,4), of "unlines ls"] by (simp add: m i)
  moreover have "\<exists>c'. client_loop m ?c = Inr c' \<and> c_sent c' = c_sent ?c @ concat ls \<and> c_out c' = c_out ?c @ unlines ls"
    using Cons.prems(1,2) m by (intro Cons.IH) simp_all
  ultimately show ?case by (auto simp: unlines_def)
qed

text \<open>
  C39: The sample client prints what an echo server sends back.  If the address is good, the lines of
  the input are not empty and shorter than the buffer, the socket takes each line and every line
  comes back before the next is sent, the client ends with 0, has sent the lines without their
  newlines, and its output is its input.
\<close>

theorem client_prints_echo:
  assumes "length argv = 3" "net (argv ! 1) (atoi (argv ! 2)) = k" "ce_pton k = 1" "ce_sock k \<noteq> -1" "ce_conn k = 0"
    "list_all (\<lambda>l. l \<noteq> [] \<and> CHR 0x0A \<notin> set l \<and> CHR 0x00 \<notin> set l \<and> length l < 4095) ls"
    "c = \<lparr>c_in = unlines ls, c_out = [], c_sent = [], c_writes = map (\<lambda>l. Some (length l)) ls, c_reads = map Some ls\<rparr>"
  shows "\<exists>c'. client_main argv net c = Inr (0, c') \<and> c_sent c' = concat ls \<and> c_out c' = c_in c"
  using client_loop_echo [OF assms(6), of "Suc (length (unlines ls))" c] length_unlines [of ls] assms(1-5,7)
  by (auto simp: client_main_def client_tcp_connect_def)

abbreviation demo_net :: "string \<Rightarrow> int \<Rightarrow> connect_env" where
  "demo_net ip port \<equiv> \<lparr>ce_pton = 1, ce_sock = 3, ce_conn = 0, ce_flags = 2\<rparr>"

theorem client_prints_echo_witness:
  "\<exists>c'. client_main [''c'', ''127.0.0.1'', ''8000''] demo_net
     \<lparr>c_in = unlines [''hello'', ''x''], c_out = [], c_sent = [], c_writes = [Some 5, Some 1], c_reads = [Some ''hello'', Some ''x'']\<rparr> =
     Inr (0, c') \<and> c_sent c' = ''hellox'' \<and> c_out c' = unlines [''hello'', ''x'']"
  using client_prints_echo [of "[''c'', ''127.0.0.1'', ''8000'']" demo_net _ "[''hello'', ''x'']", OF _ refl _ _ _ _ refl]
  by (simp add: eval_nat_numeral)

end
