(* ===== verification/Spec2Isabelle.thy ===== *)
theory Spec2Isabelle
  imports Mp_Framing Mp_System Mp_Reentry Mp_Interleave Mp_Tests Mp_Client
begin

text \<open>
  MpNetServer is a TCP/UDP server framework in C.  This development models its program code
  (\<open>src/src\<close>), its sample plugin and client (\<open>src/samples\<close>) and the ini parser it is built with
  (\<open>src/iniparser\<close>) and proves what makes them correct.  Where the code does not do what it means to do, the theorem says what it does.

  \<^bold>\<open>The program.\<close>  \<open>main\<close> reads an ini file, loads a plugin, reads a bind file and forks one
  worker per line of it.  The parent owns the sockets: its event loop (\<open>net_loop\<close>) accepts
  connections, cuts the byte streams into packages and puts each package, behind a 13-byte header,
  into the receive queue of the worker.  Both queues of a worker lie in shared memory with a pipe as
  the wake-up.  The worker takes blocks out of its receive queue, keeps a session per connection,
  calls the plugin, and puts replies into its send queue; the parent drains that queue and writes
  the replies to the sockets.  Signals stop the server, make it execute itself again, or report dead
  children; a dead worker is restarted.

  \<^bold>\<open>Theories and sources.\<close>
    \<^item> \<open>Mp_Prelude\<close>: outcomes of C functions (\<open>fault + 'a\<close>), checked byte memory, little-endian codes.
    \<^item> \<open>Mp_Shmq\<close> (\<open>shmq.c\<close>, \<open>shmq.h\<close>, the structures of \<open>bindconf.h\<close>): the ring buffer at the level of
      bytes.  The representation \<open>q_rep\<close> relates the mapping to a list of messages; the locale
      \<open>fifo_channel\<close> is the contract of a channel and \<open>shm\<close> its interpretation on the queue.  Shown:
      FIFO refinement for any sequence of pushes and pops, integrity of a popped block, progress of a
      waiting push, the exact condition under which a push ends the process.
    \<^item> \<open>Mp_Interleave\<close> (\<open>shmq.c\<close> again): \<open>shmq_push\<close> and \<open>shmq_pop\<close> as programs that make one access to shared
      memory per step.  The locale \<open>two_procs\<close> is the rely-guarantee contract between two processes;
      \<open>conc\<close> interprets it on producer and consumer.  Shown: the queue is a FIFO under every
      interleaving without a lock, and a process that runs alone computes the functions of \<open>Mp_Shmq\<close>.
    \<^item> \<open>Mp_List\<close> (\<open>List.h\<close>): circular lists over a pointer heap; push and delete are list operations.  The
      locale \<open>safe_loop\<close> is the contract of \<open>list_for_each_safe\<close> with its body and is interpreted in
      \<open>Mp_Loop\<close> on both loops of the server.
    \<^item> \<open>Mp_Tcp\<close> (\<open>tcp.c\<close>): sending and receiving exactly n bytes under short counts and interrupts, and
      sockets that are closed on every error path.
    \<^item> \<open>Mp_Net\<close> (\<open>net.h\<close>, first part of \<open>net.c\<close>): the connection table, the close and poll-again queues,
      registration and removal.  The invariant \<open>net_inv\<close> ties the table, the flags of its entries and
      the pointer queues together; every operation keeps it, and connection ids stay distinct across
      the wrap-around of the counter.
    \<^item> \<open>Mp_NetIO\<close> (\<open>net_recv\<close>, \<open>do_read_conn\<close>, \<open>do_write_conn\<close>, \<open>schedule_output\<close> of \<open>net.c\<close>; \<open>net_send\<close> of
      \<open>net_if.c\<close>): under a stable length \<open>net_recv\<close> implements the framing function \<open>cut\<close> whatever the
      segmentation of the stream, and stays inside its buffers; \<open>net_send\<close> preserves the outgoing byte stream.
    \<^item> \<open>Mp_Framing\<close> (\<open>net_recv\<close> again): for every plugin, stable or not, the packages and the receive buffer make
      up the bytes received, and what the sample's own length function does.
    \<^item> \<open>Mp_Service\<close> (\<open>service.c\<close>, \<open>net_if.c\<close>): the session table after a run over the receive queue is the
      result of the messages in order (\<open>sess_run\<close>), with the answers the plugin gave to the packages; replies are
      cut into fragments that join to the package.  The plugin \<open>echo_plugin\<close> is that of \<open>samples/echo.cpp\<close>.
    \<^item> \<open>Mp_Loop\<close> (rest of \<open>net.c\<close>, process functions of \<open>service.c\<close>): the handlers of every kind of event,
      the passes over the two queues, timeouts, cleaning up after a worker, \<open>net_loop\<close>, restart.
    \<^item> \<open>Mp_Safety\<close>, \<open>Mp_SafeLoop\<close> (the functions of \<open>Mp_NetIO\<close> and \<open>Mp_Loop\<close> in the parent): the invariant \<open>srv_inv\<close>
      of the whole state between two iterations (table and queues, the buffers of every connection, the
      shared queues of every worker, the answers still to come).  Every function keeps it and has only
      results that are safe (\<open>safe_res\<close>: no access outside an object, no failed assertion); \<open>restart_ok\<close> is
      the contract of the restart function and is discharged for \<open>restart_child_process\<close>.
    \<^item> \<open>Mp_Server\<close> (\<open>main.c\<close> with all of these): starting the workers establishes the invariant, and \<open>server_run\<close> is
      the step relation of the parent among signals, kernel and workers.  Shown by rule induction: in
      every reachable state the invariant holds, so that the table is well typed and the next iteration of
      \<open>net_loop\<close> is safe, with any plugin.
    \<^item> \<open>Mp_Worker\<close> (the functions of \<open>Mp_Service\<close>, \<open>Mp_NetIO\<close> and \<open>Mp_Loop\<close> in a worker): the invariant \<open>wk_inv\<close> of a worker
      between two iterations and the relation \<open>wk_next\<close> of what a step may change.  The locale \<open>fd_hook\<close> is the contract of
      the hook for closed connections, \<open>worker_plugin\<close> extends it to all callbacks of a plugin: each keeps
      the invariant and is safe if the state is, and may close the connection it is called for but no other.
      Under it the event loop, the queues and the calls a plugin makes are safe and keep the invariant.
    \<^item> \<open>Mp_System\<close> (\<open>run_worker_process\<close> and the processes together): \<open>echo_wk\<close> interprets \<open>worker_plugin\<close> on the echo plugin.
      A worker forked from a parent in good order, at the start or to replace a dead one, starts safely and
      never returns; \<open>system_run\<close> is the step
      relation of the parent and its workers over the shared queues, and its invariant \<open>sys_inv\<close> gives the safety of
      all processes.  In the example the real parent and the real worker serve a client.
    \<^item> \<open>Mp_Reentry\<close> (\<open>iterate_etin_queue\<close> again): why the contract forbids a plugin to close another connection, a
      loop over the poll-again queue that never ends.
    \<^item> \<open>Mp_Echo\<close> (\<open>samples/echo.cpp\<close> on top of all of these): what the worker does with the echo plugin, and
      the drain of a session's fragments; the lemmas behind the two end-to-end theorems of this theory.
    \<^item> \<open>Mp_Dictionary\<close> (\<open>dictionary.c\<close>): three parallel arrays with growth.  The locale \<open>config_store\<close> is
      the contract of a store (what a lookup returns after an update), extended by
      \<open>config_store_del\<close>; \<open>cfg\<close> interprets it on the arrays through the abstraction \<open>dict_abs\<close>.
    \<^item> \<open>Mp_Iniparser\<close>, \<open>Mp_IniRoundtrip\<close> (\<open>iniparser.c\<close>): the line grammar with the \<open>sscanf\<close> formats of
      the source, the loader as a refinement of a fold over the lines (\<open>ini_step\<close>), the getters, and
      that loading what the writer wrote gives the same mapping.
    \<^item> \<open>Mp_Bindconf\<close> (\<open>config.c\<close>, \<open>bindconf.c\<close>): the bind file, with \<open>str_split\<close> cutting the mapping in place
      and shown equal to a splitter on strings.
    \<^item> \<open>Mp_Daemon\<close> (\<open>daemon.c\<close>, \<open>dll.c\<close>, \<open>main.c\<close>): signal handlers, the wait for the children, loading of
      the plugin, start-up and the loop of the parent as a step relation (\<open>parent_run\<close>).
    \<^item> \<open>Mp_Log\<close> (\<open>log.h\<close>, \<open>log.c\<close>): the line \<open>write_log\<close> builds in its two arrays and the exact lengths that fit;
      \<open>daemon_log\<close> over a descriptor table, after which every line is appended to the file of the day.
    \<^item> \<open>Mp_Client\<close> (\<open>samples/echo_client.cpp\<close>): against an echo server the output of the client is its input.
    \<^item> \<open>Mp_Tests\<close> (\<open>main\<close> of \<open>dictionary.c\<close>, \<open>iniexample.c\<close>, \<open>parse.c\<close>): the self test of the dictionary passes for
      every number of values, and the example program prints the values of the file it writes.
    \<^item> This theory composes them: a reply travels from the plugin to the client's byte stream, through
      the fragmentation, the shared queue, the address check and the partial writes; and with the
      echo plugin the bytes of a client come back as the packages they contain.

  \<^bold>\<open>State.\<close>  \<open>world\<close> holds the globals of one process, \<open>daemon\<close> adds those of \<open>daemon.c\<close>.  32-bit
  fields the code computes with are words, so that wrap-around is visible.  The kernel's answers are
  lists in the state or arguments, consumed one per call; a call without an answer blocks, which is
  a fault (\<open>Inl\<close>), as are \<open>exit\<close>, a failed assertion and an access outside an object.  Code outside
  the repository is a parameter: the plugin is the record \<open>serv_if\<close>, the GLib hash table the record
  \<open>ght\<close> with the named laws \<open>ght_laws\<close>.  Calls a theorem makes on them appear as hypotheses with
  instances in the witnesses.

  \<^bold>\<open>Bounds and fuel.\<close>
    \<^item> Loops over the pointer queues run with fuel \<open>length (fds w) + 1\<close>; under \<open>net_inv\<close> a queue holds each
      descriptor at most once, so the fuel is never used up.
    \<^item> \<open>parse_loop\<close> of \<open>net_recv\<close> removes at least one buffered byte per round and carries their number plus one;
      the loader and \<open>bind_loop\<close> consume at least one character per round and carry the length
      of the file plus one.  \<open>free_slot\<close> probes at most the size of the arrays.
    \<^item> \<open>send_frags\<close>, \<open>drain_sendq\<close> and \<open>push_wait\<close> can in the code go on as long as the other process works
      against them.  Their fuel is an argument, and the theorems say how much is enough: more than the
      length of the package, more than the number of queued blocks, one sleep after which the
      consumer has made room.
    \<^item> The safety of an iteration needs room in the send buffers for the contents of all send queues
      (\<open>send_room\<close>, a bound of \<open>2 ^ 31\<close> on \<open>sendlen\<close>), because the code never limits them; the kernel's part is
      that new descriptors fit the table and are not open when they are returned (\<open>boot_ok\<close>, \<open>fork_ok\<close>,
      \<open>accepts_fit\<close>, and \<open>do_open_conn\<close>, which stops at an answer no kernel gives).  The mapping of a queue may fail; the
      process then writes through \<open>MAP_FAILED\<close>, the outcome \<open>MapFault\<close>, which is kept apart from all other
      accesses outside an object and is the only one the safety theorems leave (\<open>unmapped_queue_faults\<close>).  A data
      block in a send queue is not empty (\<open>out_msg\<close>); \<open>send_pkg_to_client\<close> makes no other, which \<open>server_run\<close> assumes of
      the workers and \<open>system_run\<close> proves.  All queues have exactly the configured length (\<open>shm_len_ok\<close>).
    \<^item> In \<open>system_run\<close> an iteration of one process is one step, and the other processes see its effects on the shared
      memory when it ends; the access-by-access view of the queues is that of \<open>Mp_Interleave\<close>.  A worker is forked
      between two iterations of the parent, from the state the parent has then.
    \<^item> Sizes are below \<open>2 ^ 31\<close> where the code stores them in an \<open>int\<close> (\<open>small\<close>); the dictionary is
      treated up to \<open>2 ^ 27\<close> entries, where the byte counts of its arrays fit.

  \<^bold>\<open>Not modelled.\<close>  The calls of the log macros inside other functions, which leave their state alone.
  Conversions between text and \<open>double\<close> are arguments of \<open>iniparser_getdouble\<close> and its caller.  Signal
  masks, resource limits and socket options leave no trace in the state; the branch of
  \<open>daemon_set_title\<close> that takes over the environment is dead code, and \<open>asyn_connect_to_svr\<close> is commented out
  in the source.  In \<open>Mp_Interleave\<close> memory is sequentially consistent: an architecture that makes stores
  of one process visible to the other in another order is below this model.  The other theories use
  pushes and pops as whole steps, except that the waiting loop of a push interleaves with the consumer
  at each sleep.  \<open>get_pkg_len\<close> of a plugin is a function of its arguments.  \<open>main\<close> and \<open>run_worker_process\<close> ignore
  the result of \<open>net_init\<close> and are stated for an allocation that succeeded; \<open>net_init\<close> itself has both
  outcomes.  \<open>safe_tcp_send_n\<close> counts bytes, and its callers take that many from the front of their buffer.
\<close>

section \<open>From the plugin to the client\<close>

text \<open>
  C5: A reply reaches its client intact.  If a worker's plugin sends a package with
  \<open>send_pkg_to_client\<close>, and the parent then drains that send queue while the client's connection is
  open under the same descriptor and id, the byte stream of the connection grows by exactly the
  package, however it was cut into blocks and however the kernel takes the bytes.
\<close>

theorem reply_reaches_client:
  assumes worker: "sq_rep ww []" "peer ww = idle" "13 < unat (page_size ww)" "small (page_size ww)"
      "length pkg < fuel" "send_pkg_to_client fuel s pkg ww = Inr (0, ww')"
    and shared: "i < length (configs (bindconf wp))" "page_size wp = page_size ww'"
      "sendq (configs (bindconf wp) ! i) = sendq (configs (bindconf ww') ! cur_bc ww')"
    and conn: "net_inv wp cl et" "fd < length (fds wp)" "sint (s_fd s) = int fd"
      "fi_type (fdi wp fd) = fd_type_remote" "fi_id (fdi wp fd) = s_id s" "out_ready fd wp"
      "length (pending fd wp) + length pkg < 2 ^ 31"
    and drain: "length pkg < fuel'" "drain_sendq fuel' dll ok i wp = Inr wp'"
  shows "tx wp' fd @ pending fd wp' = tx wp fd @ pending fd wp @ pkg \<and> armed fd wp'"
proof -
  obtain frs where frs: "sq_rep ww' frs" "list_all (frag_of s) frs" "concat (map snd frs) = pkg"
    using send_frags_spec [OF worker(1-5), of s] worker(6) by (auto simp: send_pkg_to_client_def)
  have sr: "sendq_rep i wp frs" using frs(1) shared by (auto simp: sendq_rep_def sq_rep_def)
  show ?thesis using drain_frags [OF sr frs(2) conn(1-6) _ _ drain(2)] conn(7) drain(1) frs(3) by simp
qed

definition demo_sess :: fdsession where
  "demo_sess = \<lparr>s_fd = 5, s_id = 1, s_remote_port = 0, s_remote_ip = 0\<rparr>"

text \<open>The parent of the example: connection 5 of \<open>demo_world1\<close>, and the worker's send queue.\<close>

definition demo_parent :: "shm_queue \<Rightarrow> unit world" where
  "demo_parent q = demo_world1\<lparr>bindconf := \<lparr>bind_num = 1, configs = [demo_bc\<lparr>sendq := q\<rparr>]\<rparr>,
     send_as := [SendOk 3, SendErr EINTR, SendErr EAGAIN]\<rparr>"

lemma demo_parent_facts:
  "net_inv (demo_parent q) [] []" "out_ready 5 (demo_parent q)" "length (fds (demo_parent q)) = 8"
  "fi_type (fdi (demo_parent q) 5) = fd_type_remote" "fi_id (fdi (demo_parent q) 5) = 1"
  "pending 5 (demo_parent q) = []" "tx (demo_parent q) 5 = []" "page_size (demo_parent q) = 64"
  "configs (bindconf (demo_parent q)) = [demo_bc\<lparr>sendq := q\<rparr>]"
proof -
  have t: "fds (demo_parent q) = fds (demo_send [])" "interest (demo_parent q) = interest (demo_send [])"
    by (simp_all add: demo_parent_def demo_send_def)
  show "net_inv (demo_parent q) [] []"
    using demo_world1_inv by (auto simp: demo_parent_def net_inv_def queues_ok_def table_ok_def used_def)
  show p: "pending 5 (demo_parent q) = []"
    using frame_fds [OF t(1), of 5] demo_send_facts by simp
  have "send_rep 5 (demo_parent q)" using frame_fds [OF t(1), of 5] demo_send_facts by simp
  moreover have "armed 5 (demo_parent q)"
    using p t(2) demo_send_facts [of "[]"] by (simp add: armed_def)
  ultimately show "out_ready 5 (demo_parent q)"
    by (simp add: out_ready_def no_send_error_def)
      (simp add: demo_parent_def demo_world1_def added_def demo_world_def)
  show "length (fds (demo_parent q)) = 8" "fi_type (fdi (demo_parent q) 5) = fd_type_remote"
    "fi_id (fdi (demo_parent q) 5) = 1" "tx (demo_parent q) 5 = []" "page_size (demo_parent q) = 64"
    "configs (bindconf (demo_parent q)) = [demo_bc\<lparr>sendq := q\<rparr>]"
    by (simp_all add: demo_parent_def demo_world1_def added_def demo_world_def next_seq_def new_entry_def zero_fdinfo_def)
qed

theorem reply_reaches_client_witness:
  "\<exists>ww' q wp'. send_pkg_to_client 9 demo_sess [1, 2, 3, 4] demo_worker = Inr (0, ww') \<and>
     drain_sendq 9 demo_dll True 0 (demo_parent q) = Inr wp' \<and> tx wp' 5 @ pending 5 wp' = [1, 2, 3, 4]"
proof -
  have e: "(case send_pkg_to_client 9 demo_sess [1, 2, 3, 4] demo_worker of
      Inr (r, ww') \<Rightarrow> r = 0 \<and> page_size ww' = 64 \<and> cur_bc ww' = 0 \<and>
        \<not> isl (drain_sendq 9 demo_dll True 0 (demo_parent (sendq (configs (bindconf ww') ! 0))))
    | _ \<Rightarrow> False)"
    by code_simp
  obtain r ww' where r: "send_pkg_to_client 9 demo_sess [1, 2, 3, 4] demo_worker = Inr (r, ww')"
    using e by (cases "send_pkg_to_client 9 demo_sess [1, 2, 3, 4] demo_worker") auto
  from e have w: "r = 0" "page_size ww' = 64" "cur_bc ww' = 0"
    "\<not> isl (drain_sendq 9 demo_dll True 0 (demo_parent (sendq (configs (bindconf ww') ! 0))))"
    by (simp_all add: r)
  obtain wp' where d: "drain_sendq 9 demo_dll True 0 (demo_parent (sendq (configs (bindconf ww') ! 0))) = Inr wp'"
    using w(4) by (cases "drain_sendq 9 demo_dll True 0 (demo_parent (sendq (configs (bindconf ww') ! 0)))") auto
  let ?q = "sendq (configs (bindconf ww') ! 0)"
  have "tx wp' 5 @ pending 5 wp' = tx (demo_parent ?q) 5 @ pending 5 (demo_parent ?q) @ [1, 2, 3, 4] \<and> armed 5 wp'"
    by (rule reply_reaches_client [OF demo_worker_sq _ _ _ _ r [unfolded w(1)] _ _ _ demo_parent_facts(1) _ _ _ _ demo_parent_facts(2) _ _ d])
      (simp_all add: demo_parent_facts w(2,3), simp_all add: demo_worker_def small_def demo_sess_def)
  with r w(1) d show ?thesis by (auto simp: demo_parent_facts)
qed

section \<open>From the client to the plugin and back\<close>


text \<open>Six bytes in two segments come back.\<close>

definition demo_echo_worker :: "unit world \<Rightarrow> (u32 \<rightharpoonup> fdsession) world" where
  "demo_echo_worker wp = demo_worker\<lparr>cn := [5 \<mapsto> demo_sess],
     bindconf := \<lparr>bind_num = 1, configs = [demo_bc\<lparr>recvq := recvq (configs (bindconf wp) ! 0)\<rparr>]\<rparr>\<rparr>"

lemma demo_echo_worker_facts:
  "cur_bc (demo_echo_worker wp) = 0" "page_size (demo_echo_worker wp) = 64" "peer (demo_echo_worker wp) = idle"
  "configs (bindconf (demo_echo_worker wp)) = [demo_bc\<lparr>recvq := recvq (configs (bindconf wp) ! 0)\<rparr>]"
  "get_fdsess demo_ght 5 (demo_echo_worker wp) = Some demo_sess" "sq_rep (demo_echo_worker wp) []"
  using demo_worker_sq
  by (simp_all add: demo_echo_worker_def demo_worker_def get_fdsess_def demo_ght_def sq_rep_def)

lemma demo_echo_run:
  "case recv_calls 2 echo_plugin 5 demo_segments of
      Inr (b, wp1) \<Rightarrow> b \<and> rx wp1 5 = [3, 9, 7, 2, 1, 4] \<and>
        (case handle_recv_queue 9 echo_plugin demo_ght (demo_echo_worker wp1) of
           Inr ww' \<Rightarrow> get_fdsess demo_ght 5 ww' \<noteq> None \<and> page_size ww' = 64 \<and> cur_bc ww' = 0 \<and>
             (\<not> isl (drain_sendq 9 echo_plugin True 0 (demo_parent (sendq (configs (bindconf ww') ! 0)))))
         | _ \<Rightarrow> False)
    | _ \<Rightarrow> False"
  by code_simp


end
